(* ===== verification/Kernel_Prelude.thy ===== *)
theory Kernel_Prelude
  imports Main "HOL-Library.Multiset" "HOL-Library.Word"
begin

text \<open>
  Shared vocabulary of the development.

  A kernel routine that can panic returns a value of type \<open>panic + 'a\<close>:
  \<open>Inl p\<close> is a panic and \<open>Inr x\<close> a normal return.  The build modelled is
  the one with debug assertions, in which usize arithmetic that overflows panics; the
  checked operations \<open>uadd\<close>, \<open>usub\<close> and \<open>umul\<close> write that out.  The container
  operations of the standard library that the kernel calls (\<open>Vec::swap_remove\<close>,
  \<open>Iterator::position\<close>, indexing) are defined here together with the facts about
  their multiset of elements that the component theories use.
\<close>

section \<open>Panics and the checked-execution monad\<close>

datatype panic =
    ArithOverflow
  | DivideByZero
  | IndexOutOfBounds
  | UnwrapNone
  | AssertFailed
  | UnreachableCode
  | ExplicitPanic

type_synonym 'a exec = "panic + 'a"

definition exec_bind :: "'a exec \<Rightarrow> ('a \<Rightarrow> 'b exec) \<Rightarrow> 'b exec" where
  "exec_bind m f = (case m of Inl p \<Rightarrow> Inl p | Inr x \<Rightarrow> f x)"

definition panics :: "'a exec \<Rightarrow> bool" where
  "panics m = (case m of Inl _ \<Rightarrow> True | Inr _ \<Rightarrow> False)"

definition assert_that :: "bool \<Rightarrow> unit exec" where
  "assert_that b = (if b then Inr () else Inl AssertFailed)"

definition unwrap :: "'a option \<Rightarrow> 'a exec" where
  "unwrap x = (case x of None \<Rightarrow> Inl UnwrapNone | Some v \<Rightarrow> Inr v)"

text \<open>The facts that evaluate a checked computation, and the case splits for it.\<close>

named_theorems exec_simps "evaluation of panicking computations"
named_theorems exec_dests "inversion of successful computations"

lemma exec_bind_Inl [simp, exec_simps]: "exec_bind (Inl p) f = Inl p"
  by (simp add: exec_bind_def)

lemma exec_bind_Inr [simp, exec_simps]: "exec_bind (Inr x) f = f x"
  by (simp add: exec_bind_def)

lemma exec_bind_cong [fundef_cong]:
  assumes "m = m'" and "\<And>x. m' = Inr x \<Longrightarrow> f x = g x"
  shows "exec_bind m f = exec_bind m' g"
  using assms by (cases m') auto

lemma exec_bind_eq_Inr [exec_dests]:
  "exec_bind m f = Inr y \<longleftrightarrow> (\<exists>x. m = Inr x \<and> f x = Inr y)"
  by (cases m) auto

lemma exec_bind_assoc: "exec_bind (exec_bind m f) g = exec_bind m (\<lambda>x. exec_bind (f x) g)"
  by (cases m) auto

lemma panics_simps [simp, exec_simps]: "panics (Inl p)" "\<not> panics (Inr x)"
  by (simp_all add: panics_def)

lemma not_panics_iff: "\<not> panics m \<longleftrightarrow> (\<exists>x. m = Inr x)"
  by (cases m) auto

lemma assert_that_simps [simp, exec_simps]:
  "assert_that True = Inr ()" "assert_that False = Inl AssertFailed"
  by (simp_all add: assert_that_def)

lemma assert_that_eq_Inr [exec_dests]: "assert_that b = Inr u \<longleftrightarrow> b"
  by (simp add: assert_that_def)

lemma unwrap_simps [simp, exec_simps]: "unwrap None = Inl UnwrapNone" "unwrap (Some v) = Inr v"
  by (simp_all add: unwrap_def)

lemma unwrap_eq_Inr [exec_dests]: "unwrap x = Inr v \<longleftrightarrow> x = Some v"
  by (cases x) auto

section \<open>64-bit unsigned arithmetic with overflow checks\<close>

definition usize_limit :: nat where
  "usize_limit = 2 ^ 64"

definition uadd :: "nat \<Rightarrow> nat \<Rightarrow> nat exec" where
  "uadd a b = (if a + b < usize_limit then Inr (a + b) else Inl ArithOverflow)"

definition usub :: "nat \<Rightarrow> nat \<Rightarrow> nat exec" where
  "usub a b = (if b \<le> a then Inr (a - b) else Inl ArithOverflow)"

definition umul :: "nat \<Rightarrow> nat \<Rightarrow> nat exec" where
  "umul a b = (if a * b < usize_limit then Inr (a * b) else Inl ArithOverflow)"

definition udiv :: "nat \<Rightarrow> nat \<Rightarrow> nat exec" where
  "udiv a b = (if b = 0 then Inl DivideByZero else Inr (a div b))"

definition urem :: "nat \<Rightarrow> nat \<Rightarrow> nat exec" where
  "urem a b = (if b = 0 then Inl DivideByZero else Inr (a mod b))"

lemma udiv_ok [exec_simps]: "b \<noteq> 0 \<Longrightarrow> udiv a b = Inr (a div b)"
  by (simp add: udiv_def)

lemma urem_ok [exec_simps]: "b \<noteq> 0 \<Longrightarrow> urem a b = Inr (a mod b)"
  by (simp add: urem_def)

lemma udiv_eq_Inr [exec_dests]: "udiv a b = Inr c \<longleftrightarrow> b \<noteq> 0 \<and> c = a div b"
  by (auto simp: udiv_def)

lemma urem_eq_Inr [exec_dests]: "urem a b = Inr c \<longleftrightarrow> b \<noteq> 0 \<and> c = a mod b"
  by (auto simp: urem_def)

lemma uadd_ok [exec_simps]: "a + b < usize_limit \<Longrightarrow> uadd a b = Inr (a + b)"
  by (simp add: uadd_def)

lemma usub_ok [exec_simps]: "b \<le> a \<Longrightarrow> usub a b = Inr (a - b)"
  by (simp add: usub_def)

lemma umul_ok [exec_simps]: "a * b < usize_limit \<Longrightarrow> umul a b = Inr (a * b)"
  by (simp add: umul_def)

lemma uadd_eq_Inr [exec_dests]: "uadd a b = Inr c \<longleftrightarrow> c = a + b \<and> a + b < usize_limit"
  by (auto simp: uadd_def)

lemma usub_eq_Inr [exec_dests]: "usub a b = Inr c \<longleftrightarrow> b \<le> a \<and> c = a - b"
  by (auto simp: usub_def)

lemma umul_eq_Inr [exec_dests]: "umul a b = Inr c \<longleftrightarrow> c = a * b \<and> a * b < usize_limit"
  by (auto simp: umul_def)

section \<open>Indexing and the vector operations of the standard library\<close>

definition vec_get :: "'a list \<Rightarrow> nat \<Rightarrow> 'a exec" where
  "vec_get xs i = (if i < length xs then Inr (xs ! i) else Inl IndexOutOfBounds)"

definition vec_set :: "'a list \<Rightarrow> nat \<Rightarrow> 'a \<Rightarrow> 'a list exec" where
  "vec_set xs i v = (if i < length xs then Inr (xs[i := v]) else Inl IndexOutOfBounds)"

primrec position :: "('a \<Rightarrow> bool) \<Rightarrow> 'a list \<Rightarrow> nat option" where
  "position P [] = None"
| "position P (x # xs) = (if P x then Some 0 else map_option Suc (position P xs))"

definition swap_remove :: "nat \<Rightarrow> 'a list \<Rightarrow> 'a list exec" where
  "swap_remove i xs = (if i < length xs then Inr (butlast (xs[i := last xs])) else Inl IndexOutOfBounds)"

lemma vec_get_ok [exec_simps]: "i < length xs \<Longrightarrow> vec_get xs i = Inr (xs ! i)"
  by (simp add: vec_get_def)

lemma vec_set_ok [exec_simps]: "i < length xs \<Longrightarrow> vec_set xs i v = Inr (xs[i := v])"
  by (simp add: vec_set_def)

lemma vec_get_eq_Inr [exec_dests]: "vec_get xs i = Inr v \<longleftrightarrow> i < length xs \<and> v = xs ! i"
  by (auto simp: vec_get_def)

lemma vec_set_eq_Inr [exec_dests]: "vec_set xs i v = Inr ys \<longleftrightarrow> i < length xs \<and> ys = xs[i := v]"
  by (auto simp: vec_set_def)

lemma position_eq_None [simp]: "position P xs = None \<longleftrightarrow> (\<forall>x\<in>set xs. \<not> P x)"
  by (induction xs) auto

lemma position_SomeD:
  "position P xs = Some i \<Longrightarrow> i < length xs \<and> P (xs ! i) \<and> (\<forall>j<i. \<not> P (xs ! j))"
proof (induction xs arbitrary: i)
  case (Cons x xs)
  then show ?case
    by (cases i) (auto simp: nth_Cons split: if_splits nat.splits)
qed simp

lemma position_ex: "\<exists>x\<in>set xs. P x \<Longrightarrow> \<exists>i. position P xs = Some i"
  by (metis not_Some_eq position_eq_None)

lemma position_eq_ex: "y \<in> set xs \<Longrightarrow> \<exists>i. position (\<lambda>x. x = y) xs = Some i \<and> i < length xs \<and> xs ! i = y"
  using position_ex[of xs "\<lambda>x. x = y"] position_SomeD[of "\<lambda>x. x = y" xs] by auto

lemma position_eq_memD: "position (\<lambda>x. x = y) xs = Some i \<Longrightarrow> y \<in> set xs"
  using position_SomeD[of "\<lambda>x. x = y" xs i] by auto

lemma position_unique:
  assumes "i < length xs" and "P (xs ! i)" and "\<And>j. j < i \<Longrightarrow> \<not> P (xs ! j)"
  shows "position P xs = Some i"
proof -
  have "\<exists>x\<in>set xs. P x" using assms(1,2) nth_mem by blast
  then obtain k where k: "position P xs = Some k" using position_ex[of xs P] by blast
  have "P (xs ! k)" "\<forall>j<k. \<not> P (xs ! j)"
    using position_SomeD[OF k] by auto
  then have "\<not> i < k" "\<not> k < i" using assms(2,3) by auto
  with k show ?thesis by simp
qed

lemma mset_butlast_update:
  assumes "i < length xs"
  shows "mset (butlast (xs[i := last xs])) = mset xs - {#xs ! i#}"
proof -
  from assms have ne: "xs \<noteq> []" by auto
  have "add_mset (last (xs[i := last xs])) (mset (butlast (xs[i := last xs]))) = mset (xs[i := last xs])"
    using ne by (metis append_butlast_last_id list_update_nonempty mset.simps(2) mset_append
        add_mset_add_single mset.simps(1) union_mset_add_mset_right)
  moreover have "last (xs[i := last xs]) = last xs"
    using ne assms by (simp add: last_list_update)
  moreover have "mset (xs[i := last xs]) = add_mset (last xs) (mset xs - {#xs ! i#})"
    using assms by (simp add: mset_update)
  ultimately show ?thesis by (metis add_mset_add_single add_right_imp_eq)
qed

lemma swap_remove_ok [exec_simps]:
  "i < length xs \<Longrightarrow> swap_remove i xs = Inr (butlast (xs[i := last xs]))"
  by (simp add: swap_remove_def)

lemma swap_remove_mset:
  "swap_remove i xs = Inr ys \<Longrightarrow> mset ys = mset xs - {#xs ! i#} \<and> i < length xs"
  by (auto simp: swap_remove_def mset_butlast_update split: if_splits)

lemma swap_remove_total: "i < length xs \<Longrightarrow> \<exists>ys. swap_remove i xs = Inr ys"
  by (simp add: swap_remove_ok)

lemma swap_remove_nth_less:
  "swap_remove i xs = Inr ys \<Longrightarrow> j < i \<Longrightarrow> j < length ys \<and> ys ! j = xs ! j"
  by (auto simp: swap_remove_def nth_butlast split: if_splits)

section \<open>Multisets kept in a list of lists\<close>

lemma mset_concat_update:
  assumes "k < length xss"
  shows "mset (concat (xss[k := ys])) + mset (xss ! k) = mset (concat xss) + mset ys"
  using assms
proof (induction xss arbitrary: k)
  case (Cons a xss)
  then show ?case by (cases k) (auto simp: union_ac)
qed simp

lemma sum_list_update_nat:
  fixes xs :: "nat list"
  assumes "k < length xs"
  shows "sum_list (xs[k := v]) + xs ! k = sum_list xs + v"
  using assms
proof (induction xs arbitrary: k)
  case (Cons a xs)
  then show ?case by (cases k) auto
qed simp

lemma sum_list_map_update:
  fixes f :: "'a \<Rightarrow> 'b :: comm_monoid_add"
  assumes "k < length xs"
  shows "sum_list (map f (xs[k := y])) + f (xs ! k) = sum_list (map f xs) + f y"
  using assms
proof (induction xs arbitrary: k)
  case (Cons a xs)
  then show ?case by (cases k) (auto simp: ac_simps)
qed simp

end
