(* ===== verification/Page_Values.thy ===== *)
theory Page_Values
  imports Kernel_Prelude
begin

text \<open>
  The page-aligned number types of \<open>memory/paging/api.rs\<close>: non-zero sizes, signed
  offsets and addresses, each a newtype around one machine integer.  The trait
  \<open>PageAlignedValue\<close> they implement is the locale \<open>page_aligned_value\<close>; the three
  interpretations at the end discharge its laws for the three types, and the round-trip
  and rounding facts proved once in the locale are used through them.
\<close>

section \<open>The constant and the newtypes\<close>

definition PAGE_ALIGN :: nat where
  "PAGE_ALIGN = 4096"

datatype PageAllocationSizeT = PageAllocationSizeT (raw_size: nat)

datatype PageAlignedOffsetT = PageAlignedOffsetT (raw_offset: int)

datatype PageAlignedAddressT = PageAlignedAddressT (raw_address: nat)

section \<open>\<open>PageAllocationSizeT\<close>\<close>

definition size_new :: "nat \<Rightarrow> PageAllocationSizeT exec" where
  "size_new x =
     exec_bind (assert_that (x \<noteq> 0)) (\<lambda>_.
     exec_bind (assert_that (x mod PAGE_ALIGN = 0)) (\<lambda>_.
     Inr (PageAllocationSizeT x)))"

definition size_get :: "PageAllocationSizeT \<Rightarrow> nat exec" where
  "size_get v = (let x = raw_size v in
     exec_bind (assert_that (x mod PAGE_ALIGN = 0)) (\<lambda>_.
     exec_bind (assert_that (x \<noteq> 0)) (\<lambda>_.
     Inr x)))"

definition size_new_checked :: "nat \<Rightarrow> PageAllocationSizeT option exec" where
  "size_new_checked x =
     (if x = 0 then Inr None
      else if x mod PAGE_ALIGN = 0 then exec_bind (size_new x) (\<lambda>v. Inr (Some v))
      else Inr None)"

definition size_new_rounded_with_excess :: "nat \<Rightarrow> (PageAllocationSizeT \<times> nat) exec" where
  "size_new_rounded_with_excess x =
     (if x = 0 then Inr (PageAllocationSizeT PAGE_ALIGN, PAGE_ALIGN)
      else if x mod PAGE_ALIGN = 0 then exec_bind (size_new x) (\<lambda>v. Inr (v, 0))
      else (let excess = PAGE_ALIGN - x mod PAGE_ALIGN in
        exec_bind (uadd x excess) (\<lambda>y.
        exec_bind (size_new y) (\<lambda>v. Inr (v, excess)))))"

section \<open>\<open>PageAlignedOffsetT\<close>\<close>

definition isize_ok :: "int \<Rightarrow> bool" where
  "isize_ok x \<longleftrightarrow> - (2 ^ 63) \<le> x \<and> x < 2 ^ 63"

definition isize_chk :: "int \<Rightarrow> int exec" where
  "isize_chk x = (if isize_ok x then Inr x else Inl ArithOverflow)"

definition offset_new :: "int \<Rightarrow> PageAlignedOffsetT exec" where
  "offset_new x =
     exec_bind (assert_that (x mod int PAGE_ALIGN = 0)) (\<lambda>_. Inr (PageAlignedOffsetT x))"

definition offset_get :: "PageAlignedOffsetT \<Rightarrow> int exec" where
  "offset_get v = (let x = raw_offset v in
     exec_bind (assert_that (x mod int PAGE_ALIGN = 0)) (\<lambda>_. Inr x))"

definition offset_new_checked :: "int \<Rightarrow> PageAlignedOffsetT option exec" where
  "offset_new_checked x =
     (if x mod int PAGE_ALIGN = 0 then exec_bind (offset_new x) (\<lambda>v. Inr (Some v)) else Inr None)"

definition offset_new_rounded_with_excess :: "int \<Rightarrow> (PageAlignedOffsetT \<times> nat) exec" where
  "offset_new_rounded_with_excess x =
     (if x mod int PAGE_ALIGN = 0 then exec_bind (offset_new x) (\<lambda>v. Inr (v, 0))
      else (let excess = x mod int PAGE_ALIGN in
        exec_bind (isize_chk (x - excess)) (\<lambda>y.
        exec_bind (offset_new y) (\<lambda>v. Inr (v, nat excess)))))"

definition offset_add :: "PageAlignedOffsetT \<Rightarrow> PageAlignedOffsetT \<Rightarrow> PageAlignedOffsetT exec" where
  "offset_add a b = exec_bind (isize_chk (raw_offset a + raw_offset b)) offset_new"

definition offset_sub :: "PageAlignedOffsetT \<Rightarrow> PageAlignedOffsetT \<Rightarrow> PageAlignedOffsetT exec" where
  "offset_sub a b = exec_bind (isize_chk (raw_offset a - raw_offset b)) offset_new"

section \<open>\<open>PageAlignedAddressT\<close>\<close>

definition address_new :: "nat \<Rightarrow> PageAlignedAddressT exec" where
  "address_new x =
     exec_bind (assert_that (x mod PAGE_ALIGN = 0)) (\<lambda>_. Inr (PageAlignedAddressT x))"

definition address_get :: "PageAlignedAddressT \<Rightarrow> nat exec" where
  "address_get v = (let x = raw_address v in
     exec_bind (assert_that (x mod PAGE_ALIGN = 0)) (\<lambda>_. Inr x))"

definition address_new_checked :: "nat \<Rightarrow> PageAlignedAddressT option exec" where
  "address_new_checked x =
     (if x mod PAGE_ALIGN = 0 then exec_bind (address_new x) (\<lambda>v. Inr (Some v)) else Inr None)"

definition address_new_rounded_with_excess :: "nat \<Rightarrow> (PageAlignedAddressT \<times> nat) exec" where
  "address_new_rounded_with_excess x =
     (if x mod PAGE_ALIGN = 0 then exec_bind (address_new x) (\<lambda>v. Inr (v, 0))
      else (let excess = x mod PAGE_ALIGN in
        exec_bind (usub x excess) (\<lambda>y.
        exec_bind (address_new y) (\<lambda>v. Inr (v, excess)))))"

section \<open>The trait as an interface\<close>

text \<open>
  \<open>valid\<close> is the set of integers the type admits and \<open>shift x e\<close> the integer that
  rounding \<open>x\<close> by an excess of \<open>e\<close> produces (up for sizes, down for the other two).
\<close>

locale page_aligned_value =
  fixes valid :: "'w \<Rightarrow> bool"
    and new :: "'w \<Rightarrow> 't exec"
    and new_checked :: "'w \<Rightarrow> 't option exec"
    and new_rounded_with_excess :: "'w \<Rightarrow> ('t \<times> nat) exec"
    and get :: "'t \<Rightarrow> 'w exec"
    and shift :: "'w \<Rightarrow> nat \<Rightarrow> 'w"
  assumes new_valid: "valid x \<Longrightarrow> \<exists>v. new x = Inr v \<and> get v = Inr x"
    and new_invalid: "\<not> valid x \<Longrightarrow> new x = Inl AssertFailed"
    and get_new: "get v = Inr x \<Longrightarrow> new x = Inr v"
    and checked_valid: "valid x \<Longrightarrow> new_checked x = exec_bind (new x) (\<lambda>v. Inr (Some v))"
    and checked_invalid: "\<not> valid x \<Longrightarrow> new_checked x = Inr None"
    and rounded_valid: "valid x \<Longrightarrow> new_rounded_with_excess x = exec_bind (new x) (\<lambda>v. Inr (v, 0))"
    and rounded_get: "new_rounded_with_excess x = Inr (v, e) \<Longrightarrow> get v = Inr (shift x e)"
begin

lemma get_valid: "get v = Inr x \<Longrightarrow> valid x"
  using get_new new_invalid by (metis Inl_Inr_False)

lemma checked_Some_iff: "new_checked x = Inr (Some v) \<longleftrightarrow> get v = Inr x"
proof
  assume "new_checked x = Inr (Some v)"
  then have "new x = Inr v"
    using checked_valid checked_invalid by (cases "valid x") (auto simp: exec_bind_eq_Inr)
  then show "get v = Inr x" using new_valid new_invalid by (cases "valid x") force+
next
  assume "get v = Inr x"
  then show "new_checked x = Inr (Some v)"
    using get_new get_valid checked_valid by simp
qed

lemma checked_never_panics: "\<not> panics (new_checked x)"
  using checked_valid checked_invalid new_valid by (cases "valid x") fastforce+

lemma rounded_is_valid: "new_rounded_with_excess x = Inr (v, e) \<Longrightarrow> valid (shift x e)"
  using rounded_get get_valid by blast

lemma rounded_of_valid: "valid x \<Longrightarrow> new_rounded_with_excess x = Inr (v, e) \<Longrightarrow> e = 0 \<and> get v = Inr x"
  using rounded_valid new_valid by fastforce

lemma get_injective: "get v = Inr x \<Longrightarrow> get w = Inr x \<Longrightarrow> v = w"
  by (drule get_new, drule get_new) simp

end

lemma PAGE_ALIGN_pos [simp]: "0 < PAGE_ALIGN"
  by (simp add: PAGE_ALIGN_def)

lemma round_up_mod:
  fixes x m :: nat
  assumes "0 < m" and "x mod m \<noteq> 0"
  shows "(x + (m - x mod m)) mod m = 0"
proof -
  have "x + (m - x mod m) = x div m * m + m"
    using assms by (metis add.assoc add_diff_inverse_nat div_mult_mod_eq mod_less_divisor not_less_iff_gr_or_eq)
  then show ?thesis by simp
qed

definition size_valid :: "nat \<Rightarrow> bool" where
  "size_valid x \<longleftrightarrow> x \<noteq> 0 \<and> x mod PAGE_ALIGN = 0"

definition offset_valid :: "int \<Rightarrow> bool" where
  "offset_valid x \<longleftrightarrow> x mod int PAGE_ALIGN = 0"

definition address_valid :: "nat \<Rightarrow> bool" where
  "address_valid x \<longleftrightarrow> x mod PAGE_ALIGN = 0"

interpretation sizes: page_aligned_value size_valid size_new size_new_checked
  size_new_rounded_with_excess size_get "(+)"
proof unfold_locales
  fix x v e assume "size_new_rounded_with_excess x = Inr (v, e)"
  then show "size_get v = Inr (x + e)"
    by (auto simp: size_new_rounded_with_excess_def size_get_def size_new_def Let_def round_up_mod
        exec_dests split: if_splits)
next
  fix v x assume "size_get v = Inr x"
  then show "size_new x = Inr v"
    by (cases v) (auto simp: size_get_def size_new_def Let_def exec_dests)
qed (auto simp: size_valid_def size_new_def size_get_def size_new_checked_def
    size_new_rounded_with_excess_def assert_that_def)

interpretation offsets: page_aligned_value offset_valid offset_new offset_new_checked
  offset_new_rounded_with_excess offset_get "\<lambda>x e. x - int e"
proof unfold_locales
  fix x v e assume "offset_new_rounded_with_excess x = Inr (v, e)"
  then show "offset_get v = Inr (x - int e)"
    by (auto simp: offset_new_rounded_with_excess_def offset_get_def offset_new_def Let_def isize_chk_def
        exec_dests mod_diff_right_eq split: if_splits)
next
  fix v x assume "offset_get v = Inr x"
  then show "offset_new x = Inr v"
    by (cases v) (auto simp: offset_get_def offset_new_def Let_def exec_dests)
qed (auto simp: offset_valid_def offset_new_def offset_get_def offset_new_checked_def
    offset_new_rounded_with_excess_def)

interpretation addresses: page_aligned_value address_valid address_new address_new_checked
  address_new_rounded_with_excess address_get "(-)"
proof unfold_locales
  fix x v e assume "address_new_rounded_with_excess x = Inr (v, e)"
  then show "address_get v = Inr (x - e)"
    by (auto simp: address_new_rounded_with_excess_def address_get_def address_new_def Let_def
        exec_dests split: if_splits)
next
  fix v x assume "address_get v = Inr x"
  then show "address_new x = Inr v"
    by (cases v) (auto simp: address_get_def address_new_def Let_def exec_dests)
qed (auto simp: address_valid_def address_new_def address_get_def address_new_checked_def
    address_new_rounded_with_excess_def)

lemma size_get_of_valid [simp]: "size_valid x \<Longrightarrow> size_get (PageAllocationSizeT x) = Inr x"
  by (simp add: size_valid_def size_get_def Let_def)

lemma size_new_of_valid [simp]: "size_valid x \<Longrightarrow> size_new x = Inr (PageAllocationSizeT x)"
  by (simp add: size_valid_def size_new_def)

lemma size_new_rounded_total:
  assumes "x + PAGE_ALIGN \<le> usize_limit"
  shows "\<exists>v e. size_new_rounded_with_excess x = Inr (v, e) \<and> e \<le> PAGE_ALIGN
           \<and> (0 < x \<longrightarrow> e < PAGE_ALIGN)"
proof (cases "x mod PAGE_ALIGN = 0")
  case True
  then show ?thesis
    by (auto simp: size_new_rounded_with_excess_def size_valid_def)
next
  case False
  define e where "e = PAGE_ALIGN - x mod PAGE_ALIGN"
  have e: "0 < e" "e < PAGE_ALIGN"
    using False by (simp_all add: e_def)
  have "size_valid (x + e)"
    using round_up_mod[OF PAGE_ALIGN_pos False, folded e_def] e by (simp add: size_valid_def)
  moreover have "x + e < usize_limit" using assms e by linarith
  ultimately have "size_new_rounded_with_excess x = Inr (PageAllocationSizeT (x + e), e)"
    using False by (auto simp: size_new_rounded_with_excess_def e_def[symmetric] uadd_ok)
  with e show ?thesis by auto
qed

lemma multiple_gap:
  fixes a b m :: int
  assumes "0 < m" and "a mod m = 0" and "b mod m = 0" and "a < b + m"
  shows "a \<le> b"
proof -
  obtain p q where "a = m * p" "b = m * q"
    using assms by (auto simp: mod_eq_0_iff_dvd elim!: dvdE)
  with assms have "m * p < m * (q + 1)" by (simp add: algebra_simps)
  with assms(1) have "p < q + 1" by simp
  with \<open>a = m * p\<close> \<open>b = m * q\<close> assms(1) show ?thesis by simp
qed

lemma nat_multiple_gap:
  fixes a b m :: nat
  assumes "0 < m" and "a mod m = 0" and "b mod m = 0" and "a < b + m"
  shows "a \<le> b"
  using multiple_gap[of "int m" "int a" "int b"] assms by (simp flip: zmod_int)

lemma size_rounded_excess:
  assumes "size_new_rounded_with_excess x = Inr (v, e)"
  shows "x + e < max x 1 + PAGE_ALIGN"
  using assms by (auto simp: size_new_rounded_with_excess_def Let_def exec_dests split: if_splits)

lemma size_rounded_least:
  assumes "size_new_rounded_with_excess x = Inr (v, e)" and "size_valid z" and "x \<le> z"
  shows "x + e \<le> z"
proof (rule nat_multiple_gap[OF PAGE_ALIGN_pos])
  show "(x + e) mod PAGE_ALIGN = 0" and "z mod PAGE_ALIGN = 0"
    using sizes.rounded_is_valid[OF assms(1)] assms(2) by (simp_all add: size_valid_def)
  show "x + e < z + PAGE_ALIGN"
    using size_rounded_excess[OF assms(1)] assms(2,3) by (auto simp: size_valid_def max_def split: if_splits)
qed

lemma usize_limit_aligned: "usize_limit mod PAGE_ALIGN = 0" and PAGE_ALIGN_le: "PAGE_ALIGN \<le> usize_limit"
  by (simp_all add: usize_limit_def PAGE_ALIGN_def)

lemma size_rounding_panics_iff:
  assumes "x < usize_limit"
  shows "panics (size_new_rounded_with_excess x) \<longleftrightarrow> usize_limit - PAGE_ALIGN < x"
proof (cases "x + PAGE_ALIGN \<le> usize_limit")
  case True
  then show ?thesis using size_new_rounded_total[OF True] by auto
next
  case False
  have "x mod PAGE_ALIGN \<noteq> 0"
    using nat_multiple_gap[OF PAGE_ALIGN_pos usize_limit_aligned, of x] assms False by auto
  moreover from this have "\<not> x + (PAGE_ALIGN - x mod PAGE_ALIGN) < usize_limit"
    using nat_multiple_gap[OF PAGE_ALIGN_pos usize_limit_aligned
        round_up_mod[OF PAGE_ALIGN_pos], of x] False mod_less_divisor[OF PAGE_ALIGN_pos, of x]
    by (simp del: mod_less_divisor) linarith
  moreover have "x \<noteq> 0" using False PAGE_ALIGN_le by auto
  ultimately show ?thesis
    using False by (auto simp: size_new_rounded_with_excess_def Let_def uadd_def)
qed

lemma address_rounded_total:
  "\<exists>v. address_new_rounded_with_excess x = Inr (v, x mod PAGE_ALIGN)"
  by (auto simp: address_new_rounded_with_excess_def address_new_def Let_def usub_def)

lemma offset_rounded_total:
  assumes "isize_ok y"
  shows "\<exists>v. offset_new_rounded_with_excess y = Inr (v, nat (y mod int PAGE_ALIGN))"
proof -
  have "- (2 ^ 63) \<le> y - y mod int PAGE_ALIGN"
    using assms by (intro multiple_gap[of "int PAGE_ALIGN"])
      (auto simp: isize_ok_def PAGE_ALIGN_def mod_diff_right_eq intro: order.strict_trans1)
  moreover have "0 \<le> y mod int PAGE_ALIGN" by simp
  ultimately have "isize_ok (y - y mod int PAGE_ALIGN)"
    using assms unfolding isize_ok_def by linarith
  then show ?thesis
    by (auto simp: offset_new_rounded_with_excess_def offset_new_def Let_def isize_chk_def
        mod_diff_right_eq)
qed

lemma address_rounded_greatest:
  assumes "address_valid z" and "z \<le> x"
  shows "z \<le> x - x mod PAGE_ALIGN"
  using assms nat_multiple_gap[OF PAGE_ALIGN_pos, of z "x - x mod PAGE_ALIGN"]
  by (simp add: address_valid_def minus_mod_eq_mult_div) (metis add.commute div_le_mono div_mult_mod_eq
      mod_0 mod_eq_0_iff_dvd dvd_mult_div_cancel mult_le_mono2)

lemma offset_rounded_greatest:
  assumes "offset_valid z" and "z \<le> y"
  shows "z \<le> y - y mod int PAGE_ALIGN"
proof (rule multiple_gap[of "int PAGE_ALIGN"])
  have "y mod int PAGE_ALIGN < int PAGE_ALIGN" by simp
  then show "z < y - y mod int PAGE_ALIGN + int PAGE_ALIGN" using assms by linarith
qed (use assms in \<open>auto simp: offset_valid_def mod_diff_right_eq\<close>)

text \<open>C32: the bounds of rounding, for every \<open>usize\<close> and \<open>isize\<close>.  A size is rounded up to the
  least admissible size, and panics for overflow exactly above the last page boundary below
  \<open>2 ^ 64\<close>; an address and an offset are rounded down to the greatest admissible value and
  never panic, an offset not even at \<open>isize::MIN\<close>.\<close>

theorem page_rounding_bounds:
  assumes "x < usize_limit" and "isize_ok y"
  shows "(panics (size_new_rounded_with_excess x) \<longleftrightarrow> usize_limit - PAGE_ALIGN < x)
    \<and> (\<forall>v e. size_new_rounded_with_excess x = Inr (v, e) \<longrightarrow>
           size_get v = Inr (x + e) \<and> size_valid (x + e)
           \<and> (\<forall>z. size_valid z \<longrightarrow> x \<le> z \<longrightarrow> x + e \<le> z))
    \<and> (\<exists>a. address_new_rounded_with_excess x = Inr (a, x mod PAGE_ALIGN)
           \<and> address_get a = Inr (x - x mod PAGE_ALIGN)
           \<and> (\<forall>z. address_valid z \<longrightarrow> z \<le> x \<longrightarrow> z \<le> x - x mod PAGE_ALIGN))
    \<and> (\<exists>d. offset_new_rounded_with_excess y = Inr (d, nat (y mod int PAGE_ALIGN))
           \<and> offset_get d = Inr (y - y mod int PAGE_ALIGN)
           \<and> (\<forall>z. offset_valid z \<longrightarrow> z \<le> y \<longrightarrow> z \<le> y - y mod int PAGE_ALIGN))"
proof (intro conjI)
  show "panics (size_new_rounded_with_excess x) \<longleftrightarrow> usize_limit - PAGE_ALIGN < x"
    using size_rounding_panics_iff[OF assms(1)] .
  show "\<forall>v e. size_new_rounded_with_excess x = Inr (v, e) \<longrightarrow>
           size_get v = Inr (x + e) \<and> size_valid (x + e)
           \<and> (\<forall>z. size_valid z \<longrightarrow> x \<le> z \<longrightarrow> x + e \<le> z)"
    using sizes.rounded_get sizes.rounded_is_valid size_rounded_least by blast
  show "\<exists>a. address_new_rounded_with_excess x = Inr (a, x mod PAGE_ALIGN)
           \<and> address_get a = Inr (x - x mod PAGE_ALIGN)
           \<and> (\<forall>z. address_valid z \<longrightarrow> z \<le> x \<longrightarrow> z \<le> x - x mod PAGE_ALIGN)"
    using address_rounded_total[of x] addresses.rounded_get address_rounded_greatest by blast
  show "\<exists>d. offset_new_rounded_with_excess y = Inr (d, nat (y mod int PAGE_ALIGN))
           \<and> offset_get d = Inr (y - y mod int PAGE_ALIGN)
           \<and> (\<forall>z. offset_valid z \<longrightarrow> z \<le> y \<longrightarrow> z \<le> y - y mod int PAGE_ALIGN)"
    using offset_rounded_total[OF assms(2)] offsets.rounded_get[of y] offset_rounded_greatest[of _ y]
    by fastforce
qed

theorem page_rounding_bounds_witness:
  "panics (size_new_rounded_with_excess (usize_limit - 1))
   \<and> (\<exists>d. offset_new_rounded_with_excess (- 1) = Inr (d, 4095) \<and> offset_get d = Inr (- 4096))"
  using page_rounding_bounds[of "usize_limit - 1" "- 1"]
  by (auto simp: usize_limit_def PAGE_ALIGN_def isize_ok_def)

lemma offset_arith:
  assumes "offset_get d = Inr y" and "offset_get d' = Inr y'"
  shows "exec_bind (offset_add d d') offset_get = isize_chk (y + y')
    \<and> exec_bind (offset_sub d d') offset_get = isize_chk (y - y')"
  using assms by (cases d; cases d')
    (auto simp: offset_add_def offset_sub_def offset_get_def offset_new_def isize_chk_def Let_def
      exec_dests mod_add_eq[symmetric] mod_diff_eq[symmetric])

text \<open>C31: the newtypes keep their invariant.  Whatever constructs a size, an offset or an address
  yields a value whose \<open>get\<close> succeeds and is page-aligned (and for a size not zero): \<open>new\<close>
  panics on every other integer, \<open>new_checked\<close> answers None there and never panics, and the sum
  and difference of two offsets is an offset again or overflows.  No two values of a type
  have the same integer.\<close>

theorem page_values_typed:
  "((\<exists>v. size_new x = Inr v) \<longleftrightarrow> size_valid x)
   \<and> ((\<exists>v. offset_new y = Inr v) \<longleftrightarrow> offset_valid y)
   \<and> ((\<exists>v. address_new x = Inr v) \<longleftrightarrow> address_valid x)
   \<and> (size_new_checked x = Inr (Some s) \<longleftrightarrow> size_get s = Inr x)
   \<and> (offset_new_checked y = Inr (Some d) \<longleftrightarrow> offset_get d = Inr y)
   \<and> (address_new_checked x = Inr (Some a) \<longleftrightarrow> address_get a = Inr x)
   \<and> \<not> panics (size_new_checked x) \<and> \<not> panics (offset_new_checked y) \<and> \<not> panics (address_new_checked x)
   \<and> (\<forall>d' y'. offset_get d = Inr y \<longrightarrow> offset_get d' = Inr y' \<longrightarrow>
        exec_bind (offset_add d d') offset_get = isize_chk (y + y')
        \<and> exec_bind (offset_sub d d') offset_get = isize_chk (y - y'))
   \<and> (\<forall>s'. size_get s = Inr x \<longrightarrow> size_get s' = Inr x \<longrightarrow> s = s')
   \<and> (\<forall>d'. offset_get d = Inr y \<longrightarrow> offset_get d' = Inr y \<longrightarrow> d = d')
   \<and> (\<forall>a'. address_get a = Inr x \<longrightarrow> address_get a' = Inr x \<longrightarrow> a = a')"
proof -
  have "(\<exists>v. size_new x = Inr v) \<longleftrightarrow> size_valid x"
    "(\<exists>v. offset_new y = Inr v) \<longleftrightarrow> offset_valid y"
    "(\<exists>v. address_new x = Inr v) \<longleftrightarrow> address_valid x"
    using sizes.new_valid sizes.new_invalid offsets.new_valid offsets.new_invalid
      addresses.new_valid addresses.new_invalid by (metis Inl_Inr_False)+
  then show ?thesis
    using offset_arith sizes.get_injective offsets.get_injective addresses.get_injective
    by (simp add: sizes.checked_Some_iff offsets.checked_Some_iff addresses.checked_Some_iff
        sizes.checked_never_panics offsets.checked_never_panics addresses.checked_never_panics)
qed

theorem page_values_typed_witness:
  "exec_bind (offset_add (PageAlignedOffsetT (- 4096)) (PageAlignedOffsetT 12288)) offset_get = Inr 8192"
  using page_values_typed[where d = "PageAlignedOffsetT (- 4096)" and y = "- 4096"]
  by (simp add: offset_get_def PAGE_ALIGN_def isize_chk_def isize_ok_def)

end
