(* ===== verification/Buddy_Allocator.thy ===== *)
theory Buddy_Allocator
  imports Page_Values
begin

text \<open>
  The physical memory allocator of \<open>memory/physical.rs\<close>: a buddy allocator over
  power-of-two blocks, one free list per order, and two running totals.

  The model is instantiated at \<open>PFrameAllocator\<close>, the only instance in the kernel
  (27 orders, smallest block 4096 bytes).  The specification views a free list or a
  live allocation as a multiset of blocks \<open>(order, address)\<close>; \<open>cover M x\<close> counts the
  blocks of \<open>M\<close> that contain the byte \<open>x\<close>.  An operation neither loses nor
  duplicates memory exactly when it leaves the cover of the free blocks plus the live
  blocks unchanged at every byte.
\<close>

section \<open>Model\<close>

definition MAX_ORDER :: nat where
  "MAX_ORDER = 27"

record buddy =
  free_blocks :: "nat list list"
  amount_free :: nat
  amount_allocated :: nat

definition empty_buddy :: buddy where
  "empty_buddy = \<lparr>free_blocks = replicate MAX_ORDER [], amount_free = 0, amount_allocated = 0\<rparr>"

definition block_size :: "nat \<Rightarrow> nat exec" where
  "block_size order = exec_bind (assert_that (order \<le> MAX_ORDER)) (\<lambda>_. Inr (PAGE_ALIGN * 2 ^ order))"

definition buddies :: "nat \<Rightarrow> nat \<Rightarrow> (nat \<times> nat) exec" where
  "buddies order addr =
     exec_bind (block_size order) (\<lambda>bs.
       let parent_size = bs * 2;
           low_addr = addr div parent_size * parent_size
       in exec_bind (uadd low_addr bs) (\<lambda>high_addr. Inr (low_addr, high_addr)))"

definition push_block :: "nat \<Rightarrow> nat \<Rightarrow> buddy \<Rightarrow> buddy exec" where
  "push_block order addr self =
     exec_bind (vec_get (free_blocks self) order) (\<lambda>bl.
     exec_bind (vec_set (free_blocks self) order (bl @ [addr])) (\<lambda>fb.
     Inr (self\<lparr>free_blocks := fb\<rparr>)))"

definition take_block :: "nat \<Rightarrow> nat \<Rightarrow> buddy \<Rightarrow> buddy exec" where
  "take_block order addr self =
     exec_bind (vec_get (free_blocks self) order) (\<lambda>bl.
     exec_bind (unwrap (position (\<lambda>x. x = addr) bl)) (\<lambda>i.
     exec_bind (swap_remove i bl) (\<lambda>bl'.
     exec_bind (vec_set (free_blocks self) order bl') (\<lambda>fb.
     Inr (self\<lparr>free_blocks := fb\<rparr>)))))"

definition split :: "buddy \<Rightarrow> nat \<Rightarrow> nat \<Rightarrow> (buddy \<times> (nat \<times> nat)) exec" where
  "split self order addr =
     (if order = 0 then Inl UnwrapNone
      else let to_order = order - 1 in
        exec_bind (buddies to_order addr) (\<lambda>(lo, hi).
        exec_bind (take_block order addr self) (\<lambda>self.
        exec_bind (push_block to_order lo self) (\<lambda>self.
        exec_bind (push_block to_order hi self) (\<lambda>self.
        Inr (self, (lo, hi)))))))"

definition merge :: "buddy \<Rightarrow> nat \<Rightarrow> nat \<Rightarrow> (buddy \<times> nat option) exec" where
  "merge self order addr =
     (let to_order = order + 1 in
      if to_order > MAX_ORDER then Inr (self, None)
      else exec_bind (buddies order addr) (\<lambda>(low_addr, high_addr).
        exec_bind (vec_get (free_blocks self) order) (\<lambda>bl.
        case position (\<lambda>x. x = low_addr) bl of
          None \<Rightarrow> Inr (self, None)
        | Some low_idx \<Rightarrow> (case position (\<lambda>x. x = high_addr) bl of
            None \<Rightarrow> Inr (self, None)
          | Some high_idx \<Rightarrow>
              exec_bind (swap_remove (max low_idx high_idx) bl) (\<lambda>bl.
              exec_bind (swap_remove (min low_idx high_idx) bl) (\<lambda>bl.
              exec_bind (vec_set (free_blocks self) order bl) (\<lambda>fb.
              exec_bind (push_block to_order low_addr (self\<lparr>free_blocks := fb\<rparr>)) (\<lambda>self.
              Inr (self, Some low_addr)))))))))"

text \<open>
  \<open>add_memory_loop order self s e\<close> is the body of the loop of \<open>add_memory\<close> from
  \<open>order\<close> downwards, with \<open>s\<close> and \<open>e\<close> the current \<open>start_u\<close> and \<open>end_u\<close>; the
  nested calls of \<open>add_memory\<close> restart it at \<open>MAX_ORDER\<close>.
\<close>

function add_memory_loop :: "nat \<Rightarrow> buddy \<Rightarrow> nat \<Rightarrow> nat \<Rightarrow> buddy exec" where
  "add_memory_loop order self s e =
     (if order = 0 then Inr self
      else let split_order = order - 1 in
        exec_bind (buddies split_order s) (\<lambda>(block_start, block_mid).
        exec_bind (block_size split_order) (\<lambda>half.
        exec_bind (uadd block_mid half) (\<lambda>block_end.
        exec_bind (if s < block_start then add_memory_loop MAX_ORDER self s block_start else Inr self) (\<lambda>self.
        let s' = (if s < block_start then block_start else s) in
        exec_bind (if block_end < e then add_memory_loop MAX_ORDER self block_end e else Inr self) (\<lambda>self.
        let e' = (if block_end < e then block_end else e) in
        if block_start < s' \<or> e' < block_end then add_memory_loop (order - 1) self s' e'
        else exec_bind (push_block order block_start self) (\<lambda>self.
             exec_bind (block_size order) (\<lambda>bs.
             exec_bind (uadd (amount_free self) bs) (\<lambda>af.
             Inr (self\<lparr>amount_free := af\<rparr>))))))))))"
  by pat_completeness auto

definition bsz :: "nat \<Rightarrow> nat" where
  "bsz k = PAGE_ALIGN * 2 ^ k"

lemma bsz_pos [simp]: "0 < bsz k"
  by (simp add: bsz_def)

lemma bsz_Suc: "bsz (Suc k) = 2 * bsz k"
  by (simp add: bsz_def)

lemma bsz_mono: "j \<le> k \<Longrightarrow> bsz j \<le> bsz k"
  by (simp add: bsz_def)

lemma bsz_dvd: "j \<le> k \<Longrightarrow> bsz j dvd bsz k"
  by (simp add: bsz_def le_imp_power_dvd)

lemma block_size_ok [exec_simps]: "k \<le> MAX_ORDER \<Longrightarrow> block_size k = Inr (bsz k)"
  by (simp add: block_size_def bsz_def)

lemma block_size_eq_Inr [exec_dests]: "block_size k = Inr b \<longleftrightarrow> k \<le> MAX_ORDER \<and> b = bsz k"
  by (auto simp: block_size_def bsz_def exec_dests)

lemma buddies_eq_Inr [exec_dests]:
  "buddies k a = Inr (lo, hi) \<longleftrightarrow>
     k \<le> MAX_ORDER \<and> lo = a div bsz (Suc k) * bsz (Suc k) \<and> hi = lo + bsz k \<and> hi < usize_limit"
  by (auto simp: buddies_def Let_def exec_dests bsz_Suc mult_ac)

lemma buddies_low_le: "buddies k a = Inr (lo, hi) \<Longrightarrow> lo \<le> a"
  by (auto simp: exec_dests)

lemma buddies_end_gt: "buddies k a = Inr (lo, hi) \<Longrightarrow> a < hi + bsz k"
  using dividend_less_div_times[of "bsz (Suc k)" a] by (auto simp: exec_dests bsz_Suc)

termination add_memory_loop
proof (relation "measures [\<lambda>(order, self, s, e). e - s, \<lambda>(order, self, s, e). order]", goal_cases)
  case 1
  then show ?case by simp
next
  case 2
  then show ?case by (auto dest!: buddies_low_le)
next
  case 3
  then show ?case
    by (auto dest: buddies_end_gt buddies_low_le simp: block_size_eq_Inr uadd_eq_Inr intro!: diff_less_mono2)
next
  case 4
  then show ?case by (auto dest!: buddies_low_le)
qed

definition add_memory :: "buddy \<Rightarrow> nat \<Rightarrow> nat \<Rightarrow> buddy exec" where
  "add_memory self s e = add_memory_loop MAX_ORDER self s e"

section \<open>Requests and releases\<close>

record PhysicalMemoryAllocation =
  pma_addr :: nat
  pma_size :: PageAllocationSizeT
  pma_block :: "nat \<times> nat"

function req_block :: "buddy \<Rightarrow> nat \<Rightarrow> (buddy \<times> nat option) exec" where
  "req_block allocator order =
     (if order \<ge> MAX_ORDER then Inr (allocator, None)
      else exec_bind (vec_get (free_blocks allocator) order) (\<lambda>bl.
        if bl \<noteq> [] then Inr (allocator, Some (bl ! 0))
        else exec_bind (req_block allocator (order + 1)) (\<lambda>(allocator, r).
          case r of
            None \<Rightarrow> Inr (allocator, None)
          | Some splitblock \<Rightarrow>
              exec_bind (split allocator (order + 1) splitblock) (\<lambda>(allocator, (lb, hb)).
              Inr (allocator, Some lb)))))"
  by pat_completeness auto

termination req_block
  by (relation "measure (\<lambda>(a, order). MAX_ORDER - order)") auto

definition find_order :: "nat \<Rightarrow> nat option" where
  "find_order alloc_size = position (\<lambda>o'. PAGE_ALIGN * 2 ^ o' \<ge> alloc_size) [0..<MAX_ORDER]"

definition palloc :: "buddy \<Rightarrow> PageAllocationSizeT \<Rightarrow> (buddy \<times> PhysicalMemoryAllocation option) exec" where
  "palloc allocator req =
     exec_bind (size_get req) (\<lambda>alloc_size.
     case find_order alloc_size of
       None \<Rightarrow> Inr (allocator, None)
     | Some order \<Rightarrow>
         exec_bind (req_block allocator order) (\<lambda>(allocator, r).
         case r of
           None \<Rightarrow> Inr (allocator, None)
         | Some addr \<Rightarrow>
             exec_bind (block_size order) (\<lambda>bs.
             exec_bind (usub (amount_free allocator) bs) (\<lambda>af.
             exec_bind (uadd (amount_allocated allocator) bs) (\<lambda>aa.
             exec_bind (take_block order addr (allocator\<lparr>amount_free := af, amount_allocated := aa\<rparr>)) (\<lambda>allocator.
             exec_bind (size_new_checked bs) (\<lambda>sz.
             exec_bind (unwrap sz) (\<lambda>sz.
             Inr (allocator, Some \<lparr>pma_addr = addr, pma_size = sz, pma_block = (order, addr)\<rparr>)))))))))"

lemma merge_Some_order: "merge a k p = Inr (a', Some q) \<Longrightarrow> k < MAX_ORDER"
  by (auto simp: merge_def Let_def split: if_splits)

function merge_loop :: "buddy \<Rightarrow> nat \<Rightarrow> nat \<Rightarrow> buddy exec" where
  "merge_loop allocator merge_order merge_addr =
     exec_bind (merge allocator merge_order merge_addr) (\<lambda>(allocator, r).
     case r of
       None \<Rightarrow> Inr allocator
     | Some newaddr \<Rightarrow> merge_loop allocator (merge_order + 1) newaddr)"
  by pat_completeness auto

termination merge_loop
  by (relation "measure (\<lambda>(a, k, p). MAX_ORDER - k)") (auto dest: merge_Some_order)

definition pmem_drop :: "buddy \<Rightarrow> PhysicalMemoryAllocation \<Rightarrow> buddy exec" where
  "pmem_drop allocator self = (case pma_block self of (order, addr) \<Rightarrow>
     exec_bind (push_block order addr allocator) (\<lambda>allocator.
     exec_bind (merge_loop allocator order addr) (\<lambda>allocator.
     exec_bind (block_size order) (\<lambda>bs.
     exec_bind (usub (amount_allocated allocator) bs) (\<lambda>aa.
     exec_bind (uadd (amount_free allocator) bs) (\<lambda>af.
     Inr (allocator\<lparr>amount_allocated := aa, amount_free := af\<rparr>)))))))"

definition amount_total :: "buddy \<Rightarrow> nat exec" where
  "amount_total allocator = uadd (amount_free allocator) (amount_allocated allocator)"

declare add_memory_loop.simps [simp del] req_block.simps [simp del] merge_loop.simps [simp del]

section \<open>Specification: blocks, cover and the invariant\<close>

type_synonym block = "nat \<times> nat"

definition has_byte :: "block \<Rightarrow> nat \<Rightarrow> bool" where
  "has_byte b x \<longleftrightarrow> snd b \<le> x \<and> x < snd b + bsz (fst b)"

definition cover :: "block multiset \<Rightarrow> nat \<Rightarrow> nat" where
  "cover M x = size (filter_mset (\<lambda>b. has_byte b x) M)"

definition bytes :: "block multiset \<Rightarrow> nat" where
  "bytes M = (\<Sum>b\<in>#M. bsz (fst b))"

primrec lists_mset :: "nat \<Rightarrow> nat list list \<Rightarrow> block multiset" where
  "lists_mset k [] = {#}"
| "lists_mset k (bl # bls) = image_mset (Pair k) (mset bl) + lists_mset (Suc k) bls"

definition free_mset :: "buddy \<Rightarrow> block multiset" where
  "free_mset a = lists_mset 0 (free_blocks a)"

definition block_ok :: "block \<Rightarrow> bool" where
  "block_ok b \<longleftrightarrow> fst b < MAX_ORDER \<and> bsz (fst b) dvd snd b \<and> snd b + bsz (fst b) < usize_limit"

definition buddy_inv :: "buddy \<Rightarrow> block multiset \<Rightarrow> bool" where
  "buddy_inv a L \<longleftrightarrow>
     length (free_blocks a) = MAX_ORDER
     \<and> (\<forall>b\<in>#free_mset a + L. block_ok b)
     \<and> (\<forall>x. cover (free_mset a + L) x \<le> 1)
     \<and> amount_free a = bytes (free_mset a)
     \<and> amount_allocated a = bytes L
     \<and> bytes (free_mset a + L) < usize_limit"

lemma cover_simps [simp]:
  "cover {#} x = 0"
  "cover (M + N) x = cover M x + cover N x"
  "cover (add_mset b M) x = (if has_byte b x then 1 else 0) + cover M x"
  by (simp_all add: cover_def)

lemma bytes_simps [simp]:
  "bytes {#} = 0" "bytes (M + N) = bytes M + bytes N"
  "bytes (add_mset b M) = bsz (fst b) + bytes M"
  by (simp_all add: bytes_def)

lemma cover_diff: "b \<in># M \<Longrightarrow> cover (M - {#b#}) x + (if has_byte b x then 1 else 0) = cover M x"
  by (metis add.commute cover_simps(3) insert_DiffM)

lemma bytes_diff: "b \<in># M \<Longrightarrow> bytes (M - {#b#}) + bsz (fst b) = bytes M"
  by (metis add.commute bytes_simps(3) insert_DiffM)

lemma cover_pos: "b \<in># M \<Longrightarrow> has_byte b x \<Longrightarrow> 0 < cover M x"
  using cover_diff[of b M x] by simp

lemma cover_eq_0: "cover M x = 0 \<longleftrightarrow> (\<forall>b\<in>#M. \<not> has_byte b x)"
  by (induction M) auto

lemma has_byte_halves:
  "has_byte (Suc k, p) x \<longleftrightarrow> has_byte (k, p) x \<or> has_byte (k, p + bsz k) x"
  "\<not> (has_byte (k, p) x \<and> has_byte (k, p + bsz k) x)"
  by (auto simp: has_byte_def bsz_Suc)

lemma cover_halves: "cover {#(Suc k, p)#} = cover {#(k, p), (k, p + bsz k)#}"
proof
  fix x
  show "cover {#(Suc k, p)#} x = cover {#(k, p), (k, p + bsz k)#} x"
    using has_byte_halves[of k p x] by auto
qed

lemma lists_mset_update:
  assumes "i < length bls"
  shows "lists_mset k (bls[i := bl]) + image_mset (Pair (k + i)) (mset (bls ! i))
       = lists_mset k bls + image_mset (Pair (k + i)) (mset bl)"
  using assms
proof (induction bls arbitrary: k i)
  case (Cons b bls)
  show ?case
  proof (cases i)
    case (Suc j)
    then show ?thesis using Cons.IH[of j "Suc k"] Cons.prems by (simp add: union_ac)
  qed (simp add: union_ac)
qed simp

lemma in_lists_mset:
  "(j, p) \<in># lists_mset k bls \<longleftrightarrow> k \<le> j \<and> j - k < length bls \<and> p \<in> set (bls ! (j - k))"
proof (induction bls arbitrary: k j)
  case (Cons bl bls)
  show ?case
  proof (cases "k < j")
    case True
    then obtain d where "j = Suc (k + d)" using less_iff_Suc_add by auto
    then show ?thesis by (auto simp: Cons.IH)
  qed (auto simp: Cons.IH)
qed simp

lemma in_free_mset: "(k, p) \<in># free_mset a \<longleftrightarrow> k < length (free_blocks a) \<and> p \<in> set (free_blocks a ! k)"
  by (simp add: free_mset_def in_lists_mset)

section \<open>Effect of the primitive operations on the blocks\<close>

lemma push_block_ok:
  assumes "k < length (free_blocks a)"
  shows "\<exists>a'. push_block k p a = Inr a' \<and> free_mset a' = add_mset (k, p) (free_mset a)
           \<and> length (free_blocks a') = length (free_blocks a)
           \<and> amount_free a' = amount_free a \<and> amount_allocated a' = amount_allocated a"
proof -
  have "free_mset (a\<lparr>free_blocks := (free_blocks a)[k := free_blocks a ! k @ [p]]\<rparr>) = add_mset (k, p) (free_mset a)"
    using lists_mset_update[OF assms, of 0 "free_blocks a ! k @ [p]"] by (simp add: free_mset_def)
  with assms show ?thesis by (simp add: push_block_def exec_simps)
qed

lemma take_block_ok:
  assumes "(k, p) \<in># free_mset a"
  shows "\<exists>a'. take_block k p a = Inr a' \<and> free_mset a' = free_mset a - {#(k, p)#}
           \<and> length (free_blocks a') = length (free_blocks a)
           \<and> amount_free a' = amount_free a \<and> amount_allocated a' = amount_allocated a"
proof -
  from assms have k: "k < length (free_blocks a)" and p: "p \<in> set (free_blocks a ! k)"
    by (auto simp: in_free_mset)
  obtain i where i: "position (\<lambda>x. x = p) (free_blocks a ! k) = Some i"
    "i < length (free_blocks a ! k)" "free_blocks a ! k ! i = p"
    using position_eq_ex[OF p] by blast
  define bl where "bl = butlast ((free_blocks a ! k)[i := last (free_blocks a ! k)])"
  have "mset bl = mset (free_blocks a ! k) - {#p#}"
    using mset_butlast_update[OF i(2)] i(3) by (simp add: bl_def)
  then have "mset (free_blocks a ! k) = add_mset p (mset bl)" using p by simp
  then have "free_mset a = add_mset (k, p) (free_mset (a\<lparr>free_blocks := (free_blocks a)[k := bl]\<rparr>))"
    using lists_mset_update[OF k, of 0 bl] by (simp add: free_mset_def)
  with k i show ?thesis by (simp add: take_block_def exec_simps bl_def)
qed

lemma split_ok:
  assumes "(Suc k, p) \<in># free_mset a" and "bsz (Suc k) dvd p"
    and "length (free_blocks a) = MAX_ORDER" and "p + bsz (Suc k) < usize_limit"
  shows "\<exists>a'. split a (Suc k) p = Inr (a', (p, p + bsz k))
           \<and> free_mset a' = free_mset a - {#(Suc k, p)#} + {#(k, p), (k, p + bsz k)#}
           \<and> length (free_blocks a') = MAX_ORDER
           \<and> amount_free a' = amount_free a \<and> amount_allocated a' = amount_allocated a"
proof -
  have k: "Suc k < MAX_ORDER" using assms(1,3) by (simp add: in_free_mset)
  have b: "buddies k p = Inr (p, p + bsz k)"
    using assms(2,4) k by (simp add: buddies_eq_Inr bsz_Suc)
  obtain a1 where a1: "take_block (Suc k) p a = Inr a1" "free_mset a1 = free_mset a - {#(Suc k, p)#}"
    "length (free_blocks a1) = MAX_ORDER" "amount_free a1 = amount_free a"
    "amount_allocated a1 = amount_allocated a"
    using take_block_ok[OF assms(1)] assms(3) by auto
  obtain a2 where a2: "push_block k p a1 = Inr a2" "free_mset a2 = add_mset (k, p) (free_mset a1)"
    "length (free_blocks a2) = MAX_ORDER" "amount_free a2 = amount_free a1"
    "amount_allocated a2 = amount_allocated a1"
    using push_block_ok[of k a1 p] a1(3) k by auto
  obtain a3 where a3: "push_block k (p + bsz k) a2 = Inr a3"
    "free_mset a3 = add_mset (k, p + bsz k) (free_mset a2)"
    "length (free_blocks a3) = MAX_ORDER" "amount_free a3 = amount_free a2"
    "amount_allocated a3 = amount_allocated a2"
    using push_block_ok[of k a2 "p + bsz k"] a2(3) k by auto
  show ?thesis using b a1 a2 a3 by (simp add: split_def)
qed

lemma two_swap_removes:
  assumes "i < length bl" and "j < length bl" and "i \<noteq> j"
  shows "\<exists>bl' bl''. swap_remove (max i j) bl = Inr bl' \<and> swap_remove (min i j) bl' = Inr bl''
           \<and> mset bl'' = mset bl - {#bl ! i, bl ! j#}"
proof -
  obtain bl' where 1: "swap_remove (max i j) bl = Inr bl'"
    using swap_remove_total assms by (metis max_def)
  have 2: "min i j < length bl'" "bl' ! min i j = bl ! min i j"
    using swap_remove_nth_less[OF 1, of "min i j"] assms(3) by auto
  obtain bl'' where 3: "swap_remove (min i j) bl' = Inr bl''"
    using swap_remove_total[OF 2(1)] by blast
  have "mset bl'' = mset bl - {#bl ! max i j#} - {#bl ! min i j#}"
    using swap_remove_mset[OF 1] swap_remove_mset[OF 3] 2(2) by simp
  then have "mset bl'' = mset bl - {#bl ! i, bl ! j#}"
    by (cases "i < j") (auto simp: max_def min_def add_mset_commute)
  with 1 3 show ?thesis by blast
qed

lemma merge_None:
  assumes "k < MAX_ORDER" and "length (free_blocks a) = MAX_ORDER"
    and "buddies k p = Inr (lo, hi)" and "(k, lo) \<notin># free_mset a \<or> (k, hi) \<notin># free_mset a"
  shows "merge a k p = Inr (a, None)"
  using assms by (auto simp: merge_def in_free_mset exec_simps dest: position_eq_memD split: option.splits)

lemma merge_both_free:
  assumes "k < MAX_ORDER" and len: "length (free_blocks a) = MAX_ORDER"
    and "buddies k p = Inr (lo, hi)" and "(k, lo) \<in># free_mset a" and "(k, hi) \<in># free_mset a"
  shows "\<exists>a1. merge a k p = exec_bind (push_block (Suc k) lo a1) (\<lambda>a'. Inr (a', Some lo))
           \<and> free_mset a1 = free_mset a - {#(k, lo), (k, hi)#}
           \<and> length (free_blocks a1) = MAX_ORDER
           \<and> amount_free a1 = amount_free a \<and> amount_allocated a1 = amount_allocated a"
proof -
  let ?bl = "free_blocks a ! k"
  have "lo \<noteq> hi" using assms(3) by (auto simp: exec_dests)
  have mem: "lo \<in> set ?bl" "hi \<in> set ?bl" using assms by (auto simp: in_free_mset)
  obtain i where i: "position (\<lambda>x. x = lo) ?bl = Some i" "i < length ?bl" "?bl ! i = lo"
    using position_eq_ex[OF mem(1)] by blast
  obtain j where j: "position (\<lambda>x. x = hi) ?bl = Some j" "j < length ?bl" "?bl ! j = hi"
    using position_eq_ex[OF mem(2)] by blast
  have "i \<noteq> j" using i j \<open>lo \<noteq> hi\<close> by auto
  then obtain bl' bl'' where sr: "swap_remove (max i j) ?bl = Inr bl'" "swap_remove (min i j) bl' = Inr bl''"
    and ms: "mset bl'' = mset ?bl - {#lo, hi#}"
    using two_swap_removes[OF i(2) j(2)] i(3) j(3) by auto
  have "mset ?bl = mset bl'' + {#lo, hi#}"
    using ms mem \<open>lo \<noteq> hi\<close> by (auto simp: multiset_eq_iff)
  then have "free_mset a = free_mset (a\<lparr>free_blocks := (free_blocks a)[k := bl'']\<rparr>) + {#(k, lo), (k, hi)#}"
    using lists_mset_update[of k "free_blocks a" 0 bl''] assms(1) len by (simp add: free_mset_def add_mset_commute)
  moreover have "merge a k p = exec_bind (push_block (Suc k) lo (a\<lparr>free_blocks := (free_blocks a)[k := bl'']\<rparr>))
      (\<lambda>a'. Inr (a', Some lo))"
    using assms(1,3) len i(1) j(1) sr by (simp add: merge_def exec_simps)
  ultimately show ?thesis using len by fastforce
qed

lemma merge_ok:
  assumes "Suc k < MAX_ORDER" and "length (free_blocks a) = MAX_ORDER"
    and "buddies k p = Inr (lo, hi)" and "(k, lo) \<in># free_mset a" and "(k, hi) \<in># free_mset a"
  shows "\<exists>a'. merge a k p = Inr (a', Some lo)
           \<and> free_mset a' = add_mset (Suc k, lo) (free_mset a - {#(k, lo), (k, hi)#})
           \<and> length (free_blocks a') = MAX_ORDER
           \<and> amount_free a' = amount_free a \<and> amount_allocated a' = amount_allocated a"
proof -
  obtain a1 where a1: "merge a k p = exec_bind (push_block (Suc k) lo a1) (\<lambda>a'. Inr (a', Some lo))"
    "free_mset a1 = free_mset a - {#(k, lo), (k, hi)#}" "length (free_blocks a1) = MAX_ORDER"
    "amount_free a1 = amount_free a" "amount_allocated a1 = amount_allocated a"
    using merge_both_free[OF _ assms(2-5)] assms(1) by auto
  then show ?thesis using push_block_ok[of "Suc k" a1 lo] assms(1) by auto
qed

lemma merge_top_order_panics:
  assumes "Suc k = MAX_ORDER" and "length (free_blocks a) = MAX_ORDER"
    and "buddies k p = Inr (lo, hi)" and "(k, lo) \<in># free_mset a" and "(k, hi) \<in># free_mset a"
  shows "merge a k p = Inl IndexOutOfBounds"
proof -
  have "k < MAX_ORDER" using assms(1) by simp
  then show ?thesis
    using merge_both_free[OF _ assms(2-5)] assms(1) by (auto simp: push_block_def vec_get_def)
qed

section \<open>Splitting on request\<close>

lemma buddy_inv_recut:
  assumes "buddy_inv a L" and "length (free_blocks a') = MAX_ORDER"
    and "amount_free a' = amount_free a" and "amount_allocated a' = amount_allocated a"
    and "cover (free_mset a') = cover (free_mset a)" and "bytes (free_mset a') = bytes (free_mset a)"
    and "\<forall>b\<in>#free_mset a'. block_ok b"
  shows "buddy_inv a' L"
  using assms by (auto simp: buddy_inv_def)

definition mergeable :: "block multiset \<Rightarrow> nat \<Rightarrow> nat \<Rightarrow> bool" where
  "mergeable M k p \<longleftrightarrow> bsz (Suc k) dvd p \<and> (k, p) \<in># M \<and> (k, p + bsz k) \<in># M"

definition coalesced :: "block multiset \<Rightarrow> bool" where
  "coalesced M \<longleftrightarrow> (\<forall>k p. \<not> mergeable M k p)"

lemma coalesced_subset: "coalesced M \<Longrightarrow> N \<subseteq># M \<Longrightarrow> coalesced N"
  by (auto simp: coalesced_def mergeable_def dest: mset_subset_eqD)

lemma not_aligned_high_half: "bsz (Suc k) dvd q \<Longrightarrow> \<not> bsz (Suc k) dvd q + bsz k"
  by (simp add: dvd_add_right_iff bsz_Suc nat_dvd_not_less)

lemma overlap_excluded:
  assumes "\<forall>x. cover M x \<le> 1" and "b \<in># M" and "c \<in># M - {#b#}" and "has_byte b x"
  shows "\<not> has_byte c x"
proof
  assume "has_byte c x"
  then have "0 < cover (M - {#b#}) x" using assms(3) cover_pos by blast
  then have "1 < cover M x" using cover_diff[OF assms(2), of x] assms(4) by simp
  then show False using assms(1) by (metis not_le)
qed

lemma buddy_inv_free:
  assumes "buddy_inv a L"
  shows "\<forall>b\<in>#free_mset a. block_ok b" and "\<forall>x. cover (free_mset a) x \<le> 1"
    and "length (free_blocks a) = MAX_ORDER"
proof -
  show "\<forall>x. cover (free_mset a) x \<le> 1"
  proof
    fix x
    have "cover (free_mset a) x + cover L x \<le> 1" using assms by (simp add: buddy_inv_def)
    then show "cover (free_mset a) x \<le> 1" by linarith
  qed
qed (use assms in \<open>auto simp: buddy_inv_def\<close>)

lemma coalesced_split:
  assumes cov: "\<forall>b\<in>#M. block_ok b" "\<forall>x. cover M x \<le> 1"
    and mem: "(Suc k, q) \<in># M" and co: "coalesced (M - {#(Suc k, q)#})"
  shows "coalesced (M - {#(Suc k, q)#} + {#(k, q), (k, q + bsz k)#} - {#(k, q)#})"
proof -
  let ?N = "M - {#(Suc k, q)#}"
  have ok: "bsz (Suc k) dvd q" using cov(1) mem by (force simp: block_ok_def)
  have "(k, q) \<notin># ?N"
    using overlap_excluded[OF cov(2), of "(Suc k, q)" "(k, q)" q] mem
    by (auto simp: has_byte_def)
  then have "\<not> mergeable (add_mset (k, q + bsz k) ?N) j p" for j p
    using co not_aligned_high_half[OF ok] by (auto simp: coalesced_def mergeable_def)
  then show ?thesis by (simp add: coalesced_def)
qed

lemma block_ok_halves:
  "block_ok (Suc k, p) \<Longrightarrow> block_ok (k, p) \<and> block_ok (k, p + bsz k)"
  by (auto simp: block_ok_def bsz_Suc)

lemma split_inv:
  assumes inv: "buddy_inv a L" and mem: "(Suc k, p) \<in># free_mset a"
  shows "\<exists>a'. split a (Suc k) p = Inr (a', (p, p + bsz k)) \<and> buddy_inv a' L
           \<and> cover (free_mset a') = cover (free_mset a)
           \<and> free_mset a' = free_mset a - {#(Suc k, p)#} + {#(k, p), (k, p + bsz k)#}"
proof -
  have ok: "block_ok (Suc k, p)" and len: "length (free_blocks a) = MAX_ORDER"
    using inv mem by (auto simp: buddy_inv_def)
  obtain a' where a': "split a (Suc k) p = Inr (a', (p, p + bsz k))"
    "free_mset a' = free_mset a - {#(Suc k, p)#} + {#(k, p), (k, p + bsz k)#}"
    "length (free_blocks a') = MAX_ORDER" "amount_free a' = amount_free a"
    "amount_allocated a' = amount_allocated a"
    using split_ok[OF mem _ len] ok by (auto simp: block_ok_def)
  obtain M where M: "free_mset a = M + {#(Suc k, p)#}" using mem by (metis add_mset_add_single insert_DiffM)
  have c: "cover (free_mset a') = cover (free_mset a)"
    using fun_cong[OF cover_halves[of k p]] by (auto simp: a'(2) M fun_eq_iff)
  moreover have "bytes (free_mset a') = bytes (free_mset a)" by (simp add: a'(2) M bsz_Suc)
  moreover have "\<forall>b\<in>#free_mset a'. block_ok b"
    using inv block_ok_halves[OF ok] by (auto simp: a'(2) M buddy_inv_def)
  ultimately have "buddy_inv a' L" using buddy_inv_recut[OF inv] a' by blast
  with a' c show ?thesis by blast
qed

lemma req_block_ok:
  assumes "buddy_inv a L" and "k < MAX_ORDER"
  shows "\<exists>a' r. req_block a k = Inr (a', r) \<and> buddy_inv a' L
     \<and> cover (free_mset a') = cover (free_mset a)
     \<and> (case r of None \<Rightarrow> a' = a \<and> (\<forall>j p. k \<le> j \<longrightarrow> (j, p) \<notin># free_mset a)
        | Some p \<Rightarrow> (k, p) \<in># free_mset a'
            \<and> (coalesced (free_mset a) \<longrightarrow> coalesced (free_mset a' - {#(k, p)#})))"
  using assms
proof (induction "MAX_ORDER - k" arbitrary: k)
  case (Suc n)
  have len: "length (free_blocks a) = MAX_ORDER" using Suc.prems by (simp add: buddy_inv_def)
  show ?case
  proof (cases "free_blocks a ! k = []")
    case False
    then have "(k, free_blocks a ! k ! 0) \<in># free_mset a"
      using len Suc.prems by (simp add: in_free_mset)
    then show ?thesis
      using False Suc.prems len coalesced_subset[OF _ diff_subset_eq_self]
      by (subst req_block.simps) (simp add: exec_simps)
  next
    case True
    have none: "(k, p) \<notin># free_mset a" for p
      using True by (auto simp: in_free_mset)
    have unfold: "req_block a k = exec_bind (req_block a (Suc k)) (\<lambda>(a, r). case r of
        None \<Rightarrow> Inr (a, None)
      | Some q \<Rightarrow> exec_bind (split a (Suc k) q) (\<lambda>(a, (lb, hb)). Inr (a, Some lb)))"
      using True Suc.prems len by (subst req_block.simps) (simp add: exec_simps)
    show ?thesis
    proof (cases "Suc k < MAX_ORDER")
      case False
      then have "req_block a (Suc k) = Inr (a, None)" by (subst req_block.simps) simp
      moreover have "(j, p) \<notin># free_mset a" if "k \<le> j" for j p
        using that none[of p] False len by (cases "j = k") (auto simp: in_free_mset)
      ultimately show ?thesis using Suc.prems unfold by auto
    next
      case True
      have "n = MAX_ORDER - Suc k" using Suc.hyps(2) by simp
      from Suc.hyps(1)[OF this Suc.prems(1) True]
      obtain a1 r where a1: "req_block a (Suc k) = Inr (a1, r)" "buddy_inv a1 L"
        "cover (free_mset a1) = cover (free_mset a)"
        and r: "case r of None \<Rightarrow> a1 = a \<and> (\<forall>j p. Suc k \<le> j \<longrightarrow> (j, p) \<notin># free_mset a)
          | Some p \<Rightarrow> (Suc k, p) \<in># free_mset a1
              \<and> (coalesced (free_mset a) \<longrightarrow> coalesced (free_mset a1 - {#(Suc k, p)#}))" by blast
      show ?thesis
      proof (cases r)
        case None
        then have "(j, p) \<notin># free_mset a" if "k \<le> j" for j p
          using that none r by (cases "j = k") auto
        then show ?thesis using None a1 r unfold by auto
      next
        case (Some q)
        then obtain a' where a': "split a1 (Suc k) q = Inr (a', (q, q + bsz k))" "buddy_inv a' L"
          "cover (free_mset a') = cover (free_mset a1)"
          "free_mset a' = free_mset a1 - {#(Suc k, q)#} + {#(k, q), (k, q + bsz k)#}"
          using split_inv[OF a1(2)] r by fastforce
        moreover have "coalesced (free_mset a' - {#(k, q)#})" if "coalesced (free_mset a)"
          using coalesced_split[of "free_mset a1" k q] buddy_inv_free[OF a1(2)] r Some that a'(4) by simp
        ultimately show ?thesis using a1 Some unfold by auto
      qed
    qed
  qed
qed simp


section \<open>\<open>palloc\<close>\<close>

lemma find_order_Some:
  assumes "find_order n = Some k"
  shows "k < MAX_ORDER \<and> n \<le> bsz k \<and> (\<forall>j<k. bsz j < n)"
  using position_SomeD[OF assms[unfolded find_order_def]] by (auto simp: bsz_def not_le)

lemma find_order_None: "find_order n = None \<Longrightarrow> k < MAX_ORDER \<Longrightarrow> bsz k < n"
  by (auto simp: find_order_def bsz_def not_le)

lemma size_valid_bsz [simp]: "size_valid (bsz k)"
  by (simp add: size_valid_def bsz_def)

lemma size_new_checked_valid [simp]: "size_valid n \<Longrightarrow> size_new_checked n = Inr (Some (PageAllocationSizeT n))"
  using sizes.checked_Some_iff by simp

definition palloc_post :: "buddy \<Rightarrow> block multiset \<Rightarrow> nat \<Rightarrow> buddy \<Rightarrow> PhysicalMemoryAllocation \<Rightarrow> bool" where
  "palloc_post a L n a' m \<longleftrightarrow> (case pma_block m of (k, p) \<Rightarrow>
     pma_addr m = p \<and> pma_size m = PageAllocationSizeT (bsz k) \<and> n \<le> bsz k \<and> (\<forall>j<k. bsz j < n)
     \<and> buddy_inv a' (add_mset (k, p) L)
     \<and> cover (add_mset (k, p) (free_mset a')) = cover (free_mset a)
     \<and> (coalesced (free_mset a) \<longrightarrow> coalesced (free_mset a')))"

lemma palloc_cases:
  assumes inv: "buddy_inv a L" and n: "size_valid n"
  shows "\<exists>a' r. palloc a (PageAllocationSizeT n) = Inr (a', r)
     \<and> (case r of None \<Rightarrow> a' = a \<and> (\<forall>b\<in>#free_mset a. bsz (fst b) < n)
        | Some m \<Rightarrow> palloc_post a L n a' m)"
proof (cases "find_order n")
  case None
  then have "\<forall>b\<in>#free_mset a. bsz (fst b) < n"
    using inv find_order_None by (auto simp: buddy_inv_def block_ok_def)
  with None n show ?thesis by (simp add: palloc_def)
next
  case (Some k)
  note k = find_order_Some[OF Some]
  obtain a1 r where a1: "req_block a k = Inr (a1, r)" "buddy_inv a1 L" "cover (free_mset a1) = cover (free_mset a)"
    and r: "case r of None \<Rightarrow> a1 = a \<and> (\<forall>j p. k \<le> j \<longrightarrow> (j, p) \<notin># free_mset a)
        | Some p \<Rightarrow> (k, p) \<in># free_mset a1
            \<and> (coalesced (free_mset a) \<longrightarrow> coalesced (free_mset a1 - {#(k, p)#}))"
    using req_block_ok[OF inv] k by blast
  show ?thesis
  proof (cases r)
    case None
    have "bsz (fst b) < n" if "b \<in># free_mset a" for b
    proof -
      have "\<not> k \<le> fst b" using None r that by (cases b) auto
      then show ?thesis using k by simp
    qed
    with None r a1 n Some show ?thesis by (simp add: palloc_def)
  next
    case r': (Some p)
    let ?a2 = "a1\<lparr>amount_free := amount_free a1 - bsz k, amount_allocated := amount_allocated a1 + bsz k\<rparr>"
    have mem: "(k, p) \<in># free_mset a1" using r r' by simp
    have fm: "free_mset ?a2 = free_mset a1" by (simp add: free_mset_def)
    obtain a3 where a3: "take_block k p ?a2 = Inr a3" "free_mset a3 = free_mset a1 - {#(k, p)#}"
      "length (free_blocks a3) = length (free_blocks a1)"
      "amount_free a3 = amount_free a1 - bsz k" "amount_allocated a3 = amount_allocated a1 + bsz k"
      using take_block_ok[of k p ?a2] mem fm by auto
    have b: "bytes (free_mset a1) = bsz k + bytes (free_mset a3)" using bytes_diff[OF mem] a3(2) by simp
    have bl: "free_mset a1 = add_mset (k, p) (free_mset a3)" using mem a3(2) by simp
    have am: "amount_free a1 = bytes (free_mset a1)" "amount_allocated a1 = bytes L"
      "bytes (free_mset a1) + bytes L < usize_limit" using a1(2) by (auto simp: buddy_inv_def)
    have "palloc a (PageAllocationSizeT n)
        = Inr (a3, Some \<lparr>pma_addr = p, pma_size = PageAllocationSizeT (bsz k), pma_block = (k, p)\<rparr>)"
      using Some n a1(1) r' k a3(1) b am by (simp add: palloc_def exec_simps)
    moreover have "buddy_inv a3 (add_mset (k, p) L)"
      using a1(2) a3(3-5) b bl by (auto simp: buddy_inv_def)
    ultimately show ?thesis using k r r' a1(3) bl by (auto simp: palloc_post_def)
  qed
qed

section \<open>Coalescing on release\<close>

lemma buddies_ok:
  assumes "block_ok (k, p)"
  obtains lo where "buddies k p = Inr (lo, lo + bsz k)" and "bsz (Suc k) dvd lo"
    and "p = lo \<or> p = lo + bsz k"
proof -
  let ?lo = "p div bsz (Suc k) * bsz (Suc k)"
  have p: "k < MAX_ORDER" "bsz k dvd p" "p + bsz k < usize_limit"
    using assms by (auto simp: block_ok_def)
  have "?lo \<le> p" by simp
  then have "?lo + bsz k < usize_limit" using p(3) by linarith
  then have "buddies k p = Inr (?lo, ?lo + bsz k)" using p by (simp add: buddies_eq_Inr)
  moreover have "p = ?lo \<or> p = ?lo + bsz k"
  proof -
    obtain c where c: "p = bsz k * c" using p(2) by (elim dvdE)
    have lo: "?lo = bsz k * (c div 2 * 2)"
      using div_mult_mult1[of "bsz k" c 2] by (simp add: c bsz_Suc mult.commute)
    have "c = c div 2 * 2 \<or> c = c div 2 * 2 + 1" by arith
    then show ?thesis
    proof
      assume "c = c div 2 * 2"
      then show ?thesis using lo c by simp
    next
      assume "c = c div 2 * 2 + 1"
      then have "p = bsz k * (c div 2 * 2 + 1)" using c by simp
      then show ?thesis using lo by (simp add: distrib_left)
    qed
  qed
  ultimately show ?thesis using that by (metis dvd_triv_right)
qed

lemma aligned_unique_pair:
  assumes "bsz (Suc k) dvd lo" and "bsz (Suc k) dvd q"
    and "p = lo \<or> p = lo + bsz k" and "q = p \<or> q + bsz k = p"
  shows "q = lo"
proof -
  have "\<not> bsz (Suc k) dvd lo + bsz k" using not_aligned_high_half[OF assms(1)] .
  moreover have "q + bsz k \<noteq> lo" using not_aligned_high_half[OF assms(2)] assms(1) by auto
  ultimately show ?thesis using assms by auto
qed

definition only_pair :: "block multiset \<Rightarrow> nat \<Rightarrow> nat \<Rightarrow> bool" where
  "only_pair M k p \<longleftrightarrow> (\<forall>j q. mergeable M j q \<longrightarrow> j = k \<and> (q = p \<or> q + bsz k = p))"

definition has_gaps :: "block multiset \<Rightarrow> bool" where
  "has_gaps M \<longleftrightarrow> (\<forall>r. \<exists>x. x div bsz MAX_ORDER = r \<and> cover M x = 0)"

lemma same_block_iff:
  assumes "bsz k dvd lo"
  shows "x div bsz k = lo div bsz k \<longleftrightarrow> has_byte (k, lo) x"
proof -
  obtain c where c: "lo = bsz k * c" using assms by (elim dvdE)
  have "x div bsz k = c \<longleftrightarrow> bsz k * c \<le> x \<and> x < bsz k * Suc c"
    using div_nat_eqI[of "bsz k" c x] times_div_less_eq_dividend[of "bsz k" x]
      dividend_less_times_div[of "bsz k" x] by auto
  then show ?thesis by (simp add: has_byte_def c add.commute)
qed

lemma has_gaps_no_top_pair:
  assumes "has_gaps M" and "Suc k = MAX_ORDER" and "bsz (Suc k) dvd lo"
    and "(k, lo) \<in># M" and "(k, lo + bsz k) \<in># M"
  shows False
proof -
  obtain x where x: "x div bsz MAX_ORDER = lo div bsz MAX_ORDER" "cover M x = 0"
    using assms(1) by (auto simp: has_gaps_def)
  then have "has_byte (Suc k, lo) x" using same_block_iff[OF assms(3)] assms(2) by simp
  then show False using has_byte_halves(1) x(2) assms(4,5) by (auto simp: cover_eq_0)
qed

definition free_ok :: "buddy \<Rightarrow> bool" where
  "free_ok a \<longleftrightarrow> length (free_blocks a) = MAX_ORDER \<and> (\<forall>b\<in>#free_mset a. block_ok b)
     \<and> (\<forall>x. cover (free_mset a) x \<le> 1)"

lemma in_diff_twoD: "x \<in># M - {#b, c#} \<Longrightarrow> x \<in># M - {#b#}"
  using in_diffD[of x "M - {#b#}" "{#c#}"] by (simp add: add_mset_commute)

lemma two_members: "b \<in># M \<Longrightarrow> c \<in># M \<Longrightarrow> b \<noteq> c \<Longrightarrow> \<exists>N. M = N + {#b, c#}"
  by (auto dest!: multi_member_split simp: add_eq_conv_ex)

lemma has_gaps_mono: "has_gaps N \<Longrightarrow> M \<subseteq># N \<Longrightarrow> has_gaps M"
  unfolding has_gaps_def cover_eq_0 by (meson mset_subset_eqD)

lemma merged_only_pair:
  assumes cov: "\<forall>x. cover M x \<le> 1" and lo: "bsz (Suc k) dvd lo" and p: "p = lo \<or> p = lo + bsz k"
    and mem: "(k, lo) \<in># M" and only: "only_pair M k p"
  shows "only_pair (add_mset (Suc k, lo) (M - {#(k, lo), (k, lo + bsz k)#})) (Suc k) lo"
  unfolding only_pair_def
proof (intro allI impI)
  fix j q
  let ?N = "M - {#(k, lo), (k, lo + bsz k)#}"
  assume m: "mergeable (add_mset (Suc k, lo) ?N) j q"
  have "\<not> mergeable ?N j q"
  proof
    assume "mergeable ?N j q"
    then have N: "(j, q) \<in># ?N" and a: "bsz (Suc j) dvd q" and "mergeable M j q"
      by (auto simp: mergeable_def dest: in_diffD)
    then have "j = k" "q = p \<or> q + bsz k = p" using only by (auto simp: only_pair_def)
    then have "q = lo" using aligned_unique_pair[OF lo _ p] a by simp
    then have "(k, lo) \<in># M - {#(k, lo)#}" using N \<open>j = k\<close> in_diff_twoD[of "(k, lo)"] by blast
    then show False using overlap_excluded[OF cov mem, of "(k, lo)" lo] by (simp add: has_byte_def)
  qed
  then show "j = Suc k \<and> (q = lo \<or> q + bsz (Suc k) = lo)" using m by (auto simp: mergeable_def)
qed

lemma merge_loop_ok:
  assumes "free_ok a" and "(k, p) \<in># free_mset a" and "has_gaps (free_mset a)"
  shows "\<exists>a'. merge_loop a k p = Inr a' \<and> free_ok a' \<and> cover (free_mset a') = cover (free_mset a)
           \<and> bytes (free_mset a') = bytes (free_mset a)
           \<and> amount_free a' = amount_free a \<and> amount_allocated a' = amount_allocated a
           \<and> (only_pair (free_mset a) k p \<longrightarrow> coalesced (free_mset a'))"
  using assms
proof (induction "MAX_ORDER - k" arbitrary: a k p)
  case 0
  then show ?case by (auto simp: free_ok_def in_free_mset)
next
  case (Suc n)
  let ?M = "free_mset a"
  have len: "length (free_blocks a) = MAX_ORDER" and cov: "\<forall>x. cover ?M x \<le> 1"
    and ok: "block_ok (k, p)" using Suc.prems by (auto simp: free_ok_def)
  have k: "k < MAX_ORDER" using ok by (simp add: block_ok_def)
  obtain lo where b: "buddies k p = Inr (lo, lo + bsz k)" and lo: "bsz (Suc k) dvd lo"
    and p: "p = lo \<or> p = lo + bsz k" using buddies_ok[OF ok] .
  show ?case
  proof (cases "(k, lo) \<in># ?M \<and> (k, lo + bsz k) \<in># ?M")
    case False
    then have "merge a k p = Inr (a, None)" using merge_None[OF k len b] by blast
    moreover have "coalesced ?M" if "only_pair ?M k p"
      unfolding coalesced_def
    proof (intro allI notI)
      fix j q assume m: "mergeable ?M j q"
      then have "j = k" "q = p \<or> q + bsz k = p" using that by (auto simp: only_pair_def)
      moreover have "bsz (Suc k) dvd q" using m \<open>j = k\<close> by (simp add: mergeable_def)
      ultimately have "q = lo" using aligned_unique_pair[OF lo _ p] by blast
      then show False using False m \<open>j = k\<close> by (simp add: mergeable_def)
    qed
    ultimately show ?thesis using Suc.prems by (subst merge_loop.simps) simp
  next
    case True
    then have k': "Suc k < MAX_ORDER"
      using has_gaps_no_top_pair[OF Suc.prems(3) _ lo] k by fastforce
    obtain a1 where a1: "merge a k p = Inr (a1, Some lo)"
      "free_mset a1 = add_mset (Suc k, lo) (?M - {#(k, lo), (k, lo + bsz k)#})"
      "length (free_blocks a1) = MAX_ORDER" "amount_free a1 = amount_free a"
      "amount_allocated a1 = amount_allocated a"
      using merge_ok[OF k' len b] True by auto
    obtain N where N: "?M = N + {#(k, lo), (k, lo + bsz k)#}"
      using True two_members[of "(k, lo)" ?M "(k, lo + bsz k)"] by auto
    have c: "cover (free_mset a1) = cover ?M"
      using fun_cong[OF cover_halves[of k lo]] by (auto simp: a1(2) N fun_eq_iff)
    have "block_ok (k, lo + bsz k)" using Suc.prems(1) N by (simp add: free_ok_def)
    then have "block_ok (Suc k, lo)" using k' lo by (simp add: block_ok_def bsz_Suc)
    then have "free_ok a1" using Suc.prems(1) a1(2,3) c N by (simp add: free_ok_def)
    moreover have "has_gaps (free_mset a1)" using Suc.prems(3) c by (simp add: has_gaps_def)
    moreover have "n = MAX_ORDER - Suc k" "(Suc k, lo) \<in># free_mset a1" using Suc.hyps(2) a1(2) by auto
    ultimately obtain a' where a': "merge_loop a1 (Suc k) lo = Inr a'" "free_ok a'"
      "cover (free_mset a') = cover (free_mset a1)" "bytes (free_mset a') = bytes (free_mset a1)"
      "amount_free a' = amount_free a1" "amount_allocated a' = amount_allocated a1"
      "only_pair (free_mset a1) (Suc k) lo \<longrightarrow> coalesced (free_mset a')"
      using Suc.hyps(1)[of "Suc k" a1 lo] by blast
    moreover have "merge_loop a k p = merge_loop a1 (Suc k) lo"
      using a1(1) by (subst merge_loop.simps) simp
    moreover have "bytes (free_mset a1) = bytes ?M" by (simp add: a1(2) N bsz_Suc)
    moreover have "only_pair ?M k p \<longrightarrow> only_pair (free_mset a1) (Suc k) lo"
      using merged_only_pair[OF cov lo p] True a1(2) by simp
    ultimately show ?thesis using a1(4,5) c by simp
  qed
qed


lemma coalesced_add_only_pair:
  assumes "coalesced M" shows "only_pair (add_mset (k, p) M) k p"
  using assms by (auto simp: only_pair_def coalesced_def mergeable_def)

lemma cover_le_1_sub: "\<forall>x. cover (M + N) x \<le> 1 \<Longrightarrow> cover M x \<le> 1"
  by (metis add_leD1 cover_simps(2))

lemma pmem_drop_cases:
  assumes inv: "buddy_inv a (add_mset (k, p) L)" and m: "pma_block m = (k, p)"
    and gaps: "has_gaps (free_mset a + add_mset (k, p) L)"
  shows "\<exists>a'. pmem_drop a m = Inr a' \<and> buddy_inv a' L
     \<and> cover (free_mset a') = cover (add_mset (k, p) (free_mset a))
     \<and> (coalesced (free_mset a) \<longrightarrow> coalesced (free_mset a'))"
proof -
  have inv': "length (free_blocks a) = MAX_ORDER" "block_ok (k, p)" "\<forall>b\<in>#free_mset a + L. block_ok b"
    "\<forall>x. cover (add_mset (k, p) (free_mset a) + L) x \<le> 1" "amount_free a = bytes (free_mset a)"
    "amount_allocated a = bsz k + bytes L" "bytes (free_mset a) + (bsz k + bytes L) < usize_limit"
    using inv by (auto simp: buddy_inv_def)
  have k: "k < MAX_ORDER" using inv'(2) by (simp add: block_ok_def)
  obtain a1 where a1: "push_block k p a = Inr a1" "free_mset a1 = add_mset (k, p) (free_mset a)"
    "length (free_blocks a1) = MAX_ORDER" "amount_free a1 = amount_free a"
    "amount_allocated a1 = amount_allocated a"
    using push_block_ok[of k a p] k inv'(1) by auto
  have "free_ok a1"
    using inv' a1(2,3) cover_le_1_sub[OF inv'(4)] by (auto simp: free_ok_def)
  moreover have "has_gaps (free_mset a1)"
    using has_gaps_mono[OF gaps, of "free_mset a1"] by (simp add: a1(2))
  ultimately obtain a2 where a2: "merge_loop a1 k p = Inr a2" "free_ok a2"
    "cover (free_mset a2) = cover (free_mset a1)" "bytes (free_mset a2) = bytes (free_mset a1)"
    "amount_free a2 = amount_free a1" "amount_allocated a2 = amount_allocated a1"
    "only_pair (free_mset a1) k p \<longrightarrow> coalesced (free_mset a2)"
    using merge_loop_ok[of a1 k p] a1(2) by auto
  define a' where "a' = a2\<lparr>amount_allocated := bytes L, amount_free := bytes (free_mset a2)\<rparr>"
  have fm: "free_mset a' = free_mset a2" by (simp add: a'_def free_mset_def)
  have "pmem_drop a m = Inr a'"
    using m a1 a2 inv' k by (simp add: pmem_drop_def exec_simps a'_def add.commute)
  moreover have "\<forall>x. cover (free_mset a' + L) x \<le> 1"
    using inv'(4) a2(3) a1(2) fm by (simp only: cover_simps(2) simp_thms)
  then have "buddy_inv a' L"
    using a2(2,4) a1(2) inv'(3,7) fm unfolding buddy_inv_def free_ok_def by (auto simp: a'_def)
  moreover have "coalesced (free_mset a) \<longrightarrow> coalesced (free_mset a')"
    using a2(7) a1(2) fm coalesced_add_only_pair by simp
  ultimately show ?thesis using fm a2(3) a1(2) by auto
qed

section \<open>\<open>add_memory\<close>\<close>

text \<open>
  The smallest block \<open>add_memory\<close> adds has order 1.  A byte is usable in \<open>[s, e)\<close> when the
  aligned order-1 block around it lies inside the range.
\<close>

definition usable :: "nat \<Rightarrow> nat \<Rightarrow> nat \<Rightarrow> bool" where
  "usable s e x \<longleftrightarrow> s \<le> x div bsz 1 * bsz 1 \<and> x div bsz 1 * bsz 1 + bsz 1 \<le> e"

definition no_top_block :: "nat \<Rightarrow> nat \<Rightarrow> bool" where
  "no_top_block s e \<longleftrightarrow> (\<forall>q. bsz MAX_ORDER dvd q \<longrightarrow> s \<le> q \<longrightarrow> \<not> q + bsz MAX_ORDER \<le> e)"

definition added :: "buddy \<Rightarrow> nat \<Rightarrow> nat \<Rightarrow> block multiset \<Rightarrow> buddy \<Rightarrow> bool" where
  "added a s e N a' \<longleftrightarrow>
     length (free_blocks a') = MAX_ORDER \<and> free_mset a' = free_mset a + N
     \<and> amount_allocated a' = amount_allocated a \<and> amount_free a' = amount_free a + bytes N
     \<and> bytes N \<le> e - s \<and> (\<forall>b\<in>#N. block_ok b)
     \<and> (\<forall>x. cover N x = (if usable s e x then 1 else 0))"

lemma usable_cut:
  assumes "bsz 1 dvd m" and "s \<le> m" and "m \<le> e"
  shows "usable s e x \<longleftrightarrow> usable s m x \<or> usable m e x" and "\<not> (usable s m x \<and> usable m e x)"
proof -
  obtain c where c: "m = c * bsz 1" using assms(1) by (metis dvd_def mult.commute)
  define d where "d = x div bsz 1"
  have "d * bsz 1 + bsz 1 \<le> m \<longleftrightarrow> d < c"
    using mult_le_cancel2[of "Suc d" "bsz 1" c] by (auto simp: c)
  moreover have "m \<le> d * bsz 1 \<longleftrightarrow> c \<le> d" by (simp add: c)
  ultimately show "usable s e x \<longleftrightarrow> usable s m x \<or> usable m e x" "\<not> (usable s m x \<and> usable m e x)"
    using assms(2,3) by (auto simp: usable_def d_def)
qed

lemma usable_whole_block:
  assumes "0 < k" and "bsz k dvd s"
  shows "usable s (s + bsz k) x \<longleftrightarrow> has_byte (k, s) x"
proof -
  have d: "bsz 1 dvd bsz k" using assms(1) by (intro bsz_dvd) simp
  then obtain c n where c: "s = c * bsz 1" "bsz k = n * bsz 1"
    using assms(2) by (metis dvd_def dvd_trans mult.commute)
  have "usable s (s + bsz k) x \<longleftrightarrow> c \<le> x div bsz 1 \<and> Suc (x div bsz 1) \<le> c + n"
    using mult_le_cancel2[of "Suc (x div bsz 1)" "bsz 1" "c + n"] mult_le_cancel2[of c "bsz 1" "x div bsz 1"]
    by (simp add: usable_def c algebra_simps)
  also have "\<dots> \<longleftrightarrow> c * bsz 1 \<le> x \<and> x < (c + n) * bsz 1"
    by (simp add: less_eq_div_iff_mult_less_eq div_less_iff_less_mult Suc_le_eq)
  finally show ?thesis by (simp add: has_byte_def c distrib_right)
qed

lemma no_top_block_sub: "no_top_block s e \<Longrightarrow> s \<le> s' \<Longrightarrow> e' \<le> e \<Longrightarrow> no_top_block s' e'"
  by (fastforce simp: no_top_block_def)

lemma added_refl: "length (free_blocks a) = MAX_ORDER \<Longrightarrow> \<forall>x. \<not> usable s e x \<Longrightarrow> added a s e {#} a"
  by (simp add: added_def)

lemma added_trans:
  assumes "added a m e N1 a1" and "added a1 s m N2 a2" and "bsz 1 dvd m" and "s \<le> m" and "m \<le> e"
  shows "added a s e (N1 + N2) a2"
  using assms usable_cut[OF assms(3-5)] by (auto simp: added_def)

lemma add_memory_step:
  assumes "0 < k" and "k \<le> MAX_ORDER" and "s \<le> e" and lim: "e + bsz MAX_ORDER < usize_limit"
  defines "lo \<equiv> s div bsz k * bsz k"
  defines "m \<equiv> lo + bsz k"
  shows "add_memory_loop k a s e =
      exec_bind (if m < e then add_memory_loop MAX_ORDER a m e else Inr a) (\<lambda>a.
        if lo < s \<or> min m e < m then add_memory_loop (k - 1) a s (min m e)
        else exec_bind (push_block k lo a) (\<lambda>a.
             exec_bind (uadd (amount_free a) (bsz k)) (\<lambda>af. Inr (a\<lparr>amount_free := af\<rparr>))))"
    and "bsz k dvd lo" and "lo \<le> s" and "s < m"
proof -
  obtain k' where k': "k = Suc k'" using assms(1) by (cases k) auto
  show lo: "bsz k dvd lo" "lo \<le> s" "s < m"
    using dividend_less_div_times[of "bsz k" s] by (auto simp: lo_def m_def)
  have "bsz k \<le> bsz MAX_ORDER" using assms(2) by (rule bsz_mono)
  then have "m < usize_limit" using lo(2) assms(3) lim unfolding m_def by linarith
  then have b: "buddies k' s = Inr (lo, lo + bsz k')" and u: "uadd (lo + bsz k') (bsz k') = Inr m"
    using assms(2) by (auto simp: exec_dests k' lo_def m_def bsz_Suc)
  show "add_memory_loop k a s e =
      exec_bind (if m < e then add_memory_loop MAX_ORDER a m e else Inr a) (\<lambda>a.
        if lo < s \<or> min m e < m then add_memory_loop (k - 1) a s (min m e)
        else exec_bind (push_block k lo a) (\<lambda>a.
             exec_bind (uadd (amount_free a) (bsz k)) (\<lambda>af. Inr (a\<lparr>amount_free := af\<rparr>))))"
    using b u lo(2) assms(2)
    by (subst add_memory_loop.simps) (auto simp: k' block_size_ok min_def not_less)
qed

lemma add_memory_block:
  assumes "0 < k" and "bsz k dvd s" and "no_top_block s (s + bsz k)" and "k \<le> MAX_ORDER"
    and "s + bsz k < usize_limit" and "length (free_blocks a) = MAX_ORDER"
    and "amount_free a + bsz k < usize_limit"
  shows "\<exists>a'. exec_bind (push_block k s a) (\<lambda>a.
             exec_bind (uadd (amount_free a) (bsz k)) (\<lambda>af. Inr (a\<lparr>amount_free := af\<rparr>))) = Inr a'
           \<and> added a s (s + bsz k) {#(k, s)#} a'"
proof -
  have k: "k < MAX_ORDER" using assms(2-4) by (auto simp: no_top_block_def le_less)
  obtain a1 where a1: "push_block k s a = Inr a1" "free_mset a1 = add_mset (k, s) (free_mset a)"
    "length (free_blocks a1) = MAX_ORDER" "amount_free a1 = amount_free a"
    "amount_allocated a1 = amount_allocated a"
    using push_block_ok[of k a s] k assms(6) by auto
  have "added a s (s + bsz k) {#(k, s)#} (a1\<lparr>amount_free := amount_free a + bsz k\<rparr>)"
    using a1 k assms usable_whole_block[OF assms(1,2)]
    by (simp add: added_def free_mset_def block_ok_def)
  with a1 assms(7) show ?thesis by (simp add: exec_simps)
qed

lemma usable_none:
  assumes "bsz 1 dvd lo" and "lo \<le> s" and "e \<le> lo + bsz 1" and "lo < s \<or> e < lo + bsz 1"
  shows "\<not> usable s e x"
proof
  obtain c where c: "lo = c * bsz 1" using assms(1) by (metis dvd_def mult.commute)
  assume "usable s e x"
  then have u: "s \<le> x div bsz 1 * bsz 1" "x div bsz 1 * bsz 1 + bsz 1 \<le> e" by (auto simp: usable_def)
  then have "c * bsz 1 \<le> x div bsz 1 * bsz 1" "x div bsz 1 * bsz 1 \<le> c * bsz 1"
    using assms(2,3) c by linarith+
  then have "x div bsz 1 * bsz 1 = lo" using c by linarith
  then show False using u assms(4) by linarith
qed

lemma add_memory_loop_ok:
  assumes "s \<le> e" and "e + bsz MAX_ORDER < usize_limit" and "no_top_block s e"
    and "length (free_blocks a) = MAX_ORDER" and "amount_free a + (e - s) < usize_limit"
    and "k \<le> MAX_ORDER" and "k = 0 \<Longrightarrow> \<forall>x. \<not> usable s e x"
  shows "\<exists>a' N. add_memory_loop k a s e = Inr a' \<and> added a s e N a'"
  using assms
proof (induction "e - s" arbitrary: k a s e rule: less_induct)
  case less
  note outer = less.hyps
  show ?case using less.prems outer
  proof (induction k arbitrary: e a)
    case 0
    then show ?case using added_refl[of a s e] by (auto simp: add_memory_loop.simps)
  next
    case (Suc k)
    note step = add_memory_step[OF zero_less_Suc Suc.prems(6) Suc.prems(1,2)]
    define lo where "lo = s div bsz (Suc k) * bsz (Suc k)"
    define m where "m = lo + bsz (Suc k)"
    have lo: "bsz (Suc k) dvd lo" "lo \<le> s" "s < m" using step(2-4) by (auto simp: lo_def m_def)
    have "bsz (Suc k) dvd m" using lo(1) by (simp add: m_def)
    then have m1: "bsz 1 dvd m" using bsz_dvd[of 1 "Suc k"] dvd_trans by auto
    define e' where "e' = min m e"
    have e': "s \<le> e'" "e' \<le> e" "e' \<le> m" using lo(3) Suc.prems(1) by (auto simp: e'_def)
    have "\<exists>a1 N1. (if m < e then add_memory_loop MAX_ORDER a m e else Inr a) = Inr a1
            \<and> (if m < e then added a m e N1 a1 else a1 = a)"
    proof (cases "m < e")
      case True
      then show ?thesis
        using Suc.prems(8)[of e m a MAX_ORDER] Suc.prems(2-5) lo(3) no_top_block_sub[OF Suc.prems(3), of m e]
        by (auto simp: MAX_ORDER_def)
    qed auto
    then obtain a1 N1 where a1: "(if m < e then add_memory_loop MAX_ORDER a m e else Inr a) = Inr a1"
      "if m < e then added a m e N1 a1 else a1 = a" by blast
    have eq: "add_memory_loop (Suc k) a s e = (if lo < s \<or> e' < m then add_memory_loop k a1 s e'
        else exec_bind (push_block (Suc k) lo a1) (\<lambda>a.
             exec_bind (uadd (amount_free a) (bsz (Suc k))) (\<lambda>af. Inr (a\<lparr>amount_free := af\<rparr>))))"
      unfolding step(1)[of a, folded lo_def, folded m_def, folded e'_def] a1(1) by simp
    have pre: "length (free_blocks a1) = MAX_ORDER" "amount_free a1 + (e' - s) < usize_limit"
      using a1(2) Suc.prems(4,5) lo(3) by (auto simp: added_def e'_def split: if_splits)
    have "\<exists>a2 N2. add_memory_loop (Suc k) a s e = Inr a2 \<and> added a1 s e' N2 a2"
    proof (cases "lo < s \<or> e' < m")
      case True
      then have "k = 0 \<Longrightarrow> \<forall>x. \<not> usable s e' x"
        using usable_none[of lo s e'] lo e'(3) by (auto simp: m_def)
      then have "\<exists>a2 N2. add_memory_loop k a1 s e' = Inr a2 \<and> added a1 s e' N2 a2"
        using Suc.IH[of e' a1] Suc.prems(2,6,8) e' pre no_top_block_sub[OF Suc.prems(3), of s e']
        by fastforce
      then show ?thesis using True eq by simp
    next
      case False
      then have s: "lo = s" "e' = s + bsz (Suc k)" using lo(2) e'(3) by (auto simp: m_def)
      have "s + bsz (Suc k) < usize_limit" using s(2) e'(2) Suc.prems(2) by linarith
      then show ?thesis
        using add_memory_block[of "Suc k" s a1] False eq lo(1) s pre Suc.prems(6)
          no_top_block_sub[OF Suc.prems(3), of s e'] e'(2) by auto
    qed
    then obtain a2 N2 where a2: "add_memory_loop (Suc k) a s e = Inr a2" "added a1 s e' N2 a2" by blast
    show ?case
    proof (cases "m < e")
      case True
      then have "added a s e (N1 + N2) a2"
        using added_trans[of a m e N1 a1 s N2 a2] a1(2) a2(2) m1 lo(3) by (simp add: e'_def)
      then show ?thesis using a2(1) by blast
    next
      case False
      then show ?thesis using a1(2) a2 by (auto simp: e'_def)
    qed
  qed
qed

section \<open>The life of the allocator\<close>

text \<open>
  The states the kernel can bring the allocator to: start from the empty allocator, add ranges
  of physical memory, request blocks, and drop live allocations.  Ranges are non-empty, do not
  contain address 0 (it is below the end of the kernel image), do not overlap memory already
  handed over, and lie below 512 GiB, the size of an order-27 block.
\<close>

inductive pmem_reach :: "buddy \<Rightarrow> block multiset \<Rightarrow> bool" where
  pmem_init: "pmem_reach empty_buddy {#}"
| pmem_add: "pmem_reach a L \<Longrightarrow> 0 < s \<Longrightarrow> s \<le> e \<Longrightarrow> e < bsz MAX_ORDER
    \<Longrightarrow> (\<And>x. s \<le> x \<Longrightarrow> x < e \<Longrightarrow> cover (free_mset a + L) x = 0)
    \<Longrightarrow> bytes (free_mset a + L) + (e - s) < usize_limit
    \<Longrightarrow> add_memory a s e = Inr a' \<Longrightarrow> pmem_reach a' L"
| pmem_alloc: "pmem_reach a L \<Longrightarrow> size_valid n \<Longrightarrow> palloc a (PageAllocationSizeT n) = Inr (a', Some m)
    \<Longrightarrow> pmem_reach a' (add_mset (pma_block m) L)"
| pmem_free: "pmem_reach a L \<Longrightarrow> pma_block m \<in># L \<Longrightarrow> pmem_drop a m = Inr a'
    \<Longrightarrow> pmem_reach a' (L - {#pma_block m#})"

inductive_cases pmem_reach_emptyE: "pmem_reach empty_buddy L"

lemma lists_mset_replicate [simp]: "lists_mset k (replicate n []) = {#}"
  by (induction n arbitrary: k) auto

lemma free_mset_empty [simp]: "free_mset empty_buddy = {#}"
  by (simp add: empty_buddy_def free_mset_def)

lemma buddy_inv_empty: "buddy_inv empty_buddy {#}"
  by (simp add: buddy_inv_def, simp add: empty_buddy_def usize_limit_def)

lemma bsz_MAX_ORDER: "bsz MAX_ORDER = 2 ^ 39"
  by (simp add: bsz_def MAX_ORDER_def PAGE_ALIGN_def)

lemma no_top_block_low: "e < bsz MAX_ORDER \<Longrightarrow> no_top_block s e"
  by (auto simp: no_top_block_def)

lemma low_fits: "e < bsz MAX_ORDER \<Longrightarrow> e + bsz MAX_ORDER < usize_limit"
  by (simp add: bsz_MAX_ORDER usize_limit_def)

lemma usable_in_range: "usable s e x \<Longrightarrow> s \<le> x \<and> x < e"
  using div_times_less_eq_dividend[of x "bsz 1"] dividend_less_div_times[OF bsz_pos, of x 1]
  unfolding usable_def by linarith

lemma add_memory_inv:
  assumes inv: "buddy_inv a L" and "s \<le> e" and e: "e + bsz MAX_ORDER < usize_limit"
    and "no_top_block s e" and fresh: "\<And>x. s \<le> x \<Longrightarrow> x < e \<Longrightarrow> cover (free_mset a + L) x = 0"
    and room: "bytes (free_mset a + L) + (e - s) < usize_limit"
  shows "\<exists>a' N. add_memory a s e = Inr a' \<and> added a s e N a' \<and> buddy_inv a' L"
proof -
  have "amount_free a + (e - s) < usize_limit" "length (free_blocks a) = MAX_ORDER"
    using inv room by (auto simp: buddy_inv_def)
  then obtain a' N where a': "add_memory_loop MAX_ORDER a s e = Inr a'" "added a s e N a'"
    using add_memory_loop_ok[of s e a MAX_ORDER] assms(2-4) by (auto simp: MAX_ORDER_def)
  have "cover (free_mset a' + L) x \<le> 1" for x
    using a'(2) inv fresh[of x] usable_in_range[of s e x]
    by (cases "usable s e x") (auto simp: added_def buddy_inv_def)
  then have "buddy_inv a' L" using inv a'(2) room by (auto simp: buddy_inv_def added_def)
  then show ?thesis using a' by (auto simp: add_memory_def)
qed


definition low_cover :: "block multiset \<Rightarrow> bool" where
  "low_cover M \<longleftrightarrow> (\<forall>x. cover M x \<noteq> 0 \<longrightarrow> 0 < x \<and> x < bsz MAX_ORDER)"

lemma low_cover_cong: "cover M = cover N \<Longrightarrow> low_cover M = low_cover N"
  by (simp only: low_cover_def)

lemma low_cover_gaps:
  assumes "low_cover M" shows "has_gaps M"
  unfolding has_gaps_def
proof
  fix r
  have "cover M (r * bsz MAX_ORDER) = 0"
  proof (cases r)
    case 0
    then show ?thesis using assms unfolding low_cover_def by (metis less_nat_zero_code mult_0)
  next
    case (Suc n)
    then have "\<not> r * bsz MAX_ORDER < bsz MAX_ORDER" by simp
    then show ?thesis using assms unfolding low_cover_def by blast
  qed
  then show "\<exists>x. x div bsz MAX_ORDER = r \<and> cover M x = 0"
    by (metis bsz_pos nonzero_mult_div_cancel_right not_less_zero)
qed

lemma pmem_reach_inv:
  assumes "pmem_reach a L"
  shows "buddy_inv a L \<and> low_cover (free_mset a + L)"
  using assms
proof induction
  case pmem_init
  then show ?case using buddy_inv_empty by (simp add: low_cover_def)
next
  case (pmem_add a L s e a')
  obtain N where N: "added a s e N a'" "buddy_inv a' L"
    using add_memory_inv[OF _ pmem_add.hyps(3) low_fits no_top_block_low pmem_add.hyps(5,6)]
      pmem_add.hyps(4,7) pmem_add.IH by fastforce
  have "0 < x \<and> x < bsz MAX_ORDER" if "cover (free_mset a' + L) x \<noteq> 0" for x
  proof (cases "usable s e x")
    case True
    then show ?thesis using usable_in_range[OF True] pmem_add.hyps(2,4) by linarith
  next
    case False
    then have "cover (free_mset a + L) x \<noteq> 0" using that N(1) by (simp add: added_def)
    then show ?thesis using pmem_add.IH unfolding low_cover_def by blast
  qed
  then show ?case using N(2) unfolding low_cover_def by blast
next
  case (pmem_alloc a L n a' m)
  have "palloc_post a L n a' m"
    using palloc_cases[OF conjunct1[OF pmem_alloc.IH] pmem_alloc.hyps(2)] pmem_alloc.hyps(3) by auto
  then have "buddy_inv a' (add_mset (pma_block m) L)"
    "cover (add_mset (pma_block m) (free_mset a')) = cover (free_mset a)"
    by (auto simp: palloc_post_def split: prod.splits)
  moreover from this(2) have "cover (free_mset a' + add_mset (pma_block m) L) = cover (free_mset a + L)"
    by (auto simp: fun_eq_iff)
  ultimately show ?case using pmem_alloc.IH low_cover_cong by blast
next
  case (pmem_free a L m a')
  obtain k p where m: "pma_block m = (k, p)" by (cases "pma_block m")
  define L' where "L' = L - {#(k, p)#}"
  have L: "L = add_mset (k, p) L'" using pmem_free.hyps(2) m by (simp add: L'_def)
  have "buddy_inv a' L'" "cover (free_mset a') = cover (add_mset (k, p) (free_mset a))"
    using pmem_drop_cases[of a k p L' m] pmem_free.IH pmem_free.hyps(3) low_cover_gaps m L by auto
  moreover from this(2) have "cover (free_mset a' + L') = cover (free_mset a + L)"
    by (auto simp: fun_eq_iff L)
  ultimately show ?case using pmem_free.IH low_cover_cong m L'_def by metis
qed

section \<open>Properties\<close>

text \<open>C2: A request for \<open>n\<close> bytes never panics.  It fails exactly when no free block has
  \<open>n\<close> bytes, and then changes nothing; otherwise it returns the smallest block order that
  fits, whose address is aligned to its size, removes exactly those bytes from the free memory,
  and keeps the invariant with the new block live.\<close>

theorem palloc_correct:
  assumes "buddy_inv a L" and "size_valid n"
  shows "case palloc a (PageAllocationSizeT n) of
      Inl _ \<Rightarrow> False
    | Inr (a', None) \<Rightarrow> a' = a \<and> (\<forall>b\<in>#free_mset a. bsz (fst b) < n)
    | Inr (a', Some m) \<Rightarrow> palloc_post a L n a' m"
  using palloc_cases[OF assms] by (auto split: option.splits)


definition demo_buddy :: buddy where
  "demo_buddy = empty_buddy\<lparr>free_blocks := (replicate MAX_ORDER [])[1 := [8192]], amount_free := 8192\<rparr>"

lemma demo_blocks: "free_mset demo_buddy = {#(1, 8192)#}"
  by (simp add: demo_buddy_def free_mset_def MAX_ORDER_def numeral_eq_Suc)

lemma demo_bsz: "bsz 0 = 4096" "bsz 1 = 8192"
  by (simp_all add: bsz_def PAGE_ALIGN_def)

lemma demo_inv: "buddy_inv demo_buddy {#}"
  unfolding buddy_inv_def demo_blocks
  by (simp add: demo_bsz[unfolded One_nat_def] block_ok_def usize_limit_def,
      simp add: demo_buddy_def empty_buddy_def MAX_ORDER_def)

theorem palloc_correct_witness:
  "case palloc demo_buddy (PageAllocationSizeT 4096) of
      Inl _ \<Rightarrow> False
    | Inr (a', None) \<Rightarrow> a' = demo_buddy \<and> (\<forall>b\<in>#free_mset demo_buddy. bsz (fst b) < 4096)
    | Inr (a', Some m) \<Rightarrow> palloc_post demo_buddy {#} 4096 a' m"
  by (rule palloc_correct[OF demo_inv]) (simp add: size_valid_def PAGE_ALIGN_def)

text \<open>C20: Dropping a live allocation never panics as long as no 512 GiB region is completely
  owned; it keeps the invariant with the block no longer live, returns exactly its bytes to the
  free memory, and leaves no pair of free buddies unmerged if there was none before.\<close>

theorem pmem_drop_correct:
  assumes "buddy_inv a (add_mset (k, p) L)" and "pma_block m = (k, p)"
    and "has_gaps (free_mset a + add_mset (k, p) L)"
  shows "\<exists>a'. pmem_drop a m = Inr a' \<and> buddy_inv a' L
     \<and> cover (free_mset a') = cover (add_mset (k, p) (free_mset a))
     \<and> (coalesced (free_mset a) \<longrightarrow> coalesced (free_mset a'))"
  by (rule pmem_drop_cases[OF assms])

definition demo_live :: buddy where
  "demo_live = empty_buddy\<lparr>free_blocks := (replicate MAX_ORDER [])[0 := [12288]],
     amount_free := 4096, amount_allocated := 4096\<rparr>"

lemma demo_live_blocks: "free_mset demo_live = {#(0, 12288)#}"
  by (simp add: demo_live_def free_mset_def MAX_ORDER_def numeral_eq_Suc)

lemma demo_live_inv: "buddy_inv demo_live {#(0, 8192)#}"
  unfolding buddy_inv_def demo_live_blocks
  by (simp add: demo_bsz block_ok_def usize_limit_def has_byte_def,
      simp add: demo_live_def empty_buddy_def MAX_ORDER_def)

lemma demo_live_gaps: "has_gaps ({#(0, 12288)#} + {#(0, 8192)#})"
  by (rule low_cover_gaps) (simp add: low_cover_def has_byte_def demo_bsz bsz_MAX_ORDER)

theorem pmem_drop_correct_witness:
  "\<exists>a'. pmem_drop demo_live \<lparr>pma_addr = 8192, pma_size = PageAllocationSizeT 4096, pma_block = (0, 8192)\<rparr> = Inr a'
     \<and> buddy_inv a' {#} \<and> cover (free_mset a') = cover (add_mset (0, 8192) (free_mset demo_live))
     \<and> (coalesced (free_mset demo_live) \<longrightarrow> coalesced (free_mset a'))"
  by (rule pmem_drop_correct[OF demo_live_inv]) (simp_all add: demo_live_blocks demo_live_gaps[simplified])

text \<open>C21: \<open>add_memory\<close> on a fresh range that contains no aligned 512 GiB block returns; the
  blocks it adds are aligned, pairwise disjoint, disjoint from everything already owned, and
  together cover exactly the bytes whose aligned 8 KiB block lies inside the range; the free
  statistic grows by their total size.\<close>

theorem add_memory_correct:
  assumes "buddy_inv a L" and "s \<le> e" and "e + bsz MAX_ORDER < usize_limit" and "no_top_block s e"
    and "\<And>x. s \<le> x \<Longrightarrow> x < e \<Longrightarrow> cover (free_mset a + L) x = 0"
    and "bytes (free_mset a + L) + (e - s) < usize_limit"
  shows "\<exists>a' N. add_memory a s e = Inr a' \<and> buddy_inv a' L \<and> free_mset a' = free_mset a + N
     \<and> (\<forall>x. cover N x = (if usable s e x then 1 else 0)) \<and> amount_free a' = amount_free a + bytes N"
  using add_memory_inv[OF assms] by (auto simp: added_def)

theorem add_memory_correct_witness:
  "\<exists>a' N. add_memory empty_buddy 4096 40960 = Inr a' \<and> buddy_inv a' {#} \<and> free_mset a' = free_mset empty_buddy + N
     \<and> (\<forall>x. cover N x = (if usable 4096 40960 x then 1 else 0)) \<and> amount_free a' = amount_free empty_buddy + bytes N"
  by (rule add_memory_correct[OF buddy_inv_empty])
    (simp_all add: bsz_MAX_ORDER usize_limit_def no_top_block_low)

text \<open>C3: In every state the kernel can reach, no two blocks (free or live) share a byte, the
  two statistics are the free and the live totals, and neither a request nor the drop of a live
  allocation panics.\<close>

theorem pmem_reach_safe:
  assumes "pmem_reach a L"
  shows "(\<forall>x. cover (free_mset a + L) x \<le> 1)
     \<and> amount_free a = bytes (free_mset a) \<and> amount_allocated a = bytes L
     \<and> (\<forall>n. size_valid n \<longrightarrow> \<not> panics (palloc a (PageAllocationSizeT n)))
     \<and> (\<forall>m. pma_block m \<in># L \<longrightarrow> \<not> panics (pmem_drop a m))"
proof -
  have inv: "buddy_inv a L" "has_gaps (free_mset a + L)"
    using pmem_reach_inv[OF assms] low_cover_gaps by auto
  have "\<not> panics (palloc a (PageAllocationSizeT n))" if "size_valid n" for n
    using palloc_cases[OF inv(1) that] by auto
  moreover have "\<not> panics (pmem_drop a m)" if m: "pma_block m \<in># L" for m
  proof -
    obtain k p where kp: "pma_block m = (k, p)" by (cases "pma_block m")
    then have "L = add_mset (k, p) (L - {#(k, p)#})" using m by simp
    then show ?thesis using pmem_drop_cases[of a k p "L - {#(k, p)#}" m] inv kp by auto
  qed
  ultimately show ?thesis using inv(1) unfolding buddy_inv_def by blast
qed

theorem pmem_reach_safe_witness:
  "\<exists>a. add_memory empty_buddy 8192 40960 = Inr a \<and> cover (free_mset a + {#}) 8192 \<le> 1
     \<and> amount_free a = bytes (free_mset a) \<and> \<not> panics (palloc a (PageAllocationSizeT 4096))"
proof -
  have "(40960 :: nat) < bsz MAX_ORDER" by (simp add: bsz_MAX_ORDER)
  note low = low_fits[OF this] no_top_block_low[OF this, of 8192] this
  obtain a N where a: "add_memory empty_buddy 8192 40960 = Inr a"
    using add_memory_inv[OF buddy_inv_empty _ low(1,2)] by (auto simp: usize_limit_def)
  have "pmem_reach a {#}"
    by (rule pmem_add[OF pmem_init _ _ low(3) _ _ a]) (simp_all add: usize_limit_def)
  from pmem_reach_safe[OF this] a show ?thesis by (auto simp: size_valid_def PAGE_ALIGN_def)
qed

text \<open>The bound check of \<open>merge\<close> admits one order too many: dropping a block whose
  order-26 buddy is free indexes \<open>free_blocks\<close> past its end and panics.\<close>

theorem drop_top_buddy_panics:
  assumes "length (free_blocks a) = MAX_ORDER" and "pma_block m = (MAX_ORDER - 1, 0)"
    and "(MAX_ORDER - 1, bsz (MAX_ORDER - 1)) \<in># free_mset a"
  shows "pmem_drop a m = Inl IndexOutOfBounds"
proof -
  let ?k = "MAX_ORDER - 1"
  have k: "?k < MAX_ORDER" "Suc ?k = MAX_ORDER" by (simp_all add: MAX_ORDER_def)
  obtain a1 where a1: "push_block ?k 0 a = Inr a1" "free_mset a1 = add_mset (?k, 0) (free_mset a)"
    "length (free_blocks a1) = MAX_ORDER"
    using push_block_ok[of ?k a 0] k(1) assms(1) by auto
  have "bsz ?k < usize_limit"
    by (simp add: bsz_def MAX_ORDER_def PAGE_ALIGN_def usize_limit_def)
  then have "buddies ?k 0 = Inr (0, bsz ?k)" using k by (simp add: exec_dests)
  then have "merge a1 ?k 0 = Inl IndexOutOfBounds"
    using merge_top_order_panics[OF k(2) a1(3)] a1(2) assms(3) by simp
  then show ?thesis
    using a1(1) assms(2) by (simp add: pmem_drop_def merge_loop.simps)
qed

definition demo_top :: buddy where
  "demo_top = empty_buddy\<lparr>free_blocks := (replicate MAX_ORDER [])[26 := [274877906944]]\<rparr>"

end
