(* ===== verification/Multiboot.thy ===== *)
theory Multiboot
  imports Kernel_Prelude
begin

text \<open>
  The Multiboot2 boot information parser (\<open>coredrivers/parser/multiboot.rs\<close>).

  Memory is a function from addresses to bytes, and a C field of \<open>n\<close> bytes is read little-endian by
  \<open>read_le\<close>.  Pointer arithmetic is unbounded: the routine is unsafe and requires a well-formed
  information block, so the pointers stay inside one object.  The scan over the tags stops only at
  the end address of the block, which is why it is a \<open>partial_function\<close>: \<open>None\<close> is a scan that
  never ends.  \<open>boot_info\<close> writes an information block as the Multiboot2 specification lays it
  out, and the parser is shown to be its inverse.
\<close>

type_synonym memory = "nat \<Rightarrow> 8 word"

primrec read_le :: "memory \<Rightarrow> nat \<Rightarrow> nat \<Rightarrow> nat" where
  "read_le m a 0 = 0"
| "read_le m a (Suc n) = unat (m a) + 256 * read_le m (Suc a) n"

section \<open>The parsed tags\<close>

record mb_tag_header =
  tag_type :: nat
  tag_size :: nat

record memory_map_entry =
  base_addr :: nat
  entry_length :: nat
  mem_type :: nat
  entry_reserved :: nat

datatype mb_tag_contents =
    BasicMemInfo nat nat
  | MemoryMap nat nat "memory_map_entry list"
  | AcpiRsdpV1 nat
  | AcpiRsdpV2 nat
  | EndOfTags

record mb_tag =
  tag_header :: mb_tag_header
  tag_content :: mb_tag_contents

definition is_for_general_use :: "memory_map_entry \<Rightarrow> bool" where
  "is_for_general_use e \<longleftrightarrow> mem_type e = 1"

section \<open>Reading one tag\<close>

definition read_header :: "memory \<Rightarrow> nat \<Rightarrow> mb_tag_header" where
  "read_header m p = \<lparr>tag_type = read_le m p 4, tag_size = read_le m (p + 4) 4\<rparr>"

definition read_entry :: "memory \<Rightarrow> nat \<Rightarrow> memory_map_entry" where
  "read_entry m p = \<lparr>base_addr = read_le m p 8, entry_length = read_le m (p + 8) 8,
     mem_type = read_le m (p + 16) 4, entry_reserved = read_le m (p + 20) 4\<rparr>"

primrec read_entries :: "nat \<Rightarrow> memory \<Rightarrow> nat \<Rightarrow> nat \<Rightarrow> memory_map_entry list" where
  "read_entries 0 m entry_size p = []"
| "read_entries (Suc n) m entry_size p = read_entry m p # read_entries n m entry_size (p + entry_size)"

text \<open>The contents start 8 bytes after the header, the memory map's entries 16 bytes after it.\<close>

definition read_memory_map :: "memory \<Rightarrow> nat \<Rightarrow> mb_tag_header \<Rightarrow> mb_tag_contents exec" where
  "read_memory_map m p h = (let entry_size = read_le m (p + 8) 4; entry_version = read_le m (p + 12) 4 in
     exec_bind (usub (tag_size h) 16) (\<lambda>room.
     exec_bind (udiv room entry_size) (\<lambda>num_entries.
       Inr (MemoryMap entry_size entry_version (read_entries num_entries m entry_size (p + 16))))))"

definition read_tag :: "memory \<Rightarrow> nat \<Rightarrow> (mb_tag_header + mb_tag) exec" where
  "read_tag m p = (let h = read_header m p; ok = (\<lambda>c. Inr (Inr \<lparr>tag_header = h, tag_content = c\<rparr>)) in
     if tag_type h = 4 then ok (BasicMemInfo (read_le m (p + 8) 4) (read_le m (p + 12) 4))
     else if tag_type h = 6 then exec_bind (read_memory_map m p h) ok
     else if tag_type h = 14 then ok (AcpiRsdpV1 (p + 8))
     else if tag_type h = 15 then ok (AcpiRsdpV2 (p + 8))
     else if tag_type h = 0 then ok EndOfTags
     else Inr (Inl h))"

section \<open>The scan\<close>

definition next_tag :: "nat \<Rightarrow> nat \<Rightarrow> nat" where
  "next_tag p sz = (let q = p + sz in if q mod 8 \<noteq> 0 then q + (8 - q mod 8) else q)"

partial_function (option) read_tags :: "memory \<Rightarrow> nat \<Rightarrow> nat \<Rightarrow> mb_tag list \<Rightarrow> mb_tag list exec option" where
  "read_tags m p tags_end tags =
     (if p < tags_end then
        (case read_tag m p of
           Inl e \<Rightarrow> Some (Inl e)
         | Inr (Inr t) \<Rightarrow> read_tags m (next_tag p (tag_size (tag_header t))) tags_end (tags @ [t])
         | Inr (Inl h) \<Rightarrow> read_tags m (next_tag p (tag_size h)) tags_end tags)
      else Some (Inr tags))"

definition MULTIBOOT_TAGS :: "memory \<Rightarrow> nat \<Rightarrow> mb_tag list exec option" where
  "MULTIBOOT_TAGS m p = (let total_size = read_le m p 4 in read_tags m (p + 8) (p + total_size) [])"

primrec MULTIBOOT_MEMORY_MAP :: "mb_tag list \<Rightarrow> memory_map_entry list option" where
  "MULTIBOOT_MEMORY_MAP [] = None"
| "MULTIBOOT_MEMORY_MAP (t # ts) =
     (case tag_content t of MemoryMap _ _ entries \<Rightarrow> Some entries | _ \<Rightarrow> MULTIBOOT_MEMORY_MAP ts)"

primrec ACPI_RSDP_V1_PHYSADDR :: "(nat \<Rightarrow> nat) \<Rightarrow> mb_tag list \<Rightarrow> nat option" where
  "ACPI_RSDP_V1_PHYSADDR virt_to_phys [] = None"
| "ACPI_RSDP_V1_PHYSADDR virt_to_phys (t # ts) =
     (case tag_content t of AcpiRsdpV1 a \<Rightarrow> Some (virt_to_phys a) | _ \<Rightarrow> ACPI_RSDP_V1_PHYSADDR virt_to_phys ts)"

primrec ACPI_RSDP_V2_PHYSADDR :: "(nat \<Rightarrow> nat) \<Rightarrow> mb_tag list \<Rightarrow> nat option" where
  "ACPI_RSDP_V2_PHYSADDR virt_to_phys [] = None"
| "ACPI_RSDP_V2_PHYSADDR virt_to_phys (t # ts) =
     (case tag_content t of AcpiRsdpV2 a \<Rightarrow> Some (virt_to_phys a) | _ \<Rightarrow> ACPI_RSDP_V2_PHYSADDR virt_to_phys ts)"

section \<open>The layout of an information block\<close>

datatype boot_tag =
    InfoTag nat nat
  | MapTag nat nat "memory_map_entry list"
  | RsdpTag bool "8 word list"
  | LastTag
  | OtherTag nat "8 word list"

primrec le_bytes :: "nat \<Rightarrow> nat \<Rightarrow> 8 word list" where
  "le_bytes 0 v = []"
| "le_bytes (Suc n) v = word_of_nat v # le_bytes n (v div 256)"

definition entry_bytes :: "nat \<Rightarrow> memory_map_entry \<Rightarrow> 8 word list" where
  "entry_bytes entry_size e = le_bytes 8 (base_addr e) @ le_bytes 8 (entry_length e)
     @ le_bytes 4 (mem_type e) @ le_bytes 4 (entry_reserved e) @ replicate (entry_size - 24) 0"

fun tag_body :: "boot_tag \<Rightarrow> 8 word list" where
  "tag_body (InfoTag lo hi) = le_bytes 4 lo @ le_bytes 4 hi"
| "tag_body (MapTag es ver ens) = le_bytes 4 es @ le_bytes 4 ver @ concat (map (entry_bytes es) ens)"
| "tag_body (RsdpTag v2 bs) = bs"
| "tag_body LastTag = []"
| "tag_body (OtherTag ty bs) = bs"

fun type_code :: "boot_tag \<Rightarrow> nat" where
  "type_code (InfoTag lo hi) = 4"
| "type_code (MapTag es ver ens) = 6"
| "type_code (RsdpTag v2 bs) = (if v2 then 15 else 14)"
| "type_code LastTag = 0"
| "type_code (OtherTag ty bs) = ty"

definition tag_bytes :: "boot_tag \<Rightarrow> 8 word list" where
  "tag_bytes t = le_bytes 4 (type_code t) @ le_bytes 4 (8 + length (tag_body t)) @ tag_body t"

definition padded :: "8 word list \<Rightarrow> 8 word list" where
  "padded bs = bs @ replicate ((8 - length bs mod 8) mod 8) 0"

definition tags_bytes :: "boot_tag list \<Rightarrow> 8 word list" where
  "tags_bytes ts = concat (map (\<lambda>t. padded (tag_bytes t)) ts)"

definition boot_info :: "boot_tag list \<Rightarrow> 8 word list" where
  "boot_info ts = le_bytes 4 (8 + length (tags_bytes ts)) @ le_bytes 4 0 @ tags_bytes ts"

definition entry_fits :: "memory_map_entry \<Rightarrow> bool" where
  "entry_fits e \<longleftrightarrow> base_addr e < 2 ^ 64 \<and> entry_length e < 2 ^ 64 \<and> mem_type e < 2 ^ 32 \<and> entry_reserved e < 2 ^ 32"

fun boot_tag_ok :: "boot_tag \<Rightarrow> bool" where
  "boot_tag_ok (InfoTag lo hi) \<longleftrightarrow> lo < 2 ^ 32 \<and> hi < 2 ^ 32"
| "boot_tag_ok (MapTag es ver ens) \<longleftrightarrow> 24 \<le> es \<and> es < 2 ^ 32 \<and> ver < 2 ^ 32 \<and> list_all entry_fits ens"
| "boot_tag_ok (RsdpTag v2 bs) \<longleftrightarrow> True"
| "boot_tag_ok LastTag \<longleftrightarrow> True"
| "boot_tag_ok (OtherTag ty bs) \<longleftrightarrow> ty < 2 ^ 32 \<and> ty \<notin> {0, 4, 6, 14, 15}"

fun contents_at :: "nat \<Rightarrow> boot_tag \<Rightarrow> mb_tag_contents option" where
  "contents_at p (InfoTag lo hi) = Some (BasicMemInfo lo hi)"
| "contents_at p (MapTag es ver ens) = Some (MemoryMap es ver ens)"
| "contents_at p (RsdpTag v2 bs) = Some (if v2 then AcpiRsdpV2 (p + 8) else AcpiRsdpV1 (p + 8))"
| "contents_at p LastTag = Some EndOfTags"
| "contents_at p (OtherTag ty bs) = None"

definition header_of :: "boot_tag \<Rightarrow> mb_tag_header" where
  "header_of t = \<lparr>tag_type = type_code t, tag_size = 8 + length (tag_body t)\<rparr>"

primrec parsed :: "nat \<Rightarrow> boot_tag list \<Rightarrow> mb_tag list" where
  "parsed p [] = []"
| "parsed p (t # ts) =
     (case contents_at p t of None \<Rightarrow> [] | Some c \<Rightarrow> [\<lparr>tag_header = header_of t, tag_content = c\<rparr>])
     @ parsed (p + length (padded (tag_bytes t))) ts"

fun map_entries :: "boot_tag list \<Rightarrow> memory_map_entry list option" where
  "map_entries [] = None"
| "map_entries (MapTag es ver ens # ts) = Some ens"
| "map_entries (_ # ts) = map_entries ts"

primrec mem_has :: "memory \<Rightarrow> nat \<Rightarrow> 8 word list \<Rightarrow> bool" where
  "mem_has m p [] \<longleftrightarrow> True"
| "mem_has m p (b # bs) \<longleftrightarrow> m p = b \<and> mem_has m (Suc p) bs"

section \<open>Lemmas\<close>

lemma mem_has_append: "mem_has m p (xs @ ys) \<longleftrightarrow> mem_has m p xs \<and> mem_has m (p + length xs) ys"
  by (induction xs arbitrary: p) auto

lemma length_le_bytes [simp]: "length (le_bytes n v) = n"
  by (induction n arbitrary: v) auto

lemma read_le_bytes:
  "mem_has m p (le_bytes n v) \<Longrightarrow> v < 256 ^ n \<Longrightarrow> read_le m p n = v"
proof (induction n arbitrary: p v)
  case (Suc n)
  then have "v div 256 < 256 ^ n" by (simp add: less_mult_imp_div_less mult.commute)
  then have "read_le m (Suc p) n = v div 256" using Suc by simp
  moreover have "unat (m p) = v mod 256" using Suc.prems by (simp add: unat_of_nat)
  ultimately show ?case by simp
qed simp

lemma read_le_numeral:
  "read_le m a (numeral k) = unat (m a) + 256 * read_le m (Suc a) (pred_numeral k)"
  by (simp add: numeral_eq_Suc)

lemma length_entry_bytes: "24 \<le> es \<Longrightarrow> length (entry_bytes es e) = es"
  by (simp add: entry_bytes_def)

lemma read_entry_bytes:
  assumes "mem_has m p (entry_bytes es e)" and "entry_fits e"
  shows "read_entry m p = e"
  using assms by (simp add: mem_has_append entry_bytes_def entry_fits_def read_entry_def read_le_bytes add.assoc)

lemma read_entries_bytes:
  assumes "mem_has m p (concat (map (entry_bytes es) ens))" and "24 \<le> es" and "list_all entry_fits ens"
  shows "read_entries (length ens) m es p = ens"
  using assms by (induction ens arbitrary: p) (auto simp: mem_has_append length_entry_bytes intro: read_entry_bytes)

lemma length_entries_bytes: "24 \<le> es \<Longrightarrow> length (concat (map (entry_bytes es) ens)) = length ens * es"
  by (induction ens) (simp_all add: length_entry_bytes)

lemma type_code_fits: "boot_tag_ok t \<Longrightarrow> type_code t < 2 ^ 32"
  by (cases t) auto

lemma read_header_bytes:
  assumes "mem_has m p (tag_bytes t)" and "boot_tag_ok t" and "8 + length (tag_body t) < 2 ^ 32"
  shows "read_header m p = header_of t"
  using assms type_code_fits[OF assms(2)]
  by (simp add: mem_has_append tag_bytes_def read_header_def header_of_def read_le_bytes)

lemma read_tag_bytes:
  assumes "mem_has m p (tag_bytes t)" and "boot_tag_ok t" and "8 + length (tag_body t) < 2 ^ 32"
  shows "read_tag m p = Inr (case contents_at p t of
     None \<Rightarrow> Inl (header_of t) | Some c \<Rightarrow> Inr \<lparr>tag_header = header_of t, tag_content = c\<rparr>)"
proof (cases t)
  case (MapTag es ver ens)
  have "read_le m (p + 8) 4 = es" "read_le m (p + 12) 4 = ver" "24 \<le> es"
    "read_entries (length ens) m es (p + 16) = ens"
    using assms(1,2) MapTag by (auto simp: mem_has_append tag_bytes_def add.assoc intro!: read_le_bytes read_entries_bytes)
  then have "read_memory_map m p (header_of t) = Inr (MemoryMap es ver ens)"
    using MapTag by (simp add: read_memory_map_def header_of_def length_entries_bytes usub_def udiv_def)
  then show ?thesis using MapTag by (simp add: read_tag_def read_header_bytes[OF assms]) (simp add: header_of_def)
next
  case (InfoTag lo hi)
  then have "read_le m (p + 8) 4 = lo" "read_le m (p + 12) 4 = hi"
    using assms(1,2) by (auto simp: mem_has_append tag_bytes_def add.assoc intro!: read_le_bytes)
  then show ?thesis using InfoTag by (simp add: read_tag_def read_header_bytes[OF assms]) (simp add: header_of_def)
qed (use assms(2) in \<open>auto simp: read_tag_def read_header_bytes[OF assms] header_of_def\<close>)


lemma length_padded: "length (padded bs) = length bs + (8 - length bs mod 8) mod 8"
  by (simp add: padded_def)

lemma round_up_8:
  fixes n :: nat
  shows "n + (8 - n mod 8) mod 8 = (if n mod 8 \<noteq> 0 then 8 * (n div 8) + 8 else n)"
proof -
  have "n mod 8 < 8" "n = 8 * (n div 8) + n mod 8" by simp_all
  then show ?thesis by (cases "n mod 8 = 0") (simp, simp add: mod_less, arith)
qed

lemma length_padded_mod: "length (padded bs) mod 8 = 0"
  by (simp add: length_padded round_up_8)

lemma next_tag_padded:
  assumes "p mod 8 = 0"
  shows "next_tag p (length bs) = p + length (padded bs)"
proof -
  have "(p + length bs) mod 8 = length bs mod 8" using assms by (metis add_0 mod_add_left_eq)
  then show ?thesis by (simp add: next_tag_def length_padded Let_def add.assoc)
qed

lemma length_tag_bytes: "length (tag_bytes t) = tag_size (header_of t)"
  by (simp add: tag_bytes_def header_of_def)

lemma tags_bytes_Cons [simp]: "tags_bytes (t # ts) = padded (tag_bytes t) @ tags_bytes ts" "tags_bytes [] = []"
  by (simp_all add: tags_bytes_def)

lemma read_tags_bytes:
  assumes "mem_has m p (tags_bytes ts)" and "p mod 8 = 0" and "list_all boot_tag_ok ts"
    and "length (tags_bytes ts) < 2 ^ 32"
  shows "read_tags m p (p + length (tags_bytes ts)) acc = Some (Inr (acc @ parsed p ts))"
  using assms
proof (induction ts arbitrary: p acc)
  case Nil
  then show ?case by (simp add: read_tags.simps)
next
  case (Cons t ts)
  let ?q = "p + length (padded (tag_bytes t))"
  have len: "8 + length (tag_body t) \<le> length (padded (tag_bytes t))"
    by (simp add: padded_def tag_bytes_def)
  have tag: "read_tag m p = Inr (case contents_at p t of
      None \<Rightarrow> Inl (header_of t) | Some c \<Rightarrow> Inr \<lparr>tag_header = header_of t, tag_content = c\<rparr>)"
    using Cons.prems len by (intro read_tag_bytes) (auto simp: mem_has_append padded_def)
  have nxt: "next_tag p (tag_size (header_of t)) = ?q"
    using Cons.prems(2) next_tag_padded[of p "tag_bytes t"] by (simp add: length_tag_bytes)
  have "?q mod 8 = 0" using Cons.prems(2) length_padded_mod[of "tag_bytes t"] by presburger
  then have "read_tags m ?q (?q + length (tags_bytes ts)) acc' = Some (Inr (acc' @ parsed ?q ts))" for acc'
    using Cons by (simp add: mem_has_append)
  moreover have "padded (tag_bytes t) \<noteq> []" using len by auto
  ultimately show ?case using tag nxt
    by (subst read_tags.simps) (simp add: add.assoc split: option.split)
qed

lemma memory_map_parsed: "MULTIBOOT_MEMORY_MAP (parsed p ts) = map_entries ts"
  by (induction ts arbitrary: p rule: map_entries.induct) simp_all

definition stuck_tag :: "memory \<Rightarrow> nat \<Rightarrow> nat \<Rightarrow> bool" where
  "stuck_tag m p e \<longleftrightarrow> p < e \<and> p mod 8 = 0 \<and> tag_size (read_header m p) = 0 \<and> tag_type (read_header m p) \<noteq> 6"

lemma read_stuck_tag:
  assumes "stuck_tag m p e"
  shows "\<exists>c. read_tag m p = Inr (Inr \<lparr>tag_header = read_header m p, tag_content = c\<rparr>)
      \<or> read_tag m p = Inr (Inl (read_header m p))"
  using assms by (auto simp: stuck_tag_def read_tag_def Let_def)

lemma stuck_tag_loops:
  assumes "read_tags m p e acc = Some r"
  shows "\<not> stuck_tag m p e"
proof (rule read_tags.raw_induct[OF _ assms])
  fix f m p e acc r
  assume IH: "\<And>m p e acc r. f m p e acc = Some r \<Longrightarrow> \<not> stuck_tag m p e"
    and step: "(if p < e then case read_tag m p of Inl e \<Rightarrow> Some (Inl e)
        | Inr (Inl h) \<Rightarrow> f m (next_tag p (tag_size h)) e acc
        | Inr (Inr t) \<Rightarrow> f m (next_tag p (tag_size (tag_header t))) e (acc @ [t])
      else Some (Inr acc)) = Some r"
  show "\<not> stuck_tag m p e"
  proof
    assume st: "stuck_tag m p e"
    then have "next_tag p (tag_size (read_header m p)) = p" "p < e" by (simp_all add: stuck_tag_def next_tag_def)
    then have "\<exists>acc'. f m p e acc' = Some r" using step read_stuck_tag[OF st] by auto
    then show False using IH st by blast
  qed
qed

section \<open>Properties\<close>

text \<open>C23: The parser is the inverse of the Multiboot2 layout.  On an 8-aligned information block
  of any list of well-formed tags the scan terminates without a panic and returns exactly the tags
  of known types, in order, with their headers and contents; the memory map it finds is the one of
  the first memory map tag.\<close>

theorem multiboot_roundtrip:
  assumes "mem_has m p (boot_info ts)" and "p mod 8 = 0" and "list_all boot_tag_ok ts"
    and "8 + length (tags_bytes ts) < 2 ^ 32"
  shows "\<exists>tags. MULTIBOOT_TAGS m p = Some (Inr tags) \<and> tags = parsed (p + 8) ts
     \<and> MULTIBOOT_MEMORY_MAP tags = map_entries ts"
proof -
  have "read_le m p 4 = 8 + length (tags_bytes ts)"
    using assms(1,4) by (auto simp: mem_has_append boot_info_def intro!: read_le_bytes)
  moreover have "mem_has m (p + 8) (tags_bytes ts)" using assms(1) by (simp add: boot_info_def mem_has_append add.assoc)
  moreover have "(p + 8) mod 8 = 0" using assms(2) by presburger
  ultimately show ?thesis
    using read_tags_bytes[of m "p + 8" ts "[]"] assms(3,4)
    by (simp add: MULTIBOOT_TAGS_def memory_map_parsed add.assoc)
qed

definition demo_boot_tags :: "boot_tag list" where
  "demo_boot_tags = [OtherTag 1 [7, 7, 7], MapTag 24 0 [\<lparr>base_addr = 1048576, entry_length = 4096, mem_type = 1, entry_reserved = 0\<rparr>], LastTag]"

lemma mem_has_bytes: "mem_has (\<lambda>a. (replicate p 0 @ bs) ! a) p bs"
proof -
  have "mem_has (\<lambda>a. (xs @ bs) ! a) (length xs) bs" for xs
    by (induction bs arbitrary: xs) (auto, metis append.assoc append_Cons append_Nil length_append_singleton)
  from this[of "replicate p 0"] show ?thesis by simp
qed

theorem multiboot_roundtrip_witness:
  "\<exists>tags. MULTIBOOT_TAGS (\<lambda>a. (replicate 16 0 @ boot_info demo_boot_tags) ! a) 16 = Some (Inr tags)
     \<and> length tags = 2
     \<and> MULTIBOOT_MEMORY_MAP tags = Some [\<lparr>base_addr = 1048576, entry_length = 4096, mem_type = 1, entry_reserved = 0\<rparr>]"
proof -
  have "list_all boot_tag_ok demo_boot_tags" "8 + length (tags_bytes demo_boot_tags) < 2 ^ 32"
    by (simp_all add: demo_boot_tags_def entry_fits_def padded_def tag_bytes_def entry_bytes_def)
  moreover have "length (parsed (16 + 8) demo_boot_tags) = 2"
    "map_entries demo_boot_tags = Some [\<lparr>base_addr = 1048576, entry_length = 4096, mem_type = 1, entry_reserved = 0\<rparr>]"
    by (simp_all add: demo_boot_tags_def)
  ultimately show ?thesis using multiboot_roundtrip[OF mem_has_bytes, of 16 demo_boot_tags] by simp
qed

text \<open>The scan does not stop at the terminating tag and does not check tag sizes: it never
  returns when it meets a tag that declares size 0.\<close>

theorem zero_size_tag_never_returns:
  assumes "p mod 8 = 0" and "8 < read_le m p 4" and "tag_size (read_header m (p + 8)) = 0"
    and "tag_type (read_header m (p + 8)) \<noteq> 6"
  shows "MULTIBOOT_TAGS m p = None"
proof -
  have "(p + 8) mod 8 = 0" using assms(1) by presburger
  then show ?thesis
    using stuck_tag_loops[of m "p + 8" "p + read_le m p 4" "[]"] assms(2-4)
    by (cases "read_tags m (p + 8) (p + read_le m p 4) []") (auto simp: MULTIBOOT_TAGS_def stuck_tag_def)
qed

end
