(* ===== verification/Physical_Init.thy ===== *)
theory Physical_Init
  imports Buddy_Allocator Multiboot
begin

text \<open>
  Feeding the boot loader's memory map to the physical allocator (\<open>init_pmem\<close> in
  \<open>memory/physical.rs\<close>).  The end of the kernel image comes from the linker and is the parameter
  \<open>kend\<close>.  The proof composes the behaviour of \<open>add_memory\<close> over the entries of the map.
\<close>

section \<open>Definitions\<close>

definition init_range :: "nat \<Rightarrow> buddy \<Rightarrow> nat \<Rightarrow> nat \<Rightarrow> buddy exec" where
  "init_range kend a start_addr end_addr =
     (if start_addr \<ge> kend then add_memory a start_addr end_addr
      else if end_addr > kend then add_memory a kend end_addr
      else Inr a)"

fun init_entries :: "nat \<Rightarrow> memory_map_entry list \<Rightarrow> buddy \<Rightarrow> nat \<Rightarrow> (buddy \<times> nat) exec" where
  "init_entries kend [] a total_general_use = Inr (a, total_general_use)"
| "init_entries kend (e # es) a total_general_use =
     (if \<not> is_for_general_use e then init_entries kend es a total_general_use
      else exec_bind (uadd total_general_use (entry_length e)) (\<lambda>total.
           exec_bind (uadd (base_addr e) (entry_length e)) (\<lambda>end_addr.
           exec_bind (init_range kend a (base_addr e) end_addr) (\<lambda>a.
             init_entries kend es a total))))"

text \<open>The last line of \<open>init_pmem\<close> computes the amount added for the log.\<close>

definition init_pmem :: "nat \<Rightarrow> memory_map_entry list \<Rightarrow> buddy \<Rightarrow> (buddy \<times> nat \<times> nat) exec" where
  "init_pmem kend mmap a = (let prev_free = amount_free a in
     exec_bind (init_entries kend mmap a 0) (\<lambda>(a, total_general_use).
     exec_bind (usub (amount_free a) prev_free) (\<lambda>total_added.
       Inr (a, total_general_use, total_added))))"

section \<open>The memory a map offers\<close>

definition offer :: "nat \<Rightarrow> memory_map_entry \<Rightarrow> (nat \<times> nat) list" where
  "offer kend e = (if is_for_general_use e \<and> kend \<le> base_addr e then [(base_addr e, base_addr e + entry_length e)]
     else if is_for_general_use e \<and> kend < base_addr e + entry_length e then [(kend, base_addr e + entry_length e)]
     else [])"

definition offers :: "nat \<Rightarrow> memory_map_entry list \<Rightarrow> (nat \<times> nat) list" where
  "offers kend es = concat (map (offer kend) es)"

text \<open>How often a byte lies in a whole aligned 8 KiB block of an offered range.\<close>

definition usable_count :: "(nat \<times> nat) list \<Rightarrow> nat \<Rightarrow> nat" where
  "usable_count rs x = length (filter (\<lambda>(s, e). usable s e x) rs)"

definition range_count :: "(nat \<times> nat) list \<Rightarrow> nat \<Rightarrow> nat" where
  "range_count rs x = length (filter (\<lambda>(s, e). s \<le> x \<and> x < e) rs)"

definition total_use :: "memory_map_entry list \<Rightarrow> nat" where
  "total_use es = sum_list (map entry_length (filter is_for_general_use es))"

definition map_ok :: "memory_map_entry list \<Rightarrow> bool" where
  "map_ok es \<longleftrightarrow> (\<forall>e\<in>set es. base_addr e + entry_length e < bsz MAX_ORDER)"

lemma map_ok_Cons [simp]: "map_ok (e # es) \<longleftrightarrow> base_addr e + entry_length e < bsz MAX_ORDER \<and> map_ok es" "map_ok []"
  by (simp_all add: map_ok_def)

lemma offers_Cons [simp]: "offers kend (e # es) = offer kend e @ offers kend es" "offers kend [] = []"
  by (simp_all add: offers_def)

lemma total_use_Cons [simp]:
  "total_use (e # es) = (if is_for_general_use e then entry_length e else 0) + total_use es" "total_use [] = 0"
  by (simp_all add: total_use_def)

lemma counts_append [simp]:
  "usable_count (xs @ ys) x = usable_count xs x + usable_count ys x"
  "range_count (xs @ ys) x = range_count xs x + range_count ys x"
  "usable_count [] x = 0" "range_count [] x = 0"
  "usable_count [(s, e)] x = (if usable s e x then 1 else 0)"
  "range_count [(s, e)] x = (if s \<le> x \<and> x < e then 1 else 0)"
  by (simp_all add: usable_count_def range_count_def)

section \<open>Lemmas\<close>

text \<open>One range, added or skipped.\<close>

lemma init_range_ok:
  assumes inv: "buddy_inv a L" and len: "b + l < bsz MAX_ORDER"
    and fresh: "\<And>x. cover (free_mset a + L) x + range_count rs x \<le> 1"
    and rs: "rs = (if kend \<le> b then [(b, b + l)] else if kend < b + l then [(kend, b + l)] else [])"
    and room: "bytes (free_mset a + L) + l < usize_limit"
  shows "\<exists>a' N. init_range kend a b (b + l) = Inr a' \<and> buddy_inv a' L \<and> free_mset a' = free_mset a + N
     \<and> bytes N \<le> l \<and> (\<forall>x. cover N x = usable_count rs x) \<and> amount_free a' = amount_free a + bytes N"
proof -
  have add: "\<exists>a' N. add_memory a s (b + l) = Inr a' \<and> buddy_inv a' L \<and> free_mset a' = free_mset a + N
     \<and> bytes N \<le> l \<and> (\<forall>x. cover N x = (if usable s (b + l) x then 1 else 0)) \<and> amount_free a' = amount_free a + bytes N"
    if s: "b \<le> s" "s \<le> b + l" "rs = [(s, b + l)]" for s
  proof -
    have "cover (free_mset a + L) x = 0" if "s \<le> x" "x < b + l" for x
      using fresh[of x] s that by simp
    then show ?thesis
      using add_memory_inv[OF inv s(2) low_fits[OF len] no_top_block_low[OF len]] room s(1)
      by (fastforce simp: added_def)
  qed
  consider "kend \<le> b" | "b < kend" "kend < b + l" | "b < kend" "b + l \<le> kend" by linarith
  then show ?thesis
  proof cases
    case 3
    then show ?thesis using inv rs by (intro exI[of _ a] exI[of _ "{#}"]) (simp add: init_range_def)
  qed (use add[of b] add[of kend] rs in \<open>auto simp: init_range_def\<close>)
qed

lemma init_entries_ok:
  assumes "buddy_inv a L" and "map_ok es" and "\<And>x. cover (free_mset a + L) x + range_count (offers kend es) x \<le> 1"
    and "bytes (free_mset a + L) + total_use es < usize_limit" and "t + total_use es < usize_limit"
  shows "\<exists>a' N. init_entries kend es a t = Inr (a', t + total_use es) \<and> buddy_inv a' L
     \<and> free_mset a' = free_mset a + N \<and> (\<forall>x. cover N x = usable_count (offers kend es) x)
     \<and> amount_free a' = amount_free a + bytes N"
  using assms
proof (induction es arbitrary: a t)
  case Nil
  then show ?case by (intro exI[of _ a] exI[of _ "{#}"]) simp
next
  case (Cons e es)
  show ?case
  proof (cases "is_for_general_use e")
    case False
    then show ?thesis using Cons by (simp add: offer_def)
  next
    case True
    let ?b = "base_addr e" and ?l = "entry_length e"
    have of: "offer kend e = (if kend \<le> ?b then [(?b, ?b + ?l)] else if kend < ?b + ?l then [(kend, ?b + ?l)] else [])"
      using True by (simp add: offer_def)
    have len: "?b + ?l < bsz MAX_ORDER" and room: "bytes (free_mset a + L) + ?l < usize_limit"
      using Cons.prems(2,4) True by auto
    have fresh: "cover (free_mset a + L) x + range_count (offer kend e) x \<le> 1" for x
      using Cons.prems(3)[of x] by simp
    obtain a1 N where a1: "init_range kend a ?b (?b + ?l) = Inr a1" "buddy_inv a1 L"
      "free_mset a1 = free_mset a + N" "bytes N \<le> ?l" "\<forall>x. cover N x = usable_count (offer kend e) x"
      "amount_free a1 = amount_free a + bytes N"
      using init_range_ok[OF Cons.prems(1) len fresh of room] by blast
    have "usable_count (offer kend e) x \<le> range_count (offer kend e) x" for x
      by (auto simp: of dest: usable_in_range)
    then have "cover N x \<le> range_count (offer kend e) x" for x using a1(5) by simp
    then have "cover (free_mset a1 + L) x + range_count (offers kend es) x
        \<le> cover (free_mset a + L) x + range_count (offers kend (e # es)) x" for x using a1(3) by simp
    then have "cover (free_mset a1 + L) x + range_count (offers kend es) x \<le> 1" for x
      using Cons.prems(3) le_trans by blast
    then obtain a' N' where "init_entries kend es a1 (t + ?l) = Inr (a', t + ?l + total_use es)" "buddy_inv a' L"
      "free_mset a' = free_mset a1 + N'" "\<forall>x. cover N' x = usable_count (offers kend es) x"
      "amount_free a' = amount_free a1 + bytes N'"
      using Cons.IH[OF a1(2), of "t + ?l"] Cons.prems(2,4,5) a1(3,4) True by auto
    then show ?thesis
      using a1 True Cons.prems(2,5)
      by (intro exI[of _ a'] exI[of _ "N + N'"]) (auto simp: uadd_def usize_limit_def bsz_MAX_ORDER)
  qed
qed

section \<open>Property\<close>

text \<open>C22: Given a memory map whose general-use regions lie below 512 GiB and, above the end of
  the kernel, neither overlap each other nor memory the allocator already owns, \<open>init_pmem\<close>
  returns; the allocator gains exactly the bytes of the whole aligned 8 KiB blocks of these
  regions that lie above the kernel, once each, and reports their total size.\<close>

theorem init_pmem_correct:
  assumes "buddy_inv a L" and "map_ok mmap"
    and "\<And>x. cover (free_mset a + L) x + range_count (offers kend mmap) x \<le> 1"
    and "bytes (free_mset a + L) + total_use mmap < usize_limit"
  shows "\<exists>a' N. init_pmem kend mmap a = Inr (a', total_use mmap, bytes N) \<and> buddy_inv a' L
     \<and> free_mset a' = free_mset a + N \<and> (\<forall>x. cover N x = usable_count (offers kend mmap) x)"
  using init_entries_ok[OF assms, of 0] assms(4) by (auto simp: init_pmem_def usub_def)

definition demo_mmap :: "memory_map_entry list" where
  "demo_mmap = [\<lparr>base_addr = 0, entry_length = 640 * 1024, mem_type = 1, entry_reserved = 0\<rparr>,
     \<lparr>base_addr = 640 * 1024, entry_length = 384 * 1024, mem_type = 2, entry_reserved = 0\<rparr>,
     \<lparr>base_addr = 1024 * 1024, entry_length = 64 * 1024 * 1024, mem_type = 1, entry_reserved = 0\<rparr>]"

theorem init_pmem_correct_witness:
  "\<exists>a' N. init_pmem 4194304 demo_mmap empty_buddy = Inr (a', 67764224, bytes N) \<and> buddy_inv a' {#}
     \<and> free_mset a' = N \<and> cover N 4194304 = 1 \<and> cover N 4194303 = 0"
proof -
  have facts: "map_ok demo_mmap" "offers 4194304 demo_mmap = [(4194304, 68157440)]" "total_use demo_mmap = 67764224"
    by (simp_all add: demo_mmap_def bsz_MAX_ORDER offer_def is_for_general_use_def)
  have "cover (free_mset empty_buddy + {#}) x + range_count (offers 4194304 demo_mmap) x \<le> 1" for x
    unfolding facts(2) by simp
  from init_pmem_correct[OF buddy_inv_empty facts(1) this]
  show ?thesis by (auto simp: facts usize_limit_def usable_def bsz_def PAGE_ALIGN_def)
qed

end
