(* ===== verification/Base_Locks.thy ===== *)
theory Base_Locks
  imports Kernel_Prelude
begin

text \<open>
  The raw locks of \<open>sync/baselocks.rs\<close>: a mutex in one atomic flag and a
  readers-writer lock with an upgradable mode in one atomic 64-bit word.  The older
  \<open>sync/wlock.rs\<close> keeps the same word with other constants, so the operations take
  the layout of the word as an argument.

  Every atomic read-modify-write is one step.  An operation that needs two of them (an attempt
  that adds itself, sees an exclusive holder and subtracts itself again) therefore leaves its
  thread in an intermediate state between the two, and any other thread may run there.  The
  step relations \<open>mutex_step\<close> and \<open>rw_step\<close> interleave any number of threads.
\<close>

section \<open>The mutex\<close>

definition mutex_try_lock :: "bool \<Rightarrow> bool \<times> bool" where
  "mutex_try_lock flag = (if flag = False then (True, True) else (flag, False))"

definition mutex_unlock :: "bool \<Rightarrow> bool" where
  "mutex_unlock flag = False"

definition mutex_is_locked :: "bool \<Rightarrow> bool" where
  "mutex_is_locked flag = flag"

text \<open>
  Threads that use a mutex, given by its attempt and release operations: \<open>held ! i\<close> tells
  whether thread \<open>i\<close> owns the guard.  A failed attempt leaves the thread without it (and
  \<open>lock\<close> is an attempt repeated until it succeeds).
\<close>

inductive mutex_step :: "('s \<Rightarrow> 's \<times> bool) \<Rightarrow> ('s \<Rightarrow> 's) \<Rightarrow> 's \<times> bool list \<Rightarrow> 's \<times> bool list \<Rightarrow> bool"
  for try_lock unlock where
  attempt: "i < length held \<Longrightarrow> \<not> held ! i \<Longrightarrow> try_lock s = (s', ok)
    \<Longrightarrow> mutex_step try_lock unlock (s, held) (s', held[i := ok])"
| release: "i < length held \<Longrightarrow> held ! i
    \<Longrightarrow> mutex_step try_lock unlock (s, held) (unlock s, held[i := False])"

section \<open>The readers-writer lock\<close>

record rw_layout =
  WRITER :: "64 word"
  UPGRADER :: "64 word"
  EXCLUSIVE_THRESHOLD :: "64 word"

definition base_layout :: rw_layout where
  "base_layout = \<lparr>WRITER = push_bit 56 1, UPGRADER = push_bit 48 1, EXCLUSIVE_THRESHOLD = push_bit 40 1\<rparr>"

definition fetch_add :: "64 word \<Rightarrow> 64 word \<Rightarrow> 64 word \<times> 64 word" where
  "fetch_add v w = (w + v, w)"

definition fetch_sub :: "64 word \<Rightarrow> 64 word \<Rightarrow> 64 word \<times> 64 word" where
  "fetch_sub v w = (w - v, w)"

definition compare_exchange :: "64 word \<Rightarrow> 64 word \<Rightarrow> 64 word \<Rightarrow> 64 word \<times> bool" where
  "compare_exchange expected new w = (if w = expected then (new, True) else (w, False))"

definition reader_count :: "rw_layout \<Rightarrow> 64 word \<Rightarrow> nat + nat" where
  "reader_count l w =
     (if w \<ge> EXCLUSIVE_THRESHOLD l then Inl (unat (w mod EXCLUSIVE_THRESHOLD l)) else Inr (unat w))"

definition is_locked_exclusively :: "rw_layout \<Rightarrow> 64 word \<Rightarrow> bool" where
  "is_locked_exclusively l w \<longleftrightarrow> w \<ge> EXCLUSIVE_THRESHOLD l"

text \<open>
  \<open>unlock_shared\<close> is also the second half of a failed shared attempt.  Its second result
  is the argument of \<open>on_read_unlock\<close>, computed with a checked subtraction.
\<close>

definition shared_enter :: "rw_layout \<Rightarrow> 64 word \<Rightarrow> 64 word \<times> bool" where
  "shared_enter l w = (case fetch_add 1 w of (w', old) \<Rightarrow> (w', \<not> old \<ge> EXCLUSIVE_THRESHOLD l))"

definition unlock_shared :: "rw_layout \<Rightarrow> 64 word \<Rightarrow> 64 word \<times> nat exec" where
  "unlock_shared l w = (case fetch_sub 1 w of (w', x) \<Rightarrow>
     (w', usub (unat (x mod EXCLUSIVE_THRESHOLD l)) 1))"

definition try_lock_shared :: "rw_layout \<Rightarrow> 64 word \<Rightarrow> (64 word \<times> bool) exec" where
  "try_lock_shared l w = (case shared_enter l w of (w', ok) \<Rightarrow>
     if ok then Inr (w', True)
     else (case unlock_shared l w' of (w'', readers) \<Rightarrow> exec_bind readers (\<lambda>_. Inr (w'', False))))"

definition try_lock_exclusive :: "rw_layout \<Rightarrow> 64 word \<Rightarrow> 64 word \<times> bool" where
  "try_lock_exclusive l w = compare_exchange 0 (WRITER l) w"

definition unlock_exclusive :: "rw_layout \<Rightarrow> 64 word \<Rightarrow> 64 word" where
  "unlock_exclusive l w = fst (fetch_sub (WRITER l) w)"

definition downgrade :: "rw_layout \<Rightarrow> 64 word \<Rightarrow> 64 word" where
  "downgrade l w = fst (fetch_sub (WRITER l - 1) w)"

definition upgradable_enter :: "rw_layout \<Rightarrow> 64 word \<Rightarrow> 64 word \<times> bool" where
  "upgradable_enter l w = (case fetch_add (UPGRADER l) w of (w', old) \<Rightarrow> (w', \<not> old \<ge> EXCLUSIVE_THRESHOLD l))"

definition unlock_upgradable :: "rw_layout \<Rightarrow> 64 word \<Rightarrow> 64 word" where
  "unlock_upgradable l w = fst (fetch_sub (UPGRADER l) w)"

definition try_lock_upgradable :: "rw_layout \<Rightarrow> 64 word \<Rightarrow> 64 word \<times> bool" where
  "try_lock_upgradable l w = (case upgradable_enter l w of (w', ok) \<Rightarrow>
     if ok then (w', True) else (unlock_upgradable l w', False))"

definition try_upgrade :: "rw_layout \<Rightarrow> 64 word \<Rightarrow> 64 word \<times> bool" where
  "try_upgrade l w = compare_exchange (UPGRADER l) (WRITER l) w"

definition downgrade_upgradable :: "rw_layout \<Rightarrow> 64 word \<Rightarrow> 64 word" where
  "downgrade_upgradable l w = fst (fetch_sub (UPGRADER l - 1) w)"

definition downgrade_to_upgradable :: "rw_layout \<Rightarrow> 64 word \<Rightarrow> 64 word" where
  "downgrade_to_upgradable l w = fst (fetch_sub (WRITER l - UPGRADER l) w)"

text \<open>
  What a thread is doing with the lock.  In the two backoff states it has added itself, has
  seen an exclusive holder and has not yet subtracted itself.
\<close>

datatype rw_pc = Idle | SharedBackoff | UpgradableBackoff | HoldsShared | HoldsUpgradable | HoldsExclusive

inductive rw_step :: "rw_layout \<Rightarrow> 64 word \<times> rw_pc list \<Rightarrow> 64 word \<times> rw_pc list \<Rightarrow> bool" for l where
  enter_shared: "i < length ts \<Longrightarrow> ts ! i = Idle \<Longrightarrow> shared_enter l w = (w', ok)
    \<Longrightarrow> rw_step l (w, ts) (w', ts[i := if ok then HoldsShared else SharedBackoff])"
| leave_shared: "i < length ts \<Longrightarrow> ts ! i \<in> {HoldsShared, SharedBackoff} \<Longrightarrow> unlock_shared l w = (w', n)
    \<Longrightarrow> rw_step l (w, ts) (w', ts[i := Idle])"
| enter_exclusive: "i < length ts \<Longrightarrow> ts ! i = Idle \<Longrightarrow> try_lock_exclusive l w = (w', ok)
    \<Longrightarrow> rw_step l (w, ts) (w', ts[i := if ok then HoldsExclusive else Idle])"
| leave_exclusive: "i < length ts \<Longrightarrow> ts ! i = HoldsExclusive
    \<Longrightarrow> rw_step l (w, ts) (unlock_exclusive l w, ts[i := Idle])"
| downgrade_w2r: "i < length ts \<Longrightarrow> ts ! i = HoldsExclusive
    \<Longrightarrow> rw_step l (w, ts) (downgrade l w, ts[i := HoldsShared])"
| enter_upgradable: "i < length ts \<Longrightarrow> ts ! i = Idle \<Longrightarrow> upgradable_enter l w = (w', ok)
    \<Longrightarrow> rw_step l (w, ts) (w', ts[i := if ok then HoldsUpgradable else UpgradableBackoff])"
| leave_upgradable: "i < length ts \<Longrightarrow> ts ! i \<in> {HoldsUpgradable, UpgradableBackoff}
    \<Longrightarrow> rw_step l (w, ts) (unlock_upgradable l w, ts[i := Idle])"
| upgrade_u2w: "i < length ts \<Longrightarrow> ts ! i = HoldsUpgradable \<Longrightarrow> try_upgrade l w = (w', ok)
    \<Longrightarrow> rw_step l (w, ts) (w', ts[i := if ok then HoldsExclusive else HoldsUpgradable])"
| downgrade_u2r: "i < length ts \<Longrightarrow> ts ! i = HoldsUpgradable
    \<Longrightarrow> rw_step l (w, ts) (downgrade_upgradable l w, ts[i := HoldsShared])"
| downgrade_w2u: "i < length ts \<Longrightarrow> ts ! i = HoldsExclusive
    \<Longrightarrow> rw_step l (w, ts) (downgrade_to_upgradable l w, ts[i := HoldsUpgradable])"

inductive_cases rw_stepE: "rw_step l (w, ts) s'"

text \<open>The states \<open>n\<close> threads reach from an unlocked lock.\<close>

inductive rw_reach :: "rw_layout \<Rightarrow> nat \<Rightarrow> 64 word \<times> rw_pc list \<Rightarrow> bool" for l n where
  rw_start: "rw_reach l n (0, replicate n Idle)"
| rw_next: "rw_reach l n s \<Longrightarrow> rw_step l s s' \<Longrightarrow> rw_reach l n s'"

inductive mutex_reach :: "('s \<Rightarrow> 's \<times> bool) \<Rightarrow> ('s \<Rightarrow> 's) \<Rightarrow> 's \<Rightarrow> nat \<Rightarrow> 's \<times> bool list \<Rightarrow> bool"
  for try_lock unlock init n where
  mutex_start: "mutex_reach try_lock unlock init n (init, replicate n False)"
| mutex_next: "mutex_reach try_lock unlock init n s \<Longrightarrow> mutex_step try_lock unlock s s'
    \<Longrightarrow> mutex_reach try_lock unlock init n s'"

section \<open>Contract of an exclusive lock\<close>

locale exclusive_lock =
  fixes try_lock :: "'s \<Rightarrow> 's \<times> bool" and unlock :: "'s \<Rightarrow> 's" and init :: 's
    and locked :: "'s \<Rightarrow> bool" and wf :: "'s \<Rightarrow> bool"
  assumes init_free: "wf init" "\<not> locked init"
    and try_success: "wf s \<Longrightarrow> try_lock s = (s', True) \<Longrightarrow> \<not> locked s \<and> locked s' \<and> wf s'"
    and try_failure: "wf s \<Longrightarrow> try_lock s = (s', False) \<Longrightarrow> locked s \<and> s' = s"
    and unlock_frees: "wf s \<Longrightarrow> locked s \<Longrightarrow> \<not> locked (unlock s) \<and> wf (unlock s)"
begin

lemma attempt_iff: "wf s \<Longrightarrow> snd (try_lock s) \<longleftrightarrow> \<not> locked s"
  using try_success try_failure by (metis prod.collapse)

lemma owners:
  assumes "mutex_reach try_lock unlock init n s"
  shows "wf (fst s) \<and> length (snd s) = n
     \<and> (locked (fst s) \<longleftrightarrow> (\<exists>i<n. snd s ! i))
     \<and> (\<forall>i<n. \<forall>j<n. snd s ! i \<longrightarrow> snd s ! j \<longrightarrow> i = j)"
  using assms
proof induction
  case mutex_start
  then show ?case using init_free by simp
next
  case (mutex_next s s')
  from mutex_next.hyps(2) mutex_next.IH show ?case
  proof cases
    case (attempt i held s1 s2 ok)
    show ?thesis
    proof (cases ok)
      case True
      then show ?thesis using try_success[of s1 s2] attempt mutex_next.IH
        by (auto simp: nth_list_update split: if_splits)
    next
      case False
      then have "held[i := ok] = held" using attempt by (auto simp: list_eq_iff_nth_eq nth_list_update)
      then show ?thesis using False try_failure[of s1 s2] attempt mutex_next.IH by auto
    qed
  next
    case (release i held s1)
    then show ?thesis using unlock_frees[of s1] mutex_next.IH
      by (auto simp: nth_list_update split: if_splits)
  qed
qed

end

interpretation base_mutex: exclusive_lock mutex_try_lock mutex_unlock False mutex_is_locked "\<lambda>_. True"
  by unfold_locales (auto simp: mutex_try_lock_def mutex_unlock_def mutex_is_locked_def split: if_splits)

lemma rw_exclusive_lock:
  assumes "WRITER l \<noteq> 0"
  shows "exclusive_lock (try_lock_exclusive l) (unlock_exclusive l) 0 (\<lambda>w. w \<noteq> 0) (\<lambda>w. w \<in> {0, WRITER l})"
  using assms by unfold_locales
    (auto simp: try_lock_exclusive_def compare_exchange_def unlock_exclusive_def fetch_sub_def split: if_splits)

interpretation base_rw_exclusive: exclusive_lock "try_lock_exclusive base_layout" "unlock_exclusive base_layout"
  0 "\<lambda>w. w \<noteq> 0" "\<lambda>w. w \<in> {0, WRITER base_layout}"
  by (rule rw_exclusive_lock) (simp add: base_layout_def)

section \<open>The weight of a thread in the lock word\<close>

fun weight :: "rw_layout \<Rightarrow> rw_pc \<Rightarrow> nat" where
  "weight l Idle = 0"
| "weight l SharedBackoff = 1"
| "weight l HoldsShared = 1"
| "weight l UpgradableBackoff = unat (UPGRADER l)"
| "weight l HoldsUpgradable = unat (UPGRADER l)"
| "weight l HoldsExclusive = unat (WRITER l)"

definition lock_total :: "rw_layout \<Rightarrow> rw_pc list \<Rightarrow> nat" where
  "lock_total l ts = sum_list (map (weight l) ts)"

definition rw_excl :: "rw_pc list \<Rightarrow> bool" where
  "rw_excl ts \<longleftrightarrow> (\<forall>i<length ts. \<forall>j<length ts. i \<noteq> j \<longrightarrow>
     (ts ! i = HoldsExclusive \<longrightarrow> ts ! j \<notin> {HoldsShared, HoldsUpgradable, HoldsExclusive})
     \<and> (ts ! i = HoldsUpgradable \<longrightarrow> ts ! j \<noteq> HoldsUpgradable))"

fun is_sharing :: "rw_pc \<Rightarrow> bool" where
  "is_sharing HoldsShared = True"
| "is_sharing SharedBackoff = True"
| "is_sharing _ = False"

fun is_excluding :: "rw_pc \<Rightarrow> bool" where
  "is_excluding HoldsExclusive = True"
| "is_excluding HoldsUpgradable = True"
| "is_excluding UpgradableBackoff = True"
| "is_excluding _ = False"

definition shared_count :: "rw_pc list \<Rightarrow> nat" where
  "shared_count ts = length (filter is_sharing ts)"

lemma shared_count_le: "shared_count ts \<le> length ts"
  by (simp add: shared_count_def)

definition peers_ok :: "rw_pc list \<Rightarrow> nat \<Rightarrow> rw_pc \<Rightarrow> bool" where
  "peers_ok ts i pc \<longleftrightarrow> (\<forall>j<length ts. i \<noteq> j \<longrightarrow>
       (pc = HoldsShared \<longrightarrow> ts ! j \<noteq> HoldsExclusive)
       \<and> (pc = HoldsUpgradable \<longrightarrow> ts ! j \<notin> {HoldsUpgradable, HoldsExclusive})
       \<and> (pc = HoldsExclusive \<longrightarrow> ts ! j \<notin> {HoldsShared, HoldsUpgradable, HoldsExclusive}))"

lemma peers_of_non_holder [simp]:
  "peers_ok ts i Idle" "peers_ok ts i SharedBackoff" "peers_ok ts i UpgradableBackoff"
  by (simp_all add: peers_ok_def)

lemma peers_of_writer: "rw_excl ts \<Longrightarrow> i < length ts \<Longrightarrow> ts ! i = HoldsExclusive \<Longrightarrow> peers_ok ts i pc"
  by (auto simp: rw_excl_def peers_ok_def)

lemma peers_of_upgrader:
  "rw_excl ts \<Longrightarrow> i < length ts \<Longrightarrow> ts ! i = HoldsUpgradable \<Longrightarrow> pc \<noteq> HoldsExclusive \<Longrightarrow> peers_ok ts i pc"
  by (auto simp: rw_excl_def peers_ok_def)

lemmas word_op_defs = shared_enter_def unlock_shared_def try_lock_exclusive_def unlock_exclusive_def
  downgrade_def upgradable_enter_def unlock_upgradable_def try_upgrade_def downgrade_upgradable_def
  downgrade_to_upgradable_def fetch_add_def fetch_sub_def compare_exchange_def

lemma total_update:
  "i < length ts \<Longrightarrow> lock_total l (ts[i := pc]) + weight l (ts ! i) = lock_total l ts + weight l pc"
  using sum_list_update_nat[of i "map (weight l) ts" "weight l pc"] by (simp add: lock_total_def map_update)

lemma weight_le_total: "i < length ts \<Longrightarrow> weight l (ts ! i) \<le> lock_total l ts"
  using elem_le_sum_list[of i "map (weight l) ts"] by (simp add: lock_total_def)

lemma two_weights_le_total:
  assumes "i < length ts" and "j < length ts" and "i \<noteq> j"
  shows "weight l (ts ! i) + weight l (ts ! j) \<le> lock_total l ts"
  using total_update[OF assms(1), of l Idle] weight_le_total[of j "ts[i := Idle]" l] assms by simp

lemma total_replicate_Idle [simp]: "lock_total l (replicate n Idle) = 0"
  by (simp add: lock_total_def sum_list_replicate)

text \<open>The relations between the constants that make the word encode the threads.\<close>

locale rw_word =
  fixes l :: rw_layout
  assumes threshold: "255 < unat (EXCLUSIVE_THRESHOLD l)"
    and upgrader: "unat (EXCLUSIVE_THRESHOLD l) dvd unat (UPGRADER l)" "0 < unat (UPGRADER l)"
    and writer: "unat (EXCLUSIVE_THRESHOLD l) dvd unat (WRITER l)" "unat (UPGRADER l) \<le> unat (WRITER l)"
    and fits: "256 * unat (WRITER l) \<le> 2 ^ 64"
begin

lemma threshold_le: "unat (EXCLUSIVE_THRESHOLD l) \<le> unat (UPGRADER l)"
  using upgrader by (simp add: dvd_imp_le)

lemma weight_le: "weight l pc \<le> unat (WRITER l)"
  using threshold threshold_le writer(2) by (cases pc) auto

lemma weight_0: "weight l pc = 0 \<longleftrightarrow> pc = Idle"
  using upgrader(2) writer(2) by (cases pc) auto

lemma weight_below: "weight l pc < unat (EXCLUSIVE_THRESHOLD l) \<longleftrightarrow> pc \<in> {Idle, SharedBackoff, HoldsShared}"
  using threshold threshold_le writer(2) by (cases pc) auto

lemma total_bound:
  assumes "length ts \<le> 255" shows "lock_total l ts < 2 ^ 64"
proof -
  have "lock_total l ts \<le> length ts * unat (WRITER l)"
    using weight_le by (induction ts) (auto simp: lock_total_def add_mono)
  also have "\<dots> \<le> 255 * unat (WRITER l)" using assms by simp
  also have "\<dots> < 2 ^ 64" using fits weight_0[of HoldsExclusive] by simp
  finally show ?thesis .
qed

lemma unat_total: "length ts \<le> 255 \<Longrightarrow> unat (word_of_nat (lock_total l ts) :: 64 word) = lock_total l ts"
  using total_bound by (simp add: unat_of_nat take_bit_nat_eq_self)

lemma word_update:
  assumes "i < length ts"
  shows "word_of_nat (lock_total l (ts[i := pc]))
       = (word_of_nat (lock_total l ts) - word_of_nat (weight l (ts ! i)) + word_of_nat (weight l pc) :: 64 word)"
proof -
  have "(word_of_nat (lock_total l (ts[i := pc]) + weight l (ts ! i)) :: 64 word)
      = word_of_nat (lock_total l ts + weight l pc)" using total_update[OF assms] by simp
  then show ?thesis by (simp add: algebra_simps)
qed

lemma word_zero:
  assumes "length ts \<le> 255" and "word_of_nat (lock_total l ts) = (0 :: 64 word)" and "j < length ts"
  shows "ts ! j = Idle"
proof -
  have "lock_total l ts = 0" using unat_total[OF assms(1)] assms(2) by simp
  then show ?thesis using weight_le_total[OF assms(3), of l] weight_0 by simp
qed

lemma word_below:
  assumes "length ts \<le> 255" and "\<not> word_of_nat (lock_total l ts) \<ge> EXCLUSIVE_THRESHOLD l" and "j < length ts"
  shows "ts ! j \<in> {Idle, SharedBackoff, HoldsShared}"
proof -
  have "lock_total l ts < unat (EXCLUSIVE_THRESHOLD l)"
    using unat_total[OF assms(1)] assms(2) by (simp add: word_le_nat_alt)
  then show ?thesis using weight_le_total[OF assms(3), of l] weight_below by (meson le_less_trans)
qed

lemma word_sole_upgrader:
  assumes "length ts \<le> 255" and "word_of_nat (lock_total l ts) = UPGRADER l"
    and "i < length ts" and "ts ! i = HoldsUpgradable" and "j < length ts" and "i \<noteq> j"
  shows "ts ! j = Idle"
proof -
  have "lock_total l ts = unat (UPGRADER l)" using unat_total[OF assms(1)] assms(2) by metis
  then show ?thesis
    using two_weights_le_total[OF assms(3,5,6), of l] assms(4) weight_0 by simp
qed

lemma excl_update:
  assumes "rw_excl ts" and "peers_ok ts i pc" and "i < length ts"
  shows "rw_excl (ts[i := pc])"
  unfolding rw_excl_def length_list_update
proof (intro allI impI)
  fix a b assume "a < length ts" "b < length ts" "a \<noteq> b"
  then show "(ts[i := pc] ! a = HoldsExclusive \<longrightarrow> ts[i := pc] ! b \<notin> {HoldsShared, HoldsUpgradable, HoldsExclusive})
     \<and> (ts[i := pc] ! a = HoldsUpgradable \<longrightarrow> ts[i := pc] ! b \<noteq> HoldsUpgradable)"
    using assms(1)[unfolded rw_excl_def, THEN spec, of a, THEN mp, THEN spec, of b]
      assms(2)[unfolded peers_ok_def, THEN spec, of a] assms(2)[unfolded peers_ok_def, THEN spec, of b] assms(3)
    by (auto simp: nth_list_update)
qed

lemma peers_below:
  assumes "length ts \<le> 255" and "\<not> word_of_nat (lock_total l ts) \<ge> EXCLUSIVE_THRESHOLD l"
    and "pc \<noteq> HoldsExclusive"
  shows "peers_ok ts i pc"
  using word_below[OF assms(1,2)] assms(3) by (fastforce simp: peers_ok_def)

lemma peers_zero:
  assumes "length ts \<le> 255" and "word_of_nat (lock_total l ts) = (0 :: 64 word)"
  shows "peers_ok ts i pc"
  using word_zero[OF assms] by (auto simp: peers_ok_def)

lemma peers_upgrade:
  assumes "length ts \<le> 255" and "word_of_nat (lock_total l ts) = UPGRADER l"
    and "i < length ts" and "ts ! i = HoldsUpgradable"
  shows "peers_ok ts i pc"
  using word_sole_upgrader[OF assms] by (auto simp: peers_ok_def)

lemma update_inv:
  fixes w w' :: "64 word"
  assumes "w = word_of_nat (lock_total l ts)" and "rw_excl ts" and "i < length ts" and "peers_ok ts i pc"
    and "w' = w - word_of_nat (weight l (ts ! i)) + word_of_nat (weight l pc)"
  shows "w' = word_of_nat (lock_total l (ts[i := pc])) \<and> rw_excl (ts[i := pc])
     \<and> length (ts[i := pc]) = length ts"
  using excl_update[OF assms(2,4,3)] by (simp add: word_update[OF assms(3), of pc] assms(5) assms(1))

lemma step_inv:
  assumes "rw_step l (w, ts) (w', ts')" and w: "w = word_of_nat (lock_total l ts)" and ex: "rw_excl ts"
    and len: "length ts \<le> 255"
  shows "w' = word_of_nat (lock_total l ts') \<and> rw_excl ts' \<and> length ts' = length ts"
  using assms(1)
proof cases
  case (enter_shared i ok)
  show ?thesis unfolding enter_shared(1)
    by (rule update_inv[OF w ex enter_shared(2)])
      (use enter_shared peers_below[OF len] w in \<open>auto simp: word_op_defs\<close>)
next
  case (leave_shared i n)
  show ?thesis unfolding leave_shared(1)
    by (rule update_inv[OF w ex leave_shared(2)]) (use leave_shared in \<open>auto simp: word_op_defs\<close>)
next
  case (enter_exclusive i ok)
  show ?thesis unfolding enter_exclusive(1)
    by (rule update_inv[OF w ex enter_exclusive(2)])
      (use enter_exclusive peers_zero[OF len] w in \<open>auto simp: word_op_defs split: if_splits\<close>)
next
  case (leave_exclusive i)
  show ?thesis unfolding leave_exclusive(1,2)
    by (rule update_inv[OF w ex leave_exclusive(3)]) (use leave_exclusive in \<open>auto simp: word_op_defs\<close>)
next
  case (downgrade_w2r i)
  show ?thesis unfolding downgrade_w2r(1,2)
    by (rule update_inv[OF w ex downgrade_w2r(3)])
      (use downgrade_w2r peers_of_writer[OF ex] in \<open>auto simp: word_op_defs\<close>)
next
  case (enter_upgradable i ok)
  show ?thesis unfolding enter_upgradable(1)
    by (rule update_inv[OF w ex enter_upgradable(2)])
      (use enter_upgradable peers_below[OF len] w in \<open>auto simp: word_op_defs\<close>)
next
  case (leave_upgradable i)
  show ?thesis unfolding leave_upgradable(1,2)
    by (rule update_inv[OF w ex leave_upgradable(3)]) (use leave_upgradable in \<open>auto simp: word_op_defs\<close>)
next
  case (upgrade_u2w i ok)
  show ?thesis unfolding upgrade_u2w(1)
    by (rule update_inv[OF w ex upgrade_u2w(2)])
      (use upgrade_u2w peers_upgrade[OF len] peers_of_upgrader[OF ex] w in \<open>auto simp: word_op_defs split: if_splits\<close>)
next
  case (downgrade_u2r i)
  show ?thesis unfolding downgrade_u2r(1,2)
    by (rule update_inv[OF w ex downgrade_u2r(3)])
      (use downgrade_u2r peers_of_upgrader[OF ex] in \<open>auto simp: word_op_defs\<close>)
next
  case (downgrade_w2u i)
  show ?thesis unfolding downgrade_w2u(1,2)
    by (rule update_inv[OF w ex downgrade_w2u(3)])
      (use downgrade_w2u peers_of_writer[OF ex] in \<open>auto simp: word_op_defs\<close>)
qed

lemma reach_inv:
  assumes "rw_reach l n s" and "n \<le> 255"
  shows "fst s = word_of_nat (lock_total l (snd s)) \<and> rw_excl (snd s) \<and> length (snd s) = n"
  using assms(1)
proof induction
  case rw_start
  then show ?case by (simp add: rw_excl_def)
next
  case (rw_next s s')
  obtain w ts w' ts' where s: "s = (w, ts)" "s' = (w', ts')" by (cases s, cases s')
  then show ?case using step_inv[of w ts w' ts'] rw_next assms(2) by simp
qed

lemma total_mod:
  "length ts \<le> 255 \<Longrightarrow> lock_total l ts mod unat (EXCLUSIVE_THRESHOLD l) = shared_count ts"
proof (induction ts)
  case Nil
  then show ?case by (simp add: lock_total_def shared_count_def)
next
  case (Cons pc ts)
  let ?T = "unat (EXCLUSIVE_THRESHOLD l)"
  have IH: "lock_total l ts mod ?T = shared_count ts" using Cons by simp
  have w: "weight l pc mod ?T = (if is_sharing pc then 1 else 0)"
    using upgrader(1) writer(1) threshold by (cases pc) (auto simp: mod_eq_0_iff_dvd)
  have "lock_total l (pc # ts) mod ?T = (weight l pc mod ?T + lock_total l ts mod ?T) mod ?T"
    by (simp add: lock_total_def mod_add_eq)
  also have "\<dots> = shared_count (pc # ts) mod ?T" unfolding w IH by (simp add: shared_count_def)
  also have "\<dots> = shared_count (pc # ts)"
    using shared_count_le[of "pc # ts"] Cons.prems threshold by (intro mod_less) linarith
  finally show ?case .
qed

lemma shared_release_count:
  assumes "rw_reach l n (w, ts)" and "n \<le> 255" and "i < n" and "is_sharing (ts ! i)"
  shows "snd (unlock_shared l w) = Inr (shared_count ts - 1)"
proof -
  have inv: "w = word_of_nat (lock_total l ts)" "length ts = n" using reach_inv[OF assms(1,2)] by auto
  then have "unat (w mod EXCLUSIVE_THRESHOLD l) = shared_count ts"
    using total_mod[of ts] unat_total[of ts] assms(2) by (simp add: unat_mod)
  moreover have "ts ! i \<in> set (filter is_sharing ts)" using assms(3,4) inv by simp
  then have "1 \<le> shared_count ts" by (cases "filter is_sharing ts") (auto simp: shared_count_def)
  ultimately show ?thesis by (simp add: unlock_shared_def fetch_sub_def usub_ok)
qed

lemma below_iff:
  assumes "length ts \<le> 255"
  shows "\<not> word_of_nat (lock_total l ts) \<ge> EXCLUSIVE_THRESHOLD l \<longleftrightarrow> (\<forall>pc\<in>set ts. \<not> is_excluding pc)"
proof
  assume "\<not> word_of_nat (lock_total l ts) \<ge> EXCLUSIVE_THRESHOLD l"
  then show "\<forall>pc\<in>set ts. \<not> is_excluding pc"
    using word_below[OF assms] by (fastforce simp: in_set_conv_nth)
next
  assume a: "\<forall>pc\<in>set ts. \<not> is_excluding pc"
  have "weight l pc \<le> 1" if "\<not> is_excluding pc" for pc using that by (cases pc) auto
  then have "lock_total l ts \<le> length ts" using a
    by (induction ts) (auto simp: lock_total_def intro!: add_mono[of _ "Suc 0", simplified])
  then have "lock_total l ts < unat (EXCLUSIVE_THRESHOLD l)" using assms threshold by linarith
  then show "\<not> word_of_nat (lock_total l ts) \<ge> EXCLUSIVE_THRESHOLD l"
    using unat_total[OF assms] by (simp add: word_le_nat_alt)
qed

lemma zero_iff:
  assumes "length ts \<le> 255"
  shows "word_of_nat (lock_total l ts) = (0 :: 64 word) \<longleftrightarrow> (\<forall>pc\<in>set ts. pc = Idle)"
proof
  assume "\<forall>pc\<in>set ts. pc = Idle"
  then have "lock_total l ts = 0" by (simp add: lock_total_def weight_0)
  then show "word_of_nat (lock_total l ts) = (0 :: 64 word)" by simp
qed (use word_zero[OF assms] in \<open>auto simp: in_set_conv_nth\<close>)

lemma attempts:
  assumes "rw_reach l n (w, ts)" and "n \<le> 255"
  shows "snd (shared_enter l w) \<longleftrightarrow> (\<forall>pc\<in>set ts. \<not> is_excluding pc)"
    and "snd (upgradable_enter l w) \<longleftrightarrow> (\<forall>pc\<in>set ts. \<not> is_excluding pc)"
    and "snd (try_lock_exclusive l w) \<longleftrightarrow> (\<forall>pc\<in>set ts. pc = Idle)"
  using reach_inv[OF assms] below_iff[of ts] zero_iff[of ts] assms(2) by (auto simp: word_op_defs)

end

interpretation base_rw: rw_word base_layout
  by unfold_locales (simp_all add: base_layout_def push_bit_eq_mult unat_word_ariths)

section \<open>Properties\<close>

text \<open>The mutex has one owner at a time: whatever up to \<open>n\<close> threads do, the flag is set
  exactly while some thread owns the guard, and never two threads do.\<close>

theorem base_mutex_exclusion:
  assumes "mutex_reach mutex_try_lock mutex_unlock False n (flag, held)"
  shows "(mutex_is_locked flag \<longleftrightarrow> (\<exists>i<n. held ! i)) \<and> (\<forall>i<n. \<forall>j<n. held ! i \<longrightarrow> held ! j \<longrightarrow> i = j)"
  using base_mutex.owners[OF assms] by simp

text \<open>C10: For up to 255 threads, in every interleaving of the atomic steps of the
  readers-writer lock, a writer excludes every other holder and there is at most one upgradable
  holder.\<close>

theorem rw_mutual_exclusion:
  assumes "rw_reach base_layout n (w, ts)" and "n \<le> 255" and "i < n" and "j < n" and "i \<noteq> j"
  shows "(ts ! i = HoldsExclusive \<longrightarrow> ts ! j \<notin> {HoldsShared, HoldsUpgradable, HoldsExclusive})
     \<and> (ts ! i = HoldsUpgradable \<longrightarrow> ts ! j \<notin> {HoldsUpgradable, HoldsExclusive})"
  using base_rw.reach_inv[OF assms(1,2)] assms(3-5) unfolding rw_excl_def by auto

lemma demo_rw_writer: "rw_reach base_layout 2 (WRITER base_layout, [HoldsExclusive, Idle])"
proof -
  have "rw_step base_layout (0, replicate 2 Idle) (WRITER base_layout, (replicate 2 Idle)[0 := if True then HoldsExclusive else Idle])"
    by (rule rw_step.enter_exclusive) (simp_all add: word_op_defs)
  from rw_next[OF rw_start this] show ?thesis by (simp add: numeral_2_eq_2)
qed

theorem rw_mutual_exclusion_witness:
  "[HoldsExclusive, Idle] ! 1 \<notin> {HoldsShared, HoldsUpgradable, HoldsExclusive}"
  using rw_mutual_exclusion[OF demo_rw_writer, of 0 1] by simp

text \<open>The lock word decides every attempt correctly: a shared or upgradable attempt is
  admitted exactly when no thread holds or is retracting an exclusive or upgradable claim, a
  write attempt exactly when no thread holds or is retracting anything, and a reader that leaves
  (or retracts a failed attempt) reports exactly the number of readers that remain, without
  underflow.\<close>

theorem rw_attempts_exact:
  assumes "rw_reach base_layout n (w, ts)" and "n \<le> 255"
  shows "(snd (shared_enter base_layout w) \<longleftrightarrow> (\<forall>pc\<in>set ts. \<not> is_excluding pc))
     \<and> (snd (upgradable_enter base_layout w) \<longleftrightarrow> (\<forall>pc\<in>set ts. \<not> is_excluding pc))
     \<and> (snd (try_lock_exclusive base_layout w) \<longleftrightarrow> (\<forall>pc\<in>set ts. pc = Idle))
     \<and> (\<forall>i<n. is_sharing (ts ! i) \<longrightarrow> snd (unlock_shared base_layout w) = Inr (shared_count ts - 1))"
  using base_rw.attempts[OF assms] base_rw.shared_release_count[OF assms] by blast

end
