(* ===== verification/Interruptions.thy ===== *)
theory Interruptions
  imports Kernel_Prelude
begin

text \<open>
  Nested suspension of interruptions, \<open>multitasking/interruptions.rs\<close>: a per-CPU stack of
  saved states, guards that name a stack entry, and the release of a guard, which marks its
  entry inactive and pops the inactive entries at the top.  Guards may be dropped in any order.

  The state holds the two per-CPU variables of the source and the interrupt flag of the CPU,
  which \<open>clear_interrupts\<close> and \<open>restore_interrupts\<close> read and write.
\<close>

section \<open>Model\<close>

record NoInterruptionsState =
  interrupt_state :: bool
  yield_state :: bool

record NoInterruptionsStateContainer =
  active :: bool
  saved :: NoInterruptionsState

record ni_cpu =
  interrupts_enabled :: bool
  scheduler_yield_disabled :: bool
  nointerruptions_stack :: "NoInterruptionsStateContainer list"

definition clear_interrupts :: "ni_cpu \<Rightarrow> ni_cpu \<times> bool" where
  "clear_interrupts c = (let enabled = interrupts_enabled c in
     (if enabled then c\<lparr>interrupts_enabled := False\<rparr> else c, enabled))"

definition restore_interrupts :: "bool \<Rightarrow> ni_cpu \<Rightarrow> ni_cpu" where
  "restore_interrupts state c = (if state then c\<lparr>interrupts_enabled := True\<rparr> else c)"

definition disable_interruptions_internal :: "ni_cpu \<Rightarrow> ni_cpu \<times> NoInterruptionsState" where
  "disable_interruptions_internal c = (case clear_interrupts c of (c, ist) \<Rightarrow>
     (c\<lparr>scheduler_yield_disabled := True\<rparr>,
      \<lparr>interrupt_state = ist, yield_state = scheduler_yield_disabled c\<rparr>))"

definition disable_interruptions :: "ni_cpu \<Rightarrow> ni_cpu \<times> nat" where
  "disable_interruptions c = (case disable_interruptions_internal c of (c, st) \<Rightarrow>
     (c\<lparr>nointerruptions_stack := nointerruptions_stack c @ [\<lparr>active = True, saved = st\<rparr>]\<rparr>,
      length (nointerruptions_stack c)))"

text \<open>The loop that pops inactive entries, with the two states it restores.\<close>

function restore_loop :: "NoInterruptionsStateContainer list \<Rightarrow> bool \<Rightarrow> bool
    \<Rightarrow> NoInterruptionsStateContainer list \<times> bool \<times> bool" where
  "restore_loop stack yd ist =
     (if stack \<noteq> [] \<and> \<not> active (last stack)
      then restore_loop (butlast stack) (yield_state (saved (last stack))) (interrupt_state (saved (last stack)))
      else (stack, yd, ist))"
  by pat_completeness auto

termination restore_loop
  by (relation "measure (\<lambda>(stack, yd, ist). length stack)") auto

declare restore_loop.simps [simp del]

definition enable_interruptions :: "nat \<Rightarrow> ni_cpu \<Rightarrow> ni_cpu exec" where
  "enable_interruptions index c = (case clear_interrupts c of (c, ist) \<Rightarrow>
     exec_bind (vec_get (nointerruptions_stack c) index) (\<lambda>entry.
     exec_bind (vec_set (nointerruptions_stack c) index (entry\<lparr>active := False\<rparr>)) (\<lambda>stack.
     (case restore_loop stack (scheduler_yield_disabled c) ist of (stack, yd, ist) \<Rightarrow>
       Inr (restore_interrupts ist (c\<lparr>nointerruptions_stack := stack, scheduler_yield_disabled := yd\<rparr>))))))"

definition without_interruptions_noalloc :: "(ni_cpu \<Rightarrow> ni_cpu \<times> 'r) \<Rightarrow> ni_cpu \<Rightarrow> ni_cpu \<times> 'r" where
  "without_interruptions_noalloc closure c = (case disable_interruptions_internal c of (c, state) \<Rightarrow>
     (case closure c of (c, r) \<Rightarrow>
       (restore_interrupts (interrupt_state state) (c\<lparr>scheduler_yield_disabled := yield_state state\<rparr>), r)))"

definition is_sched_yield_disabled :: "ni_cpu \<Rightarrow> bool" where
  "is_sched_yield_disabled c = scheduler_yield_disabled c"

text \<open>
  The states of one CPU from a state with an empty stack: guards are taken, and live guards are
  dropped in any order.  The second component is the set of live guards.
\<close>

inductive ni_reach :: "ni_cpu \<Rightarrow> ni_cpu \<times> nat set \<Rightarrow> bool" for c0 where
  ni_start: "ni_reach c0 (c0, {})"
| ni_take: "ni_reach c0 (c, live) \<Longrightarrow> disable_interruptions c = (c', g) \<Longrightarrow> ni_reach c0 (c', insert g live)"
| ni_drop: "ni_reach c0 (c, live) \<Longrightarrow> g \<in> live \<Longrightarrow> enable_interruptions g c = Inr c'
    \<Longrightarrow> ni_reach c0 (c', live - {g})"

section \<open>The stack discipline\<close>

text \<open>
  The bottom entry saves the state the first guard found, every other entry saves a state in
  which interruptions were already off, and the top entry is active.
\<close>

definition expected_save :: "bool \<Rightarrow> bool \<Rightarrow> nat \<Rightarrow> NoInterruptionsState" where
  "expected_save i0 y0 k =
     (if k = 0 then \<lparr>interrupt_state = i0, yield_state = y0\<rparr> else \<lparr>interrupt_state = False, yield_state = True\<rparr>)"

definition saves :: "NoInterruptionsStateContainer list \<Rightarrow> bool \<Rightarrow> bool \<Rightarrow> bool" where
  "saves st i0 y0 \<longleftrightarrow> (\<forall>k<length st. saved (st ! k) = expected_save i0 y0 k)"

definition ni_inv :: "ni_cpu \<Rightarrow> ni_cpu \<Rightarrow> nat set \<Rightarrow> bool" where
  "ni_inv c0 c live \<longleftrightarrow> (let st = nointerruptions_stack c in
     live = {k. k < length st \<and> active (st ! k)}
     \<and> saves st (interrupts_enabled c0) (scheduler_yield_disabled c0)
     \<and> (st \<noteq> [] \<longrightarrow> active (last st))
     \<and> interrupts_enabled c = (st = [] \<and> interrupts_enabled c0)
     \<and> scheduler_yield_disabled c = (st \<noteq> [] \<or> scheduler_yield_disabled c0))"

lemma clear_interrupts_eq: "clear_interrupts c = (c\<lparr>interrupts_enabled := False\<rparr>, interrupts_enabled c)"
  by (cases c) (simp add: clear_interrupts_def Let_def)

lemma disable_interruptions_eq:
  "disable_interruptions c =
     (c\<lparr>interrupts_enabled := False, scheduler_yield_disabled := True,
        nointerruptions_stack := nointerruptions_stack c @ [\<lparr>active = True, saved =
          \<lparr>interrupt_state = interrupts_enabled c, yield_state = scheduler_yield_disabled c\<rparr>\<rparr>]\<rparr>,
      length (nointerruptions_stack c))"
  by (simp add: disable_interruptions_def disable_interruptions_internal_def clear_interrupts_eq)

lemma restore_loop_snoc:
  "restore_loop (st @ [e]) yd ist =
     (if active e then (st @ [e], yd, ist) else restore_loop st (yield_state (saved e)) (interrupt_state (saved e)))"
  by (simp add: restore_loop.simps)

lemma restore_loop_Nil [simp]: "restore_loop [] yd ist = ([], yd, ist)"
  by (simp add: restore_loop.simps)

lemma saves_snoc:
  "saves (st @ [e]) i0 y0 \<longleftrightarrow> saves st i0 y0 \<and> saved e = expected_save i0 y0 (length st)"
  by (auto simp: saves_def nth_append less_Suc_eq)

text \<open>Popping keeps the active entries, stops at an active top and restores what is saved there.\<close>

lemma restore_loop_spec:
  assumes "saves st i0 y0"
  shows "case restore_loop st True False of (st', yd, ist) \<Rightarrow>
     (\<exists>rest. st = st' @ rest \<and> (\<forall>e\<in>set rest. \<not> active e) \<and> (st' \<noteq> [] \<longrightarrow> active (last st'))
        \<and> (st \<noteq> [] \<longrightarrow> ist = (st' = [] \<and> i0) \<and> yd = (st' \<noteq> [] \<or> y0)))"
  using assms
proof (induction st rule: rev_induct)
  case (snoc e st)
  show ?case
  proof (cases "active e")
    case True
    then show ?thesis by (simp add: restore_loop_snoc)
  next
    case False
    show ?thesis
    proof (cases "st = []")
      case True
      then show ?thesis using False snoc.prems by (simp add: restore_loop.simps saves_def expected_save_def)
    next
      case ne: False
      have "restore_loop (st @ [e]) True False = restore_loop st True False"
        using False ne snoc.prems by (simp add: restore_loop_snoc saves_snoc expected_save_def)
      moreover have "saves st i0 y0" using snoc.prems by (simp add: saves_snoc)
      ultimately show ?thesis using snoc.IH False ne by (auto split: prod.splits)
    qed
  qed
qed simp


lemma disable_inv:
  assumes "ni_inv c0 c live"
  shows "case disable_interruptions c of (c', g) \<Rightarrow> ni_inv c0 c' (insert g live) \<and> g \<notin> live"
  using assms
  by (auto simp: ni_inv_def disable_interruptions_eq Let_def saves_snoc expected_save_def nth_append less_Suc_eq)

lemma inactive_saves: "k < length st \<Longrightarrow> saves (st[k := (st ! k)\<lparr>active := False\<rparr>]) i0 y0 \<longleftrightarrow> saves st i0 y0"
  by (auto simp: saves_def nth_list_update)

lemma saves_append: "saves (st @ rest) i0 y0 \<Longrightarrow> saves st i0 y0"
  by (induction rest rule: rev_induct) (simp_all add: saves_snoc flip: append_assoc)

lemma active_append:
  assumes "\<forall>e\<in>set rest. \<not> active e"
  shows "k < length (st @ rest) \<and> active ((st @ rest) ! k) \<longleftrightarrow> k < length st \<and> active (st ! k)"
proof (cases "k < length st")
  case False
  then show ?thesis using nth_mem[of "k - length st" rest] assms by (auto simp: nth_append)
qed (simp add: nth_append)

lemma active_after_pop:
  assumes "st[g := (st ! g)\<lparr>active := False\<rparr>] = st' @ rest" and "\<forall>e\<in>set rest. \<not> active e" and "g < length st"
  shows "{k. k < length st' \<and> active (st' ! k)} = {k. k < length st \<and> active (st ! k)} - {g}"
proof -
  let ?s = "st[g := (st ! g)\<lparr>active := False\<rparr>]"
  have "{k. k < length st' \<and> active (st' ! k)} = {k. k < length ?s \<and> active (?s ! k)}"
    unfolding assms(1) active_append[OF assms(2)] ..
  also have "\<dots> = {k. k < length st \<and> active (st ! k)} - {g}"
    using assms(3) by (auto simp: nth_list_update)
  finally show ?thesis .
qed

lemma enable_inv:
  assumes inv: "ni_inv c0 c live" and g: "g \<in> live"
  shows "\<exists>c'. enable_interruptions g c = Inr c' \<and> ni_inv c0 c' (live - {g})"
proof -
  let ?st = "nointerruptions_stack c"
  let ?s = "?st[g := (?st ! g)\<lparr>active := False\<rparr>]"
  have len: "g < length ?st" and ne: "?st \<noteq> []" using inv g by (auto simp: ni_inv_def Let_def)
  have off: "\<not> interrupts_enabled c" "scheduler_yield_disabled c" using inv ne by (auto simp: ni_inv_def Let_def)
  obtain st' yd ist where r: "restore_loop ?s True False = (st', yd, ist)" by (metis prod_cases3)
  have sv: "saves ?s (interrupts_enabled c0) (scheduler_yield_disabled c0)"
    using inv len by (simp add: ni_inv_def Let_def inactive_saves)
  from restore_loop_spec[OF sv] r obtain rest where rest: "?s = st' @ rest" "\<forall>e\<in>set rest. \<not> active e"
    "st' \<noteq> [] \<longrightarrow> active (last st')" "ist = (st' = [] \<and> interrupts_enabled c0)"
    "yd = (st' \<noteq> [] \<or> scheduler_yield_disabled c0)" using ne by auto
  define c' where "c' = restore_interrupts ist (c\<lparr>nointerruptions_stack := st', scheduler_yield_disabled := yd\<rparr>)"
  have "enable_interruptions g c = Inr c'"
    using off len r by (simp add: enable_interruptions_def clear_interrupts_def exec_simps c'_def)
  moreover have "saves st' (interrupts_enabled c0) (scheduler_yield_disabled c0)"
    using sv unfolding rest(1) by (rule saves_append)
  moreover have "live - {g} = {k. k < length st' \<and> active (st' ! k)}"
    using active_after_pop[OF rest(1,2) len] inv by (simp add: ni_inv_def Let_def)
  ultimately show ?thesis
    using rest off by (auto simp: ni_inv_def Let_def c'_def restore_interrupts_def)
qed

lemma ni_reach_inv:
  assumes "ni_reach c0 s" and "nointerruptions_stack c0 = []"
  shows "ni_inv c0 (fst s) (snd s)"
  using assms(1)
proof induction
  case ni_start
  then show ?case using assms(2) by (simp add: ni_inv_def Let_def saves_def)
next
  case (ni_take c live c' g)
  then show ?case using disable_inv[of c0 c live] by simp
next
  case (ni_drop c live g c')
  then show ?case using enable_inv[of c0 c live g] by auto
qed

section \<open>Properties\<close>

text \<open>C26: Guards may be dropped in any order: dropping a live guard never panics, interrupts
  and scheduler yields stay off while any guard is live, and when the last one is dropped the CPU
  is back in exactly the state before the first was taken.\<close>

theorem interruptions_restored:
  assumes "ni_reach c0 (c, live)" and "nointerruptions_stack c0 = []"
  shows "(live \<noteq> {} \<longrightarrow> \<not> interrupts_enabled c \<and> is_sched_yield_disabled c)
     \<and> (live = {} \<longrightarrow> c = c0)
     \<and> (\<forall>g\<in>live. \<not> panics (enable_interruptions g c))"
proof -
  have inv: "ni_inv c0 c live" using ni_reach_inv[OF assms] by simp
  have "live \<noteq> {} \<longrightarrow> \<not> interrupts_enabled c \<and> is_sched_yield_disabled c"
    using inv by (auto simp: ni_inv_def Let_def is_sched_yield_disabled_def)
  moreover have "nointerruptions_stack c = []" if "live = {}"
  proof (rule ccontr)
    assume ne: "nointerruptions_stack c \<noteq> []"
    then have "active (nointerruptions_stack c ! (length (nointerruptions_stack c) - 1))"
      using inv by (simp add: ni_inv_def Let_def last_conv_nth)
    then show False using inv ne that by (auto simp: ni_inv_def Let_def)
  qed
  then have "live = {} \<longrightarrow> c = c0"
    using inv assms(2) by (auto simp: ni_inv_def Let_def intro!: ni_cpu.equality)
  moreover have "\<forall>g\<in>live. \<not> panics (enable_interruptions g c)" using enable_inv[OF inv] by fastforce
  ultimately show ?thesis by blast
qed

definition demo_cpu :: ni_cpu where
  "demo_cpu = \<lparr>interrupts_enabled = True, scheduler_yield_disabled = False, nointerruptions_stack = []\<rparr>"

theorem interruptions_restored_witness:
  "\<not> interrupts_enabled (fst (disable_interruptions (fst (disable_interruptions demo_cpu))))
     \<and> \<not> panics (enable_interruptions 0 (fst (disable_interruptions (fst (disable_interruptions demo_cpu)))))
     \<and> \<not> panics (enable_interruptions 1 (fst (disable_interruptions (fst (disable_interruptions demo_cpu)))))"
proof -
  let ?c1 = "fst (disable_interruptions demo_cpu)"
  let ?c2 = "fst (disable_interruptions ?c1)"
  have "disable_interruptions demo_cpu = (?c1, 0)" "disable_interruptions ?c1 = (?c2, 1)"
    by (simp_all add: disable_interruptions_eq demo_cpu_def)
  then have r: "ni_reach demo_cpu (?c2, {1, 0})" by (blast intro: ni_reach.intros)
  have "nointerruptions_stack demo_cpu = []" by (simp add: demo_cpu_def)
  from interruptions_restored[OF r this] show ?thesis by blast
qed

text \<open>The allocation-free variant leaves the CPU in exactly the state it found, for every
  closure that hands back the state it was given.\<close>

lemma without_interruptions_noalloc_restores:
  assumes "\<And>c. fst (closure c) = c"
  shows "fst (without_interruptions_noalloc closure c) = c"
  by (cases c) (simp add: without_interruptions_noalloc_def disable_interruptions_internal_def clear_interrupts_def
      restore_interrupts_def Let_def case_prod_beta assms)

end
