(* ===== verification/Guarded_Locks.thy ===== *)
theory Guarded_Locks
  imports Base_Locks Interruptions
begin

text \<open>
  Locks that suspend interruptions while held (\<open>sync/nointerruptionslocks.rs\<close>) and the
  hybrid locks built on them (\<open>sync/hspin.rs\<close>).  A wrapped attempt takes an interruption guard
  before it touches the lock; a wrapped guard releases the lock before it releases the
  interruption guard.
\<close>

section \<open>Attempts and guards under suspended interruptions\<close>

definition ni_wrap_try_lock ::
    "('s \<Rightarrow> ('s \<times> bool) exec) \<Rightarrow> ni_cpu \<Rightarrow> 's \<Rightarrow> (ni_cpu \<times> 's \<times> nat option) exec" where
  "ni_wrap_try_lock try_lock c s = (case disable_interruptions c of (c, ni) \<Rightarrow>
     exec_bind (try_lock s) (\<lambda>(s, ok).
     if ok then Inr (c, s, Some ni)
     else exec_bind (enable_interruptions ni c) (\<lambda>c. Inr (c, s, None))))"

definition ni_guard_drop :: "('s \<Rightarrow> 's) \<Rightarrow> nat \<Rightarrow> ni_cpu \<Rightarrow> 's \<Rightarrow> (ni_cpu \<times> 's) exec" where
  "ni_guard_drop unlock ni c s = (let s = unlock s in exec_bind (enable_interruptions ni c) (\<lambda>c. Inr (c, s)))"

definition ni_into_lock_guard :: "nat \<Rightarrow> ni_cpu \<Rightarrow> ni_cpu exec" where
  "ni_into_lock_guard ni c = enable_interruptions ni c"

definition ni_into_nointerrupt_guard :: "('s \<Rightarrow> 's) \<Rightarrow> nat \<Rightarrow> 's \<Rightarrow> 's \<times> nat" where
  "ni_into_nointerrupt_guard unlock ni s = (unlock s, ni)"

definition ni_wrap_try_upgrade :: "('s \<Rightarrow> 's \<times> bool) \<Rightarrow> nat \<Rightarrow> 's \<Rightarrow> 's \<times> (nat + nat)" where
  "ni_wrap_try_upgrade upgrade ni s = (case upgrade s of (s, ok) \<Rightarrow> (s, if ok then Inr ni else Inl ni))"

definition ni_mutex_try_lock :: "ni_cpu \<Rightarrow> bool \<Rightarrow> (ni_cpu \<times> bool \<times> nat option) exec" where
  "ni_mutex_try_lock = ni_wrap_try_lock (\<lambda>flag. Inr (mutex_try_lock flag))"

definition ni_rwlock_try_read :: "ni_cpu \<Rightarrow> 64 word \<Rightarrow> (ni_cpu \<times> 64 word \<times> nat option) exec" where
  "ni_rwlock_try_read = ni_wrap_try_lock (try_lock_shared base_layout)"

definition ni_rwlock_try_write :: "ni_cpu \<Rightarrow> 64 word \<Rightarrow> (ni_cpu \<times> 64 word \<times> nat option) exec" where
  "ni_rwlock_try_write = ni_wrap_try_lock (\<lambda>w. Inr (try_lock_exclusive base_layout w))"

definition ni_rwlock_try_upgradable_read :: "ni_cpu \<Rightarrow> 64 word \<Rightarrow> (ni_cpu \<times> 64 word \<times> nat option) exec" where
  "ni_rwlock_try_upgradable_read = ni_wrap_try_lock (\<lambda>w. Inr (try_lock_upgradable base_layout w))"

section \<open>Hybrid locks\<close>

definition is_locked_at_all :: "64 word \<Rightarrow> bool" where
  "is_locked_at_all w = (case reader_count base_layout w of Inl _ \<Rightarrow> True | Inr readers \<Rightarrow> readers > 0)"

text \<open>The condition the relaxation loop of \<open>upgrade\<close> evaluates: \<open>unwrap_err\<close> panics on \<open>Ok\<close>.\<close>

definition upgrade_relax_condition :: "64 word \<Rightarrow> bool exec" where
  "upgrade_relax_condition w = (case reader_count base_layout w of
     Inl readers \<Rightarrow> Inr (readers > 0) | Inr _ \<Rightarrow> Inl UnwrapNone)"

datatype relax_action = YieldToScheduler | BusySpin

definition relax_step :: "bool \<Rightarrow> bool \<Rightarrow> relax_action option" where
  "relax_step executing_task relcond =
     (if relcond then Some (if executing_task then YieldToScheduler else BusySpin) else None)"

section \<open>Lemmas\<close>

definition settled :: "ni_cpu \<Rightarrow> bool" where
  "settled c \<longleftrightarrow> (nointerruptions_stack c \<noteq> [] \<longrightarrow> active (last (nointerruptions_stack c)))"

lemma take_then_drop:
  assumes "settled c" and "disable_interruptions c = (c', g)"
  shows "enable_interruptions g c' = Inr c"
proof -
  let ?st = "nointerruptions_stack c"
  let ?sv = "\<lparr>interrupt_state = interrupts_enabled c, yield_state = scheduler_yield_disabled c\<rparr>"
  have c': "c' = c\<lparr>interrupts_enabled := False, scheduler_yield_disabled := True,
      nointerruptions_stack := ?st @ [\<lparr>active = True, saved = ?sv\<rparr>]\<rparr>" and g: "g = length ?st"
    using assms(2)[symmetric] unfolding disable_interruptions_eq by simp_all
  have "restore_loop ?st y i = (?st, y, i)" for y i
    using assms(1) by (subst restore_loop.simps) (auto simp: settled_def)
  then show ?thesis
    by (cases c) (simp add: c' g enable_interruptions_def clear_interrupts_eq exec_simps restore_loop_snoc
        restore_interrupts_def)
qed

lemma disable_turns_off:
  "disable_interruptions c = (c', g) \<Longrightarrow> \<not> interrupts_enabled c' \<and> scheduler_yield_disabled c'"
  by (auto simp: disable_interruptions_eq)

context exclusive_lock
begin

lemma wrapped_attempt:
  assumes "wf s" and "settled c"
  shows "case ni_wrap_try_lock (\<lambda>s. Inr (try_lock s)) c s of
      Inl _ \<Rightarrow> False
    | Inr (c', s', None) \<Rightarrow> c' = c \<and> s' = s \<and> locked s
    | Inr (c', s', Some ni) \<Rightarrow> \<not> locked s \<and> locked s' \<and> \<not> interrupts_enabled c' \<and> is_sched_yield_disabled c'
        \<and> ni_guard_drop unlock ni c' s' = Inr (c, unlock s')"
proof -
  obtain c1 g where c1: "disable_interruptions c = (c1, g)" by (cases "disable_interruptions c")
  obtain s1 ok where s1: "try_lock s = (s1, ok)" by (cases "try_lock s")
  show ?thesis
    using take_then_drop[OF assms(2) c1] disable_turns_off[OF c1] try_success[OF assms(1), of s1]
      try_failure[OF assms(1), of s1] c1 s1
    by (cases ok) (auto simp: ni_wrap_try_lock_def ni_guard_drop_def is_sched_yield_disabled_def)
qed

end

section \<open>Properties\<close>

text \<open>A mutex attempt under suspended interruptions never panics.  If it fails, the CPU and
  the lock are exactly as before; if it succeeds, interrupts and scheduler yields are off while
  the guard lives, and dropping the guard frees the lock and restores the CPU exactly.\<close>

theorem ni_mutex_attempt:
  assumes "settled c"
  shows "case ni_mutex_try_lock c flag of
      Inl _ \<Rightarrow> False
    | Inr (c', flag', None) \<Rightarrow> c' = c \<and> flag' = flag \<and> mutex_is_locked flag
    | Inr (c', flag', Some ni) \<Rightarrow> \<not> mutex_is_locked flag \<and> mutex_is_locked flag'
        \<and> \<not> interrupts_enabled c' \<and> is_sched_yield_disabled c'
        \<and> ni_guard_drop mutex_unlock ni c' flag' = Inr (c, mutex_unlock flag')"
  unfolding ni_mutex_try_lock_def by (rule base_mutex.wrapped_attempt[OF TrueI assms])

text \<open>The relaxation loops of the hybrid readers-writer lock wait for the right thing: the
  condition of \<open>write\<close> is exactly that a write attempt would fail, and for the holder of an
  upgradable guard among up to 255 threads the condition of \<open>upgrade\<close> never panics and is exactly
  that readers remain.\<close>

theorem hybrid_relax_conditions:
  assumes "rw_reach base_layout n (w, ts)" and "n \<le> 255" and "i < n" and "ts ! i = HoldsUpgradable"
  shows "(is_locked_at_all w \<longleftrightarrow> \<not> snd (try_lock_exclusive base_layout w))
     \<and> upgrade_relax_condition w = Inr (shared_count ts > 0)"
proof -
  have inv: "w = word_of_nat (lock_total base_layout ts)" "length ts = n"
    using base_rw.reach_inv[OF assms(1,2)] by auto
  have mem: "HoldsUpgradable \<in> set ts" using assms(3,4) inv(2) by (metis nth_mem)
  then have ge: "w \<ge> EXCLUSIVE_THRESHOLD base_layout"
    using base_rw.below_iff[of ts] inv assms(2) by force
  have "unat (w mod EXCLUSIVE_THRESHOLD base_layout) = shared_count ts"
    using base_rw.total_mod[of ts] base_rw.unat_total[of ts] inv assms(2) by (simp add: unat_mod)
  moreover have "\<not> snd (try_lock_exclusive base_layout w)"
    using base_rw.attempts(3)[OF assms(1,2)] mem by force
  ultimately show ?thesis
    using ge by (simp add: is_locked_at_all_def upgrade_relax_condition_def reader_count_def)
qed

lemma demo_rw_upgrader: "rw_reach base_layout 1 (UPGRADER base_layout, [HoldsUpgradable])"
proof -
  have "rw_step base_layout (0, replicate 1 Idle)
      (UPGRADER base_layout, (replicate 1 Idle)[0 := if True then HoldsUpgradable else UpgradableBackoff])"
    by (rule rw_step.enter_upgradable) (simp_all add: word_op_defs base_layout_def)
  from rw_next[OF rw_start this] show ?thesis by simp
qed

end
