(* ===== verification/Descriptors.thy ===== *)
theory Descriptors
  imports Kernel_Prelude
begin

text \<open>
  One descriptor of \<open>descriptors.rs\<close>: two 16-bit reference counts, an id and two slots.  Every
  atomic access, and every write of a slot, is an operation of its own; the methods of the source
  compose them.  The step relation \<open>desc_step\<close> interleaves the same operations for any number of
  concurrent activities (an initialiser, handles being acquired, held, cloned or dropped), each
  represented by the point it has reached.
\<close>

section \<open>The descriptor and its operations\<close>

record ('a, 'b) descriptor =
  rc_a :: "16 word"
  rc_b :: "16 word"
  desc_id :: "64 word"
  slot_a :: "'a option"
  slot_b :: "'b option"

datatype acquire_error = DescriptorReserved | BSlotNotAvailable | NotFound

definition new_empty :: "('a, 'b) descriptor" where
  "new_empty = \<lparr>rc_a = 0, rc_b = 0, desc_id = 0, slot_a = None, slot_b = None\<rparr>"

definition clear_slot_a :: "('a, 'b) descriptor \<Rightarrow> ('a, 'b) descriptor" where
  "clear_slot_a d = d\<lparr>slot_a := None\<rparr>"

definition free_rc_a :: "('a, 'b) descriptor \<Rightarrow> ('a, 'b) descriptor" where
  "free_rc_a d = d\<lparr>rc_a := 0\<rparr>"

definition desc_clear :: "('a, 'b) descriptor \<Rightarrow> ('a, 'b) descriptor" where
  "desc_clear d = free_rc_a (clear_slot_a d)"

definition clear_slot_b :: "('a, 'b) descriptor \<Rightarrow> ('a, 'b) descriptor" where
  "clear_slot_b d = d\<lparr>slot_b := None\<rparr>"

text \<open>The result tells whether the caller has to destroy the slot (\<open>prev == 2\<close>, \<open>prev == 1\<close>).\<close>

definition sub_rc_a :: "('a, 'b) descriptor \<Rightarrow> ('a, 'b) descriptor \<times> bool" where
  "sub_rc_a d = (d\<lparr>rc_a := rc_a d - 1\<rparr>, rc_a d = 2)"

definition sub_rc_b :: "('a, 'b) descriptor \<Rightarrow> ('a, 'b) descriptor \<times> bool" where
  "sub_rc_b d = (d\<lparr>rc_b := rc_b d - 1\<rparr>, rc_b d = 1)"

definition decrement_rc_a :: "('a, 'b) descriptor \<Rightarrow> ('a, 'b) descriptor" where
  "decrement_rc_a d = (case sub_rc_a d of (d, final) \<Rightarrow> if final then desc_clear d else d)"

definition decrement_rc_b :: "('a, 'b) descriptor \<Rightarrow> ('a, 'b) descriptor" where
  "decrement_rc_b d = (case sub_rc_b d of (d, final) \<Rightarrow> if final then clear_slot_b d else d)"

definition init_slots :: "'a \<Rightarrow> 'b \<Rightarrow> ('a, 'b) descriptor \<Rightarrow> ('a, 'b) descriptor" where
  "init_slots a b d = d\<lparr>slot_a := Some a, slot_b := Some b\<rparr>"

definition add_rc_a :: "('a, 'b) descriptor \<Rightarrow> ('a, 'b) descriptor" where
  "add_rc_a d = d\<lparr>rc_a := rc_a d + 1\<rparr>"

definition add_rc_b :: "('a, 'b) descriptor \<Rightarrow> ('a, 'b) descriptor" where
  "add_rc_b d = d\<lparr>rc_b := rc_b d + 1\<rparr>"

definition reserve_rc_a :: "('a, 'b) descriptor \<Rightarrow> ('a, 'b) descriptor option" where
  "reserve_rc_a d = (if rc_a d = 0 then Some (d\<lparr>rc_a := 1\<rparr>) else None)"

definition reset_rc_b :: "('a, 'b) descriptor \<Rightarrow> ('a, 'b) descriptor" where
  "reset_rc_b d = d\<lparr>rc_b := 0\<rparr>"

definition store_id :: "64 word \<Rightarrow> ('a, 'b) descriptor \<Rightarrow> ('a, 'b) descriptor" where
  "store_id i d = d\<lparr>desc_id := i\<rparr>"

definition reserve :: "64 word \<Rightarrow> ('a, 'b) descriptor \<Rightarrow> ('a, 'b) descriptor option" where
  "reserve i d = map_option (\<lambda>d. store_id i (reset_rc_b d)) (reserve_rc_a d)"

text \<open>
  The closure of \<open>fetch_update\<close>: \<open>None\<close> leaves the count alone, and the increment is an
  overflow-checked addition on 16 bits.
\<close>

definition update_count :: "16 word \<Rightarrow> 16 word \<Rightarrow> 16 word option exec" where
  "update_count least c =
     (if c \<ge> least then (if c = - 1 then Inl ArithOverflow else Inr (Some (c + 1))) else Inr None)"

definition acquire_rc_a :: "('a, 'b) descriptor \<Rightarrow> ('a, 'b) descriptor option exec" where
  "acquire_rc_a d = exec_bind (update_count 2 (rc_a d)) (\<lambda>r. Inr (map_option (\<lambda>c. d\<lparr>rc_a := c\<rparr>) r))"

definition acquire_rc_b :: "('a, 'b) descriptor \<Rightarrow> ('a, 'b) descriptor option exec" where
  "acquire_rc_b d = exec_bind (update_count 1 (rc_b d)) (\<lambda>r. Inr (map_option (\<lambda>c. d\<lparr>rc_b := c\<rparr>) r))"

definition acquire_ref :: "bool \<Rightarrow> ('a, 'b) descriptor \<Rightarrow> (('a, 'b) descriptor \<times> acquire_error option) exec" where
  "acquire_ref is_b d =
     exec_bind (acquire_rc_a d) (\<lambda>r. case r of
       None \<Rightarrow> Inr (d, Some DescriptorReserved)
     | Some d1 \<Rightarrow>
         if is_b then exec_bind (acquire_rc_b d1) (\<lambda>r. case r of
             None \<Rightarrow> Inr (decrement_rc_a d1, Some BSlotNotAvailable)
           | Some d2 \<Rightarrow> Inr (d2, None))
         else Inr (d1, None))"

definition commit :: "'a \<Rightarrow> 'b \<Rightarrow> ('a, 'b) descriptor \<Rightarrow> ('a, 'b) descriptor" where
  "commit a b d = add_rc_a (add_rc_b (init_slots a b d))"

definition initialiser_drop :: "('a, 'b) descriptor \<Rightarrow> ('a, 'b) descriptor" where
  "initialiser_drop d = desc_clear (clear_slot_b d)"

definition get_a :: "('a, 'b) descriptor \<Rightarrow> 'a exec" where
  "get_a d = unwrap (slot_a d)"

definition get_b :: "('a, 'b) descriptor \<Rightarrow> 'b exec" where
  "get_b d = unwrap (slot_b d)"

definition clone_a_ref :: "('a, 'b) descriptor \<Rightarrow> ('a, 'b) descriptor" where
  "clone_a_ref d = add_rc_a d"

definition clone_b_ref :: "('a, 'b) descriptor \<Rightarrow> ('a, 'b) descriptor" where
  "clone_b_ref d = add_rc_b (add_rc_a d)"

definition handle_drop :: "bool \<Rightarrow> ('a, 'b) descriptor \<Rightarrow> ('a, 'b) descriptor" where
  "handle_drop is_b d = decrement_rc_a (if is_b then decrement_rc_b d else d)"

text \<open>\<open>upgrade\<close> and \<open>downgrade\<close> take the new handle and then drop the handle they consume.\<close>

definition upgrade :: "('a, 'b) descriptor \<Rightarrow> (('a, 'b) descriptor \<times> acquire_error option) exec" where
  "upgrade d = exec_bind (acquire_ref True d) (\<lambda>(d, r). Inr (handle_drop False d, r))"

definition handle_downgrade :: "('a, 'b) descriptor \<Rightarrow> ('a, 'b) descriptor" where
  "handle_downgrade d = handle_drop True (clone_a_ref d)"

section \<open>Concurrent activities on one descriptor\<close>

datatype activity =
    ResB           \<comment> \<open>reserved, \<open>rc_b\<close> not yet reset\<close>
  | ResId          \<comment> \<open>reserved, id not yet stored\<close>
  | Initialiser
  | CommitB        \<comment> \<open>slots written, \<open>rc_b\<close> not yet incremented\<close>
  | CommitA        \<comment> \<open>\<open>rc_a\<close> not yet incremented\<close>
  | AbortA         \<comment> \<open>initialiser dropped, slot B cleared\<close>
  | AbortFree      \<comment> \<open>initialiser dropped, both slots cleared\<close>
  | HandleA
  | HandleB
  | LentB          \<comment> \<open>a B-handle borrowed by an unfinished \<open>clone_b_ref\<close>\<close>
  | AcquireB       \<comment> \<open>\<open>rc_a\<close> incremented for a B-handle, \<open>rc_b\<close> not yet tested\<close>
  | CloneB         \<comment> \<open>\<open>rc_a\<close> incremented by \<open>clone_b_ref\<close>, \<open>rc_b\<close> not yet\<close>
  | ClearB         \<comment> \<open>has to drop slot B\<close>
  | DropA          \<comment> \<open>has to decrement \<open>rc_a\<close>\<close>
  | ClearA         \<comment> \<open>has to drop slot A\<close>
  | FreeA          \<comment> \<open>has to set \<open>rc_a\<close> to 0\<close>

inductive desc_step :: "('a, 'b) descriptor \<times> activity multiset \<Rightarrow> ('a, 'b) descriptor \<times> activity multiset \<Rightarrow> bool" where
  s_reserve: "reserve_rc_a d = Some d' \<Longrightarrow> desc_step (d, R) (d', add_mset ResB R)"
| s_reset: "desc_step (d, add_mset ResB R) (reset_rc_b d, add_mset ResId R)"
| s_id: "desc_step (d, add_mset ResId R) (store_id i d, add_mset Initialiser R)"
| s_init: "desc_step (d, add_mset Initialiser R) (init_slots a b d, add_mset CommitB R)"
| s_commit_b: "desc_step (d, add_mset CommitB R) (add_rc_b d, add_mset CommitA R)"
| s_commit_a: "desc_step (d, add_mset CommitA R) (add_rc_a d, add_mset HandleB R)"
| s_abort_b: "desc_step (d, add_mset Initialiser R) (clear_slot_b d, add_mset AbortA R)"
| s_abort_a: "desc_step (d, add_mset AbortA R) (clear_slot_a d, add_mset AbortFree R)"
| s_abort_free: "desc_step (d, add_mset AbortFree R) (free_rc_a d, R)"
| s_acquire_a: "acquire_rc_a d = Inr (Some d') \<Longrightarrow> desc_step (d, R) (d', add_mset HandleA R)"
| s_acquire_b: "acquire_rc_a d = Inr (Some d') \<Longrightarrow> desc_step (d, R) (d', add_mset AcquireB R)"
| s_acquire_b_ok: "acquire_rc_b d = Inr (Some d') \<Longrightarrow> desc_step (d, add_mset AcquireB R) (d', add_mset HandleB R)"
| s_acquire_b_fail: "acquire_rc_b d = Inr None \<Longrightarrow> desc_step (d, add_mset AcquireB R) (d, add_mset DropA R)"
| s_clone_a: "h = HandleA \<or> h = HandleB \<Longrightarrow> desc_step (d, add_mset h R) (add_rc_a d, add_mset HandleA (add_mset h R))"
| s_clone_b: "desc_step (d, add_mset HandleB R) (add_rc_a d, add_mset CloneB (add_mset LentB R))"
| s_clone_b_done: "desc_step (d, add_mset CloneB (add_mset LentB R)) (add_rc_b d, add_mset HandleB (add_mset HandleB R))"
| s_drop_b: "sub_rc_b d = (d', final) \<Longrightarrow>
    desc_step (d, add_mset HandleB R) (d', add_mset (if final then ClearB else DropA) R)"
| s_clear_b: "desc_step (d, add_mset ClearB R) (clear_slot_b d, add_mset DropA R)"
| s_drop_a: "h = HandleA \<or> h = DropA \<Longrightarrow> sub_rc_a d = (d', final) \<Longrightarrow>
    desc_step (d, add_mset h R) (d', if final then add_mset ClearA R else R)"
| s_clear_a: "desc_step (d, add_mset ClearA R) (clear_slot_a d, add_mset FreeA R)"
| s_free_a: "desc_step (d, add_mset FreeA R) (free_rc_a d, R)"

text \<open>
  Reachable from a fresh descriptor with at most 65534 concurrent activities: more would make the
  16-bit count wrap.
\<close>

inductive desc_reach :: "('a, 'b) descriptor \<times> activity multiset \<Rightarrow> bool" where
  desc_start: "desc_reach (new_empty, {#})"
| desc_next: "desc_reach s \<Longrightarrow> desc_step s s' \<Longrightarrow> size (snd s') \<le> 65534 \<Longrightarrow> desc_reach s'"

section \<open>Counting the activities\<close>

fun owns :: "activity \<Rightarrow> bool" where
  "owns ResB = True"
| "owns ResId = True"
| "owns Initialiser = True"
| "owns CommitB = True"
| "owns CommitA = True"
| "owns AbortA = True"
| "owns AbortFree = True"
| "owns ClearA = True"
| "owns FreeA = True"
| "owns _ = False"

fun lives :: "activity \<Rightarrow> bool" where
  "lives HandleA = True"
| "lives HandleB = True"
| "lives LentB = True"
| "lives AcquireB = True"
| "lives CloneB = True"
| "lives ClearB = True"
| "lives DropA = True"
| "lives _ = False"

fun counts_b :: "activity \<Rightarrow> bool" where
  "counts_b HandleB = True"
| "counts_b LentB = True"
| "counts_b CommitA = True"
| "counts_b _ = False"

lemma owns_or_lives: "owns x \<longleftrightarrow> \<not> lives x"
  by (cases x) auto

lemma counts_b_cases: "counts_b x \<Longrightarrow> lives x \<or> x = CommitA"
  by (cases x) auto

definition num :: "(activity \<Rightarrow> bool) \<Rightarrow> activity multiset \<Rightarrow> nat" where
  "num P R = size (filter_mset P R)"

definition a_total :: "activity multiset \<Rightarrow> nat" where
  "a_total R = num owns R + (if num lives R = 0 then 0 else Suc (num lives R))"

fun keeps_a :: "activity \<Rightarrow> bool" where
  "keeps_a CommitB = True"
| "keeps_a CommitA = True"
| "keeps_a ClearA = True"
| "keeps_a x = lives x"

fun keeps_b :: "activity \<Rightarrow> bool" where
  "keeps_b CommitB = True"
| "keeps_b ClearB = True"
| "keeps_b x = counts_b x"

definition desc_inv :: "('a, 'b) descriptor \<Rightarrow> activity multiset \<Rightarrow> bool" where
  "desc_inv d R \<longleftrightarrow>
     num owns R \<le> 1 \<and> (num owns R = 0 \<or> num lives R = 0)
     \<and> rc_a d = word_of_nat (a_total R) \<and> rc_b d = word_of_nat (num counts_b R)
     \<and> (slot_a d = None \<longleftrightarrow> num keeps_a R = 0) \<and> (slot_b d = None \<longleftrightarrow> num keeps_b R = 0)
     \<and> num ((=) ClearB) R \<le> 1 \<and> (num ((=) ClearB) R = 0 \<or> num counts_b R = 0)"

lemma num_simps [simp]:
  "num P {#} = 0" "num P (add_mset x R) = (if P x then Suc (num P R) else num P R)"
  by (simp_all add: num_def)

lemma num_eq_0: "num P R = 0 \<longleftrightarrow> (\<forall>x\<in>#R. \<not> P x)"
  by (induction R) auto

lemma num_pos: "x \<in># R \<Longrightarrow> P x \<Longrightarrow> 0 < num P R"
  using num_eq_0[of P R] by auto

lemma num_le_size: "num P R \<le> size R"
  by (induction R) auto

lemma num_disjoint: "(\<And>x. \<not> (P x \<and> Q x)) \<Longrightarrow> num P R + num Q R \<le> size R"
  by (induction R) auto

lemma a_total_bound: "size R \<le> 65534 \<Longrightarrow> a_total R < 65536"
proof -
  assume "size R \<le> 65534"
  moreover have "num owns R + num lives R \<le> size R" by (rule num_disjoint) (simp add: owns_or_lives)
  ultimately show ?thesis by (auto simp: a_total_def)
qed

lemma word16_eq_iff:
  "n < 65536 \<Longrightarrow> m < 65536 \<Longrightarrow> (word_of_nat n = (word_of_nat m :: 16 word)) \<longleftrightarrow> n = m"
  by (simp add: word_of_nat_eq_iff take_bit_nat_eq_self)

lemma word16_le_iff:
  "n < 65536 \<Longrightarrow> m < 65536 \<Longrightarrow> (word_of_nat n \<le> (word_of_nat m :: 16 word)) \<longleftrightarrow> n \<le> m"
  by (simp add: word_of_nat_less_eq_iff take_bit_nat_eq_self)

lemma rc_a_eq:
  assumes "desc_inv d R" and "size R \<le> 65534" and "n < 65536"
  shows "rc_a d = word_of_nat n \<longleftrightarrow> a_total R = n" and "word_of_nat n \<le> rc_a d \<longleftrightarrow> n \<le> a_total R"
  using assms a_total_bound[OF assms(2)] by (auto simp: desc_inv_def word16_eq_iff word16_le_iff)

lemma rc_b_eq:
  assumes "desc_inv d R" and "size R \<le> 65534" and "n < 65536"
  shows "rc_b d = word_of_nat n \<longleftrightarrow> num counts_b R = n" and "word_of_nat n \<le> rc_b d \<longleftrightarrow> n \<le> num counts_b R"
proof -
  have "num counts_b R < 65536" using num_le_size[of counts_b R] assms(2) by linarith
  then show "rc_b d = word_of_nat n \<longleftrightarrow> num counts_b R = n" "word_of_nat n \<le> rc_b d \<longleftrightarrow> n \<le> num counts_b R"
    using assms by (auto simp: desc_inv_def word16_eq_iff word16_le_iff)
qed

lemma update_count_Some:
  "update_count m c = Inr (Some c') \<longleftrightarrow> m \<le> c \<and> c \<noteq> - 1 \<and> c' = c + 1"
  by (auto simp: update_count_def)

lemma update_count_None: "update_count m c = Inr None \<longleftrightarrow> \<not> m \<le> c"
  by (auto simp: update_count_def)


lemmas desc_op_defs = new_empty_def clear_slot_a_def free_rc_a_def clear_slot_b_def sub_rc_a_def sub_rc_b_def
  init_slots_def add_rc_a_def add_rc_b_def reserve_rc_a_def reset_rc_b_def store_id_def

lemma desc_invD:
  assumes "desc_inv d R"
  shows "num owns R \<le> 1" and "num owns R = 0 \<or> num lives R = 0" and "rc_a d = word_of_nat (a_total R)"
    and "rc_b d = word_of_nat (num counts_b R)" and "slot_a d = None \<longleftrightarrow> num keeps_a R = 0"
    and "slot_b d = None \<longleftrightarrow> num keeps_b R = 0"
    and "num ((=) ClearB) R \<le> 1" and "num ((=) ClearB) R = 0 \<or> num counts_b R = 0"
  using assms unfolding desc_inv_def by simp_all

lemma empty_if_quiet: "num owns R = 0 \<Longrightarrow> num lives R = 0 \<Longrightarrow> R = {#}"
  by (cases R) (auto simp: owns_or_lives split: if_splits)

lemma keeps_of_live:
  "num owns R = 0 \<Longrightarrow> num keeps_a R = num lives R"
  "num owns R = 0 \<Longrightarrow> num keeps_b R = num counts_b R + num ((=) ClearB) R"
proof (induction R)
  case (add x R)
  { case 1 then show ?case using add by (cases x) auto
  next case 2 then show ?case using add by (cases x) auto }
qed auto

lemma owner_alone:
  assumes "desc_inv d (add_mset x R)" and "owns x" shows "R = {#}"
  using desc_invD(1,2)[OF assms(1)] assms(2) by (intro empty_if_quiet) (simp_all split: if_splits)

lemma acquire_a_live:
  assumes "desc_inv d R" and "size R \<le> 65534" and "acquire_rc_a d = Inr (Some d')"
  shows "0 < num lives R" and "d' = d\<lparr>rc_a := rc_a d + 1\<rparr>"
proof -
  have "2 \<le> a_total R"
    using rc_a_eq(2)[OF assms(1,2), of 2] assms(3) by (auto simp: acquire_rc_a_def update_count_Some exec_dests)
  then show "0 < num lives R" using desc_invD(1)[OF assms(1)] by (auto simp: a_total_def split: if_splits)
  show "d' = d\<lparr>rc_a := rc_a d + 1\<rparr>"
    using assms(3) by (auto simp: acquire_rc_a_def update_count_Some exec_dests)
qed

lemma desc_step_inv:
  assumes "desc_step (d, R) (d', R')" and inv: "desc_inv d R" and size: "size R \<le> 65534"
  shows "desc_inv d' R'"
  using assms(1)
proof cases
  case s_reserve
  then have "a_total R = 0" using rc_a_eq(1)[OF inv size, of 0] by (auto simp: desc_op_defs split: if_splits)
  then have "num owns R = 0" "num lives R = 0" by (auto simp: a_total_def split: if_splits)
  then have "R = {#}" by (rule empty_if_quiet)
  then show ?thesis using s_reserve inv by (auto simp: desc_inv_def desc_op_defs a_total_def split: if_splits)
next
  case (s_reset R1)
  then have "R1 = {#}" using inv owner_alone by fastforce
  then show ?thesis using s_reset inv by (auto simp: desc_inv_def desc_op_defs a_total_def)
next
  case (s_id R1 i)
  then have "R1 = {#}" using inv owner_alone by fastforce
  then show ?thesis using s_id inv by (auto simp: desc_inv_def desc_op_defs a_total_def)
next
  case (s_init R1 a b)
  then have "R1 = {#}" using inv owner_alone by fastforce
  then show ?thesis using s_init inv by (auto simp: desc_inv_def desc_op_defs a_total_def)
next
  case (s_commit_b R1)
  then have "R1 = {#}" using inv owner_alone by fastforce
  then show ?thesis using s_commit_b inv by (auto simp: desc_inv_def desc_op_defs a_total_def)
next
  case (s_commit_a R1)
  then have "R1 = {#}" using inv owner_alone by fastforce
  then show ?thesis using s_commit_a inv by (auto simp: desc_inv_def desc_op_defs a_total_def)
next
  case (s_abort_b R1)
  then have "R1 = {#}" using inv owner_alone by fastforce
  then show ?thesis using s_abort_b inv by (auto simp: desc_inv_def desc_op_defs a_total_def)
next
  case (s_abort_a R1)
  then have "R1 = {#}" using inv owner_alone by fastforce
  then show ?thesis using s_abort_a inv by (auto simp: desc_inv_def desc_op_defs a_total_def)
next
  case s_abort_free
  then have "R' = {#}" using inv owner_alone by fastforce
  then show ?thesis using s_abort_free inv by (auto simp: desc_inv_def desc_op_defs a_total_def)
next
  case (s_clear_a R1)
  then have "R1 = {#}" using inv owner_alone by fastforce
  then show ?thesis using s_clear_a inv by (auto simp: desc_inv_def desc_op_defs a_total_def)
next
  case s_free_a
  then have "R' = {#}" using inv owner_alone by fastforce
  then show ?thesis using s_free_a inv by (auto simp: desc_inv_def desc_op_defs a_total_def)
next
  case s_acquire_a
  then have "0 < num lives R" "d' = d\<lparr>rc_a := rc_a d + 1\<rparr>" using acquire_a_live[OF inv size] by auto
  then show ?thesis using s_acquire_a inv keeps_of_live[of R] by (auto simp: desc_inv_def a_total_def)
next
  case s_acquire_b
  then have "0 < num lives R" "d' = d\<lparr>rc_a := rc_a d + 1\<rparr>" using acquire_a_live[OF inv size] by auto
  then show ?thesis using s_acquire_b inv keeps_of_live[of R] by (auto simp: desc_inv_def a_total_def)
next
  case (s_acquire_b_ok R1)
  then have "1 \<le> num counts_b R1" and d': "d' = d\<lparr>rc_b := rc_b d + 1\<rparr>"
    using rc_b_eq(2)[OF inv size, of 1]
    by (auto simp: acquire_rc_b_def update_count_Some exec_dests)
  moreover have "num owns R1 = 0" using s_acquire_b_ok inv by (auto simp: desc_inv_def)
  ultimately show ?thesis using s_acquire_b_ok inv keeps_of_live(2)[of R1] by (auto simp: desc_inv_def a_total_def)
next
  case (s_acquire_b_fail R1)
  then show ?thesis using inv by (auto simp: desc_inv_def a_total_def)
next
  case (s_clone_a h R1)
  show ?thesis using s_clone_a inv by (auto simp: desc_inv_def desc_op_defs a_total_def)
next
  case (s_clone_b R1)
  show ?thesis using s_clone_b inv by (auto simp: desc_inv_def desc_op_defs a_total_def)
next
  case (s_clone_b_done R1)
  show ?thesis using s_clone_b_done inv by (auto simp: desc_inv_def desc_op_defs a_total_def)
next
  case (s_drop_b final R1)
  then have f: "final \<longleftrightarrow> num counts_b R1 = 0" and d': "d' = d\<lparr>rc_b := rc_b d - 1\<rparr>"
    using rc_b_eq(1)[OF inv size, of 1] by (auto simp: sub_rc_b_def)
  have "num owns R1 = 0" using s_drop_b inv by (auto simp: desc_inv_def)
  then show ?thesis using s_drop_b f d' inv keeps_of_live[of R1]
    by (cases final) (auto simp: desc_inv_def a_total_def)
next
  case (s_clear_b R1)
  then show ?thesis using inv keeps_of_live(2)[of R1] by (auto simp: desc_inv_def desc_op_defs a_total_def)
next
  case (s_drop_a h final R1)
  have h: "lives h" "\<not> owns h" "\<not> counts_b h" "h \<noteq> ClearB" using s_drop_a by auto
  have o: "num owns R1 = 0" using s_drop_a inv h by (auto simp: desc_inv_def)
  have f: "final \<longleftrightarrow> num lives R1 = 0" and d': "d' = d\<lparr>rc_a := rc_a d - 1\<rparr>"
    using rc_a_eq(1)[OF inv size, of 2] s_drop_a h o by (auto simp: sub_rc_a_def a_total_def)
  show ?thesis
  proof (cases final)
    case True
    then have "R1 = {#}" using f o empty_if_quiet by blast
    then show ?thesis using s_drop_a True d' inv h by (auto simp: desc_inv_def a_total_def)
  next
    case False
    then show ?thesis using s_drop_a d' f inv h o keeps_of_live[of R1] by (auto simp: desc_inv_def a_total_def)
  qed
qed


lemma desc_reach_inv: "desc_reach s \<Longrightarrow> desc_inv (fst s) (snd s) \<and> size (snd s) \<le> 65534"
proof (induction rule: desc_reach.induct)
  case desc_start
  then show ?case by (simp add: desc_inv_def new_empty_def a_total_def)
next
  case (desc_next s s')
  obtain d R d' R' where s: "s = (d, R)" "s' = (d', R')" by (cases s, cases s')
  then show ?case using desc_step_inv[of d R d' R'] desc_next by simp
qed


section \<open>Properties\<close>

lemma num_member: "num P R = 0 \<Longrightarrow> x \<in># R \<Longrightarrow> \<not> P x"
  by (simp add: num_eq_0)

lemma owner_member_alone: "desc_inv d R \<Longrightarrow> x \<in># R \<Longrightarrow> owns x \<Longrightarrow> R = {#x#}"
  using owner_alone[of d x "R - {#x#}"] by (metis add_mset_remove_trivial_eq insert_DiffM)

text \<open>C11: With at most 65534 concurrent activities on a descriptor, in every interleaving:
  a holder of a handle always finds slot A filled and a holder of a B-handle slot B; whoever
  initialises or destroys the descriptor is alone with it, and whoever drops slot B runs without
  any B-handle or second such activity.\<close>

theorem descriptor_safety:
  assumes "desc_reach (d, R)"
  shows "(\<forall>x\<in>#R. x \<in> {HandleA, HandleB, LentB} \<longrightarrow> \<not> panics (get_a d))
     \<and> (\<forall>x\<in>#R. x \<in> {HandleB, LentB} \<longrightarrow> \<not> panics (get_b d))
     \<and> (\<forall>x\<in>#R. owns x \<longrightarrow> R = {#x#})
     \<and> (ClearB \<in># R \<longrightarrow> HandleB \<notin># R \<and> LentB \<notin># R \<and> num ((=) ClearB) R = 1)"
proof -
  have inv: "desc_inv d R" using desc_reach_inv[OF assms] by simp
  note I = desc_invD[OF inv]
  have "\<not> panics (get_a d)" if "x \<in># R" "keeps_a x" for x
    using I(5) num_pos[of x R keeps_a, OF that] by (auto simp: get_a_def unwrap_def split: option.splits)
  moreover have "\<not> panics (get_b d)" if "x \<in># R" "keeps_b x" for x
    using I(6) num_pos[of x R keeps_b, OF that] by (auto simp: get_b_def unwrap_def split: option.splits)
  moreover have "HandleB \<notin># R \<and> LentB \<notin># R \<and> num ((=) ClearB) R = 1" if "ClearB \<in># R"
    using I(7,8) num_pos[of ClearB R "(=) ClearB", OF that] num_member[of counts_b R] by fastforce
  ultimately show ?thesis using owner_member_alone[OF inv] by auto
qed

lemma demo_desc_committed:
  "desc_reach (commit (1 :: nat) (2 :: nat) (store_id 7 (new_empty\<lparr>rc_a := 1\<rparr>)), {#HandleB#})"
proof -
  have 1: "desc_reach (new_empty\<lparr>rc_a := 1\<rparr> :: (nat, nat) descriptor, {#ResB#})"
    by (rule desc_next[OF desc_start s_reserve]) (simp_all add: desc_op_defs)
  have 2: "desc_reach (reset_rc_b (new_empty\<lparr>rc_a := 1\<rparr>) :: (nat, nat) descriptor, {#ResId#})"
    by (rule desc_next[OF 1 s_reset]) simp
  have 3: "desc_reach (store_id 7 (reset_rc_b (new_empty\<lparr>rc_a := 1\<rparr>)) :: (nat, nat) descriptor, {#Initialiser#})"
    by (rule desc_next[OF 2 s_id]) simp
  have "desc_reach (commit (1 :: nat) (2 :: nat) (store_id 7 (reset_rc_b (new_empty\<lparr>rc_a := 1\<rparr>))), {#HandleB#})"
    unfolding commit_def
    by (rule desc_next[OF desc_next[OF desc_next[OF 3 s_init] s_commit_b] s_commit_a]) simp_all
  then show ?thesis by (simp add: reset_rc_b_def new_empty_def)
qed

theorem descriptor_safety_witness:
  "\<not> panics (get_a (commit (1 :: nat) (2 :: nat) (store_id 7 (new_empty\<lparr>rc_a := 1\<rparr>))))
     \<and> \<not> panics (get_b (commit (1 :: nat) (2 :: nat) (store_id 7 (new_empty\<lparr>rc_a := 1\<rparr>))))"
  using descriptor_safety[OF demo_desc_committed] by simp

text \<open>C25: Nothing is leaked: once no activity on a descriptor remains, both slots have been
  dropped and it can be reserved again.\<close>

theorem descriptor_no_leak:
  assumes "desc_reach (d, {#})"
  shows "slot_a d = None \<and> slot_b d = None \<and> rc_b d = 0 \<and> reserve i d = Some (d\<lparr>rc_a := 1, desc_id := i\<rparr>)"
proof -
  have inv: "desc_inv d {#}" using desc_reach_inv[OF assms] by simp
  then have "rc_a d = 0" "rc_b d = 0" "slot_a d = None" "slot_b d = None"
    by (simp_all add: desc_inv_def a_total_def)
  then show ?thesis by (cases d) (simp add: reserve_def desc_op_defs)
qed

theorem descriptor_no_leak_witness:
  "slot_a (new_empty :: (nat, nat) descriptor) = None \<and> slot_b (new_empty :: (nat, nat) descriptor) = None
     \<and> rc_b (new_empty :: (nat, nat) descriptor) = 0
     \<and> reserve 7 (new_empty :: (nat, nat) descriptor) = Some (new_empty\<lparr>rc_a := 1, desc_id := 7\<rparr>)"
  by (rule descriptor_no_leak[OF desc_start])

text \<open>Taking the 65535th reference: \<open>acquire_ref\<close> panics on the overflow, but \<open>clone_a_ref\<close>
  wraps the count to 0, after which the descriptor can be reserved by somebody else although
  handles to it exist.\<close>

theorem clone_a_ref_wraps:
  assumes "rc_a d = - 1"
  shows "acquire_ref is_b d = Inl ArithOverflow \<and> rc_a (clone_a_ref d) = 0 \<and> reserve i (clone_a_ref d) \<noteq> None"
  using assms
  by (simp add: acquire_ref_def acquire_rc_a_def update_count_def clone_a_ref_def add_rc_a_def reserve_def
      reserve_rc_a_def)

text \<open>The life of a descriptor used by one owner: reserving and committing stores the id
  and both values, an A-handle taken on it and dropped again leaves it unchanged, dropping its
  only B-handle frees it and drops both values, and dropping the initialiser instead frees it too.\<close>

theorem descriptor_life_cycle:
  assumes "rc_a d = 0" and "reserve i d = Some d1"
  shows "desc_id (commit a b d1) = i \<and> get_a (commit a b d1) = Inr a \<and> get_b (commit a b d1) = Inr b
     \<and> (\<exists>d2. acquire_ref False (commit a b d1) = Inr (d2, None) \<and> handle_drop False d2 = commit a b d1)
     \<and> handle_drop True (commit a b d1) = d1\<lparr>rc_a := 0, slot_a := None, slot_b := None\<rparr>
     \<and> initialiser_drop d1 = d1\<lparr>rc_a := 0, slot_a := None, slot_b := None\<rparr>"
  using assms
  by (cases d) (auto simp: reserve_def reserve_rc_a_def reset_rc_b_def store_id_def commit_def init_slots_def
      add_rc_a_def add_rc_b_def get_a_def get_b_def acquire_ref_def acquire_rc_a_def update_count_def
      handle_drop_def decrement_rc_a_def decrement_rc_b_def sub_rc_a_def sub_rc_b_def clear_slot_b_def
      desc_clear_def free_rc_a_def clear_slot_a_def initialiser_drop_def)

end
