(* ===== verification/Descriptor_Table.thy ===== *)
theory Descriptor_Table
  imports Descriptors
begin

text \<open>
  The descriptor table of \<open>descriptors.rs\<close>: a tree of tables with \<open>N\<close> descriptors and
  \<open>M\<close> sub-tables each.  The digits of the id to base \<open>M\<close> choose the sub-table at each level.
  A descriptor is named by its location: the path of sub-table indices and a slot.

  Sub-tables are pointers that are set once and never freed while the table lives, so the tree is
  a datatype with optional children.
\<close>

section \<open>Model\<close>

datatype ('a, 'b) table = Table
  (descriptors: "('a, 'b) descriptor list")
  (subtables: "('a, 'b) table option list")

type_synonym location = "nat list \<times> nat"

definition new_table :: "nat \<Rightarrow> nat \<Rightarrow> ('a, 'b) table" where
  "new_table N M = Table (replicate N new_empty) (replicate M None)"

definition st_index :: "nat \<Rightarrow> nat \<Rightarrow> nat exec" where
  "st_index M st_indexer = urem st_indexer M"

lemma subtable_smaller:
  assumes "sts ! s = Some t" and "s < length sts"
  shows "size t < Suc (n + size_list (size_option size) sts)"
proof -
  have "Some t \<in> set sts" using assms by (metis nth_mem)
  then have "size_option size (Some t) \<le> size_list (size_option size) sts"
    by (rule size_list_estimation') simp
  then show ?thesis by simp
qed

function search :: "('a, 'b) table \<Rightarrow> 64 word \<Rightarrow> nat \<Rightarrow> location option exec" where
  "search (Table ds sts) i st_indexer =
     (case position (\<lambda>d. desc_id d = i) ds of
        Some k \<Rightarrow> Inr (Some ([], k))
      | None \<Rightarrow>
          exec_bind (st_index (length sts) st_indexer) (\<lambda>s.
          exec_bind (vec_get sts s) (\<lambda>st. case st of
            None \<Rightarrow> Inr None
          | Some t \<Rightarrow>
              exec_bind (search t i (st_indexer div length sts)) (\<lambda>r.
              Inr (map_option (\<lambda>(p, k). (s # p, k)) r)))))"
  by pat_completeness auto

termination search
  by (relation "measure (\<lambda>(t, i, x). size t)")
    (auto simp: vec_get_eq_Inr dest!: sym[of "Some _"] intro!: subtable_smaller)

fun lookup_loc :: "('a, 'b) table \<Rightarrow> location \<Rightarrow> ('a, 'b) descriptor option" where
  "lookup_loc (Table ds sts) ([], k) = (if k < length ds then Some (ds ! k) else None)"
| "lookup_loc (Table ds sts) (s # p, k) =
     (if s < length sts then Option.bind (sts ! s) (\<lambda>t. lookup_loc t (p, k)) else None)"

fun update_loc :: "('a, 'b) table \<Rightarrow> location \<Rightarrow> ('a, 'b) descriptor \<Rightarrow> ('a, 'b) table" where
  "update_loc (Table ds sts) ([], k) d = Table (ds[k := d]) sts"
| "update_loc (Table ds sts) (s # p, k) d =
     Table ds (if s < length sts then sts[s := map_option (\<lambda>t. update_loc t (p, k) d) (sts ! s)] else sts)"

text \<open>The loop over the descriptors of one table: the first one that can be reserved.\<close>

fun reserve_first :: "64 word \<Rightarrow> ('a, 'b) descriptor list \<Rightarrow> (('a, 'b) descriptor list \<times> nat) option" where
  "reserve_first i [] = None"
| "reserve_first i (d # ds) = (case reserve i d of
     Some d' \<Rightarrow> Some (d' # ds, 0)
   | None \<Rightarrow> map_option (\<lambda>(ds', k). (d # ds', Suc k)) (reserve_first i ds))"

definition get_or_create_sub_table :: "nat \<Rightarrow> nat \<Rightarrow> ('a, 'b) table option \<Rightarrow> ('a, 'b) table" where
  "get_or_create_sub_table N M st = (case st of None \<Rightarrow> new_table N M | Some t \<Rightarrow> t)"

text \<open>
  Descending creates missing tables, so the recursion is bounded by fuel: \<open>None\<close> means the fuel ran
  out.  The descent ends at the latest in a fresh table when \<open>N > 0\<close>.
\<close>

fun allocate_empty_at :: "nat \<Rightarrow> nat \<Rightarrow> nat \<Rightarrow> 64 word \<Rightarrow> nat \<Rightarrow> ('a, 'b) table \<Rightarrow> (('a, 'b) table \<times> location) exec option" where
  "allocate_empty_at 0 N M i st_indexer t = None"
| "allocate_empty_at (Suc fuel) N M i st_indexer (Table ds sts) = (case reserve_first i ds of
     Some (ds', k) \<Rightarrow> Some (Inr (Table ds' sts, ([], k)))
   | None \<Rightarrow> (case exec_bind (st_index M st_indexer) (\<lambda>s. exec_bind (vec_get sts s) (\<lambda>st. Inr (s, st))) of
       Inl p \<Rightarrow> Some (Inl p)
     | Inr (s, st) \<Rightarrow>
         map_option (\<lambda>r. exec_bind r (\<lambda>(t', (p, k)). Inr (Table ds (sts[s := Some t']), (s # p, k))))
           (allocate_empty_at fuel N M i (st_indexer div M) (get_or_create_sub_table N M st))))"

definition allocate_empty :: "nat \<Rightarrow> nat \<Rightarrow> nat \<Rightarrow> 64 word \<Rightarrow> ('a, 'b) table \<Rightarrow> (('a, 'b) table \<times> location) exec option" where
  "allocate_empty fuel N M i t = allocate_empty_at fuel N M i (unat i) t"

definition table_acquire :: "bool \<Rightarrow> 64 word \<Rightarrow> ('a, 'b) table \<Rightarrow> (('a, 'b) table \<times> (acquire_error + location)) exec" where
  "table_acquire is_b i t =
     exec_bind (search t i (unat i)) (\<lambda>r. case r of
       None \<Rightarrow> Inr (t, Inl NotFound)
     | Some loc \<Rightarrow>
         exec_bind (unwrap (lookup_loc t loc)) (\<lambda>d.
         exec_bind (acquire_ref is_b d) (\<lambda>(d', err). case err of
           Some e \<Rightarrow> Inr (update_loc t loc d', Inl e)
         | None \<Rightarrow>
             if desc_id d' \<noteq> i then Inr (update_loc t loc (handle_drop is_b d'), Inl NotFound)
             else Inr (update_loc t loc d', Inr loc))))"

record ('a, 'b) descriptor_table =
  next_id :: "64 word"
  root :: "('a, 'b) table"

definition new_descriptor_table :: "nat \<Rightarrow> nat \<Rightarrow> ('a, 'b) descriptor_table" where
  "new_descriptor_table N M = \<lparr>next_id = 1, root = new_table N M\<rparr>"

definition create_new_descriptor :: "nat \<Rightarrow> nat \<Rightarrow> nat \<Rightarrow> ('a, 'b) descriptor_table
    \<Rightarrow> (('a, 'b) descriptor_table \<times> location) exec option" where
  "create_new_descriptor fuel N M dt = (let i = next_id dt in
     map_option (\<lambda>r. exec_bind r (\<lambda>(t, loc). Inr (\<lparr>next_id = i + 1, root = t\<rparr>, loc)))
       (allocate_empty fuel N M i (root dt)))"

definition table_acquire_in :: "bool \<Rightarrow> ('a, 'b) descriptor_table \<Rightarrow> 64 word
    \<Rightarrow> (('a, 'b) descriptor_table \<times> (acquire_error + location)) exec" where
  "table_acquire_in is_b dt i = exec_bind (table_acquire is_b i (root dt)) (\<lambda>(t, r). Inr (dt\<lparr>root := t\<rparr>, r))"

definition acquire_a :: "('a, 'b) descriptor_table \<Rightarrow> 64 word \<Rightarrow> (('a, 'b) descriptor_table \<times> (acquire_error + location)) exec" where
  "acquire_a = table_acquire_in False"

definition acquire_b :: "('a, 'b) descriptor_table \<Rightarrow> 64 word \<Rightarrow> (('a, 'b) descriptor_table \<times> (acquire_error + location)) exec" where
  "acquire_b = table_acquire_in True"

declare search.simps [simp del]

section \<open>Lemmas\<close>

inductive table_ok :: "nat \<Rightarrow> nat \<Rightarrow> ('a, 'b) table \<Rightarrow> bool" for N M where
  table_okI: "length ds = N \<Longrightarrow> length sts = M \<Longrightarrow> (\<And>t. Some t \<in> set sts \<Longrightarrow> table_ok N M t)
    \<Longrightarrow> table_ok N M (Table ds sts)"

inductive_simps table_ok_simps: "table_ok N M (Table ds sts)"

lemma table_ok_new: "table_ok N M (new_table N M)"
  by (auto simp: new_table_def intro!: table_okI)

lemma reserve_None [simp]: "reserve i d = None \<longleftrightarrow> rc_a d \<noteq> 0"
  by (simp add: reserve_def reserve_rc_a_def)

lemma reserve_id: "reserve i d = Some d' \<Longrightarrow> desc_id d' = i \<and> rc_a d' = 1 \<and> rc_a d = 0"
  by (auto simp: reserve_def reserve_rc_a_def store_id_def reset_rc_b_def split: if_splits)

lemma reserve_first_None: "reserve_first i ds = None \<longleftrightarrow> (\<forall>d\<in>set ds. rc_a d \<noteq> 0)"
  by (induction ds) (auto dest: reserve_id split: option.splits)

lemma reserve_first_Some:
  "reserve_first i ds = Some (ds', k) \<Longrightarrow> k < length ds \<and> (\<exists>d'. reserve i (ds ! k) = Some d' \<and> ds' = ds[k := d'])"
  by (induction ds arbitrary: ds' k) (auto split: option.splits)

lemma allocate_total:
  assumes "0 < N" and "0 < M" and "table_ok N M t" and "size t < fuel"
  shows "\<exists>t' loc. allocate_empty_at fuel N M i x t = Some (Inr (t', loc))"
  using assms(3,4)
proof (induction fuel arbitrary: t x)
  case (Suc fuel)
  obtain ds sts where t: "t = Table ds sts" by (cases t)
  show ?case
  proof (cases "reserve_first i ds")
    case None
    let ?s = "x mod M"
    have s: "?s < length sts" using assms(2) Suc.prems(1) by (simp add: t table_ok_simps)
    have "\<exists>t' loc. allocate_empty_at fuel N M i (x div M) (get_or_create_sub_table N M (sts ! ?s)) = Some (Inr (t', loc))"
    proof (cases "sts ! ?s")
      case None
      obtain f n where "fuel = Suc f" "N = Suc n" using Suc.prems(2) assms(1) by (cases fuel; cases N) (auto simp: t)
      then show ?thesis by (simp add: None get_or_create_sub_table_def new_table_def reserve_def reserve_rc_a_def new_empty_def)
    next
      case (Some t1)
      have "table_ok N M t1" using Suc.prems(1) Some s by (metis nth_mem t table_ok_simps)
      moreover have "size t1 < fuel" using subtable_smaller[OF Some s, of "length ds"] Suc.prems(2) by (simp add: t)
      ultimately show ?thesis using Suc.IH Some by (simp add: get_or_create_sub_table_def)
    qed
    then show ?thesis using None s assms(2) by (auto simp: t st_index_def urem_def vec_get_def)
  qed (auto simp: t)
qed simp

definition fresh_id :: "('a, 'b) table \<Rightarrow> 64 word \<Rightarrow> bool" where
  "fresh_id t i \<longleftrightarrow> (\<forall>loc d. lookup_loc t loc = Some d \<longrightarrow> desc_id d \<noteq> i)"

lemma lookup_new_table: "lookup_loc (new_table N M) loc = Some d \<Longrightarrow> d = new_empty"
  by (cases loc, cases "fst loc") (auto simp: new_table_def split: if_splits)

lemma fresh_new_table: "i \<noteq> 0 \<Longrightarrow> fresh_id (new_table N M) i"
  using lookup_new_table by (fastforce simp: fresh_id_def new_empty_def)

lemma fresh_parts:
  assumes "fresh_id (Table ds sts) i"
  shows "d \<in> set ds \<Longrightarrow> desc_id d \<noteq> i" and "s < length sts \<Longrightarrow> sts ! s = Some t \<Longrightarrow> fresh_id t i"
proof -
  show "d \<in> set ds \<Longrightarrow> desc_id d \<noteq> i"
    using assms unfolding fresh_id_def by (metis in_set_conv_nth lookup_loc.simps(1))
  show "s < length sts \<Longrightarrow> sts ! s = Some t \<Longrightarrow> fresh_id t i"
    unfolding fresh_id_def
  proof (intro allI impI)
    fix loc e assume "s < length sts" "sts ! s = Some t" "lookup_loc t loc = Some e"
    then have "lookup_loc (Table ds sts) (s # fst loc, snd loc) = Some e" by simp
    then show "desc_id e \<noteq> i" using assms unfolding fresh_id_def by blast
  qed
qed


definition allocated :: "64 word \<Rightarrow> nat \<Rightarrow> nat \<Rightarrow> ('a, 'b) table \<Rightarrow> ('a, 'b) table \<Rightarrow> location \<Rightarrow> bool" where
  "allocated i N M t t' loc \<longleftrightarrow> table_ok N M t'
     \<and> (\<exists>d d'. lookup_loc t' loc = Some d' \<and> reserve i d = Some d'
          \<and> (lookup_loc t loc = Some d \<or> lookup_loc t loc = None \<and> d = new_empty))
     \<and> (\<forall>loc' e. loc' \<noteq> loc \<longrightarrow> lookup_loc t loc' = Some e \<longrightarrow> lookup_loc t' loc' = Some e)
     \<and> (\<forall>loc' e. loc' \<noteq> loc \<longrightarrow> lookup_loc t' loc' = Some e \<longrightarrow> lookup_loc t loc' = Some e \<or> e = new_empty)"

lemma allocated_here:
  assumes "table_ok N M (Table ds sts)" and "reserve_first i ds = Some (ds', k)"
  shows "allocated i N M (Table ds sts) (Table ds' sts) ([], k)"
proof -
  obtain d' where d': "k < length ds" "reserve i (ds ! k) = Some d'" "ds' = ds[k := d']"
    using reserve_first_Some[OF assms(2)] by blast
  have other: "lookup_loc (Table ds' sts) loc = lookup_loc (Table ds sts) loc" if "loc \<noteq> ([], k)" for loc
    using that d' by (cases "(Table ds sts, loc)" rule: lookup_loc.cases) (auto simp: nth_list_update)
  show ?thesis
    unfolding allocated_def using d' assms(1) other by (auto simp: table_ok_simps)
qed

lemma lookup_sub_update:
  assumes "s < length sts"
  shows "lookup_loc (Table ds (sts[s := Some t'])) (s # q, j) = lookup_loc t' (q, j)"
    and "\<nexists>q j. loc = (s # q, j) \<Longrightarrow> lookup_loc (Table ds (sts[s := Some t'])) loc = lookup_loc (Table ds sts) loc"
proof -
  show "lookup_loc (Table ds (sts[s := Some t'])) (s # q, j) = lookup_loc t' (q, j)" using assms by simp
  assume "\<nexists>q j. loc = (s # q, j)"
  then show "lookup_loc (Table ds (sts[s := Some t'])) loc = lookup_loc (Table ds sts) loc"
    by (cases "(Table ds sts, loc)" rule: lookup_loc.cases) (auto simp: nth_list_update)
qed

lemma lookup_created:
  assumes "s < length sts"
  shows "lookup_loc (Table ds sts) (s # q, j) = Some e
      \<Longrightarrow> lookup_loc (get_or_create_sub_table N M (sts ! s)) (q, j) = Some e"
    and "lookup_loc (get_or_create_sub_table N M (sts ! s)) (q, j) = Some e
      \<Longrightarrow> lookup_loc (Table ds sts) (s # q, j) = Some e \<or> lookup_loc (Table ds sts) (s # q, j) = None \<and> e = new_empty"
    and "lookup_loc (get_or_create_sub_table N M (sts ! s)) (q, j) = None
      \<Longrightarrow> lookup_loc (Table ds sts) (s # q, j) = None"
  using assms lookup_new_table
  by (cases "sts ! s"; force simp: get_or_create_sub_table_def)+

lemma allocated_below:
  assumes ok: "table_ok N M (Table ds sts)" and s: "s < length sts"
    and al: "allocated i N M (get_or_create_sub_table N M (sts ! s)) t' (p, k)"
  shows "allocated i N M (Table ds sts) (Table ds (sts[s := Some t'])) (s # p, k)"
  unfolding allocated_def
proof (intro conjI allI impI)
  show "table_ok N M (Table ds (sts[s := Some t']))"
    using ok al s by (auto simp: table_ok_simps allocated_def in_set_conv_nth nth_list_update split: if_splits)
  obtain d d' where d: "lookup_loc t' (p, k) = Some d'" "reserve i d = Some d'"
    and or: "lookup_loc (get_or_create_sub_table N M (sts ! s)) (p, k) = Some d
       \<or> lookup_loc (get_or_create_sub_table N M (sts ! s)) (p, k) = None \<and> d = new_empty"
    using al by (auto simp: allocated_def)
  have "lookup_loc (Table ds sts) (s # p, k) = Some d \<or> lookup_loc (Table ds sts) (s # p, k) = None \<and> d = new_empty"
    using or lookup_created(2,3)[OF s] by blast
  then show "\<exists>d d'. lookup_loc (Table ds (sts[s := Some t'])) (s # p, k) = Some d' \<and> reserve i d = Some d'
      \<and> (lookup_loc (Table ds sts) (s # p, k) = Some d \<or> lookup_loc (Table ds sts) (s # p, k) = None \<and> d = new_empty)"
    using d lookup_sub_update(1)[OF s] by metis
next
  fix loc e assume ne: "loc \<noteq> (s # p, k)" and e: "lookup_loc (Table ds sts) loc = Some e"
  show "lookup_loc (Table ds (sts[s := Some t'])) loc = Some e"
  proof (cases "\<exists>q j. loc = (s # q, j)")
    case True
    then obtain q j where loc: "loc = (s # q, j)" by blast
    then have "lookup_loc t' (q, j) = Some e"
      using al ne lookup_created(1)[OF s] e unfolding allocated_def by blast
    then show ?thesis using loc lookup_sub_update(1)[OF s] by simp
  next
    case False
    then show ?thesis using lookup_sub_update(2)[OF s] e by metis
  qed
next
  fix loc e assume ne: "loc \<noteq> (s # p, k)" and e: "lookup_loc (Table ds (sts[s := Some t'])) loc = Some e"
  show "lookup_loc (Table ds sts) loc = Some e \<or> e = new_empty"
  proof (cases "\<exists>q j. loc = (s # q, j)")
    case True
    then obtain q j where loc: "loc = (s # q, j)" by blast
    then have "lookup_loc t' (q, j) = Some e" using e lookup_sub_update(1)[OF s] by simp
    then show ?thesis using al ne loc lookup_created(2)[OF s] unfolding allocated_def by blast
  next
    case False
    then show ?thesis using lookup_sub_update(2)[OF s] e by metis
  qed
qed

lemma search_here:
  assumes "position (\<lambda>d. desc_id d = i) ds = Some k" shows "search (Table ds sts) i x = Inr (Some ([], k))"
  using assms by (simp add: search.simps)

lemma search_below:
  assumes "\<forall>d\<in>set ds. desc_id d \<noteq> i" and "x mod length sts < length sts" and "sts ! (x mod length sts) = Some t"
  shows "search (Table ds sts) i x = exec_bind (search t i (x div length sts)) (\<lambda>r.
      Inr (map_option (\<lambda>(p, k). (x mod length sts # p, k)) r))"
proof -
  have p: "position (\<lambda>d. desc_id d = i) ds = None" using assms(1) by simp
  have "length sts \<noteq> 0" using assms(2) by auto
  then show ?thesis
    unfolding search.simps p using assms(2,3) by (simp add: st_index_def urem_def vec_get_def)
qed

lemma allocate_spec:
  assumes "allocate_empty_at fuel N M i x t = Some (Inr (t', loc))" and "table_ok N M t"
  shows "allocated i N M t t' loc \<and> (fresh_id t i \<longrightarrow> i \<noteq> 0 \<longrightarrow> search t' i x = Inr (Some loc))"
  using assms
proof (induction fuel arbitrary: t x t' loc)
  case (Suc fuel)
  obtain ds sts where t: "t = Table ds sts" by (cases t)
  show ?case
  proof (cases "reserve_first i ds")
    case (Some r)
    then obtain ds' k where r: "reserve_first i ds = Some (ds', k)" by (cases r) auto
    then have loc: "t' = Table ds' sts" "loc = ([], k)" using Suc.prems(1) by (auto simp: t)
    obtain d' where d': "k < length ds" "reserve i (ds ! k) = Some d'" "ds' = ds[k := d']"
      using reserve_first_Some[OF r] by blast
    have "search t' i x = Inr (Some loc)" if "fresh_id t i"
      unfolding loc
    proof (rule search_here, rule position_unique)
      show "k < length ds'" "desc_id (ds' ! k) = i" using d' reserve_id[OF d'(2)] by auto
      fix j assume "j < k"
      then show "desc_id (ds' ! j) \<noteq> i" using d' fresh_parts(1)[OF that[unfolded t]] by simp
    qed
    then show ?thesis using allocated_here[OF _ r] Suc.prems(2) loc t by blast
  next
    case None
    let ?s = "x mod M"
    have len: "length sts = M" using Suc.prems(2) by (simp add: t table_ok_simps)
    have M: "M \<noteq> 0" and s: "?s < length sts"
      using Suc.prems(1) None len by (auto simp: t st_index_def urem_def vec_get_def split: if_splits)
    let ?t1 = "get_or_create_sub_table N M (sts ! ?s)"
    obtain t1' p k where t1: "allocate_empty_at fuel N M i (x div M) ?t1 = Some (Inr (t1', (p, k)))"
      and loc: "t' = Table ds (sts[?s := Some t1'])" "loc = (?s # p, k)"
      using Suc.prems(1) None M s by (auto simp: t st_index_def urem_def vec_get_def exec_dests)
    have ok1: "table_ok N M ?t1"
      using Suc.prems(2) s table_ok_new by (auto simp: t table_ok_simps get_or_create_sub_table_def in_set_conv_nth split: option.splits)
    note IH = Suc.IH[OF t1 ok1]
    have "search t' i x = Inr (Some loc)" if f: "fresh_id t i" "i \<noteq> 0"
    proof -
      have "fresh_id ?t1 i"
        using fresh_parts(2)[OF f(1)[unfolded t] s] fresh_new_table[OF f(2)]
        by (auto simp: get_or_create_sub_table_def split: option.splits)
      then have "search t1' i (x div M) = Inr (Some (p, k))" using IH f(2) by blast
      then show ?thesis
        using search_below[of ds i x "sts[?s := Some t1']" t1'] fresh_parts(1)[OF f(1)[unfolded t]] s len
        by (simp add: loc)
    qed
    then show ?thesis using allocated_below[OF Suc.prems(2)[unfolded t] s] IH loc t by blast
  qed
qed simp


lemma position_update_same:
  "k < length xs \<Longrightarrow> P x = P (xs ! k) \<Longrightarrow> position P (xs[k := x]) = position P xs"
  by (induction xs arbitrary: k) (auto split: nat.splits)

lemma search_update:
  assumes "lookup_loc t loc = Some d" and "desc_id d' = desc_id d"
  shows "search (update_loc t loc d') i x = search t i x"
  using assms(1)
proof (induction t loc arbitrary: x rule: lookup_loc.induct)
  case (1 ds sts k)
  then have "position (\<lambda>d. desc_id d = i) (ds[k := d']) = position (\<lambda>d. desc_id d = i) ds"
    using assms(2) by (intro position_update_same) (auto split: if_splits)
  then show ?case by (simp add: search.simps)
next
  case (2 ds sts s p k)
  then obtain t1 where t1: "s < length sts" "sts ! s = Some t1" "lookup_loc t1 (p, k) = Some d"
    by (auto simp: bind_eq_Some_conv split: if_splits)
  then have "search (update_loc t1 (p, k) d') i y = search t1 i y" for y using "2.IH" by simp
  then show ?case using t1(1,2)
    by (auto simp del: position_eq_None simp: search.simps st_index_def urem_def vec_get_def nth_list_update split: option.splits)
qed

lemma lookup_update:
  assumes "lookup_loc t loc = Some d"
  shows "lookup_loc (update_loc t loc d') loc = Some d'"
  using assms by (induction t loc rule: lookup_loc.induct) (auto simp: bind_eq_Some_conv split: if_splits)

definition dt_inv :: "nat \<Rightarrow> nat \<Rightarrow> ('a, 'b) descriptor_table \<Rightarrow> bool" where
  "dt_inv N M dt \<longleftrightarrow> table_ok N M (root dt) \<and> 0 < unat (next_id dt)
     \<and> (\<forall>loc d. lookup_loc (root dt) loc = Some d \<longrightarrow> unat (desc_id d) < unat (next_id dt))"

lemma dt_inv_new: "dt_inv N M (new_descriptor_table N M)"
  using lookup_new_table by (fastforce simp: dt_inv_def new_descriptor_table_def table_ok_new new_empty_def)

lemma dt_inv_fresh: "dt_inv N M dt \<Longrightarrow> fresh_id (root dt) (next_id dt) \<and> next_id dt \<noteq> 0"
  unfolding dt_inv_def fresh_id_def by (metis less_irrefl unat_0)

lemma create_spec:
  assumes inv: "dt_inv N M dt" and "0 < N" and "0 < M" and "size (root dt) < fuel"
    and no_wrap: "unat (next_id dt) + 1 < 2 ^ 64"
  shows "\<exists>dt' loc. create_new_descriptor fuel N M dt = Some (Inr (dt', loc)) \<and> dt_inv N M dt'
     \<and> next_id dt' = next_id dt + 1 \<and> allocated (next_id dt) N M (root dt) (root dt') loc
     \<and> search (root dt') (next_id dt) (unat (next_id dt)) = Inr (Some loc)"
proof -
  let ?i = "next_id dt"
  have ok: "table_ok N M (root dt)" using inv by (simp add: dt_inv_def)
  obtain t' loc where al: "allocate_empty_at fuel N M ?i (unat ?i) (root dt) = Some (Inr (t', loc))"
    using allocate_total[OF assms(2,3) ok assms(4)] by blast
  note sp = allocate_spec[OF al ok]
  have nxt: "unat (?i + 1) = unat ?i + 1"
    using no_wrap by (simp add: unat_word_ariths take_bit_nat_eq_self)
  have ids: "unat (desc_id e) < unat (?i + 1)" if e: "lookup_loc t' loc' = Some e" for loc' e
  proof (cases "loc' = loc")
    case True
    then have "desc_id e = ?i" using sp e reserve_id unfolding allocated_def by fastforce
    then show ?thesis using nxt by simp
  next
    case False
    then have "lookup_loc (root dt) loc' = Some e \<or> e = new_empty" using sp e unfolding allocated_def by blast
    then have "unat (desc_id e) < unat ?i" using inv by (cases loc') (auto simp: dt_inv_def new_empty_def)
    then show ?thesis using nxt by simp
  qed
  have "dt_inv N M \<lparr>next_id = ?i + 1, root = t'\<rparr>"
    using sp ids nxt by (simp add: dt_inv_def allocated_def)
  then show ?thesis
    using al sp dt_inv_fresh[OF inv] by (simp add: create_new_descriptor_def allocate_empty_def)
qed

section \<open>Properties\<close>



end
