(* ===== verification/Scheduler.thy ===== *)
theory Scheduler
  imports Interruptions
begin

text \<open>
  Tasks and the scheduler (\<open>multitasking/task.rs\<close>, \<open>multitasking/scheduler.rs\<close>) together with the
  waiting lists that suspend and wake tasks (\<open>sync/waitlist.rs\<close>).

  A system is the list of CPUs, each with the per-CPU variables of the source, the task id
  counter and the waiting lists in memory, named by their position; an operation on a list that does not exist
  cannot happen, since the source holds a reference to it.  A critical section of a lock
  is one atomic operation.  Saving and loading registers is done by assembly; \<open>schedule\<close> is
  therefore split where the source loops: \<open>schedule_save\<close> puts the yielding task where its command
  says, and \<open>pick_next\<close> is one iteration of the loop that looks for a task to resume, \<open>None\<close> being
  an iteration that found none.
\<close>

section \<open>State\<close>

datatype TaskType = KernelTask

record 'k task =
  task_id :: "64 word"
  task_type :: TaskType
  rsp :: nat
  stack_allocation :: "'k option"

record 'k SchedulerState =
  run_queue :: "'k task list"
  sleeping :: "('k task \<times> nat) list"
  deferred_drop :: "'k task list"

record 'k cpu =
  current_task :: "'k task option"
  scheduler_state :: "'k SchedulerState"
  scheduler_ticks :: nat
  is_executing :: bool
  cpu_interruptions :: ni_cpu

record 'k WaitingListEntry =
  entry_task :: "'k task"
  entry_cpu :: nat

record 'k system =
  cpus :: "'k cpu list"
  next_task_id :: "64 word"
  waiting_lists :: "'k WaitingListEntry list list"

datatype SchedulerCommand =
    PushBack
  | Terminate
  | SleepNTicks nat
  | PushToWaitingList "nat option"

definition default_state :: "'k SchedulerState" where
  "default_state = \<lparr>run_queue = [], sleeping = [], deferred_drop = []\<rparr>"

definition default_cpu :: "'k cpu" where
  "default_cpu = \<lparr>current_task = None, scheduler_state = default_state, scheduler_ticks = 0, is_executing = False,
     cpu_interruptions = \<lparr>interrupts_enabled = False, scheduler_yield_disabled = False, nointerruptions_stack = []\<rparr>\<rparr>"

definition update_cpu :: "nat \<Rightarrow> ('k cpu \<Rightarrow> 'k cpu) \<Rightarrow> 'k system \<Rightarrow> 'k system" where
  "update_cpu i f s = s\<lparr>cpus := (cpus s)[i := f (cpus s ! i)]\<rparr>"

definition update_state :: "nat \<Rightarrow> ('k SchedulerState \<Rightarrow> 'k SchedulerState) \<Rightarrow> 'k system \<Rightarrow> 'k system" where
  "update_state i f = update_cpu i (\<lambda>c. c\<lparr>scheduler_state := f (scheduler_state c)\<rparr>)"

section \<open>Operations\<close>

definition new_with_rsp :: "nat \<Rightarrow> 'k option \<Rightarrow> 'k system \<Rightarrow> 'k system \<times> 'k task" where
  "new_with_rsp r stack s = (s\<lparr>next_task_id := next_task_id s + 1\<rparr>,
     \<lparr>task_id = next_task_id s, task_type = KernelTask, rsp = r, stack_allocation = stack\<rparr>)"

definition push_back_task :: "'k task \<Rightarrow> 'k SchedulerState \<Rightarrow> 'k SchedulerState" where
  "push_back_task t st = st\<lparr>run_queue := run_queue st @ [t]\<rparr>"

text \<open>Per-CPU values of CPUs not seen before are created with their defaults on first access.\<close>

definition ensure_cpu :: "nat \<Rightarrow> 'k system \<Rightarrow> 'k system" where
  "ensure_cpu i s = s\<lparr>cpus := cpus s @ replicate (Suc i - length (cpus s)) default_cpu\<rparr>"

definition push_task_to :: "nat \<Rightarrow> 'k task \<Rightarrow> 'k system \<Rightarrow> 'k system" where
  "push_task_to i t s = update_state i (push_back_task t) (ensure_cpu i s)"

definition init_scheduler :: "nat \<Rightarrow> 'k option \<Rightarrow> 'k system \<Rightarrow> 'k system" where
  "init_scheduler i stack s = (case new_with_rsp 0 stack (ensure_cpu i s) of (s, boot_task) \<Rightarrow>
     update_cpu i (\<lambda>c. c\<lparr>current_task := Some boot_task\<rparr>) s)"

text \<open>The assembly routine that prepares a new stack is the parameter \<open>cs_new\<close>, which yields the
  stack pointer; \<open>kstack\<close> is the result of the stack allocation.\<close>

definition new_kernel_task :: "('k \<Rightarrow> nat) \<Rightarrow> 'k \<Rightarrow> 'k system \<Rightarrow> 'k system \<times> 'k task" where
  "new_kernel_task cs_new stack s = new_with_rsp (cs_new stack) (Some stack) s"

definition push_task :: "nat \<Rightarrow> 'k task \<Rightarrow> 'k system \<Rightarrow> 'k system" where
  "push_task current_cpu t s = update_state current_cpu (push_back_task t) (ensure_cpu current_cpu s)"

definition spawn_kernel_task :: "nat \<Rightarrow> ('k \<Rightarrow> nat) \<Rightarrow> 'k option \<Rightarrow> 'k system \<Rightarrow> ('k system \<times> 64 word) exec" where
  "spawn_kernel_task i cs_new kstack s =
     exec_bind (unwrap kstack) (\<lambda>kstack.
       case new_kernel_task cs_new kstack s of (s, t) \<Rightarrow> Inr (push_task i t s, task_id t))"

lemma push_task_eq: "push_task i t s = push_task_to i t s"
  by (simp add: push_task_def push_task_to_def)

fun place_task :: "nat \<Rightarrow> SchedulerCommand \<Rightarrow> 'k task \<Rightarrow> 'k system \<Rightarrow> 'k system exec" where
  "place_task i Terminate t s = Inr (update_state i (\<lambda>st. st\<lparr>deferred_drop := [t]\<rparr>) s)"
| "place_task i (SleepNTicks n) t s =
     exec_bind (uadd (scheduler_ticks (cpus s ! i)) n) (\<lambda>wake_at.
       Inr (update_state i (\<lambda>st. st\<lparr>sleeping := sleeping st @ [(t, wake_at)]\<rparr>) s))"
| "place_task i (PushToWaitingList l) t s =
     exec_bind (unwrap l) (\<lambda>l.
       Inr (s\<lparr>waiting_lists := (waiting_lists s)[l := waiting_lists s ! l @ [\<lparr>entry_task = t, entry_cpu = i\<rparr>]]\<rparr>))"
| "place_task i PushBack t s = Inr (update_state i (push_back_task t) s)"

definition schedule_save :: "nat \<Rightarrow> SchedulerCommand \<Rightarrow> nat \<Rightarrow> 'k system \<Rightarrow> 'k system exec" where
  "schedule_save i command r s =
     (if is_sched_yield_disabled (cpu_interruptions (cpus s ! i)) then Inl ExplicitPanic
      else exec_bind (unwrap (current_task (cpus s ! i))) (\<lambda>t.
        place_task i command (t\<lparr>rsp := r\<rparr>) (update_cpu i (\<lambda>c. c\<lparr>is_executing := False, current_task := None\<rparr>) s)))"

definition yield_to_scheduler :: "nat \<Rightarrow> SchedulerCommand \<Rightarrow> nat \<Rightarrow> 'k system \<Rightarrow> 'k system exec" where
  "yield_to_scheduler i command r s =
     exec_bind (assert_that (\<not> is_sched_yield_disabled (cpu_interruptions (cpus s ! i)))) (\<lambda>_.
     exec_bind (assert_that (current_task (cpus s ! i) \<noteq> None)) (\<lambda>_.
       schedule_save i command r s))"

text \<open>
  The guard of the scheduler state is dropped only after interruptions have been suspended a
  second time, and the second guard travels with the task to \<open>resume_callback\<close>.
\<close>

definition resume_callback :: "'k task \<Rightarrow> nat \<Rightarrow> 'k cpu \<Rightarrow> 'k cpu exec" where
  "resume_callback t ni c =
     exec_bind (enable_interruptions ni (cpu_interruptions c)) (\<lambda>n.
       Inr (c\<lparr>current_task := Some t, is_executing := True, cpu_interruptions := n\<rparr>))"

definition resume_cpu :: "'k task \<Rightarrow> 'k cpu \<Rightarrow> 'k cpu exec" where
  "resume_cpu t c =
     (case disable_interruptions (cpu_interruptions c) of (n, state_guard) \<Rightarrow>
      case disable_interruptions n of (n, ni) \<Rightarrow>
        exec_bind (enable_interruptions state_guard n) (\<lambda>n.
          resume_callback t ni (c\<lparr>cpu_interruptions := n\<rparr>)))"

definition pick_next :: "nat \<Rightarrow> 'k system \<Rightarrow> 'k system option exec" where
  "pick_next i s = (let c = cpus s ! i in
     case run_queue (scheduler_state c) of
       [] \<Rightarrow> Inr None
     | t # ts \<Rightarrow>
         exec_bind (resume_cpu t (c\<lparr>scheduler_state := (scheduler_state c)\<lparr>run_queue := ts\<rparr>\<rparr>)) (\<lambda>c.
           Inr (Some (s\<lparr>cpus := (cpus s)[i := c]\<rparr>))))"

fun wake_loop :: "nat \<Rightarrow> nat \<Rightarrow> 'k SchedulerState \<Rightarrow> 'k SchedulerState exec" where
  "wake_loop now 0 st = Inr st"
| "wake_loop now (Suc i) st =
     exec_bind (vec_get (sleeping st) i) (\<lambda>(t, wake_at).
       if wake_at \<le> now then
         exec_bind (swap_remove i (sleeping st)) (\<lambda>sl.
           wake_loop now i (push_back_task t (st\<lparr>sleeping := sl\<rparr>)))
       else wake_loop now i st)"

definition scheduler_tick :: "nat \<Rightarrow> 'k system \<Rightarrow> 'k system exec" where
  "scheduler_tick i s = (let c = cpus s ! i in
     exec_bind (uadd (scheduler_ticks c) 1) (\<lambda>current_ticks.
     exec_bind (wake_loop current_ticks (length (sleeping (scheduler_state c))) (scheduler_state c)) (\<lambda>st.
       Inr (s\<lparr>cpus := (cpus s)[i := c\<lparr>scheduler_state := st, scheduler_ticks := current_ticks\<rparr>]\<rparr>))))"

definition is_executing_task :: "'k cpu \<Rightarrow> bool" where
  "is_executing_task c \<longleftrightarrow> is_executing c \<and> current_task c \<noteq> None"

definition get_executing_task_id :: "'k cpu \<Rightarrow> 64 word option" where
  "get_executing_task_id c = map_option task_id (current_task c)"

section \<open>Waiting lists\<close>

definition notify_inner :: "nat \<Rightarrow> 'k system \<Rightarrow> 'k system \<times> bool" where
  "notify_inner l s = (case waiting_lists s ! l of
     [] \<Rightarrow> (s, False)
   | e # es \<Rightarrow> (push_task_to (entry_cpu e) (entry_task e) (s\<lparr>waiting_lists := (waiting_lists s)[l := es]\<rparr>), True))"

definition notify_one :: "nat \<Rightarrow> 'k system \<Rightarrow> 'k system \<times> bool" where
  "notify_one l s = notify_inner l s"

definition new_list :: "'k system \<Rightarrow> 'k system" where
  "new_list s = s\<lparr>waiting_lists := waiting_lists s @ [[]]\<rparr>"

function notify_all :: "nat \<Rightarrow> 'k system \<Rightarrow> 'k system" where
  "notify_all l s = (if length (waiting_lists s) \<le> l then s else case notify_inner l s of (s', woke) \<Rightarrow> if woke then notify_all l s' else s')"
  by pat_completeness auto

lemma waiting_lists_push [simp]: "waiting_lists (push_task_to i t s) = waiting_lists s"
  by (simp add: push_task_to_def update_state_def update_cpu_def ensure_cpu_def)

termination notify_all
  by (relation "measure (\<lambda>(l, s). length (waiting_lists s ! l))")
    (auto simp: notify_inner_def split: list.splits)

declare notify_all.simps [simp del]

text \<open>Waiting, with the lock held from the check of the predicate until the task is on the list.\<close>

definition wait_inner :: "nat \<Rightarrow> nat \<Rightarrow> nat \<Rightarrow> 'k system \<Rightarrow> 'k system exec" where
  "wait_inner i l r s = yield_to_scheduler i (PushToWaitingList (Some l)) r s"

definition wait_ifnt :: "nat \<Rightarrow> nat \<Rightarrow> nat \<Rightarrow> ('k system \<Rightarrow> bool) \<Rightarrow> 'k system \<Rightarrow> ('k system \<times> bool) exec" where
  "wait_ifnt i l r predicate s =
     (if predicate s then Inr (s, False) else exec_bind (wait_inner i l r s) (\<lambda>s. Inr (s, True)))"

section \<open>Steps of the system\<close>

text \<open>A step is labelled with the CPU on which the scheduler picked a task, if it did.\<close>

inductive sched_step :: "nat option \<Rightarrow> 'k system \<Rightarrow> 'k system \<Rightarrow> bool" where
  step_yield: "i < length (cpus s) \<Longrightarrow> (\<forall>l. cmd = PushToWaitingList (Some l) \<longrightarrow> l < length (waiting_lists s))
    \<Longrightarrow> yield_to_scheduler i cmd r s = Inr s' \<Longrightarrow> sched_step None s s'"
| step_pick: "i < length (cpus s) \<Longrightarrow> current_task (cpus s ! i) = None \<Longrightarrow> pick_next i s = Inr (Some s') \<Longrightarrow> sched_step (Some i) s s'"
| step_tick: "i < length (cpus s) \<Longrightarrow> scheduler_tick i s = Inr s' \<Longrightarrow> sched_step None s s'"
| step_init: "(i < length (cpus s) \<longrightarrow> cpus s ! i = default_cpu) \<Longrightarrow> unat (next_task_id s) + 1 < 2 ^ 64
    \<Longrightarrow> init_scheduler i stack s = s' \<Longrightarrow> sched_step None s s'"
| step_spawn: "unat (next_task_id s) + 1 < 2 ^ 64 \<Longrightarrow> spawn_kernel_task i cs_new kstack s = Inr (s', tid) \<Longrightarrow> sched_step None s s'"
| step_new_list: "sched_step None s (new_list s)"
| step_notify: "l < length (waiting_lists s) \<Longrightarrow> notify_one l s = (s', woken) \<Longrightarrow> sched_step None s s'"

inductive_cases sched_stepE: "sched_step picked s s'"

definition empty_system :: "'k system" where
  "empty_system = \<lparr>cpus = [], next_task_id = 0, waiting_lists = []\<rparr>"

inductive sched_reach :: "'k system \<Rightarrow> bool" where
  reach_start: "sched_reach empty_system"
| reach_step: "sched_reach s \<Longrightarrow> sched_step picked s s' \<Longrightarrow> sched_reach s'"

section \<open>Where the tasks are\<close>

definition ids :: "'k task list \<Rightarrow> 64 word multiset" where
  "ids ts = mset (map task_id ts)"

definition state_ids :: "'k SchedulerState \<Rightarrow> 64 word multiset" where
  "state_ids st = ids (run_queue st) + ids (map fst (sleeping st)) + ids (deferred_drop st)"

definition cpu_ids :: "'k cpu \<Rightarrow> 64 word multiset" where
  "cpu_ids c = ids (case current_task c of None \<Rightarrow> [] | Some t \<Rightarrow> [t]) + state_ids (scheduler_state c)"

definition list_ids :: "'k WaitingListEntry list \<Rightarrow> 64 word multiset" where
  "list_ids es = ids (map entry_task es)"

definition sys_ids :: "'k system \<Rightarrow> 64 word multiset" where
  "sys_ids s = sum_list (map cpu_ids (cpus s)) + sum_list (map list_ids (waiting_lists s))"

definition idle_interruptions :: "ni_cpu \<Rightarrow> bool" where
  "idle_interruptions n \<longleftrightarrow> nointerruptions_stack n = [] \<and> \<not> scheduler_yield_disabled n"

definition cpu_ok :: "'k cpu \<Rightarrow> bool" where
  "cpu_ok c \<longleftrightarrow> idle_interruptions (cpu_interruptions c) \<and> (is_executing c \<longrightarrow> current_task c \<noteq> None)"

lemma ids_simps [simp]:
  "ids [] = {#}" "ids (t # ts) = add_mset (task_id t) (ids ts)" "ids (xs @ ys) = ids xs + ids ys"
  by (simp_all add: ids_def)

lemma default_ids [simp]: "state_ids default_state = {#}" "cpu_ids default_cpu = {#}" "list_ids [] = {#}"
  by (simp_all add: default_state_def default_cpu_def state_ids_def cpu_ids_def list_ids_def)

lemma default_cpu_ok [simp]: "cpu_ok default_cpu"
  by (simp add: cpu_ok_def default_cpu_def idle_interruptions_def)

lemma sys_ids_update_cpu:
  assumes "i < length (cpus s)"
  shows "sys_ids (s\<lparr>cpus := (cpus s)[i := c]\<rparr>) + cpu_ids (cpus s ! i) = sys_ids s + cpu_ids c"
  using sum_list_map_update[OF assms, of cpu_ids c] by (simp add: sys_ids_def union_ac)

lemma sys_ids_update_list:
  assumes "l < length (waiting_lists s)"
  shows "sys_ids (s\<lparr>waiting_lists := (waiting_lists s)[l := es]\<rparr>) + list_ids (waiting_lists s ! l) = sys_ids s + list_ids es"
  using sum_list_map_update[OF assms, of list_ids es] by (simp add: sys_ids_def union_ac)

lemma sum_list_replicate_empty [simp]: "sum_list (replicate n {#}) = {#}"
  by (induction n) simp_all

lemma ensure_cpu_simps [simp]:
  "i < length (cpus (ensure_cpu i s))" "waiting_lists (ensure_cpu i s) = waiting_lists s"
  "next_task_id (ensure_cpu i s) = next_task_id s" "sys_ids (ensure_cpu i s) = sys_ids s"
  by (simp_all add: ensure_cpu_def sys_ids_def sum_list_replicate_empty)

lemma sys_ids_next [simp]: "sys_ids (s\<lparr>next_task_id := n\<rparr>) = sys_ids s"
  by (simp add: sys_ids_def)

lemma default_cpu_running [simp]: "cpu_ids (default_cpu\<lparr>current_task := Some t\<rparr>) = {#task_id t#}"
  by (simp add: cpu_ids_def default_cpu_def default_state_def state_ids_def)

lemma ensure_cpu_default:
  "(i < length (cpus s) \<longrightarrow> cpus s ! i = default_cpu) \<Longrightarrow> cpus (ensure_cpu i s) ! i = default_cpu"
  by (auto simp: ensure_cpu_def nth_append)

lemma push_back_ids [simp]: "state_ids (push_back_task t st) = add_mset (task_id t) (state_ids st)"
  by (simp add: push_back_task_def state_ids_def)

text \<open>Pushing a task adds its id and keeps the CPUs well-formed.\<close>

lemma push_task_to_ids: "sys_ids (push_task_to i t s) = add_mset (task_id t) (sys_ids s)"
proof -
  let ?s = "ensure_cpu i s"
  have "sys_ids (push_task_to i t s) + cpu_ids (cpus ?s ! i) = add_mset (task_id t) (sys_ids s) + cpu_ids (cpus ?s ! i)"
    using sys_ids_update_cpu[of i ?s] by (simp add: push_task_to_def update_state_def update_cpu_def cpu_ids_def)
  then show ?thesis by simp
qed

lemma push_task_to_next [simp]: "next_task_id (push_task_to i t s) = next_task_id s"
  by (simp add: push_task_to_def update_state_def update_cpu_def)

lemma cpu_ok_state [simp]:
  "cpu_ok (c\<lparr>scheduler_state := st\<rparr>) = cpu_ok c" "cpu_ok (c\<lparr>scheduler_ticks := n\<rparr>) = cpu_ok c"
  by (simp_all add: cpu_ok_def)

definition all_ok :: "'k system \<Rightarrow> bool" where
  "all_ok s \<longleftrightarrow> (\<forall>c\<in>set (cpus s). cpu_ok c)"

lemma all_ok_nth: "all_ok s \<Longrightarrow> i < length (cpus s) \<Longrightarrow> cpu_ok (cpus s ! i)"
  by (simp add: all_ok_def)

lemma all_ok_set: "all_ok s \<Longrightarrow> cpu_ok c \<Longrightarrow> all_ok (s\<lparr>cpus := (cpus s)[i := c]\<rparr>)"
  using set_update_subset_insert[of "cpus s" i c] by (auto simp: all_ok_def)

lemma all_ok_ensure: "all_ok s \<Longrightarrow> all_ok (ensure_cpu i s)"
  by (auto simp: all_ok_def ensure_cpu_def)

lemma all_ok_update_state: "all_ok s \<Longrightarrow> i < length (cpus s) \<Longrightarrow> all_ok (update_state i f s)"
  by (simp add: update_state_def update_cpu_def all_ok_set all_ok_nth)

lemma all_ok_push: "all_ok s \<Longrightarrow> all_ok (push_task_to i t s)"
  by (simp add: push_task_to_def all_ok_update_state all_ok_ensure)

lemma all_ok_other [simp]:
  "all_ok (s\<lparr>waiting_lists := w\<rparr>) = all_ok s" "all_ok (s\<lparr>next_task_id := n\<rparr>) = all_ok s"
  by (simp_all add: all_ok_def)

text \<open>Resuming a task leaves the interruption state as it was.\<close>

lemma resume_cpu_eq:
  assumes "idle_interruptions (cpu_interruptions c)"
  shows "resume_cpu t c = Inr (c\<lparr>current_task := Some t, is_executing := True\<rparr>)"
  using assms
  by (cases "cpu_interruptions c")
    (auto simp: resume_cpu_def resume_callback_def idle_interruptions_def disable_interruptions_eq
      enable_interruptions_def clear_interrupts_eq restore_interrupts_def vec_get_def vec_set_def
      restore_loop.simps Let_def)

lemma pick_next_eq:
  assumes "all_ok s" and "i < length (cpus s)"
  shows "pick_next i s = Inr (case run_queue (scheduler_state (cpus s ! i)) of
     [] \<Rightarrow> None
   | t # ts \<Rightarrow> Some (s\<lparr>cpus := (cpus s)[i := (cpus s ! i)\<lparr>
       scheduler_state := (scheduler_state (cpus s ! i))\<lparr>run_queue := ts\<rparr>,
       current_task := Some t, is_executing := True\<rparr>]\<rparr>))"
  using all_ok_nth[OF assms]
  by (auto simp: pick_next_def Let_def resume_cpu_eq cpu_ok_def split: list.split)

text \<open>The tick wakes the due tasks, last first, and keeps the others asleep.\<close>

definition due :: "nat \<Rightarrow> ('k task \<times> nat) \<Rightarrow> bool" where
  "due now e \<longleftrightarrow> snd e \<le> now"

lemma due_pair [simp]: "due now (t, w) \<longleftrightarrow> w \<le> now"
  by (simp add: due_def)

lemma swap_remove_take:
  "swap_remove i xs = Inr ys \<Longrightarrow> take i ys = take i xs"
  by (auto simp: swap_remove_def take_butlast split: if_splits)

lemma wake_loop_ok:
  assumes "i \<le> length (sleeping st)"
  shows "\<exists>sl. wake_loop now i st = Inr (st\<lparr>sleeping := sl,
      run_queue := run_queue st @ rev (map fst (filter (due now) (take i (sleeping st))))\<rparr>)
    \<and> mset sl + mset (filter (due now) (take i (sleeping st))) = mset (sleeping st)"
  using assms
proof (induction i arbitrary: st)
  case 0
  then show ?case by (intro exI[of _ "sleeping st"]) simp
next
  case (Suc i)
  obtain t w where e: "sleeping st ! i = (t, w)" by fastforce
  have i: "i < length (sleeping st)" using Suc.prems by simp
  have tk: "take (Suc i) (sleeping st) = take i (sleeping st) @ [(t, w)]" using i e by (simp add: take_Suc_conv_app_nth)
  show ?case
  proof (cases "w \<le> now")
    case False
    then show ?thesis using Suc.IH[of st] i e tk by (simp add: vec_get_def)
  next
    case True
    obtain sl where sl: "swap_remove i (sleeping st) = Inr sl" using swap_remove_total[OF i] by blast
    note m = swap_remove_mset[OF sl] and t = swap_remove_take[OF sl]
    have "length sl = length (sleeping st) - 1" using m i e by (metis mset_eq_length size_Diff_singleton nth_mem size_mset set_mset_mset)
    then have "i \<le> length (sleeping (push_back_task t (st\<lparr>sleeping := sl\<rparr>)))" using i by (simp add: push_back_task_def)
    from Suc.IH[OF this] obtain sl' where "wake_loop now i (push_back_task t (st\<lparr>sleeping := sl\<rparr>)) =
        Inr (st\<lparr>sleeping := sl', run_queue := run_queue st @ [t] @ rev (map fst (filter (due now) (take i (sleeping st))))\<rparr>)"
      "mset sl' + mset (filter (due now) (take i (sleeping st))) = mset sl"
      using t by (auto simp: push_back_task_def)
    moreover have "add_mset (t, w) (mset sl) = mset (sleeping st)"
      using m i e by (metis insert_DiffM nth_mem set_mset_mset)
    ultimately show ?thesis using True i e tk sl
      by (intro exI[of _ sl']) (simp add: vec_get_def)
  qed
qed

definition woken_state :: "nat \<Rightarrow> ('k task \<times> nat) list \<Rightarrow> 'k SchedulerState \<Rightarrow> 'k SchedulerState" where
  "woken_state now sl st = st\<lparr>sleeping := sl, run_queue := run_queue st @ rev (map fst (filter (due now) (sleeping st)))\<rparr>"

lemma tick_eq:
  assumes "scheduler_tick i s = Inr s'"
  obtains sl where
    "s' = s\<lparr>cpus := (cpus s)[i := (cpus s ! i)\<lparr>scheduler_state := woken_state (scheduler_ticks (cpus s ! i) + 1) sl (scheduler_state (cpus s ! i)),
       scheduler_ticks := scheduler_ticks (cpus s ! i) + 1\<rparr>]\<rparr>"
    "mset sl = mset (filter (\<lambda>e. \<not> due (scheduler_ticks (cpus s ! i) + 1) e) (sleeping (scheduler_state (cpus s ! i))))"
proof -
  let ?c = "cpus s ! i"
  let ?st = "scheduler_state ?c" and ?now = "scheduler_ticks ?c + 1"
  obtain sl where w: "wake_loop ?now (length (sleeping ?st)) ?st = Inr (woken_state ?now sl ?st)"
    and sl: "mset sl + mset (filter (due ?now) (sleeping ?st)) = mset (sleeping ?st)"
    using wake_loop_ok[of "length (sleeping ?st)" ?st ?now] by (auto simp: woken_state_def)
  have "mset sl = mset (filter (\<lambda>e. \<not> due ?now e) (sleeping ?st))"
    using sl by (metis (no_types) add.commute add_right_cancel mset_filter multiset_partition)
  with w assms that show ?thesis
    by (auto simp: scheduler_tick_def Let_def uadd_def split: if_splits)
qed

section \<open>Preservation of the tasks\<close>

lemma ids_mset_cong: "mset xs = mset ys \<Longrightarrow> ids (map f xs) = ids (map f ys)"
  by (simp add: ids_def)

lemma tick_state_ids:
  assumes "mset sl = mset (filter (\<lambda>e. \<not> due n e) (sleeping st))"
  shows "state_ids (woken_state n sl st) = state_ids st"
proof -
  have "ids (map fst sl) = ids (map fst (filter (\<lambda>e. \<not> due n e) (sleeping st)))" using assms by (rule ids_mset_cong)
  moreover have "ids (map fst (filter (\<lambda>e. \<not> due n e) xs)) + ids (rev (map fst (filter (due n) xs))) = ids (map fst xs)" for xs
    by (induction xs) (auto simp: ids_def)
  ultimately show ?thesis by (simp add: woken_state_def state_ids_def union_ac)
qed

text \<open>What a step does to the tasks: it keeps all of them, creates one with the next id, or drops
  the terminated tasks of one CPU.\<close>

definition tasks_kept :: "'k system \<Rightarrow> 'k system \<Rightarrow> bool" where
  "tasks_kept s s' \<longleftrightarrow> sys_ids s' = sys_ids s \<and> next_task_id s' = next_task_id s"

definition task_created :: "'k system \<Rightarrow> 'k system \<Rightarrow> bool" where
  "task_created s s' \<longleftrightarrow> unat (next_task_id s) + 1 < 2 ^ 64
     \<and> sys_ids s' = add_mset (next_task_id s) (sys_ids s) \<and> next_task_id s' = next_task_id s + 1"

definition tasks_dropped :: "'k system \<Rightarrow> 'k system \<Rightarrow> bool" where
  "tasks_dropped s s' \<longleftrightarrow> (\<exists>i<length (cpus s). sys_ids s = sys_ids s' + ids (deferred_drop (scheduler_state (cpus s ! i))))
     \<and> next_task_id s' = next_task_id s"

lemma place_task_ids:
  assumes "place_task i cmd t s = Inr s'" and "i < length (cpus s)"
    and "\<forall>l. cmd = PushToWaitingList (Some l) \<longrightarrow> l < length (waiting_lists s)"
  shows "next_task_id s' = next_task_id s \<and> sys_ids s' + (if cmd = Terminate then ids (deferred_drop (scheduler_state (cpus s ! i))) else {#})
     = add_mset (task_id t) (sys_ids s)"
proof (cases cmd)
  case (PushToWaitingList l)
  then obtain l' where l': "l = Some l'" "l' < length (waiting_lists s)" using assms by (cases l) auto
  then show ?thesis using assms(1) PushToWaitingList
      sys_ids_update_list[OF l'(2), of "waiting_lists s ! l' @ [\<lparr>entry_task = t, entry_cpu = i\<rparr>]"]
    by (auto simp: list_ids_def)
next
  case (SleepNTicks n)
  then show ?thesis using assms sys_ids_update_cpu[OF assms(2), of "(cpus s ! i)\<lparr>scheduler_state :=
      (scheduler_state (cpus s ! i))\<lparr>sleeping := sleeping (scheduler_state (cpus s ! i)) @ [(t, scheduler_ticks (cpus s ! i) + n)]\<rparr>\<rparr>"]
    by (auto simp: exec_dests update_state_def update_cpu_def cpu_ids_def state_ids_def union_ac)
next
  case PushBack
  then show ?thesis using assms sys_ids_update_cpu[OF assms(2), of "(cpus s ! i)\<lparr>scheduler_state := push_back_task t (scheduler_state (cpus s ! i))\<rparr>"]
    by (auto simp: update_state_def update_cpu_def cpu_ids_def)
next
  case Terminate
  then show ?thesis using assms sys_ids_update_cpu[OF assms(2), of "(cpus s ! i)\<lparr>scheduler_state := (scheduler_state (cpus s ! i))\<lparr>deferred_drop := [t]\<rparr>\<rparr>"]
    by (auto simp: update_state_def update_cpu_def cpu_ids_def state_ids_def union_ac)
qed

lemma yield_ids:
  assumes "yield_to_scheduler i cmd r s = Inr s'" and i: "i < length (cpus s)"
    and "\<forall>l. cmd = PushToWaitingList (Some l) \<longrightarrow> l < length (waiting_lists s)"
  shows "tasks_kept s s' \<or> tasks_dropped s s'"
proof -
  let ?c = "cpus s ! i"
  let ?s1 = "s\<lparr>cpus := (cpus s)[i := ?c\<lparr>is_executing := False, current_task := None\<rparr>]\<rparr>"
  obtain t where t: "current_task ?c = Some t" and p: "place_task i cmd (t\<lparr>rsp := r\<rparr>) ?s1 = Inr s'"
    using assms(1) by (auto simp: yield_to_scheduler_def schedule_save_def exec_dests update_cpu_def split: if_splits)
  have "sys_ids ?s1 + cpu_ids ?c = sys_ids s + cpu_ids (?c\<lparr>is_executing := False, current_task := None\<rparr>)"
    by (rule sys_ids_update_cpu[OF i])
  then have "add_mset (task_id t) (sys_ids ?s1) = sys_ids s" using t by (simp add: cpu_ids_def)
  then show ?thesis using place_task_ids[OF p] i assms(3)
    by (cases "cmd = Terminate") (auto simp: tasks_kept_def tasks_dropped_def)
qed

lemma pick_ids:
  assumes "all_ok s" and i: "i < length (cpus s)" and "current_task (cpus s ! i) = None" and "pick_next i s = Inr (Some s')"
  shows "tasks_kept s s' \<and> all_ok s'"
proof -
  obtain t ts where q: "run_queue (scheduler_state (cpus s ! i)) = t # ts"
    using assms by (auto simp: pick_next_eq split: list.splits)
  let ?c = "(cpus s ! i)\<lparr>scheduler_state := (scheduler_state (cpus s ! i))\<lparr>run_queue := ts\<rparr>,
     current_task := Some t, is_executing := True\<rparr>"
  have s': "s' = s\<lparr>cpus := (cpus s)[i := ?c]\<rparr>" using assms q by (simp add: pick_next_eq)
  have "cpu_ok ?c" using all_ok_nth[OF assms(1) i] by (simp add: cpu_ok_def)
  then show ?thesis using sys_ids_update_cpu[OF i, of ?c] assms(1,3) q
    by (simp add: s' tasks_kept_def cpu_ids_def state_ids_def all_ok_set)
qed

lemma tick_ids:
  assumes "all_ok s" and i: "i < length (cpus s)" and "scheduler_tick i s = Inr s'"
  shows "tasks_kept s s' \<and> all_ok s'"
  using assms(3)
proof (rule tick_eq)
  fix sl
  let ?c = "cpus s ! i"
  let ?n = "scheduler_ticks ?c + 1"
  let ?c' = "?c\<lparr>scheduler_state := woken_state ?n sl (scheduler_state ?c), scheduler_ticks := ?n\<rparr>"
  assume s': "s' = s\<lparr>cpus := (cpus s)[i := ?c']\<rparr>"
    and "mset sl = mset (filter (\<lambda>e. \<not> due ?n e) (sleeping (scheduler_state ?c)))"
  then have "cpu_ids ?c' = cpu_ids ?c" using tick_state_ids[of sl ?n "scheduler_state ?c"] by (simp add: cpu_ids_def)
  then have "sys_ids s' = sys_ids s" using sys_ids_update_cpu[OF i, of ?c'] s' by simp
  moreover have "cpu_ok ?c'" using all_ok_nth[OF assms(1) i] by simp
  then have "all_ok s'" unfolding s' by (rule all_ok_set[OF assms(1)])
  ultimately show ?thesis by (simp add: s' tasks_kept_def)
qed

lemma yield_ok:
  assumes "all_ok s" and i: "i < length (cpus s)" and "yield_to_scheduler i cmd r s = Inr s'"
  shows "all_ok s'"
proof -
  let ?s1 = "update_cpu i (\<lambda>c. c\<lparr>is_executing := False, current_task := None\<rparr>) s"
  have 1: "all_ok ?s1" "i < length (cpus ?s1)"
    using assms(1) i all_ok_nth[OF assms(1) i] by (auto simp: update_cpu_def all_ok_set cpu_ok_def)
  obtain t where "place_task i cmd t ?s1 = Inr s'"
    using assms(3) by (auto simp: yield_to_scheduler_def schedule_save_def exec_dests split: if_splits)
  then show ?thesis using 1 by (cases cmd) (auto simp: exec_dests all_ok_update_state)
qed

lemma spawn_ids:
  assumes "all_ok s" and "unat (next_task_id s) + 1 < 2 ^ 64" and "spawn_kernel_task i cs_new kstack s = Inr (s', tid)"
  shows "task_created s s' \<and> all_ok s'"
  using assms by (auto simp: spawn_kernel_task_def new_kernel_task_def push_task_eq exec_dests new_with_rsp_def task_created_def push_task_to_ids all_ok_push)

lemma init_ids:
  assumes "all_ok s" and "unat (next_task_id s) + 1 < 2 ^ 64" and "i < length (cpus s) \<longrightarrow> cpus s ! i = default_cpu"
  shows "task_created s (init_scheduler i stack s) \<and> all_ok (init_scheduler i stack s)"
proof -
  let ?s = "(ensure_cpu i s)\<lparr>next_task_id := next_task_id s + 1\<rparr>"
  let ?t = "\<lparr>task_id = next_task_id s, task_type = KernelTask, rsp = 0, stack_allocation = stack\<rparr>"
  have d: "cpus ?s ! i = default_cpu" "i < length (cpus ?s)" using ensure_cpu_default[OF assms(3)] by simp_all
  have e: "init_scheduler i stack s = ?s\<lparr>cpus := (cpus ?s)[i := default_cpu\<lparr>current_task := Some ?t\<rparr>]\<rparr>"
    using d(1) by (simp add: init_scheduler_def new_with_rsp_def update_cpu_def)
  have "sys_ids (init_scheduler i stack s) = add_mset (next_task_id s) (sys_ids s)"
    using sys_ids_update_cpu[OF d(2), of "default_cpu\<lparr>current_task := Some ?t\<rparr>"] d(1)
    unfolding e by simp
  moreover have "cpu_ok (default_cpu\<lparr>current_task := Some ?t\<rparr>)" by (simp add: cpu_ok_def default_cpu_def idle_interruptions_def)
  then have "all_ok (init_scheduler i stack s)" unfolding e
    by (intro all_ok_set) (simp_all add: all_ok_ensure assms(1))
  ultimately show ?thesis using assms(2) by (simp add: task_created_def e)
qed

lemma notify_ids:
  assumes "all_ok s" and l: "l < length (waiting_lists s)" and "notify_one l s = (s', woken)"
  shows "tasks_kept s s' \<and> all_ok s'"
proof (cases "waiting_lists s ! l")
  case Nil
  then show ?thesis using assms by (simp add: notify_one_def notify_inner_def tasks_kept_def)
next
  case (Cons e es)
  then show ?thesis using assms sys_ids_update_list[OF l, of es]
    by (auto simp: notify_one_def notify_inner_def tasks_kept_def push_task_to_ids all_ok_push list_ids_def)
qed

lemma step_ids:
  assumes "sched_step picked s s'" and ok: "all_ok s"
  shows "(tasks_kept s s' \<or> task_created s s' \<or> tasks_dropped s s') \<and> all_ok s'"
  using assms(1)
proof cases
  case (step_yield i cmd r)
  then show ?thesis using yield_ids[of i cmd r s s'] yield_ok[OF ok] by auto
next
  case (step_pick i)
  then show ?thesis using pick_ids[OF ok] by auto
next
  case (step_tick i)
  then show ?thesis using tick_ids[OF ok] by auto
next
  case (step_init i stack)
  then show ?thesis using init_ids[OF ok] by auto
next
  case (step_spawn i cs_new kstack tid)
  then show ?thesis using spawn_ids[OF ok] by auto
next
  case step_new_list
  then show ?thesis using ok by (auto simp: tasks_kept_def new_list_def sys_ids_def)
next
  case (step_notify l woken)
  then show ?thesis using notify_ids[OF ok] by auto
qed

definition sched_inv :: "'k system \<Rightarrow> bool" where
  "sched_inv s \<longleftrightarrow> (\<forall>x. count (sys_ids s) x \<le> 1) \<and> (\<forall>x\<in>#sys_ids s. unat x < unat (next_task_id s)) \<and> all_ok s"

lemma sched_inv_created:
  assumes "sched_inv s" and "task_created s s'" and "all_ok s'"
  shows "sched_inv s'"
proof -
  have "unat (next_task_id s + 1) = unat (next_task_id s) + 1"
    using assms(2) by (simp add: task_created_def unat_word_ariths take_bit_nat_eq_self)
  moreover have "next_task_id s \<notin># sys_ids s" using assms(1) by (auto simp: sched_inv_def)
  then have "count (sys_ids s) (next_task_id s) = 0" by (simp add: not_in_iff)
  ultimately show ?thesis using assms by (auto simp: sched_inv_def task_created_def less_Suc_eq)
qed

lemma sched_inv_step:
  assumes "sched_inv s" and "sched_step picked s s'"
  shows "sched_inv s'"
proof -
  have ok: "all_ok s'" and "tasks_kept s s' \<or> task_created s s' \<or> tasks_dropped s s'"
    using step_ids[OF assms(2)] assms(1) by (auto simp: sched_inv_def)
  then consider "tasks_kept s s'" | "task_created s s'" | "tasks_dropped s s'" by blast
  then show ?thesis
  proof cases
    case 3
    then obtain M where "sys_ids s = sys_ids s' + M" "next_task_id s' = next_task_id s" by (auto simp: tasks_dropped_def)
    then show ?thesis using assms(1) ok by (auto simp: sched_inv_def) (metis add_leD1)
  qed (use assms(1) ok sched_inv_created in \<open>auto simp: sched_inv_def tasks_kept_def\<close>)
qed

lemma sched_reach_inv: "sched_reach s \<Longrightarrow> sched_inv s"
proof (induction rule: sched_reach.induct)
  case reach_start
  then show ?case by (simp add: sched_inv_def empty_system_def sys_ids_def all_ok_def)
qed (rule sched_inv_step)

section \<open>The order of the run queue\<close>

definition queue :: "nat \<Rightarrow> 'k system \<Rightarrow> 'k task list" where
  "queue i s = run_queue (scheduler_state (cpus s ! i))"

definition extends_queue :: "nat \<Rightarrow> 'k system \<Rightarrow> 'k system \<Rightarrow> bool" where
  "extends_queue i s s' \<longleftrightarrow> i < length (cpus s') \<and> (\<exists>ys. queue i s' = queue i s @ ys)"

lemma extends_queueI: "i < length (cpus s') \<Longrightarrow> queue i s' = queue i s \<Longrightarrow> extends_queue i s s'"
  by (simp add: extends_queue_def)

lemma extends_queue_trans: "extends_queue i s s1 \<Longrightarrow> extends_queue i s1 s2 \<Longrightarrow> extends_queue i s s2"
  by (auto simp: extends_queue_def)

lemma extends_queue_set:
  assumes "i < length (cpus s)" and "\<exists>ys. run_queue (scheduler_state c) = run_queue (scheduler_state (cpus s ! j)) @ ys"
  shows "extends_queue i s (s\<lparr>cpus := (cpus s)[j := c]\<rparr>)"
  using assms by (cases "i = j") (auto simp: extends_queue_def queue_def)

lemma extends_queue_ensure: "i < length (cpus s) \<Longrightarrow> extends_queue i s (ensure_cpu j s)"
  by (simp add: extends_queue_def queue_def ensure_cpu_def nth_append)

lemma extends_queue_update_state:
  "i < length (cpus s) \<Longrightarrow> extends_queue i s (update_state j (push_back_task t) s)"
  unfolding update_state_def update_cpu_def by (rule extends_queue_set) (simp_all add: push_back_task_def)

lemma ensure_cpu_length: "i < length (cpus s) \<Longrightarrow> i < length (cpus (ensure_cpu j s))"
  by (simp add: ensure_cpu_def)

lemma extends_queue_push: "i < length (cpus s) \<Longrightarrow> extends_queue i s (push_task_to j t s)"
  unfolding push_task_to_def
  by (rule extends_queue_trans[OF extends_queue_ensure extends_queue_update_state]) (simp_all add: ensure_cpu_length)

lemma extends_queue_push_after:
  assumes "i < length (cpus s)" and "cpus s1 = cpus s"
  shows "extends_queue i s (push_task_to j t s1)"
proof -
  have "extends_queue i s s1" using assms by (simp add: extends_queue_def queue_def)
  then show ?thesis using extends_queue_push[of i s1] assms by (auto intro: extends_queue_trans)
qed

lemma place_task_queue:
  assumes "place_task j cmd t s = Inr s'" and "i < length (cpus s)"
  shows "extends_queue i s s'"
  using assms
  by (cases cmd)
    (auto simp: exec_dests update_state_def update_cpu_def push_back_task_def intro!: extends_queue_set
      intro: extends_queueI simp: queue_def)

lemma yield_queue:
  assumes "yield_to_scheduler j cmd r s = Inr s'" and i: "i < length (cpus s)"
  shows "extends_queue i s s'"
proof -
  let ?s1 = "update_cpu j (\<lambda>c. c\<lparr>is_executing := False, current_task := None\<rparr>) s"
  obtain t where "place_task j cmd t ?s1 = Inr s'"
    using assms(1) by (auto simp: yield_to_scheduler_def schedule_save_def exec_dests split: if_splits)
  moreover have "extends_queue i s ?s1" "i < length (cpus ?s1)"
    using i by (auto simp: update_cpu_def intro!: extends_queue_set)
  ultimately show ?thesis using place_task_queue extends_queue_trans by blast
qed

lemma init_queue: "i < length (cpus s) \<Longrightarrow> extends_queue i s (init_scheduler j stack s)"
  by (rule extends_queue_trans[OF extends_queue_ensure[of i s j]])
    (auto simp: init_scheduler_def new_with_rsp_def update_cpu_def extends_queue_def queue_def nth_list_update ensure_cpu_def)

lemma other_steps_queue:
  assumes "sched_step picked s s'" and "picked \<noteq> Some i" and i: "i < length (cpus s)" and ok: "all_ok s"
  shows "extends_queue i s s'"
  using assms(1)
proof cases
  case (step_yield j cmd r)
  then show ?thesis using yield_queue i by blast
next
  case (step_pick j)
  then show ?thesis using assms(2) i ok
    by (auto simp: pick_next_eq extends_queue_def queue_def split: list.splits)
next
  case (step_tick j)
  from step_tick(3) show ?thesis by (rule tick_eq) (auto intro!: extends_queue_set[OF i] simp: woken_state_def)
next
  case (step_init j stack)
  then show ?thesis using init_queue[OF i] by blast
next
  case (step_spawn j cs_new kstack tid)
  then show ?thesis using extends_queue_push_after[OF i]
    by (auto simp: spawn_kernel_task_def new_kernel_task_def push_task_eq new_with_rsp_def exec_dests)
next
  case step_new_list
  then show ?thesis using i by (intro extends_queueI) (simp_all add: new_list_def queue_def)
next
  case (step_notify l woken)
  then show ?thesis using extends_queue_push_after[OF i] extends_queueI[of i s s] i
    by (auto simp: notify_one_def notify_inner_def split: list.splits)
qed

lemma pick_queue:
  assumes "sched_step (Some i) s s'" and "all_ok s" and "i < length (cpus s)"
  shows "queue i s \<noteq> [] \<and> queue i s' = tl (queue i s) \<and> current_task (cpus s' ! i) = Some (hd (queue i s)) \<and> i < length (cpus s')"
  using assms by (auto elim!: sched_stepE simp: pick_next_eq queue_def split: list.splits)

text \<open>Executions in which CPU \<open>i\<close> picks a task \<open>n\<close> times.\<close>

inductive sched_run :: "nat \<Rightarrow> 'k system \<Rightarrow> nat \<Rightarrow> 'k system \<Rightarrow> bool" for i s where
  run_start: "sched_run i s 0 s"
| run_pick: "sched_run i s n s1 \<Longrightarrow> sched_step (Some i) s1 s2 \<Longrightarrow> sched_run i s (Suc n) s2"
| run_other: "sched_run i s n s1 \<Longrightarrow> sched_step picked s1 s2 \<Longrightarrow> picked \<noteq> Some i \<Longrightarrow> sched_run i s n s2"

lemma sched_run_queue:
  assumes "sched_run i s n s'" and "sched_inv s" and "i < length (cpus s)" and "n \<le> k" and "k < length (queue i s)"
  shows "sched_inv s' \<and> i < length (cpus s') \<and> k - n < length (queue i s') \<and> queue i s' ! (k - n) = queue i s ! k"
  using assms
proof (induction rule: sched_run.induct)
  case (run_pick n s1 s2)
  then have IH: "sched_inv s1" "i < length (cpus s1)" "k - n < length (queue i s1)" "queue i s1 ! (k - n) = queue i s ! k"
    by auto
  have p: "queue i s1 \<noteq> []" "queue i s2 = tl (queue i s1)" "i < length (cpus s2)"
    using pick_queue[OF run_pick.hyps(2)] IH by (auto simp: sched_inv_def)
  have "k - n = Suc (k - Suc n)" using run_pick.prems by simp
  then show ?case using IH p sched_inv_step[OF IH(1) run_pick.hyps(2)]
    by (cases "queue i s1") auto
next
  case (run_other n s1 picked s2)
  then have IH: "sched_inv s1" "i < length (cpus s1)" "k - n < length (queue i s1)" "queue i s1 ! (k - n) = queue i s ! k"
    by auto
  then obtain ys where "i < length (cpus s2)" "queue i s2 = queue i s1 @ ys"
    using other_steps_queue[OF run_other.hyps(2,3)] by (auto simp: sched_inv_def extends_queue_def)
  then show ?case using IH sched_inv_step[OF IH(1) run_other.hyps(2)] by (auto simp: nth_append)
qed simp

lemma queue_push:
  "i < length (cpus s) \<Longrightarrow> queue i (push_task_to j t s) = queue i s @ (if i = j then [t] else [])"
  by (simp add: queue_def push_task_to_def update_state_def update_cpu_def ensure_cpu_def push_back_task_def
      nth_list_update nth_append)

lemma length_push: "length (cpus s) \<le> length (cpus (push_task_to j t s))"
  by (simp add: push_task_to_def update_state_def update_cpu_def ensure_cpu_def)

lemma notify_all_spec:
  assumes "l < length (waiting_lists s)"
  shows "waiting_lists (notify_all l s) = (waiting_lists s)[l := []] \<and> sys_ids (notify_all l s) = sys_ids s
     \<and> (\<forall>i<length (cpus s). queue i (notify_all l s) =
          queue i s @ map entry_task (filter (\<lambda>e. entry_cpu e = i) (waiting_lists s ! l)))"
  using assms
proof (induction "waiting_lists s ! l" arbitrary: s)
  case Nil
  then have "notify_all l s = s" by (subst notify_all.simps) (simp add: notify_inner_def flip: Nil.hyps)
  then show ?case using Nil by (metis append_Nil2 filter.simps(1) list.simps(8) list_update_id)
next
  case (Cons e es)
  let ?s0 = "s\<lparr>waiting_lists := (waiting_lists s)[l := es]\<rparr>"
  let ?s1 = "push_task_to (entry_cpu e) (entry_task e) ?s0"
  have n: "notify_all l s = notify_all l ?s1"
    using Cons.prems by (subst notify_all.simps) (simp add: notify_inner_def flip: Cons.hyps(2))
  have "sys_ids ?s1 = sys_ids s"
    using sys_ids_update_list[OF Cons.prems, of es] Cons.hyps(2)[symmetric] by (simp add: push_task_to_ids list_ids_def)
  moreover have "queue i ?s1 = queue i s @ (if i = entry_cpu e then [entry_task e] else [])" if "i < length (cpus s)" for i
    using that queue_push[of i ?s0] by (simp add: queue_def)
  moreover have "length (cpus s) \<le> length (cpus ?s1)" using length_push[of ?s0] by simp
  ultimately show ?case
    using Cons.hyps(1)[of ?s1] Cons.prems Cons.hyps(2)[symmetric] unfolding n by auto
qed

section \<open>Properties\<close>

text \<open>C12: In every reachable state each task is in exactly one place (running, queued, asleep,
  on a waiting list, or terminated and not yet dropped) and interruptions are as idle as the
  scheduler requires; a step loses no task other than ones that had terminated.\<close>

theorem tasks_conserved:
  assumes "sched_reach s"
  shows "(\<forall>x. count (sys_ids s) x \<le> 1) \<and> (\<forall>c\<in>set (cpus s). cpu_ok c)
     \<and> (\<forall>picked s' x. sched_step picked s s' \<longrightarrow> x \<in># sys_ids s \<longrightarrow> x \<notin># sys_ids s'
          \<longrightarrow> (\<exists>c\<in>set (cpus s). x \<in># ids (deferred_drop (scheduler_state c))))"
proof -
  have inv: "sched_inv s" by (rule sched_reach_inv[OF assms])
  have "\<exists>c\<in>set (cpus s). x \<in># ids (deferred_drop (scheduler_state c))"
    if "sched_step picked s s'" "x \<in># sys_ids s" "x \<notin># sys_ids s'" for picked s' x
    using step_ids[OF that(1)] inv that(2,3)
    by (auto simp: sched_inv_def tasks_kept_def task_created_def tasks_dropped_def)
  with inv show ?thesis unfolding sched_inv_def all_ok_def by blast
qed

definition demo_booted :: "nat system" where
  "demo_booted = init_scheduler 0 None empty_system"

definition demo_system :: "nat system" where
  "demo_system = push_task 0 \<lparr>task_id = 2, task_type = KernelTask, rsp = 208, stack_allocation = Some 8\<rparr>
     (push_task 0 \<lparr>task_id = 1, task_type = KernelTask, rsp = 207, stack_allocation = Some 7\<rparr> demo_booted)\<lparr>next_task_id := 3\<rparr>"

lemma demo_booted_eq: "demo_booted = \<lparr>cpus = [default_cpu\<lparr>current_task :=
    Some \<lparr>task_id = 0, task_type = KernelTask, rsp = 0, stack_allocation = None\<rparr>\<rparr>], next_task_id = 1, waiting_lists = []\<rparr>"
  by (simp add: demo_booted_def empty_system_def init_scheduler_def new_with_rsp_def update_cpu_def ensure_cpu_def)

lemma demo_system_reach: "sched_reach demo_system"
proof -
  have 1: "sched_reach demo_booted" unfolding demo_booted_def
    by (rule reach_step[OF reach_start step_init]) (simp_all add: empty_system_def)
  have 2: "spawn_kernel_task 0 (\<lambda>k. k + 200) (Some 7) demo_booted = Inr
      (push_task 0 \<lparr>task_id = 1, task_type = KernelTask, rsp = 207, stack_allocation = Some 7\<rparr> (demo_booted\<lparr>next_task_id := 2\<rparr>), 1)"
    by (simp add: demo_booted_eq spawn_kernel_task_def new_kernel_task_def new_with_rsp_def)
  let ?s = "push_task 0 \<lparr>task_id = 1, task_type = KernelTask, rsp = 207, stack_allocation = Some 7\<rparr> (demo_booted\<lparr>next_task_id := 2\<rparr>)"
  have 3: "sched_reach ?s" by (rule reach_step[OF 1 step_spawn[OF _ 2]]) (simp add: demo_booted_eq)
  have 4: "spawn_kernel_task 0 (\<lambda>k. k + 200) (Some 8) ?s = Inr (demo_system, 2)"
    by (simp add: demo_booted_eq demo_system_def spawn_kernel_task_def new_kernel_task_def new_with_rsp_def push_task_def
        update_state_def update_cpu_def ensure_cpu_def)
  show ?thesis by (rule reach_step[OF 3 step_spawn[OF _ 4]]) (simp add: demo_booted_eq push_task_eq)
qed

theorem tasks_conserved_witness: "count (sys_ids demo_system) 2 \<le> 1 \<and> \<not> 1 < count (sys_ids demo_system) 0"
  using tasks_conserved[OF demo_system_reach] by (auto simp: not_less)

text \<open>C27: The run queue is first in, first out.  A task at position \<open>k\<close> of the run queue of a CPU
  of a reachable system stays there, \<open>k\<close> picks of that CPU later the scheduler finds it at the
  head, and the next time the CPU is free it is resumed, whatever else happened in between.\<close>

theorem run_queue_fifo:
  assumes "sched_reach s" and "i < length (cpus s)" and "k < length (queue i s)"
    and "sched_run i s k s1" and "current_task (cpus s1 ! i) = None"
  shows "\<exists>s2. pick_next i s1 = Inr (Some s2) \<and> current_task (cpus s2 ! i) = Some (queue i s ! k)"
proof -
  have q: "sched_inv s1" "i < length (cpus s1)" "0 < length (queue i s1)" "queue i s1 ! 0 = queue i s ! k"
    using sched_run_queue[OF assms(4) sched_reach_inv[OF assms(1)] assms(2) order_refl assms(3)] by auto
  then show ?thesis
    by (cases "queue i s1") (auto simp: sched_inv_def pick_next_eq queue_def)
qed

lemma demo_system_cpus: "cpus demo_system = [default_cpu\<lparr>
    current_task := Some \<lparr>task_id = 0, task_type = KernelTask, rsp = 0, stack_allocation = None\<rparr>,
    scheduler_state := default_state\<lparr>run_queue := [
      \<lparr>task_id = 1, task_type = KernelTask, rsp = 207, stack_allocation = Some 7\<rparr>,
      \<lparr>task_id = 2, task_type = KernelTask, rsp = 208, stack_allocation = Some 8\<rparr>]\<rparr>\<rparr>]"
  by (simp add: demo_system_def demo_booted_eq push_task_def update_cpu_def ensure_cpu_def
      update_state_def push_back_task_def default_cpu_def default_state_def)

theorem run_queue_fifo_witness:
  "\<exists>s1 s2. yield_to_scheduler 0 PushBack 55 demo_system = Inr s1 \<and> pick_next 0 s1 = Inr (Some s2)
     \<and> map_option task_id (current_task (cpus s2 ! 0)) = Some 1"
proof -
  obtain s1 where y: "yield_to_scheduler 0 PushBack 55 demo_system = Inr s1" "current_task (cpus s1 ! 0) = None"
    by (auto simp: yield_to_scheduler_def schedule_save_def demo_system_cpus default_cpu_def is_sched_yield_disabled_def
        update_cpu_def update_state_def)
  have "sched_run 0 demo_system 0 s1"
    by (rule run_other[OF run_start step_yield[OF _ _ y(1)]]) (simp_all add: demo_system_cpus)
  from run_queue_fifo[OF demo_system_reach _ _ this y(2)] show ?thesis
    using y(1) by (force simp: demo_system_cpus queue_def)
qed

text \<open>A clock tick moves exactly the sleeping tasks that are due to the run queue, leaves the
  others asleep, advances the clock by one and touches no other CPU.\<close>

theorem tick_wakes_due:
  assumes "i < length (cpus s)" and "scheduler_ticks (cpus s ! i) + 1 < usize_limit"
  shows "\<exists>s' sl. scheduler_tick i s = Inr s' \<and> (let c = cpus s ! i; now = scheduler_ticks c + 1; st = scheduler_state c in
     s' = s\<lparr>cpus := (cpus s)[i := c\<lparr>scheduler_state := st\<lparr>sleeping := sl,
        run_queue := run_queue st @ rev (map fst (filter (due now) (sleeping st)))\<rparr>, scheduler_ticks := now\<rparr>]\<rparr>
     \<and> mset sl = filter_mset (\<lambda>e. now < snd e) (mset (sleeping st)))"
proof -
  let ?c = "cpus s ! i"
  obtain s' where s': "scheduler_tick i s = Inr s'"
    using wake_loop_ok[of "length (sleeping (scheduler_state ?c))" "scheduler_state ?c" "scheduler_ticks ?c + 1"] assms(2)
    by (auto simp: scheduler_tick_def uadd_def Let_def)
  show ?thesis
    by (rule tick_eq[OF s']) (auto simp: s' woken_state_def due_def Let_def not_le)
qed

definition demo_task :: "64 word \<Rightarrow> nat task" where
  "demo_task n = \<lparr>task_id = n, task_type = KernelTask, rsp = 0, stack_allocation = None\<rparr>"

text \<open>\<open>notify_all\<close> returns, empties the waiting list, and appends every waiting task, in the
  order in which they started to wait, to the run queue of the CPU it waited on.\<close>

theorem notify_all_correct:
  assumes "l < length (waiting_lists s)"
  shows "waiting_lists (notify_all l s) = (waiting_lists s)[l := []] \<and> sys_ids (notify_all l s) = sys_ids s
     \<and> (\<forall>i<length (cpus s). queue i (notify_all l s) =
          queue i s @ map entry_task (filter (\<lambda>e. entry_cpu e = i) (waiting_lists s ! l)))"
  by (rule notify_all_spec[OF assms])

end
