(* ===== verification/Page_Allocations.thy ===== *)
theory Page_Allocations
  imports Kernel_Prelude
begin

text \<open>
  Page allocations as the allocators hand them out (\<open>memory/paging/sealed.rs\<close>): a list of whole
  pages and of allocations inside sub-tables, each with its offset from the start of the
  allocation.  Addresses are relative to the table the allocation belongs to; they are plain
  numbers here, since table indices below 512 on at most four levels keep them below \<open>2 ^ 48\<close>.

  \<open>covers\<close> is the set of bytes an allocation stands for, and \<open>wf_alloc\<close> says that its entries are
  adjacent, in address order, and carry the right offsets.  For such allocations the computed
  start, end and size describe exactly the covered bytes.
\<close>

section \<open>Definitions\<close>

datatype PAllocItem =
    Page (index: nat) nat
  | SubTable (index: nat) nat PartialPageAllocation
and PartialPageAllocation = PartialPageAllocation (entries: "PAllocItem list") (ppa_page_size: nat)

fun item_offset :: "PAllocItem \<Rightarrow> nat" where
  "item_offset (Page i off) = off"
| "item_offset (SubTable i off al) = off"

fun offset_mut :: "(nat \<Rightarrow> nat) \<Rightarrow> PAllocItem \<Rightarrow> PAllocItem" where
  "offset_mut f (Page i off) = Page i (f off)"
| "offset_mut f (SubTable i off al) = SubTable i (f off) al"

fun start_addr :: "PartialPageAllocation \<Rightarrow> nat" where
  "start_addr (PartialPageAllocation [] ps) = 0"
| "start_addr (PartialPageAllocation (Page i off # xs) ps) = i * ps"
| "start_addr (PartialPageAllocation (SubTable i off al # xs) ps) = start_addr al + i * ps"

lemma last_item_smaller [termination_simp]:
  "xs \<noteq> [] \<Longrightarrow> last xs = SubTable i off al \<Longrightarrow> size al < Suc (size_list size xs)"
  using size_list_estimation'[of "last xs" xs "size al" size] last_in_set[of xs] by simp

fun end_addr :: "PartialPageAllocation \<Rightarrow> nat" where
  "end_addr (PartialPageAllocation xs ps) =
     (if xs = [] then 0 else
      (case last xs of
         Page i off \<Rightarrow> (i + 1) * ps
       | SubTable i off al \<Rightarrow> end_addr al + i * ps))"

fun alloc_size :: "PartialPageAllocation \<Rightarrow> nat" and item_size :: "nat \<Rightarrow> PAllocItem \<Rightarrow> nat" where
  "alloc_size (PartialPageAllocation xs ps) = sum_list (map (item_size ps) xs)"
| "item_size ps (Page i off) = ps"
| "item_size ps (SubTable i off al) = alloc_size al"

section \<open>The bytes of an allocation\<close>

fun covers :: "PartialPageAllocation \<Rightarrow> nat set" and item_covers :: "nat \<Rightarrow> PAllocItem \<Rightarrow> nat set" where
  "covers (PartialPageAllocation xs ps) = (\<Union>x\<in>set xs. item_covers ps x)"
| "item_covers ps (Page i off) = {i * ps..<(i + 1) * ps}"
| "item_covers ps (SubTable i off al) = (\<lambda>x. x + i * ps) ` covers al"

fun item_start :: "nat \<Rightarrow> PAllocItem \<Rightarrow> nat" where
  "item_start ps (Page i off) = i * ps"
| "item_start ps (SubTable i off al) = start_addr al + i * ps"

fun adjacent :: "nat \<Rightarrow> nat \<Rightarrow> nat \<Rightarrow> PAllocItem list \<Rightarrow> bool" where
  "adjacent ps pos off [] \<longleftrightarrow> True"
| "adjacent ps pos off (x # xs) \<longleftrightarrow>
     item_start ps x = pos \<and> item_offset x = off \<and> adjacent ps (pos + item_size ps x) (off + item_size ps x) xs"

fun wf_alloc :: "PartialPageAllocation \<Rightarrow> bool" and wf_item :: "nat \<Rightarrow> PAllocItem \<Rightarrow> bool" where
  "wf_alloc (PartialPageAllocation xs ps) \<longleftrightarrow>
     xs \<noteq> [] \<and> 0 < ps \<and> (\<forall>x\<in>set xs. wf_item ps x) \<and> adjacent ps (item_start ps (hd xs)) 0 xs"
| "wf_item ps (Page i off) \<longleftrightarrow> True"
| "wf_item ps (SubTable i off al) \<longleftrightarrow> wf_alloc al \<and> end_addr al \<le> ps"

section \<open>Lemmas\<close>

lemma offset_mut_simps [simp]:
  "item_offset (offset_mut f x) = f (item_offset x)" "item_start ps (offset_mut f x) = item_start ps x"
  "item_size ps (offset_mut f x) = item_size ps x" "item_covers ps (offset_mut f x) = item_covers ps x"
  "wf_item ps (offset_mut f x) = wf_item ps x" "index (offset_mut f x) = index x"
  by (cases x; simp)+

lemma start_addr_eq: "start_addr (PartialPageAllocation xs ps) = (if xs = [] then 0 else item_start ps (hd xs))"
  by (cases xs; cases "hd xs") auto

lemma adjacent_append:
  "adjacent ps pos off (xs @ ys) \<longleftrightarrow> adjacent ps pos off xs
     \<and> adjacent ps (pos + sum_list (map (item_size ps) xs)) (off + sum_list (map (item_size ps) xs)) ys"
  by (induction xs arbitrary: pos off) (auto simp: add.assoc)

lemma adjacent_shift: "adjacent ps pos off xs \<Longrightarrow> adjacent ps pos (off + d) (map (offset_mut (\<lambda>n. n + d)) xs)"
proof (induction xs arbitrary: pos off)
  case (Cons x xs)
  have e: "off + d + item_size ps x = off + item_size ps x + d" by simp
  show ?case using Cons.prems Cons.IH[of "pos + item_size ps x" "off + item_size ps x"] by (simp add: e)
qed simp

lemma adjacent_unshift:
  "adjacent ps pos (off + d) xs \<Longrightarrow> adjacent ps pos off (map (offset_mut (\<lambda>n. n - d)) xs)"
proof (induction xs arbitrary: pos off)
  case (Cons x xs)
  have e: "off + d + item_size ps x = off + item_size ps x + d" by simp
  show ?case using Cons.prems Cons.IH[of "pos + item_size ps x" "off + item_size ps x"] by (simp add: e)
qed simp

lemma adjacent_covers:
  assumes "adjacent ps pos off xs"
    and "\<And>x. x \<in> set xs \<Longrightarrow> item_covers ps x = {item_start ps x..<item_start ps x + item_size ps x}"
  shows "(\<Union>x\<in>set xs. item_covers ps x) = {pos..<pos + sum_list (map (item_size ps) xs)}"
  using assms
proof (induction xs arbitrary: pos off)
  case (Cons x xs)
  then have "(\<Union>x\<in>set xs. item_covers ps x) = {pos + item_size ps x..<pos + item_size ps x + sum_list (map (item_size ps) xs)}"
    by auto
  moreover have "item_covers ps x = {pos..<pos + item_size ps x}" using Cons.prems by auto
  ultimately show ?case by (simp add: ivl_disj_un_two(3) add.assoc)
qed simp

lemma adjacent_last:
  assumes "adjacent ps pos off xs" and "xs \<noteq> []"
  shows "item_start ps (last xs) + item_size ps (last xs) = pos + sum_list (map (item_size ps) xs)"
  using assms by (induction xs arbitrary: pos off) (auto simp: add.assoc)

lemma wf_alloc_span:
  "wf_alloc al \<Longrightarrow> end_addr al = start_addr al + alloc_size al \<and> covers al = {start_addr al..<end_addr al} \<and> 0 < alloc_size al"
  "wf_item ps x \<Longrightarrow> 0 < ps \<Longrightarrow> item_covers ps x = {item_start ps x..<item_start ps x + item_size ps x} \<and> 0 < item_size ps x
     \<and> item_start ps x + item_size ps x = (case x of Page i off \<Rightarrow> (i + 1) * ps | SubTable i off al \<Rightarrow> end_addr al + i * ps)"
proof (induction al and ps x rule: wf_alloc_wf_item.induct)
  case (1 xs ps)
  then have ne: "xs \<noteq> []" and adj: "adjacent ps (item_start ps (hd xs)) 0 xs" by auto
  have items: "item_covers ps x = {item_start ps x..<item_start ps x + item_size ps x}" "0 < item_size ps x"
    "item_start ps x + item_size ps x = (case x of Page i off \<Rightarrow> (i + 1) * ps | SubTable i off al \<Rightarrow> end_addr al + i * ps)"
    if "x \<in> set xs" for x using 1 that by auto
  have e: "end_addr (PartialPageAllocation xs ps) = item_start ps (hd xs) + sum_list (map (item_size ps) xs)"
    using adjacent_last[OF adj ne] items(3)[of "last xs"] ne by simp
  have "0 < sum_list (map (item_size ps) xs)"
    using items(2)[of "hd xs"] ne by (cases xs) auto
  then show ?case using adjacent_covers[OF adj items(1)] ne e by (simp add: start_addr_eq)
next
  case (3 ps i off al)
  then have "covers al = {start_addr al..<end_addr al}" "end_addr al = start_addr al + alloc_size al" "0 < alloc_size al" by auto
  moreover have "(\<lambda>x. x + i * ps) ` {a..<b} = {a + i * ps..<b + i * ps}" for a b
    by (rule image_add_atLeastLessThan')
  ultimately show ?case by (simp add: ac_simps)
qed auto

end
