(* ===== verification/Page_Tables.thy ===== *)
theory Page_Tables
  imports Kernel_Prelude
begin

text \<open>
  Page flags (\<open>memory/paging/api.rs\<close>) and the x86-64 page table (\<open>memory/paging/arch/x86_64.rs\<close>).

  The page table entry type belongs to an external crate.  Its operations are the fields of the
  record \<open>pte_api\<close>, a parameter of the model, and the locale \<open>pte_crate\<close> states the documented
  behaviour the kernel relies on.  A page table is the list of its 512 raw entries.  Build-time
  feature flags are the record \<open>features\<close>.

  \<open>ipagetable\<close> is the dictionary of the trait \<open>IPageTable\<close>; the locale \<open>page_table\<close> is its contract
  towards the page allocators, and the x86-64 table is shown to satisfy it.
\<close>

section \<open>Page flags\<close>

datatype TransitivePageFlag = USER_READABLE | WRITEABLE | EXECUTABLE
datatype MappingSpecificPageFlag = MF_GLOBAL | PINNED | CACHE_DISABLE | CACHE_WRITE_THROUGH

record PageFlags =
  tflags :: "TransitivePageFlag set"
  mflags :: "MappingSpecificPageFlag set"

definition flags_new :: "TransitivePageFlag set \<Rightarrow> MappingSpecificPageFlag set \<Rightarrow> PageFlags" where
  "flags_new t m = \<lparr>tflags = t, mflags = m\<rparr>"

definition flags_empty :: PageFlags where
  "flags_empty = flags_new {} {}"

text \<open>The operators on whole flag values are the operators of the two parts, whichever operator it is.\<close>

definition flags_compound :: "(TransitivePageFlag set \<Rightarrow> TransitivePageFlag set \<Rightarrow> TransitivePageFlag set)
    \<Rightarrow> (MappingSpecificPageFlag set \<Rightarrow> MappingSpecificPageFlag set \<Rightarrow> MappingSpecificPageFlag set) \<Rightarrow> PageFlags \<Rightarrow> PageFlags \<Rightarrow> PageFlags" where
  "flags_compound f g a b = \<lparr>tflags = f (tflags a) (tflags b), mflags = g (mflags a) (mflags b)\<rparr>"

text \<open>The operators that combine with flags of one kind only.\<close>

definition flags_or_t :: "PageFlags \<Rightarrow> TransitivePageFlag set \<Rightarrow> PageFlags" where
  "flags_or_t a t = a\<lparr>tflags := tflags a \<union> t\<rparr>"

definition flags_and_t :: "PageFlags \<Rightarrow> TransitivePageFlag set \<Rightarrow> TransitivePageFlag set" where
  "flags_and_t a t = tflags a \<inter> t"

definition flags_xor_t :: "PageFlags \<Rightarrow> TransitivePageFlag set \<Rightarrow> PageFlags" where
  "flags_xor_t a t = a\<lparr>tflags := (tflags a - t) \<union> (t - tflags a)\<rparr>"

definition flags_sub_t :: "PageFlags \<Rightarrow> TransitivePageFlag set \<Rightarrow> PageFlags" where
  "flags_sub_t a t = a\<lparr>tflags := tflags a - t\<rparr>"

definition flags_and_m :: "PageFlags \<Rightarrow> MappingSpecificPageFlag set \<Rightarrow> MappingSpecificPageFlag set" where
  "flags_and_m a m = mflags a \<inter> m"

definition flags_xor_m :: "PageFlags \<Rightarrow> MappingSpecificPageFlag set \<Rightarrow> PageFlags" where
  "flags_xor_m a m = a\<lparr>mflags := (mflags a - m) \<union> (m - mflags a)\<rparr>"

definition flags_sub_m :: "PageFlags \<Rightarrow> MappingSpecificPageFlag set \<Rightarrow> PageFlags" where
  "flags_sub_m a m = a\<lparr>mflags := mflags a - m\<rparr>"

definition flags_or_m :: "PageFlags \<Rightarrow> MappingSpecificPageFlag set \<Rightarrow> PageFlags" where
  "flags_or_m a m = a\<lparr>mflags := mflags a \<union> m\<rparr>"

section \<open>Page table entries\<close>

datatype PageTableFlag = PRESENT | WRITABLE | USER_ACCESSIBLE | WRITE_THROUGH | NO_CACHE | HUGE_PAGE | GLOBAL | BIT_9 | NO_EXECUTE

record pte_api =
  pte_is_unused :: "64 word \<Rightarrow> bool"
  pte_flags :: "64 word \<Rightarrow> PageTableFlag set"
  pte_addr :: "64 word \<Rightarrow> nat"
  pte_set_addr :: "nat \<Rightarrow> PageTableFlag set \<Rightarrow> 64 word exec"
  pte_set_flags :: "PageTableFlag set \<Rightarrow> 64 word \<Rightarrow> 64 word"

definition phys_limit :: nat where
  "phys_limit = 2 ^ 52"

text \<open>
  What the crate documents: an entry is unused when it is zero; \<open>set_addr\<close> stores a page-aligned
  physical address of at most 52 bits and the flags, which \<open>addr\<close> and \<open>flags\<close> read back;
  \<open>set_flags\<close> keeps the address; the present flag is bit 0.
\<close>

locale pte_crate =
  fixes api :: pte_api
  assumes unused_zero: "pte_is_unused api e \<longleftrightarrow> e = 0"
    and set_addr_ok: "a mod 4096 = 0 \<Longrightarrow> a < phys_limit \<Longrightarrow>
      \<exists>e. pte_set_addr api a fl = Inr e \<and> pte_addr api e = a \<and> pte_flags api e = fl"
    and set_flags_flags: "pte_flags api (pte_set_flags api fl e) = fl"
    and set_flags_addr: "pte_addr api (pte_set_flags api fl e) = pte_addr api e"
    and present_bit: "PRESENT \<in> pte_flags api e \<longleftrightarrow> bit e 0"

record features =
  per_page_NXE_bit :: bool
  page_global_bit :: bool
  one_gb_huge_pages :: bool

section \<open>The x86-64 page table\<close>

type_synonym x64_table = "64 word list"

definition PF_PINNED :: PageTableFlag where
  "PF_PINNED = BIT_9"

definition default_flags :: "features \<Rightarrow> PageTableFlag set" where
  "default_flags ft = (if per_page_NXE_bit ft then {NO_EXECUTE} else {})"

definition calc_flags :: "features \<Rightarrow> bool \<Rightarrow> PageTableFlag set \<Rightarrow> PageFlags \<Rightarrow> PageTableFlag set" where
  "calc_flags ft include_non_transitive previous add =
     (let p = previous;
          p = (if USER_READABLE \<in> tflags add then p \<union> {USER_ACCESSIBLE} else p);
          p = (if WRITEABLE \<in> tflags add then p \<union> {WRITABLE} else p);
          p = (if per_page_NXE_bit ft \<and> EXECUTABLE \<in> tflags add then p - {NO_EXECUTE} else p)
      in if include_non_transitive then
        (let p = (if PINNED \<in> mflags add then p \<union> {PF_PINNED} else p);
             p = (if CACHE_DISABLE \<in> mflags add then p \<union> {NO_CACHE} else p);
             p = (if CACHE_WRITE_THROUGH \<in> mflags add then p \<union> {WRITE_THROUGH} else p)
         in if page_global_bit ft \<and> MF_GLOBAL \<in> mflags add then p \<union> {GLOBAL} else p)
      else p)"

definition deser_flags :: "PageTableFlag set \<Rightarrow> PageFlags" where
  "deser_flags fl = flags_new
     ((if USER_ACCESSIBLE \<in> fl then {USER_READABLE} else {}) \<union> (if WRITABLE \<in> fl then {WRITEABLE} else {})
        \<union> (if NO_EXECUTE \<notin> fl then {EXECUTABLE} else {}))
     ((if GLOBAL \<in> fl then {MF_GLOBAL} else {}) \<union> (if PF_PINNED \<in> fl then {PINNED} else {})
        \<union> (if NO_CACHE \<in> fl then {CACHE_DISABLE} else {}) \<union> (if WRITE_THROUGH \<in> fl then {CACHE_WRITE_THROUGH} else {}))"

definition x64_new :: x64_table where
  "x64_new = replicate 512 0"

definition x64_is_unused :: "pte_api \<Rightarrow> x64_table \<Rightarrow> nat \<Rightarrow> bool exec" where
  "x64_is_unused api t idx = exec_bind (vec_get t idx) (\<lambda>e. Inr (pte_is_unused api e))"

definition x64_num_used :: "pte_api \<Rightarrow> x64_table \<Rightarrow> nat" where
  "x64_num_used api t = length (filter (\<lambda>e. \<not> pte_is_unused api e) t)"

definition x64_get_entry :: "pte_api \<Rightarrow> x64_table \<Rightarrow> nat \<Rightarrow> (nat + (nat \<times> PageFlags)) exec" where
  "x64_get_entry api t idx = exec_bind (vec_get t idx) (\<lambda>e.
     if PRESENT \<in> pte_flags api e then Inr (Inr (pte_addr api e, deser_flags (pte_flags api e)))
     else Inr (Inl (unat (drop_bit 1 e))))"

definition x64_set_subtable_addr :: "pte_api \<Rightarrow> features \<Rightarrow> x64_table \<Rightarrow> nat \<Rightarrow> nat \<Rightarrow> x64_table exec" where
  "x64_set_subtable_addr api ft t idx phys = exec_bind (pte_set_addr api phys (default_flags ft \<union> {PRESENT})) (\<lambda>e. vec_set t idx e)"

definition x64_add_subtable_flags :: "pte_api \<Rightarrow> features \<Rightarrow> bool \<Rightarrow> x64_table \<Rightarrow> nat \<Rightarrow> PageFlags \<Rightarrow> x64_table exec" where
  "x64_add_subtable_flags api ft include_non_transitive t idx fl = exec_bind (vec_get t idx) (\<lambda>e.
     vec_set t idx (pte_set_flags api (calc_flags ft include_non_transitive (pte_flags api e) fl) e))"

definition x64_set_huge_addr :: "pte_api \<Rightarrow> features \<Rightarrow> nat \<Rightarrow> x64_table \<Rightarrow> nat \<Rightarrow> nat \<Rightarrow> PageFlags \<Rightarrow> x64_table exec" where
  "x64_set_huge_addr api ft level t idx phys fl =
     (let fl = calc_flags ft True (default_flags ft \<union> (if level = 1 then {PRESENT} else {PRESENT, HUGE_PAGE})) fl
      in exec_bind (pte_set_addr api phys fl) (\<lambda>e. vec_set t idx e))"

text \<open>\<open>checked_shl\<close> fails only for a shift amount of 64 or more, so bit 63 of the data is lost silently.\<close>

definition x64_set_absent :: "x64_table \<Rightarrow> nat \<Rightarrow> nat \<Rightarrow> x64_table exec" where
  "x64_set_absent t idx data = vec_set t idx (push_bit 1 (word_of_nat data))"

definition x64_set_empty :: "x64_table \<Rightarrow> nat \<Rightarrow> x64_table exec" where
  "x64_set_empty t idx = vec_set t idx 0"

definition x64_reserve :: "x64_table \<Rightarrow> nat \<Rightarrow> x64_table exec" where
  "x64_reserve t idx = x64_set_absent t idx 0xFFFFFFFE0000"

section \<open>The trait and its contract\<close>

record 't ipagetable =
  pt_npages :: nat
  pt_new :: 't
  pt_is_unused :: "'t \<Rightarrow> nat \<Rightarrow> bool exec"
  pt_num_used :: "'t \<Rightarrow> nat"
  pt_get_entry :: "'t \<Rightarrow> nat \<Rightarrow> (nat + (nat \<times> PageFlags)) exec"
  pt_reserve :: "'t \<Rightarrow> nat \<Rightarrow> 't exec"
  pt_set_subtable_addr :: "'t \<Rightarrow> nat \<Rightarrow> nat \<Rightarrow> 't exec"
  pt_add_subtable_flags :: "bool \<Rightarrow> 't \<Rightarrow> nat \<Rightarrow> PageFlags \<Rightarrow> 't exec"
  pt_set_huge_addr :: "'t \<Rightarrow> nat \<Rightarrow> nat \<Rightarrow> PageFlags \<Rightarrow> 't exec"
  pt_set_absent :: "'t \<Rightarrow> nat \<Rightarrow> nat \<Rightarrow> 't exec"
  pt_set_empty :: "'t \<Rightarrow> nat \<Rightarrow> 't exec"

definition x64_page_table :: "pte_api \<Rightarrow> features \<Rightarrow> nat \<Rightarrow> x64_table ipagetable" where
  "x64_page_table api ft level = \<lparr>pt_npages = 512, pt_new = x64_new, pt_is_unused = x64_is_unused api,
     pt_num_used = x64_num_used api, pt_get_entry = x64_get_entry api, pt_reserve = x64_reserve,
     pt_set_subtable_addr = x64_set_subtable_addr api ft, pt_add_subtable_flags = x64_add_subtable_flags api ft,
     pt_set_huge_addr = x64_set_huge_addr api ft level, pt_set_absent = x64_set_absent, pt_set_empty = x64_set_empty\<rparr>"

text \<open>
  The contract: \<open>entry t idx\<close> is what an index holds, \<open>None\<close> when it is unused, \<open>Inl\<close> data when it is
  absent, and \<open>Inr\<close> an address with its flags when it is present.  Each operation changes one entry.
\<close>

definition table_addr_ok :: "nat \<Rightarrow> bool" where
  "table_addr_ok a \<longleftrightarrow> a mod 4096 = 0 \<and> a < phys_limit"

locale page_table =
  fixes T :: "'t ipagetable" and tok :: "'t \<Rightarrow> bool" and entry :: "'t \<Rightarrow> nat \<Rightarrow> (nat + (nat \<times> PageFlags)) option"
  assumes npages: "pt_npages T = 512"
    and new_ok: "tok (pt_new T)" "entry (pt_new T) i = None"
    and is_unused_ok: "tok t \<Longrightarrow> i < 512 \<Longrightarrow> pt_is_unused T t i = Inr (entry t i = None)"
    and num_used_ok: "tok t \<Longrightarrow> pt_num_used T t = card {i. i < 512 \<and> entry t i \<noteq> None}"
    and reserve_ok: "tok t \<Longrightarrow> i < 512 \<Longrightarrow> \<exists>t' d. pt_reserve T t i = Inr t' \<and> tok t' \<and> entry t' = (entry t)(i \<mapsto> Inl d)"
    and set_subtable_ok: "tok t \<Longrightarrow> i < 512 \<Longrightarrow> table_addr_ok p \<Longrightarrow>
      \<exists>t' fl. pt_set_subtable_addr T t i p = Inr t' \<and> tok t' \<and> entry t' = (entry t)(i \<mapsto> Inr (p, fl))"
    and add_flags_ok: "tok t \<Longrightarrow> i < 512 \<Longrightarrow> entry t i = Some (Inr (p, fl0)) \<Longrightarrow>
      \<exists>t' fl'. pt_add_subtable_flags T b t i fl = Inr t' \<and> tok t' \<and> entry t' = (entry t)(i \<mapsto> Inr (p, fl'))"
    and set_huge_ok: "tok t \<Longrightarrow> i < 512 \<Longrightarrow> table_addr_ok p \<Longrightarrow>
      \<exists>t' fl'. pt_set_huge_addr T t i p fl = Inr t' \<and> tok t' \<and> entry t' = (entry t)(i \<mapsto> Inr (p, fl'))"
    and set_absent_ok: "tok t \<Longrightarrow> i < 512 \<Longrightarrow> 0 < d \<Longrightarrow> d < 2 ^ 63 \<Longrightarrow>
      \<exists>t'. pt_set_absent T t i d = Inr t' \<and> tok t' \<and> entry t' = (entry t)(i \<mapsto> Inl d)"
    and set_empty_ok: "tok t \<Longrightarrow> i < 512 \<Longrightarrow> \<exists>t'. pt_set_empty T t i = Inr t' \<and> tok t' \<and> entry t' = (entry t)(i := None)"

section \<open>The x86-64 table satisfies the contract\<close>

definition x64_ok :: "x64_table \<Rightarrow> bool" where
  "x64_ok t \<longleftrightarrow> length t = 512"

definition decode :: "pte_api \<Rightarrow> 64 word \<Rightarrow> (nat + (nat \<times> PageFlags)) option" where
  "decode api e = (if e = 0 then None
     else if bit e 0 then Some (Inr (pte_addr api e, deser_flags (pte_flags api e)))
     else Some (Inl (unat (drop_bit 1 e))))"

definition x64_entry :: "pte_api \<Rightarrow> x64_table \<Rightarrow> nat \<Rightarrow> (nat + (nat \<times> PageFlags)) option" where
  "x64_entry api t i = (if i < length t then decode api (t ! i) else None)"

lemma x64_entry_update:
  "i < length t \<Longrightarrow> x64_entry api (t[i := e]) = (x64_entry api t)(i := decode api e)"
  by (auto simp: x64_entry_def nth_list_update)

lemma decode_absent:
  assumes "0 < d" and "d < 2 ^ 63"
  shows "decode api (push_bit 1 (word_of_nat d)) = Some (Inl d)"
proof -
  have "\<not> bit (push_bit 1 (word_of_nat d) :: 64 word) 0" by (simp add: bit_0)
  moreover have u: "unat (push_bit 1 (word_of_nat d) :: 64 word) = 2 * d"
    using assms(2) by (simp add: unat_word_ariths unsigned_of_nat take_bit_nat_eq_self)
  then have "push_bit 1 (word_of_nat d) \<noteq> (0 :: 64 word)" using assms(1) by (metis nat_0_less_mult_iff not_gr0 unat_0 zero_less_numeral)
  moreover have "unat (drop_bit 1 (push_bit 1 (word_of_nat d)) :: 64 word) = d"
    unfolding unat_drop_bit_eq u by (simp add: drop_bit_eq_div)
  ultimately show ?thesis by (simp add: decode_def)
qed

lemma x64_num_used_card:
  assumes "x64_ok t" and "\<And>e. pte_is_unused api e \<longleftrightarrow> e = 0"
  shows "x64_num_used api t = card {i. i < 512 \<and> x64_entry api t i \<noteq> None}"
proof -
  have "{i. i < length t \<and> t ! i \<noteq> 0} = {i. i < 512 \<and> x64_entry api t i \<noteq> None}"
    using assms(1) by (auto simp: x64_ok_def x64_entry_def decode_def)
  then show ?thesis using assms(2) by (simp add: x64_num_used_def length_filter_conv_card)
qed

lemmas x64_defs = x64_is_unused_def x64_get_entry_def x64_set_subtable_addr_def x64_add_subtable_flags_def
  x64_set_huge_addr_def x64_set_absent_def x64_set_empty_def x64_reserve_def

lemma calc_flags_present: "PRESENT \<in> fl \<Longrightarrow> PRESENT \<in> calc_flags ft b fl add"
  by (simp add: calc_flags_def Let_def)

context pte_crate
begin

lemma decode_present: "bit e 0 \<Longrightarrow> decode api e = Some (Inr (pte_addr api e, deser_flags (pte_flags api e)))"
  by (auto simp: decode_def)

lemma decode_set_addr:
  assumes "table_addr_ok p" and "PRESENT \<in> fl"
  shows "\<exists>e. pte_set_addr api p fl = Inr e \<and> decode api e = Some (Inr (p, deser_flags fl))"
proof -
  obtain e where e: "pte_set_addr api p fl = Inr e" "pte_addr api e = p" "pte_flags api e = fl"
    using set_addr_ok[of p fl] assms(1) by (auto simp: table_addr_ok_def)
  then have "bit e 0" using present_bit[of e] assms(2) by simp
  then show ?thesis using e by (simp add: decode_present)
qed

lemma decode_set_flags:
  assumes "bit e 0" and "PRESENT \<in> fl"
  shows "decode api (pte_set_flags api fl e) = Some (Inr (pte_addr api e, deser_flags fl))"
proof -
  have "bit (pte_set_flags api fl e) 0" using present_bit[of "pte_set_flags api fl e"] assms(2) set_flags_flags by simp
  then show ?thesis by (simp add: decode_present set_flags_flags set_flags_addr)
qed

lemma x64_set_huge:
  assumes "x64_ok t" and "i < 512" and "table_addr_ok p"
  shows "\<exists>t'. x64_set_huge_addr api ft level t i p fl = Inr t' \<and> x64_ok t'
     \<and> x64_entry api t' = (x64_entry api t)(i \<mapsto> Inr (p, deser_flags (calc_flags ft True
          (default_flags ft \<union> (if level = 1 then {PRESENT} else {PRESENT, HUGE_PAGE})) fl)))"
proof -
  let ?fl = "calc_flags ft True (default_flags ft \<union> (if level = 1 then {PRESENT} else {PRESENT, HUGE_PAGE})) fl"
  obtain e where "pte_set_addr api p ?fl = Inr e" "decode api e = Some (Inr (p, deser_flags ?fl))"
    using decode_set_addr[OF assms(3), of ?fl] calc_flags_present by auto
  then show ?thesis using assms(1,2)
    by (auto simp: x64_set_huge_addr_def Let_def vec_set_def x64_ok_def x64_entry_update)
qed

lemma x64_set_subtable:
  assumes "x64_ok t" and "i < 512" and "table_addr_ok p"
  shows "\<exists>t' fl. x64_set_subtable_addr api ft t i p = Inr t' \<and> x64_ok t' \<and> x64_entry api t' = (x64_entry api t)(i \<mapsto> Inr (p, fl))"
proof -
  obtain e where "pte_set_addr api p (default_flags ft \<union> {PRESENT}) = Inr e"
    "decode api e = Some (Inr (p, deser_flags (default_flags ft \<union> {PRESENT})))"
    using decode_set_addr[OF assms(3)] by blast
  then show ?thesis using assms(1,2)
    by (auto simp: x64_set_subtable_addr_def vec_set_def x64_ok_def x64_entry_update)
qed

lemma x64_add_flags:
  assumes "x64_ok t" and "i < 512" and "x64_entry api t i = Some (Inr (p, fl0))"
  shows "\<exists>t' fl'. x64_add_subtable_flags api ft b t i fl = Inr t' \<and> x64_ok t' \<and> x64_entry api t' = (x64_entry api t)(i \<mapsto> Inr (p, fl'))"
proof -
  have b: "bit (t ! i) 0" "pte_addr api (t ! i) = p"
    using assms by (auto simp: x64_entry_def decode_def x64_ok_def split: if_splits)
  then have "PRESENT \<in> pte_flags api (t ! i)" using present_bit by simp
  then show ?thesis using assms(1,2) b decode_set_flags[OF b(1) calc_flags_present]
    by (auto simp: x64_add_subtable_flags_def vec_get_def vec_set_def x64_ok_def x64_entry_update)
qed

end

sublocale pte_crate < x64: page_table "x64_page_table api ft level" x64_ok "x64_entry api" for ft level
proof
  show "x64_ok (pt_new (x64_page_table api ft level))" by (simp add: x64_page_table_def x64_ok_def x64_new_def)
  show "x64_entry api (pt_new (x64_page_table api ft level)) i = None" for i
    by (simp add: x64_page_table_def x64_entry_def x64_new_def decode_def)
  show "pt_is_unused (x64_page_table api ft level) t i = Inr (x64_entry api t i = None)" if "x64_ok t" "i < 512" for t i
    using that by (auto simp: x64_page_table_def x64_is_unused_def vec_get_def x64_ok_def x64_entry_def decode_def unused_zero)
  show "pt_num_used (x64_page_table api ft level) t = card {i. i < 512 \<and> x64_entry api t i \<noteq> None}" if "x64_ok t" for t
    using x64_num_used_card that unused_zero by (simp add: x64_page_table_def)
  show "\<exists>t' d. pt_reserve (x64_page_table api ft level) t i = Inr t' \<and> x64_ok t' \<and> x64_entry api t' = (x64_entry api t)(i \<mapsto> Inl d)"
    if "x64_ok t" "i < 512" for t i
    using that decode_absent[of "0xFFFFFFFE0000" api]
    by (auto simp: x64_page_table_def x64_reserve_def x64_set_absent_def vec_set_def x64_ok_def x64_entry_update)
  show "\<exists>t'. pt_set_absent (x64_page_table api ft level) t i d = Inr t' \<and> x64_ok t' \<and> x64_entry api t' = (x64_entry api t)(i \<mapsto> Inl d)"
    if "x64_ok t" "i < 512" "0 < d" "d < 2 ^ 63" for t i d
    using that decode_absent[of d api] by (auto simp: x64_page_table_def x64_set_absent_def vec_set_def x64_ok_def x64_entry_update)
  show "\<exists>t'. pt_set_empty (x64_page_table api ft level) t i = Inr t' \<and> x64_ok t' \<and> x64_entry api t' = (x64_entry api t)(i := None)"
    if "x64_ok t" "i < 512" for t i
    using that by (auto simp: x64_page_table_def x64_set_empty_def vec_set_def x64_ok_def x64_entry_update decode_def)
  show "\<exists>t' fl'. pt_set_huge_addr (x64_page_table api ft level) t i p fl = Inr t' \<and> x64_ok t'
      \<and> x64_entry api t' = (x64_entry api t)(i \<mapsto> Inr (p, fl'))" if "x64_ok t" "i < 512" "table_addr_ok p" for t i p fl
    using x64_set_huge[OF that, of ft level fl] by (auto simp: x64_page_table_def)
  show "\<exists>t' fl. pt_set_subtable_addr (x64_page_table api ft level) t i p = Inr t' \<and> x64_ok t'
      \<and> x64_entry api t' = (x64_entry api t)(i \<mapsto> Inr (p, fl))" if "x64_ok t" "i < 512" "table_addr_ok p" for t i p
    using x64_set_subtable[OF that, of ft] by (simp add: x64_page_table_def)
  show "\<exists>t' fl'. pt_add_subtable_flags (x64_page_table api ft level) b t i fl = Inr t' \<and> x64_ok t'
      \<and> x64_entry api t' = (x64_entry api t)(i \<mapsto> Inr (p, fl'))"
    if "x64_ok t" "i < 512" "x64_entry api t i = Some (Inr (p, fl0))" for t i p fl0 b fl
    using x64_add_flags[OF that, of ft b fl] by (simp add: x64_page_table_def)
qed (simp add: x64_page_table_def)

section \<open>A crate that behaves as documented\<close>

text \<open>The bit layout of the architecture satisfies the assumptions made about the crate.\<close>

fun flag_bit :: "PageTableFlag \<Rightarrow> nat" where
  "flag_bit PRESENT = 0"
| "flag_bit WRITABLE = 1"
| "flag_bit USER_ACCESSIBLE = 2"
| "flag_bit WRITE_THROUGH = 3"
| "flag_bit NO_CACHE = 4"
| "flag_bit HUGE_PAGE = 7"
| "flag_bit GLOBAL = 8"
| "flag_bit BIT_9 = 9"
| "flag_bit NO_EXECUTE = 63"

definition all_flags :: "PageTableFlag list" where
  "all_flags = [PRESENT, WRITABLE, USER_ACCESSIBLE, WRITE_THROUGH, NO_CACHE, HUGE_PAGE, GLOBAL, BIT_9, NO_EXECUTE]"

definition flags_word :: "PageTableFlag set \<Rightarrow> 64 word" where
  "flags_word fl = horner_sum of_bool 2 (map (\<lambda>k. \<exists>f\<in>set all_flags. f \<in> fl \<and> flag_bit f = k) [0..<64])"

definition x86_addr :: "64 word \<Rightarrow> nat" where
  "x86_addr e = unat (push_bit 12 (take_bit 40 (drop_bit 12 e)))"

definition x86_flags :: "64 word \<Rightarrow> PageTableFlag set" where
  "x86_flags e = {f. bit e (flag_bit f)}"

unbundle bit_operations_syntax

definition x86_join :: "nat \<Rightarrow> PageTableFlag set \<Rightarrow> 64 word" where
  "x86_join a fl = push_bit 12 (take_bit 40 (drop_bit 12 (word_of_nat a))) OR flags_word fl"

definition x86_pte :: pte_api where
  "x86_pte = \<lparr>pte_is_unused = (\<lambda>e. e = 0), pte_flags = x86_flags, pte_addr = x86_addr,
     pte_set_addr = (\<lambda>a fl. if a mod 4096 = 0 \<and> a < phys_limit then Inr (x86_join a fl) else Inl ExplicitPanic),
     pte_set_flags = (\<lambda>fl e. x86_join (x86_addr e) fl)\<rparr>"

lemma bit_flags_word: "bit (flags_word fl) k \<longleftrightarrow> k < 64 \<and> (\<exists>f. f \<in> fl \<and> flag_bit f = k)"
proof -
  have "f \<in> set all_flags" for f by (cases f) (simp_all add: all_flags_def)
  then have all: "set all_flags = UNIV" by blast
  show ?thesis unfolding flags_word_def all
    by (auto simp: bit_horner_sum_bit_word_iff)
qed

lemma flag_bit_eq: "flag_bit f = flag_bit g \<longleftrightarrow> f = g"
  by (cases f; cases g) simp_all

lemma flag_bit_range: "flag_bit f < 64 \<and> (flag_bit f < 12 \<or> 52 \<le> flag_bit f)"
  by (cases f) simp_all

lemma bit_x86_join:
  "bit (x86_join a fl) k \<longleftrightarrow> k < 64 \<and> ((12 \<le> k \<and> k < 52 \<and> bit (word_of_nat a :: 64 word) k) \<or> (\<exists>f. f \<in> fl \<and> flag_bit f = k))"
  by (auto simp: x86_join_def bit_or_iff bit_push_bit_iff bit_take_bit_iff bit_drop_bit_eq bit_flags_word)

lemma x86_flags_join: "x86_flags (x86_join a fl) = fl"
  using flag_bit_range by (auto simp: x86_flags_def bit_x86_join flag_bit_eq) (meson leD less_le_trans)

lemma x86_addr_join:
  assumes "a mod 4096 = 0" and "a < phys_limit"
  shows "x86_addr (x86_join a fl) = a"
proof -
  have lim: "a < 2 ^ 64" using assms(2) by (simp add: phys_limit_def)
  have hi: "k < 52" if "bit a k" for k
    using that assms(2) unfolding phys_limit_def
    by (metis bit_take_bit_iff take_bit_nat_eq_self)
  have lo: "12 \<le> k" if "bit a k" for k
  proof (rule ccontr)
    assume "\<not> 12 \<le> k"
    then have "bit (take_bit 12 a) k" using that by (simp add: bit_take_bit_iff)
    then show False using assms(1) by (simp add: take_bit_eq_mod)
  qed
  have hi': "k - 12 < 40" if "bit a k" for k using hi[OF that] by linarith
  have no_flag: "\<not> (12 \<le> flag_bit f \<and> flag_bit f - 12 < 40)" for f using flag_bit_range[of f] by linarith
  have "push_bit 12 (take_bit 40 (drop_bit 12 (x86_join a fl))) = (word_of_nat a :: 64 word)"
  proof (rule bit_word_eqI)
    fix k assume "k < LENGTH(64)"
    then show "bit (push_bit 12 (take_bit 40 (drop_bit 12 (x86_join a fl)))) k = bit (word_of_nat a :: 64 word) k"
      using no_flag hi' lo hi
      by (auto simp: bit_push_bit_iff bit_take_bit_iff bit_drop_bit_eq bit_x86_join bit_of_nat_iff)
  qed
  then show ?thesis using lim by (simp add: x86_addr_def unsigned_of_nat take_bit_nat_eq_self)
qed

lemma x86_addr_aligned: "x86_addr e mod 4096 = 0 \<and> x86_addr e < phys_limit"
proof -
  have lt: "unat (take_bit 40 (drop_bit 12 e)) < 2 ^ 40"
    using take_bit_nat_less_exp[of 40 "unat (drop_bit 12 e)"] by (simp add: unsigned_take_bit_eq)
  then have "x86_addr e = 4096 * unat (take_bit 40 (drop_bit 12 e))"
    by (simp add: x86_addr_def push_bit_eq_mult unat_word_ariths take_bit_nat_eq_self)
  then show ?thesis using lt by (simp add: phys_limit_def)
qed

interpretation x86: pte_crate x86_pte
proof
  show "pte_addr x86_pte (pte_set_flags x86_pte fl e) = pte_addr x86_pte e" for fl e
    using x86_addr_join x86_addr_aligned by (simp add: x86_pte_def)
  show "PRESENT \<in> pte_flags x86_pte e \<longleftrightarrow> bit e 0" for e
    by (simp add: x86_pte_def x86_flags_def)
qed (simp_all add: x86_pte_def x86_addr_join x86_flags_join)

section \<open>Properties\<close>

text \<open>Mapping a page and reading the entry back gives the address and, when the build has
  per-page execute protection and global pages, exactly the flags it was mapped with; without
  execute protection every page is reported executable, without global pages none is reported
  global.\<close>

theorem huge_entry_roundtrip:
  assumes "pte_crate api" and "x64_ok t" and "i < 512" and "table_addr_ok p"
  shows "\<exists>t'. x64_set_huge_addr api ft level t i p fl = Inr t' \<and> x64_ok t'
     \<and> x64_get_entry api t' i = Inr (Inr (p,
          \<lparr>tflags = tflags fl \<union> (if per_page_NXE_bit ft then {} else {EXECUTABLE}),
           mflags = mflags fl - (if page_global_bit ft then {} else {MF_GLOBAL})\<rparr>))
     \<and> (\<forall>j<512. j \<noteq> i \<longrightarrow> x64_get_entry api t' j = x64_get_entry api t j)"
proof -
  let ?fl = "calc_flags ft True (default_flags ft \<union> (if level = 1 then {PRESENT} else {PRESENT, HUGE_PAGE})) fl"
  let ?out = "\<lparr>tflags = tflags fl \<union> (if per_page_NXE_bit ft then {} else {EXECUTABLE}),
     mflags = mflags fl - (if page_global_bit ft then {} else {MF_GLOBAL})\<rparr>"
  obtain e where e: "pte_set_addr api p ?fl = Inr e" "pte_addr api e = p" "pte_flags api e = ?fl"
    using pte_crate.set_addr_ok[OF assms(1), of p ?fl] assms(4) by (auto simp: table_addr_ok_def)
  have "x \<in> tflags (deser_flags ?fl) \<longleftrightarrow> x \<in> tflags ?out" for x
    by (cases x) (auto simp: deser_flags_def flags_new_def calc_flags_def default_flags_def PF_PINNED_def Let_def)
  moreover have "x \<in> mflags (deser_flags ?fl) \<longleftrightarrow> x \<in> mflags ?out" for x
    by (cases x) (auto simp: deser_flags_def flags_new_def calc_flags_def default_flags_def PF_PINNED_def Let_def)
  ultimately have "deser_flags ?fl = ?out" by (intro PageFlags.equality) auto
  moreover have "PRESENT \<in> ?fl" by (simp add: calc_flags_present)
  ultimately show ?thesis using e assms(2,3)
    by (auto simp: x64_set_huge_addr_def Let_def vec_set_def x64_ok_def x64_get_entry_def vec_get_def)
qed

text \<open>Marking a page absent does not reject data that does not fit: the top bit of the data
  is lost, so data \<open>2 ^ 63\<close> frees the entry instead of marking it.\<close>

theorem set_absent_truncates:
  assumes "x64_ok t" and "i < 512"
  shows "(\<forall>d. 0 < d \<longrightarrow> d < 2 ^ 63 \<longrightarrow> (\<exists>t'. x64_set_absent t i d = Inr t' \<and> x64_entry x86_pte t' i = Some (Inl d)))
     \<and> (\<exists>t'. x64_set_absent t i (2 ^ 63) = Inr t' \<and> x64_entry x86_pte t' i = None)"
  using assms decode_absent[of _ x86_pte]
  by (auto simp: x64_set_absent_def vec_set_def x64_ok_def x64_entry_update decode_def)

end
