(* ===== verification/First_Fit.thy ===== *)
theory First_Fit
  imports Page_Allocations Page_Tables
begin

text \<open>
  The multi-level first-fit page allocator (\<open>memory/paging/allocators/firstfit.rs\<close>), allocation
  strategies (\<open>memory/paging/strategy.rs\<close>) and the trait of page allocators
  (\<open>memory/paging/sealed.rs\<close>).

  The generic allocator is parametrised as in the source: \<open>mlff_type\<close> holds the page table type,
  the allocator of the next level down, and the two constants.  \<open>pfa\<close> is the dictionary of the
  trait \<open>PageFrameAllocator\<close>, and \<open>mlff_ops\<close> builds the dictionary of one level from the one
  below.  Sub-allocators live in boxes; where the heap places a box created during a call is the
  parameter \<open>boxes\<close>, indexed by the path of table indices.
\<close>

unbundle bit_operations_syntax

section \<open>Strategies\<close>

record PageAllocationStrategy =
  reverse_order :: bool
  min_page :: "nat option"
  max_page :: "nat option"
  spread_mode :: bool

type_synonym strategies = "PageAllocationStrategy list"

definition new_default :: PageAllocationStrategy where
  "new_default = \<lparr>reverse_order = False, min_page = None, max_page = None, spread_mode = False\<rparr>"

definition pas_next_level_down :: "strategies \<Rightarrow> strategies" where
  "pas_next_level_down strat = (if length strat > 1 then tl strat else strat)"

definition pas_current :: "strategies \<Rightarrow> PageAllocationStrategy exec" where
  "pas_current strat = vec_get strat 0"

definition ALLOCATION_DEFAULT :: strategies where
  "ALLOCATION_DEFAULT = [new_default]"

definition KALLOCATION_KERNEL_STACK :: strategies where
  "KALLOCATION_KERNEL_STACK = [new_default\<lparr>reverse_order := True\<rparr>,
     new_default\<lparr>reverse_order := True, spread_mode := True\<rparr>, new_default\<lparr>reverse_order := True\<rparr>]"

definition KALLOCATION_KERNEL_GENERALDYN :: strategies where
  "KALLOCATION_KERNEL_GENERALDYN = [new_default\<lparr>reverse_order := True\<rparr>]"

definition KALLOCATION_DYN_MMIO :: strategies where
  "KALLOCATION_DYN_MMIO = [new_default\<lparr>reverse_order := True\<rparr>, new_default]"

definition ALLOCATION_USER_STACK :: strategies where
  "ALLOCATION_USER_STACK = [new_default\<lparr>reverse_order := True, max_page := Some 255\<rparr>,
     new_default\<lparr>reverse_order := True, spread_mode := True\<rparr>, new_default\<lparr>reverse_order := True\<rparr>]"

definition ALLOCATION_USER_HEAP :: strategies where
  "ALLOCATION_USER_HEAP = [new_default, new_default\<lparr>min_page := Some 1\<rparr>, new_default]"

section \<open>The trait\<close>

type_synonym boxes = "nat list \<Rightarrow> nat"

record 'a pfa =
  pf_npages :: nat
  pf_page_size :: nat
  pf_new :: "nat \<Rightarrow> 'a exec"
  pf_num_used :: "'a \<Rightarrow> nat exec"
  pf_is_full :: "'a \<Rightarrow> bool exec"
  pf_ptr :: "'a \<Rightarrow> nat exec"
  pf_allocate :: "boxes \<Rightarrow> 'a \<Rightarrow> nat \<Rightarrow> strategies \<Rightarrow> ('a \<times> PartialPageAllocation option) exec"
  pf_allocate_at :: "boxes \<Rightarrow> 'a \<Rightarrow> nat \<Rightarrow> nat \<Rightarrow> ('a \<times> PartialPageAllocation option) exec"
  pf_deallocate :: "'a \<Rightarrow> PartialPageAllocation \<Rightarrow> 'a exec"
  pf_split_page :: "boxes \<Rightarrow> 'a \<Rightarrow> nat \<Rightarrow> ('a \<times> PartialPageAllocation option) exec"
  pf_set_huge_addr :: "'a \<Rightarrow> nat \<Rightarrow> nat \<Rightarrow> PageFlags \<Rightarrow> 'a exec"
  pf_set_absent :: "'a \<Rightarrow> nat \<Rightarrow> nat \<Rightarrow> 'a exec"

record ('t, 's) mlff_type =
  mt_table :: "'t ipagetable"
  mt_sub :: "'s pfa"
  SUBTABLES :: bool
  HUGEPAGES :: bool

record ('t, 's) MLFFAllocator =
  mlff_table :: 't
  suballocators :: "'s option list"
  availability_bitmap :: "8 word list"
  table_ptr :: nat

definition mlff_PAGE_SIZE :: "('t, 's) mlff_type \<Rightarrow> nat" where
  "mlff_PAGE_SIZE M = (if SUBTABLES M then pf_page_size (mt_sub M) * pf_npages (mt_sub M) else 4096)"

definition mlff_NPAGES :: "('t, 's) mlff_type \<Rightarrow> nat" where
  "mlff_NPAGES M = pt_npages (mt_table M)"

section \<open>Addresses\<close>

definition KERNEL_PTABLE_VADDR :: nat where
  "KERNEL_PTABLE_VADDR = 0xFFFF800000000000"

definition TOPLEVEL_PAGE_SIZE :: nat where
  "TOPLEVEL_PAGE_SIZE = 4096 * 512 * 512 * 512"

definition crop_addr :: "nat \<Rightarrow> nat" where
  "crop_addr addr = addr AND 0x0000FFFFFFFFFFFF"

definition ptaddr_virt_to_phys :: "nat \<Rightarrow> nat exec" where
  "ptaddr_virt_to_phys vaddr =
     exec_bind (assert_that (vaddr \<ge> KERNEL_PTABLE_VADDR)) (\<lambda>_.
     exec_bind (assert_that (vaddr < KERNEL_PTABLE_VADDR + TOPLEVEL_PAGE_SIZE)) (\<lambda>_.
       usub vaddr KERNEL_PTABLE_VADDR))"

section \<open>The availability bitmap\<close>

definition get_availability :: "('t, 's) MLFFAllocator \<Rightarrow> nat \<Rightarrow> 8 word exec" where
  "get_availability a i = exec_bind (vec_get (availability_bitmap a) (i div 4)) (\<lambda>w.
     Inr (drop_bit (6 - 2 * (i mod 4)) w AND 3))"

definition set_availability :: "('t, 's) MLFFAllocator \<Rightarrow> nat \<Rightarrow> 8 word \<Rightarrow> ('t, 's) MLFFAllocator exec" where
  "set_availability a idx v = (let lsh = 6 - 2 * (idx mod 4) in
     exec_bind (vec_get (availability_bitmap a) (idx div 4)) (\<lambda>w.
     exec_bind (vec_set (availability_bitmap a) (idx div 4) ((w AND NOT (push_bit lsh 3)) OR push_bit lsh v)) (\<lambda>bm.
       Inr (a\<lparr>availability_bitmap := bm\<rparr>))))"

definition sub_availability :: "('t, 's) mlff_type \<Rightarrow> 's \<Rightarrow> 8 word exec" where
  "sub_availability M st =
     exec_bind (assert_that (SUBTABLES M)) (\<lambda>_.
     exec_bind (pf_num_used (mt_sub M) st) (\<lambda>n.
     exec_bind (if n \<ge> pf_npages (mt_sub M) then pf_is_full (mt_sub M) st else Inr False) (\<lambda>full.
       Inr (if full then 3 else if n > pf_npages (mt_sub M) div 2 then 2 else 1))))"

definition refresh_availability :: "('t, 's) mlff_type \<Rightarrow> ('t, 's) MLFFAllocator \<Rightarrow> nat \<Rightarrow> ('t, 's) MLFFAllocator exec" where
  "refresh_availability M a idx =
     exec_bind (vec_get (suballocators a) idx) (\<lambda>st.
     exec_bind (case st of
         Some st \<Rightarrow> sub_availability M st
       | None \<Rightarrow> exec_bind (pt_is_unused (mt_table M) (mlff_table a) idx) (\<lambda>u. Inr (if u then 0 else 3))) (\<lambda>v.
       set_availability a idx v))"

definition mlff_is_full :: "('t, 's) MLFFAllocator \<Rightarrow> bool" where
  "mlff_is_full a \<longleftrightarrow> list_all (\<lambda>av. av = 0xFF) (availability_bitmap a)"

section \<open>Sub-tables\<close>

definition point_to_subtable :: "('t, 's) mlff_type \<Rightarrow> 't \<Rightarrow> nat \<Rightarrow> 's \<Rightarrow> 't exec" where
  "point_to_subtable M t idx st =
     exec_bind (pf_ptr (mt_sub M) st) (\<lambda>p.
     exec_bind (ptaddr_virt_to_phys p) (\<lambda>phys.
       pt_set_subtable_addr (mt_table M) t idx phys))"

definition get_subtable_always :: "('t, 's) mlff_type \<Rightarrow> boxes \<Rightarrow> ('t, 's) MLFFAllocator \<Rightarrow> nat
    \<Rightarrow> (('t, 's) MLFFAllocator \<times> 's) exec" where
  "get_subtable_always M boxes a idx =
     exec_bind (vec_get (suballocators a) idx) (\<lambda>st. case st of
       Some st \<Rightarrow> Inr (a, st)
     | None \<Rightarrow>
         exec_bind (pf_new (mt_sub M) (boxes [idx])) (\<lambda>st.
         exec_bind (vec_set (suballocators a) idx (Some st)) (\<lambda>subs.
         exec_bind (point_to_subtable M (mlff_table a) idx st) (\<lambda>t.
           Inr (a\<lparr>suballocators := subs, mlff_table := t\<rparr>, st)))))"

text \<open>Calls on a sub-allocator write it back, as a call through a mutable reference does.\<close>

definition put_sub :: "nat \<Rightarrow> 's \<Rightarrow> ('t, 's) MLFFAllocator \<Rightarrow> ('t, 's) MLFFAllocator exec" where
  "put_sub idx st a = exec_bind (vec_set (suballocators a) idx (Some st)) (\<lambda>subs. Inr (a\<lparr>suballocators := subs\<rparr>))"

definition in_subtable :: "('t, 's) mlff_type \<Rightarrow> boxes \<Rightarrow> nat \<Rightarrow> (boxes \<Rightarrow> 's \<Rightarrow> ('s \<times> PartialPageAllocation option) exec)
    \<Rightarrow> ('t, 's) MLFFAllocator \<Rightarrow> (('t, 's) MLFFAllocator \<times> PartialPageAllocation option) exec" where
  "in_subtable M boxes idx f a =
     exec_bind (get_subtable_always M boxes a idx) (\<lambda>(a, st).
     exec_bind (f (\<lambda>p. boxes (idx # p)) st) (\<lambda>(st, r).
     exec_bind (put_sub idx st a) (\<lambda>a. Inr (a, r))))"

definition get_suballocator_mut :: "('t, 's) mlff_type \<Rightarrow> ('t, 's) MLFFAllocator \<Rightarrow> nat \<Rightarrow> 's option exec" where
  "get_suballocator_mut M a i = (if \<not> SUBTABLES M then Inr None else vec_get (suballocators a) i)"

section \<open>Allocation\<close>

definition alloc_one :: "('t, 's) mlff_type \<Rightarrow> boxes \<Rightarrow> nat \<Rightarrow> nat \<Rightarrow> ('t, 's) MLFFAllocator
    \<Rightarrow> (('t, 's) MLFFAllocator \<times> PAllocItem) exec" where
  "alloc_one M boxes start idx a =
     exec_bind
       (if HUGEPAGES M then
          exec_bind (pt_reserve (mt_table M) (mlff_table a) idx) (\<lambda>t.
            Inr (a\<lparr>mlff_table := t\<rparr>, Page idx ((idx - start) * mlff_PAGE_SIZE M)))
        else if SUBTABLES M then
          exec_bind (in_subtable M boxes idx (\<lambda>b st. pf_allocate (mt_sub M) b st (mlff_PAGE_SIZE M) ALLOCATION_DEFAULT) a) (\<lambda>(a, r).
            case r of
              Some al \<Rightarrow> Inr (a, SubTable idx ((idx - start) * mlff_PAGE_SIZE M) al)
            | None \<Rightarrow> Inl ExplicitPanic)
        else Inl ExplicitPanic) (\<lambda>(a, item).
     exec_bind (refresh_availability M a idx) (\<lambda>a. Inr (a, item)))"

fun alloc_contiguous :: "('t, 's) mlff_type \<Rightarrow> boxes \<Rightarrow> nat \<Rightarrow> nat \<Rightarrow> nat \<Rightarrow> ('t, 's) MLFFAllocator \<Rightarrow> PAllocItem list
    \<Rightarrow> (('t, 's) MLFFAllocator \<times> PAllocItem list) exec" where
  "alloc_contiguous M boxes start idx 0 a allocs = Inr (a, allocs)"
| "alloc_contiguous M boxes start idx (Suc n) a allocs =
     exec_bind (get_availability a idx) (\<lambda>av.
     exec_bind (assert_that (av = 0)) (\<lambda>_.
     exec_bind (alloc_one M boxes start idx a) (\<lambda>(a, item).
       alloc_contiguous M boxes start (idx + 1) n a (allocs @ [item]))))"

definition alloc_rem :: "('t, 's) mlff_type \<Rightarrow> boxes \<Rightarrow> nat \<Rightarrow> nat \<Rightarrow> nat \<Rightarrow> ('t, 's) MLFFAllocator
    \<Rightarrow> (('t, 's) MLFFAllocator \<times> PartialPageAllocation option) exec" where
  "alloc_rem M boxes idx inner_offset sz a =
     exec_bind (assert_that (SUBTABLES M)) (\<lambda>_.
     let required_availability = (if sz \<ge> mlff_PAGE_SIZE M div 2 then 1 else 2) in
     exec_bind (if idx < mlff_NPAGES M then exec_bind (get_availability a idx) (\<lambda>av. Inr (av \<le> required_availability)) else Inr False) (\<lambda>try.
       if try then
         exec_bind (in_subtable M boxes idx (\<lambda>b st. pf_allocate_at (mt_sub M) b st inner_offset sz) a) (\<lambda>(a, r).
           case r of
             Some al \<Rightarrow> exec_bind (refresh_availability M a idx) (\<lambda>a. Inr (a, Some al))
           | None \<Rightarrow> Inr (a, None))
       else Inr (a, None)))"

definition alloc_inside :: "('t, 's) mlff_type \<Rightarrow> boxes \<Rightarrow> nat \<Rightarrow> nat \<Rightarrow> strategies \<Rightarrow> ('t, 's) MLFFAllocator
    \<Rightarrow> (('t, 's) MLFFAllocator \<times> PartialPageAllocation option) exec" where
  "alloc_inside M boxes idx sz strat a =
     exec_bind (assert_that (SUBTABLES M)) (\<lambda>_.
     exec_bind (if idx < mlff_NPAGES M then exec_bind (get_availability a idx) (\<lambda>av. Inr (av < 3)) else Inr False) (\<lambda>try.
       if try then
         exec_bind (in_subtable M boxes idx (\<lambda>b st. pf_allocate (mt_sub M) b st sz (pas_next_level_down strat)) a) (\<lambda>(a, r).
           case r of
             Some al \<Rightarrow> exec_bind (refresh_availability M a idx) (\<lambda>a. Inr (a, Some al))
           | None \<Rightarrow> Inr (a, None))
       else Inr (a, None)))"

fun push_remainders :: "PAllocItem list \<Rightarrow> (PAllocItem \<times> nat) option list \<Rightarrow> PAllocItem list" where
  "push_remainders items [] = items"
| "push_remainders items (None # rs) = push_remainders items rs"
| "push_remainders items (Some (rem_alloc, offset_by) # rs) =
     push_remainders ((if offset_by \<noteq> 0 then map (offset_mut (\<lambda>n. n + offset_by)) items else items) @ [rem_alloc]) rs"

definition build_allocation :: "('t, 's) mlff_type \<Rightarrow> PAllocItem list \<Rightarrow> (PAllocItem \<times> nat) option list \<Rightarrow> PartialPageAllocation" where
  "build_allocation M contig_result rem_results =
     PartialPageAllocation (sort_key item_offset (push_remainders contig_result rem_results)) (mlff_PAGE_SIZE M)"

fun range_clear :: "('t, 's) MLFFAllocator \<Rightarrow> nat \<Rightarrow> nat \<Rightarrow> bool exec" where
  "range_clear a i 0 = Inr True"
| "range_clear a i (Suc n) = exec_bind (get_availability a i) (\<lambda>av. if av \<noteq> 0 then Inr False else range_clear a (i + 1) n)"

definition try_offset :: "('t, 's) mlff_type \<Rightarrow> boxes \<Rightarrow> PageAllocationStrategy \<Rightarrow> strategies \<Rightarrow> nat \<Rightarrow> nat \<Rightarrow> nat
    \<Rightarrow> ('t, 's) MLFFAllocator \<Rightarrow> (('t, 's) MLFFAllocator \<times> PartialPageAllocation option) exec" where
  "try_offset M boxes strategy strat pages remainder offset a =
     (if SUBTABLES M \<and> pages < 1 then
        exec_bind (if spread_mode strategy then exec_bind (get_availability a offset) (\<lambda>av. Inr (av \<noteq> 0)) else Inr False) (\<lambda>skip.
          if skip then Inr (a, None)
          else exec_bind (alloc_inside M boxes offset remainder strat a) (\<lambda>(a, r).
            Inr (a, map_option (\<lambda>al. PartialPageAllocation [SubTable offset 0 al] (mlff_PAGE_SIZE M)) r)))
      else
        exec_bind (range_clear a offset pages) (\<lambda>clear.
          if \<not> clear then Inr (a, None)
          else if remainder \<noteq> 0 \<and> SUBTABLES M then
            exec_bind (alloc_rem M boxes (offset + pages) 0 remainder a) (\<lambda>(a, r). case r of
              None \<Rightarrow> Inr (a, None)
            | Some al \<Rightarrow>
                exec_bind (alloc_contiguous M boxes offset offset pages a []) (\<lambda>(a, items).
                  Inr (a, Some (build_allocation M items [Some (SubTable (offset + pages) (pages * mlff_PAGE_SIZE M) al, 0)]))))
          else
            exec_bind (alloc_contiguous M boxes offset offset pages a []) (\<lambda>(a, items).
              Inr (a, Some (build_allocation M items [None])))))"

fun search_offsets :: "('t, 's) mlff_type \<Rightarrow> boxes \<Rightarrow> PageAllocationStrategy \<Rightarrow> strategies \<Rightarrow> nat \<Rightarrow> nat \<Rightarrow> nat list
    \<Rightarrow> ('t, 's) MLFFAllocator \<Rightarrow> (('t, 's) MLFFAllocator \<times> PartialPageAllocation option) exec" where
  "search_offsets M boxes strategy strat pages remainder [] a = Inr (a, None)"
| "search_offsets M boxes strategy strat pages remainder (offset # offsets) a =
     exec_bind (try_offset M boxes strategy strat pages remainder offset a) (\<lambda>(a, r). case r of
       Some al \<Rightarrow> Inr (a, Some al)
     | None \<Rightarrow> search_offsets M boxes strategy strat pages remainder offsets a)"

definition whole_pages :: "('t, 's) mlff_type \<Rightarrow> nat \<Rightarrow> nat" where
  "whole_pages M sz = (if SUBTABLES M then sz div mlff_PAGE_SIZE M else (sz + mlff_PAGE_SIZE M - 1) div mlff_PAGE_SIZE M)"

definition part_page :: "('t, 's) mlff_type \<Rightarrow> nat \<Rightarrow> nat" where
  "part_page M sz = (if SUBTABLES M then sz mod mlff_PAGE_SIZE M else 0)"

definition search_end :: "('t, 's) mlff_type \<Rightarrow> PageAllocationStrategy \<Rightarrow> nat \<Rightarrow> nat exec" where
  "search_end M strategy search_npages =
     exec_bind (usub (mlff_NPAGES M) search_npages) (\<lambda>d. let end = d + 1 in
       case max_page strategy of
         None \<Rightarrow> Inr end
       | Some x \<Rightarrow> exec_bind (uadd x 1) (\<lambda>x. exec_bind (usub x search_npages) (\<lambda>y. Inr (min end (y + 1)))))"

definition mlff_allocate :: "('t, 's) mlff_type \<Rightarrow> boxes \<Rightarrow> ('t, 's) MLFFAllocator \<Rightarrow> nat \<Rightarrow> strategies
    \<Rightarrow> (('t, 's) MLFFAllocator \<times> PartialPageAllocation option) exec" where
  "mlff_allocate M boxes a sz alloc_strat =
     exec_bind (pas_current alloc_strat) (\<lambda>strategy.
     let pages = whole_pages M sz; remainder = part_page M sz;
         search_npages = pages + (if remainder > 0 then 1 else 0);
         first = (case min_page strategy of None \<Rightarrow> 0 | Some x \<Rightarrow> x) in
     exec_bind (search_end M strategy search_npages) (\<lambda>last_excl.
       let search_iter = (if reverse_order strategy then rev [first..<last_excl] else [first..<last_excl]);
           rounds = (if spread_mode strategy then 2 else 1) in
       search_offsets M boxes strategy alloc_strat pages remainder (concat (replicate rounds search_iter)) a))"


definition alloc_rem_if :: "('t, 's) mlff_type \<Rightarrow> boxes \<Rightarrow> bool \<Rightarrow> nat \<Rightarrow> nat \<Rightarrow> nat \<Rightarrow> ('t, 's) MLFFAllocator
    \<Rightarrow> (('t, 's) MLFFAllocator \<times> PartialPageAllocation option option) exec" where
  "alloc_rem_if M boxes wanted idx inner_offset sz a =
     (if wanted \<and> SUBTABLES M then
        exec_bind (alloc_rem M boxes idx inner_offset sz a) (\<lambda>(a, r). Inr (a, map_option Some r))
      else Inr (a, Some None))"

definition undo_remainder :: "('t, 's) mlff_type \<Rightarrow> nat \<Rightarrow> PartialPageAllocation option \<Rightarrow> ('t, 's) MLFFAllocator \<Rightarrow> ('t, 's) MLFFAllocator exec" where
  "undo_remainder M i remainder_allocated a = (case remainder_allocated of
       None \<Rightarrow> Inr a
     | Some al \<Rightarrow>
         exec_bind (get_suballocator_mut M a i) (\<lambda>st.
         exec_bind (unwrap st) (\<lambda>st.
         exec_bind (pf_deallocate (mt_sub M) st al) (\<lambda>st. put_sub i st a))))"

definition allocate_at_parts :: "('t, 's) mlff_type \<Rightarrow> boxes \<Rightarrow> ('t, 's) MLFFAllocator \<Rightarrow> nat \<Rightarrow> nat \<Rightarrow> nat \<Rightarrow> nat
    \<Rightarrow> (('t, 's) MLFFAllocator \<times> PartialPageAllocation option) exec" where
  "allocate_at_parts M boxes a start_idx start_rem_at start_rem_size sz =
     (let pages = whole_pages M sz; remainder = part_page M sz; last_excl = start_idx + pages in
     exec_bind (range_clear a start_idx pages) (\<lambda>clear. if \<not> clear then Inr (a, None) else
     exec_bind (alloc_rem_if M boxes (remainder \<noteq> 0) last_excl 0 remainder a) (\<lambda>(a, r). case r of
       None \<Rightarrow> Inr (a, None)
     | Some remainder_allocated \<Rightarrow>
     exec_bind (alloc_rem_if M boxes (start_rem_at \<noteq> 0) (start_idx - 1) start_rem_at start_rem_size a) (\<lambda>(a, r). case r of
       None \<Rightarrow> exec_bind (undo_remainder M last_excl remainder_allocated a) (\<lambda>a. Inr (a, None))
     | Some startrem_allocated \<Rightarrow>
     exec_bind (if pages \<noteq> 0 then alloc_contiguous M boxes start_idx start_idx pages a [] else Inr (a, [])) (\<lambda>(a, items).
       Inr (a, Some (build_allocation M items
         [map_option (\<lambda>al. (SubTable last_excl (pages * mlff_PAGE_SIZE M) al, 0)) remainder_allocated,
          map_option (\<lambda>al. (SubTable (start_idx - 1) 0 al, start_rem_size)) startrem_allocated])))))))"

definition mlff_allocate_at :: "('t, 's) mlff_type \<Rightarrow> boxes \<Rightarrow> ('t, 's) MLFFAllocator \<Rightarrow> nat \<Rightarrow> nat
    \<Rightarrow> (('t, 's) MLFFAllocator \<times> PartialPageAllocation option) exec" where
  "mlff_allocate_at M boxes a addr sz =
     (let addr = crop_addr addr; PS = mlff_PAGE_SIZE M; start_idx = addr div PS;
          start_rem_at = (if SUBTABLES M then addr mod PS else 0) in
     exec_bind (if SUBTABLES M then Inr sz else uadd sz (addr mod PS)) (\<lambda>sz.
     let start_rem_size = PS - start_rem_at in
       if start_rem_at \<noteq> 0
       then allocate_at_parts M boxes a (start_idx + 1) start_rem_at (min start_rem_size sz) (sz - start_rem_size)
       else allocate_at_parts M boxes a start_idx start_rem_at 0 sz))"

section \<open>Deallocation\<close>

fun mlff_deallocate_items :: "('t, 's) mlff_type \<Rightarrow> PAllocItem list \<Rightarrow> ('t, 's) MLFFAllocator \<Rightarrow> ('t, 's) MLFFAllocator exec" where
  "mlff_deallocate_items M [] a = Inr a"
| "mlff_deallocate_items M (Page i off # xs) a =
     exec_bind (pt_set_empty (mt_table M) (mlff_table a) i) (\<lambda>t.
     exec_bind (refresh_availability M (a\<lparr>mlff_table := t\<rparr>) i) (\<lambda>a.
       mlff_deallocate_items M xs a))"
| "mlff_deallocate_items M (SubTable i off al # xs) a =
     exec_bind (get_suballocator_mut M a i) (\<lambda>st.
     exec_bind (unwrap st) (\<lambda>st.
     exec_bind (pf_deallocate (mt_sub M) st al) (\<lambda>st.
     exec_bind (pf_num_used (mt_sub M) st) (\<lambda>n.
     exec_bind
       (if n = 0 then
          exec_bind (pt_set_empty (mt_table M) (mlff_table a) i) (\<lambda>t.
          exec_bind (vec_set (suballocators a) i None) (\<lambda>subs.
            Inr (a\<lparr>mlff_table := t, suballocators := subs\<rparr>)))
        else put_sub i st a) (\<lambda>a.
     exec_bind (refresh_availability M a i) (\<lambda>a.
       mlff_deallocate_items M xs a))))))"

definition mlff_deallocate :: "('t, 's) mlff_type \<Rightarrow> ('t, 's) MLFFAllocator \<Rightarrow> PartialPageAllocation \<Rightarrow> ('t, 's) MLFFAllocator exec" where
  "mlff_deallocate M a allocation = mlff_deallocate_items M (entries allocation) a"

section \<open>Splitting a huge page, and global tables\<close>

fun fill_sub :: "(nat \<Rightarrow> 's \<Rightarrow> 's exec) \<Rightarrow> nat \<Rightarrow> nat \<Rightarrow> 's \<Rightarrow> 's exec" where
  "fill_sub f i 0 st = Inr st"
| "fill_sub f i (Suc n) st = exec_bind (f i st) (\<lambda>st. fill_sub f (i + 1) n st)"

definition mlff_split_page :: "('t, 's) mlff_type \<Rightarrow> boxes \<Rightarrow> ('t, 's) MLFFAllocator \<Rightarrow> nat
    \<Rightarrow> (('t, 's) MLFFAllocator \<times> PartialPageAllocation option) exec" where
  "mlff_split_page M boxes a i =
     (if \<not> SUBTABLES M \<or> \<not> HUGEPAGES M then Inr (a, None) else
      exec_bind (get_availability a i) (\<lambda>av. if av \<noteq> 3 then Inr (a, None) else
      exec_bind (vec_get (suballocators a) i) (\<lambda>old. if old \<noteq> None then Inr (a, None) else
      exec_bind (pf_new (mt_sub M) (boxes [i])) (\<lambda>st.
      exec_bind (pf_allocate (mt_sub M) (\<lambda>p. boxes (i # p)) st (mlff_PAGE_SIZE M) ALLOCATION_DEFAULT) (\<lambda>(st, r).
      exec_bind (unwrap r) (\<lambda>allocation.
      exec_bind (pt_get_entry (mt_table M) (mlff_table a) i) (\<lambda>entry.
      exec_bind (case entry of
          Inr (addr, flags) \<Rightarrow>
            exec_bind (fill_sub (\<lambda>j st. pf_set_huge_addr (mt_sub M) st j (addr + j * pf_page_size (mt_sub M)) flags) 0 (pf_npages (mt_sub M)) st) (\<lambda>st.
              Inr (st, flags))
        | Inl data \<Rightarrow>
            exec_bind (fill_sub (\<lambda>j st. pf_set_absent (mt_sub M) st j data) 0 (pf_npages (mt_sub M)) st) (\<lambda>st.
              Inr (st, flags_empty))) (\<lambda>(st, stflags).
      exec_bind (point_to_subtable M (mlff_table a) i st) (\<lambda>t.
      exec_bind (vec_set (suballocators a) i (Some st)) (\<lambda>subs.
      exec_bind (refresh_availability M (a\<lparr>mlff_table := t, suballocators := subs\<rparr>) i) (\<lambda>a.
      exec_bind (pt_add_subtable_flags (mt_table M) False (mlff_table a) i stflags) (\<lambda>t.
        Inr (a\<lparr>mlff_table := t\<rparr>, Some allocation)))))))))))))"

definition put_global_table :: "('t, 's) mlff_type \<Rightarrow> ('t, 's) MLFFAllocator \<Rightarrow> nat \<Rightarrow> nat \<Rightarrow> PageFlags \<Rightarrow> ('t, 's) MLFFAllocator exec" where
  "put_global_table M a i phys_addr flags =
     exec_bind (assert_that (SUBTABLES M)) (\<lambda>_.
     exec_bind (get_availability a i) (\<lambda>av.
     exec_bind (assert_that (av = 0)) (\<lambda>_.
     exec_bind (pt_set_subtable_addr (mt_table M) (mlff_table a) i phys_addr) (\<lambda>t.
     exec_bind (pt_add_subtable_flags (mt_table M) True t i (flags_or_m flags {MF_GLOBAL})) (\<lambda>t.
       set_availability (a\<lparr>mlff_table := t\<rparr>) i 3)))))"

section \<open>The levels of the x86-64 table\<close>

definition mlff_new :: "('t, 's) mlff_type \<Rightarrow> nat \<Rightarrow> ('t, 's) MLFFAllocator" where
  "mlff_new M p = \<lparr>mlff_table = pt_new (mt_table M), suballocators = replicate 512 None,
     availability_bitmap = replicate 128 0, table_ptr = p\<rparr>"

definition mlff_ops :: "('t, 's) mlff_type \<Rightarrow> ('t, 's) MLFFAllocator pfa" where
  "mlff_ops M = \<lparr>pf_npages = mlff_NPAGES M, pf_page_size = mlff_PAGE_SIZE M, pf_new = (\<lambda>p. Inr (mlff_new M p)),
     pf_num_used = (\<lambda>a. Inr (pt_num_used (mt_table M) (mlff_table a))), pf_is_full = (\<lambda>a. Inr (mlff_is_full a)),
     pf_ptr = (\<lambda>a. Inr (table_ptr a)), pf_allocate = mlff_allocate M, pf_allocate_at = mlff_allocate_at M,
     pf_deallocate = mlff_deallocate M, pf_split_page = mlff_split_page M,
     pf_set_huge_addr = (\<lambda>a i p fl. exec_bind (pt_set_huge_addr (mt_table M) (mlff_table a) i p fl) (\<lambda>t. Inr (a\<lparr>mlff_table := t\<rparr>))),
     pf_set_absent = (\<lambda>a i d. exec_bind (pt_set_absent (mt_table M) (mlff_table a) i d) (\<lambda>t. Inr (a\<lparr>mlff_table := t\<rparr>)))\<rparr>"

definition NoDeeper :: "unit pfa" where
  "NoDeeper = \<lparr>pf_npages = 0, pf_page_size = 0, pf_new = (\<lambda>_. Inl ExplicitPanic), pf_num_used = (\<lambda>_. Inl ExplicitPanic),
     pf_is_full = (\<lambda>_. Inl ExplicitPanic), pf_ptr = (\<lambda>_. Inl ExplicitPanic), pf_allocate = (\<lambda>_ _ _ _. Inl ExplicitPanic),
     pf_allocate_at = (\<lambda>_ _ _ _. Inl ExplicitPanic), pf_deallocate = (\<lambda>_ _. Inl ExplicitPanic),
     pf_split_page = (\<lambda>_ _ _. Inl ExplicitPanic), pf_set_huge_addr = (\<lambda>_ _ _ _. Inl ExplicitPanic),
     pf_set_absent = (\<lambda>_ _ _. Inl ExplicitPanic)\<rparr>"

type_synonym level1 = "(x64_table, unit) MLFFAllocator"
type_synonym level2 = "(x64_table, level1) MLFFAllocator"
type_synonym level3 = "(x64_table, level2) MLFFAllocator"
type_synonym level4 = "(x64_table, level3) MLFFAllocator"

definition X64Level1 :: "pte_api \<Rightarrow> features \<Rightarrow> (x64_table, unit) mlff_type" where
  "X64Level1 api ft = \<lparr>mt_table = x64_page_table api ft 1, mt_sub = NoDeeper, SUBTABLES = False, HUGEPAGES = True\<rparr>"

definition X64Level2 :: "pte_api \<Rightarrow> features \<Rightarrow> (x64_table, level1) mlff_type" where
  "X64Level2 api ft = \<lparr>mt_table = x64_page_table api ft 2, mt_sub = mlff_ops (X64Level1 api ft), SUBTABLES = True, HUGEPAGES = True\<rparr>"

definition X64Level3 :: "pte_api \<Rightarrow> features \<Rightarrow> (x64_table, level2) mlff_type" where
  "X64Level3 api ft = \<lparr>mt_table = x64_page_table api ft 3, mt_sub = mlff_ops (X64Level2 api ft), SUBTABLES = True,
     HUGEPAGES = one_gb_huge_pages ft\<rparr>"

definition X64Level4 :: "pte_api \<Rightarrow> features \<Rightarrow> (x64_table, level3) mlff_type" where
  "X64Level4 api ft = \<lparr>mt_table = x64_page_table api ft 4, mt_sub = mlff_ops (X64Level3 api ft), SUBTABLES = True, HUGEPAGES = False\<rparr>"

definition TopLevelPageAllocator :: "pte_api \<Rightarrow> features \<Rightarrow> level4 pfa" where
  "TopLevelPageAllocator api ft = mlff_ops (X64Level4 api ft)"

end
