(* ===== verification/First_Fit_Correct.thy ===== *)
theory First_Fit_Correct
  imports First_Fit
begin

text \<open>
  Correctness of the first-fit page allocator.  The locale \<open>page_frame_allocator\<close> is the contract
  of a page allocator towards the level above it and towards the paging API: \<open>ok\<close> is its invariant,
  \<open>occ\<close> the set of bytes of its address range that are handed out, \<open>live\<close> the allocations that may be
  freed, \<open>fresh\<close> its state after construction, and \<open>fits\<close> the requests its strategies leave room for.
  The locale \<open>first_fit\<close> has the contracts of the page table and of the level below as its laws, and
  gives the contract of one more level.  The four levels of the x86-64 table are its instances.
\<close>

unbundle bit_operations_syntax

section \<open>The contract\<close>

definition box_ok :: "nat \<Rightarrow> bool" where
  "box_ok p \<longleftrightarrow> KERNEL_PTABLE_VADDR \<le> p \<and> p < KERNEL_PTABLE_VADDR + TOPLEVEL_PAGE_SIZE \<and> p mod 4096 = 0"

definition boxes_ok :: "boxes \<Rightarrow> bool" where
  "boxes_ok b \<longleftrightarrow> (\<forall>p. box_ok (b p))"

definition pf_span :: "'a pfa \<Rightarrow> nat" where
  "pf_span A = pf_npages A * pf_page_size A"

definition page_request :: "'a pfa \<Rightarrow> nat \<Rightarrow> nat \<Rightarrow> bool" where
  "page_request A addr sz \<longleftrightarrow> 0 < sz \<and> 4096 dvd sz \<and> 4096 dvd addr \<and> addr + sz \<le> pf_span A"

definition grown :: "('a \<Rightarrow> bool) \<Rightarrow> ('a \<Rightarrow> nat set) \<Rightarrow> ('a \<Rightarrow> PartialPageAllocation \<Rightarrow> bool) \<Rightarrow> 'a \<Rightarrow> 'a \<Rightarrow> PartialPageAllocation option \<Rightarrow> bool" where
  "grown ok occ live a a' r \<longleftrightarrow> ok a' \<and> (\<forall>al. live a al \<longrightarrow> live a' al) \<and>
     (case r of None \<Rightarrow> occ a' = occ a
      | Some al \<Rightarrow> live a' al \<and> covers al \<inter> occ a = {} \<and> occ a' = occ a \<union> covers al)"

locale page_frame_allocator =
  fixes A :: "'a pfa" and ok :: "'a \<Rightarrow> bool" and occ :: "'a \<Rightarrow> nat set" and fresh :: "'a \<Rightarrow> bool"
    and live :: "'a \<Rightarrow> PartialPageAllocation \<Rightarrow> bool" and fits :: "nat \<Rightarrow> strategies \<Rightarrow> bool"
  assumes page_size_ok: "0 < pf_page_size A" "4096 dvd pf_page_size A" "0 < pf_npages A" "pf_span A \<le> 2 ^ 48"
    and new_ok: "box_ok p \<Longrightarrow> \<exists>a. pf_new A p = Inr a \<and> fresh a"
    and fresh_ok: "fresh a \<Longrightarrow> ok a \<and> occ a = {}"
    and occ_span: "ok a \<Longrightarrow> occ a \<subseteq> {..<pf_span A}"
    and ptr_ok: "ok a \<Longrightarrow> \<exists>p. pf_ptr A a = Inr p \<and> box_ok p"
    and num_used_ok: "ok a \<Longrightarrow> \<exists>n. pf_num_used A a = Inr n \<and> (n = 0 \<longrightarrow> occ a = {})"
    and is_full_ok: "ok a \<Longrightarrow> \<exists>b. pf_is_full A a = Inr b"
    and live_ok: "ok a \<Longrightarrow> live a al \<Longrightarrow> wf_alloc al \<and> covers al \<subseteq> occ a"
    and fits_default: "page_request A 0 sz \<Longrightarrow> fits sz ALLOCATION_DEFAULT"
    and allocate_ok: "ok a \<Longrightarrow> boxes_ok b \<Longrightarrow> page_request A 0 sz \<Longrightarrow> fits sz strat \<Longrightarrow>
      \<exists>a' r. pf_allocate A b a sz strat = Inr (a', r) \<and> grown ok occ live a a' r
        \<and> (\<forall>al. r = Some al \<longrightarrow> alloc_size al = sz) \<and> (fresh a \<longrightarrow> r \<noteq> None)"
    and allocate_at_ok: "ok a \<Longrightarrow> boxes_ok b \<Longrightarrow> page_request A addr sz \<Longrightarrow>
      \<exists>a' r. pf_allocate_at A b a addr sz = Inr (a', r) \<and> grown ok occ live a a' r
        \<and> (\<forall>al. r = Some al \<longrightarrow> start_addr al = addr \<and> alloc_size al = sz) \<and> (fresh a \<longrightarrow> r \<noteq> None)"
    and deallocate_ok: "ok a \<Longrightarrow> live a al \<Longrightarrow>
      \<exists>a'. pf_deallocate A a al = Inr a' \<and> ok a' \<and> occ a' = occ a - covers al
        \<and> (\<forall>al'. live a al' \<longrightarrow> covers al' \<inter> covers al = {} \<longrightarrow> live a' al')"

lemma box_ok_phys: "box_ok p \<Longrightarrow> ptaddr_virt_to_phys p = Inr (p - KERNEL_PTABLE_VADDR) \<and> table_addr_ok (p - KERNEL_PTABLE_VADDR)"
proof -
  assume p: "box_ok p"
  have k: "KERNEL_PTABLE_VADDR mod 4096 = 0" by (simp add: KERNEL_PTABLE_VADDR_def)
  have "(p - KERNEL_PTABLE_VADDR) mod 4096 = 0" using p k by (metis box_ok_def dvd_diff_nat mod_0_imp_dvd dvd_imp_mod_0)
  moreover have "p - KERNEL_PTABLE_VADDR < phys_limit"
  proof -
    have "TOPLEVEL_PAGE_SIZE < phys_limit" by (simp add: TOPLEVEL_PAGE_SIZE_def phys_limit_def)
    then show ?thesis using p unfolding box_ok_def by linarith
  qed
  ultimately show ?thesis using p by (simp add: box_ok_def ptaddr_virt_to_phys_def usub_def table_addr_ok_def)
qed

lemma boxes_ok_sub: "boxes_ok b \<Longrightarrow> boxes_ok (\<lambda>p. b (i # p))"
  by (simp add: boxes_ok_def)

lemma crop_addr_id: "addr < 2 ^ 48 \<Longrightarrow> crop_addr addr = addr"
proof -
  have m: "(0x0000FFFFFFFFFFFF :: nat) = mask 48" by (simp add: mask_eq_exp_minus_1)
  assume "addr < 2 ^ 48"
  then show ?thesis unfolding crop_addr_def m by (simp add: take_bit_eq_mask[symmetric] take_bit_nat_eq_self)
qed

section \<open>The availability bitmap\<close>

definition avail :: "('t, 's) MLFFAllocator \<Rightarrow> nat \<Rightarrow> 8 word" where
  "avail a i = drop_bit (6 - 2 * (i mod 4)) (availability_bitmap a ! (i div 4)) AND 3"

lemma word3_cases:
  fixes v :: "8 word"
  assumes "v \<le> 3"
  shows "v = 0 \<or> v = 1 \<or> v = 2 \<or> v = 3"
proof -
  have "unat v \<le> 3" using assms by (simp add: word_le_nat_alt)
  then have "unat v = 0 \<or> unat v = 1 \<or> unat v = 2 \<or> unat v = 3" by linarith
  then show ?thesis by (auto simp: word_unat_eq_iff)
qed

lemma three_mask: "(3 :: 8 word) = mask 2"
  by (simp add: mask_eq_exp_minus_1)

lemma bit_three: "bit (3 :: 8 word) n \<longleftrightarrow> n < 2"
  unfolding three_mask bit_mask_iff by auto

lemma avail_field:
  fixes w v :: "8 word"
  assumes "v \<le> 3" and "i < 4" and "j < 4"
  shows "drop_bit (6 - 2 * j) ((w AND NOT (push_bit (6 - 2 * i) 3)) OR push_bit (6 - 2 * i) v) AND 3 =
     (if i = j then v else drop_bit (6 - 2 * j) w AND 3)"
proof -
  have hi: "\<not> bit v n" if "2 \<le> n" for n
  proof -
    have "v AND 3 = v" using word3_cases[OF assms(1)] by auto
    then show ?thesis using that by (metis bit_and_iff bit_three not_le)
  qed
  have v: "bit v n \<Longrightarrow> n < 2" for n using hi not_le by blast
  show ?thesis
  proof (rule bit_word_eqI)
    fix n assume "n < LENGTH(8)"
    show "bit (drop_bit (6 - 2 * j) ((w AND NOT (push_bit (6 - 2 * i) 3)) OR push_bit (6 - 2 * i) v) AND 3) n =
       bit (if i = j then v else drop_bit (6 - 2 * j) w AND 3) n"
      using assms(2,3) v[of n] v[of "6 - 2 * j + n - (6 - 2 * i)"] \<open>n < LENGTH(8)\<close> unfolding three_mask
      by (cases "i = j"; cases "n < 2") (auto simp: bit_simps)
  qed
qed

lemma get_availability_ok:
  "length (availability_bitmap a) = 128 \<Longrightarrow> i < 512 \<Longrightarrow> get_availability a i = Inr (avail a i)"
  by (simp add: get_availability_def vec_get_ok avail_def)

lemma set_availability_ok:
  assumes "length (availability_bitmap a) = 128" and "i < 512" and "v \<le> 3"
  shows "\<exists>bm. set_availability a i v = Inr (a\<lparr>availability_bitmap := bm\<rparr>) \<and> length bm = 128 \<and>
     (\<forall>j. avail (a\<lparr>availability_bitmap := bm\<rparr>) j = (if j = i then v else avail a j))"
proof -
  let ?bm = "availability_bitmap a" let ?q = "i div 4"
  let ?w = "(?bm ! ?q AND NOT (push_bit (6 - 2 * (i mod 4)) 3)) OR push_bit (6 - 2 * (i mod 4)) v"
  have q: "?q < 128" using assms(2) by simp
  have s: "set_availability a i v = Inr (a\<lparr>availability_bitmap := ?bm[?q := ?w]\<rparr>)"
    using q assms(1) by (simp add: set_availability_def vec_get_ok vec_set_ok Let_def)
  have "avail (a\<lparr>availability_bitmap := ?bm[?q := ?w]\<rparr>) j = (if j = i then v else avail a j)" for j
  proof (cases "j div 4 = ?q")
    case True
    have m: "j mod 4 = i mod 4 \<longleftrightarrow> j = i" using True by (metis div_mod_decomp)
    then show ?thesis using True q assms(1) avail_field[OF assms(3), of "i mod 4" "j mod 4" "?bm ! ?q"]
      by (auto simp: avail_def)
  next
    case False
    then show ?thesis by (auto simp: avail_def)
  qed
  then show ?thesis using s assms(1) by (intro exI[of _ "?bm[?q := ?w]"]) simp
qed

section \<open>Sorted allocations\<close>

lemma adjacent_sorted:
  assumes "adjacent ps pos off ys" and "\<And>x. x \<in> set ys \<Longrightarrow> 0 < item_size ps x"
  shows "sorted (map item_offset ys) \<and> distinct (map item_offset ys) \<and> (\<forall>x\<in>set ys. off \<le> item_offset x)"
  using assms
proof (induction ys arbitrary: pos off)
  case (Cons y ys)
  then have "sorted (map item_offset ys) \<and> distinct (map item_offset ys) \<and> (\<forall>x\<in>set ys. off + item_size ps y \<le> item_offset x)"
    by auto
  moreover have "0 < item_size ps y" "item_offset y = off" using Cons.prems by auto
  ultimately show ?case by fastforce
qed simp

lemma sort_adjacent:
  assumes "adjacent ps pos off ys" and "\<And>x. x \<in> set ys \<Longrightarrow> wf_item ps x" and "0 < ps" and "mset xs = mset ys"
  shows "sort_key item_offset xs = ys"
proof -
  have s: "sorted (map item_offset ys)" "distinct (map item_offset ys)"
    using adjacent_sorted[OF assms(1)] wf_alloc_span(2)[OF assms(2) assms(3)] by auto
  then have "inj_on item_offset (set xs)" using assms(4) by (metis distinct_map mset_eq_setD)
  then show ?thesis using sort_key_inj_key_eq[OF assms(4)] s(1) by blast
qed

section \<open>The state of one level, slot by slot\<close>

type_synonym 's slot = "'s option \<times> (nat + (nat \<times> PageFlags)) option \<times> 8 word"
type_synonym 't entry_view = "'t \<Rightarrow> nat \<Rightarrow> (nat + (nat \<times> PageFlags)) option"

definition slot :: "'t entry_view \<Rightarrow> ('t, 's) MLFFAllocator \<Rightarrow> nat \<Rightarrow> 's slot" where
  "slot entry a i = (suballocators a ! i, entry (mlff_table a) i, avail a i)"

text \<open>
  A slot without a sub-table is free exactly when its bits say so and full when it holds a page or a
  global table; a slot with a sub-table is never marked free.
\<close>

fun slot_ok :: "('t, 's) mlff_type \<Rightarrow> ('s \<Rightarrow> bool) \<Rightarrow> 's slot \<Rightarrow> bool" where
  "slot_ok M sok (None, e, v) \<longleftrightarrow> v = (if e = None then 0 else 3)"
| "slot_ok M sok (Some st, e, v) \<longleftrightarrow> SUBTABLES M \<and> sok st \<and> (\<exists>p. e = Some (Inr p)) \<and> v \<noteq> 0"

fun slot_occ :: "('t, 's) mlff_type \<Rightarrow> ('s \<Rightarrow> nat set) \<Rightarrow> nat \<Rightarrow> 's slot \<Rightarrow> nat set" where
  "slot_occ M socc i (None, e, v) =
     (if e = None then {} else {i * mlff_PAGE_SIZE M..<(i + 1) * mlff_PAGE_SIZE M})"
| "slot_occ M socc i (Some st, e, v) = (\<lambda>x. x + i * mlff_PAGE_SIZE M) ` socc st"

fun slot_live :: "('s \<Rightarrow> PartialPageAllocation \<Rightarrow> bool) \<Rightarrow> 's slot \<Rightarrow> PAllocItem \<Rightarrow> bool" where
  "slot_live slive (s, e, v) (Page i off) \<longleftrightarrow> s = None \<and> e \<noteq> None"
| "slot_live slive (s, e, v) (SubTable i off al) \<longleftrightarrow> (\<exists>st. s = Some st \<and> slive st al)"

definition item_live :: "'t entry_view \<Rightarrow> ('s \<Rightarrow> PartialPageAllocation \<Rightarrow> bool) \<Rightarrow> ('t, 's) MLFFAllocator \<Rightarrow> PAllocItem \<Rightarrow> bool" where
  "item_live entry slive a x \<longleftrightarrow> index x < 512 \<and> slot_live slive (slot entry a (index x)) x"

definition mlff_shape :: "('t \<Rightarrow> bool) \<Rightarrow> ('t, 's) MLFFAllocator \<Rightarrow> bool" where
  "mlff_shape tok a \<longleftrightarrow> tok (mlff_table a) \<and> length (suballocators a) = 512 \<and> length (availability_bitmap a) = 128
     \<and> box_ok (table_ptr a)"

definition mlff_ok :: "('t, 's) mlff_type \<Rightarrow> ('t \<Rightarrow> bool) \<Rightarrow> 't entry_view \<Rightarrow> ('s \<Rightarrow> bool) \<Rightarrow> ('t, 's) MLFFAllocator \<Rightarrow> bool" where
  "mlff_ok M tok entry sok a \<longleftrightarrow> mlff_shape tok a \<and> (\<forall>i<512. slot_ok M sok (slot entry a i))"

definition mlff_occ :: "('t, 's) mlff_type \<Rightarrow> 't entry_view \<Rightarrow> ('s \<Rightarrow> nat set) \<Rightarrow> ('t, 's) MLFFAllocator \<Rightarrow> nat set" where
  "mlff_occ M entry socc a = (\<Union>i<512. slot_occ M socc i (slot entry a i))"

definition mlff_fresh :: "('t \<Rightarrow> bool) \<Rightarrow> 't entry_view \<Rightarrow> ('t, 's) MLFFAllocator \<Rightarrow> bool" where
  "mlff_fresh tok entry a \<longleftrightarrow> mlff_shape tok a \<and> (\<forall>i<512. slot entry a i = (None, None, 0))"

definition mlff_live :: "('t, 's) mlff_type \<Rightarrow> 't entry_view \<Rightarrow> ('s \<Rightarrow> PartialPageAllocation \<Rightarrow> bool) \<Rightarrow> ('t, 's) MLFFAllocator \<Rightarrow> PartialPageAllocation \<Rightarrow> bool" where
  "mlff_live M entry slive a al \<longleftrightarrow> wf_alloc al \<and> ppa_page_size al = mlff_PAGE_SIZE M \<and> (\<forall>x\<in>set (entries al). item_live entry slive a x)"

text \<open>A strategy fits a request when its bounds leave room for it at every level it reaches.\<close>

definition search_npages :: "('t, 's) mlff_type \<Rightarrow> nat \<Rightarrow> nat" where
  "search_npages M sz = whole_pages M sz + (if part_page M sz > 0 then 1 else 0)"

definition mlff_fits :: "('t, 's) mlff_type \<Rightarrow> (nat \<Rightarrow> strategies \<Rightarrow> bool) \<Rightarrow> nat \<Rightarrow> strategies \<Rightarrow> bool" where
  "mlff_fits M sfits sz strat \<longleftrightarrow> strat \<noteq> [] \<and>
     (let first = (case min_page (hd strat) of None \<Rightarrow> 0 | Some x \<Rightarrow> x) in
       first + search_npages M sz \<le> mlff_NPAGES M \<and>
       (case max_page (hd strat) of None \<Rightarrow> True | Some x \<Rightarrow> x + 1 < usize_limit \<and> first + search_npages M sz \<le> x + 1)) \<and>
     (SUBTABLES M \<and> whole_pages M sz = 0 \<longrightarrow> sfits sz (pas_next_level_down strat))"

section \<open>Changing one slot\<close>

locale first_fit = table: page_table "mt_table M" tok entry
  for M :: "('t, 's) mlff_type" and tok :: "'t \<Rightarrow> bool" and entry :: "'t entry_view" +
  fixes sok :: "'s \<Rightarrow> bool" and socc :: "'s \<Rightarrow> nat set" and sfresh :: "'s \<Rightarrow> bool"
    and slive :: "'s \<Rightarrow> PartialPageAllocation \<Rightarrow> bool" and sfits :: "nat \<Rightarrow> strategies \<Rightarrow> bool"
  assumes sub: "SUBTABLES M \<Longrightarrow> page_frame_allocator (mt_sub M) sok socc sfresh slive sfits"
    and divisible: "SUBTABLES M \<or> HUGEPAGES M"
    and table_span: "512 * mlff_PAGE_SIZE M \<le> 2 ^ 48"
begin

abbreviation PS where "PS \<equiv> mlff_PAGE_SIZE M"
abbreviation aslot where "aslot \<equiv> slot entry"
abbreviation sl_ok where "sl_ok \<equiv> slot_ok M sok"
abbreviation sl_occ where "sl_occ \<equiv> slot_occ M socc"
abbreviation it_live where "it_live \<equiv> item_live entry slive"
abbreviation aok where "aok \<equiv> mlff_ok M tok entry sok"
abbreviation aocc where "aocc \<equiv> mlff_occ M entry socc"
abbreviation alive where "alive \<equiv> mlff_live M entry slive"
abbreviation afresh where "afresh \<equiv> mlff_fresh tok entry"
abbreviation shape where "shape \<equiv> mlff_shape tok"

lemmas sub_laws = page_frame_allocator.allocate_ok[OF sub] page_frame_allocator.allocate_at_ok[OF sub]

lemma page_size_pos: "0 < PS" "4096 dvd PS"
  using page_frame_allocator.page_size_ok[OF sub] by (auto simp: mlff_PAGE_SIZE_def)

lemma npages_eq: "mlff_NPAGES M = 512"
  by (simp add: mlff_NPAGES_def table.npages)

lemma sub_span: "SUBTABLES M \<Longrightarrow> pf_span (mt_sub M) = PS"
  by (simp add: pf_span_def mlff_PAGE_SIZE_def mult.commute)

definition upd :: "nat \<Rightarrow> ('t, 's) MLFFAllocator \<Rightarrow> ('t, 's) MLFFAllocator \<Rightarrow> bool" where
  "upd i a a' \<longleftrightarrow> shape a' \<and> (\<forall>j. j \<noteq> i \<longrightarrow> aslot a' j = aslot a j)"

lemma upd_trans: "upd i a a' \<Longrightarrow> upd i a' a'' \<Longrightarrow> upd i a a''"
  by (simp add: upd_def)

lemma upd_refl: "shape a \<Longrightarrow> upd i a a"
  by (simp add: upd_def)

lemma in_range_iff: "x \<in> {i * PS..<(i + 1) * PS} \<longleftrightarrow> x div PS = i"
proof -
  have "x div PS = i \<longleftrightarrow> i \<le> x div PS \<and> x div PS < i + 1" by auto
  also have "\<dots> \<longleftrightarrow> i * PS \<le> x \<and> x < (i + 1) * PS"
    using page_size_pos by (simp add: less_eq_div_iff_mult_less_eq div_less_iff_less_mult)
  finally show ?thesis by auto
qed

lemma slot_range:
  assumes "sl_ok s"
  shows "sl_occ i s \<subseteq> {i * PS..<(i + 1) * PS}"
proof -
  obtain st e v where s: "s = (st, e, v)" by (cases s)
  show ?thesis
  proof (cases st)
    case (Some st)
    then have "SUBTABLES M" "sok st" using assms s by auto
    then have "socc st \<subseteq> {..<PS}" using page_frame_allocator.occ_span[OF sub] sub_span by auto
    then show ?thesis using s Some by auto
  qed (use s in auto)
qed

lemma occ_iff:
  assumes "aok a"
  shows "x \<in> aocc a \<longleftrightarrow> x div PS < 512 \<and> x \<in> sl_occ (x div PS) (aslot a (x div PS))"
proof -
  have "x div PS = i" if "i < 512" "x \<in> sl_occ i (aslot a i)" for i
    using slot_range[of "aslot a i" i] assms that in_range_iff[of x i] by (auto simp: mlff_ok_def)
  then show ?thesis by (auto simp: mlff_occ_def)
qed

lemma upd_ok: "aok a \<Longrightarrow> upd i a a' \<Longrightarrow> sl_ok (aslot a' i) \<Longrightarrow> aok a'"
  unfolding mlff_ok_def upd_def by metis

lemma upd_occ:
  assumes "aok a" and "upd i a a'" and "i < 512" and "sl_ok (aslot a' i)"
  shows "aocc a' = (aocc a - {i * PS..<(i + 1) * PS}) \<union> sl_occ i (aslot a' i)"
proof (rule set_eqI)
  fix x
  have ok': "aok a'" using upd_ok assms by blast
  have r: "x \<in> sl_occ i (aslot a' i) \<Longrightarrow> x div PS = i" using slot_range[OF assms(4)] in_range_iff[of x i] by blast
  have e: "x div PS \<noteq> i \<Longrightarrow> aslot a' (x div PS) = aslot a (x div PS)" using assms(2) by (simp add: upd_def)
  show "x \<in> aocc a' \<longleftrightarrow> x \<in> (aocc a - {i * PS..<(i + 1) * PS}) \<union> sl_occ i (aslot a' i)"
    unfolding Un_iff Diff_iff in_range_iff occ_iff[OF ok'] occ_iff[OF assms(1)] using r e assms(3) by metis
qed

lemma occ_slot:
  assumes "aok a" and "i < 512"
  shows "aocc a \<inter> {i * PS..<(i + 1) * PS} = sl_occ i (aslot a i)"
proof -
  have "sl_ok (aslot a i)" using assms by (simp add: mlff_ok_def)
  then have "x \<in> sl_occ i (aslot a i) \<Longrightarrow> x div PS = i" for x using slot_range in_range_iff by blast
  then show ?thesis unfolding set_eq_iff Int_iff in_range_iff occ_iff[OF assms(1)] using assms(2) by blast
qed

lemma it_live_upd:
  assumes "upd i a a'" and "it_live a x" and "index x = i \<Longrightarrow> slot_live slive (aslot a i) x \<Longrightarrow> slot_live slive (aslot a' i) x"
  shows "it_live a' x"
  using assms unfolding item_live_def upd_def by metis

lemma item_range: "wf_item PS x \<Longrightarrow> item_covers PS x \<subseteq> {index x * PS..<(index x + 1) * PS}"
  using wf_alloc_span(2)[of PS x] page_size_pos by (cases x) auto

text \<open>An operation that hands out the items \<open>xs\<close> and nothing else.\<close>

definition igrown :: "('t, 's) MLFFAllocator \<Rightarrow> ('t, 's) MLFFAllocator \<Rightarrow> PAllocItem list \<Rightarrow> bool" where
  "igrown a a' xs \<longleftrightarrow> aok a' \<and> (\<forall>x. it_live a x \<longrightarrow> it_live a' x) \<and> (\<forall>x\<in>set xs. it_live a' x \<and> wf_item PS x) \<and>
     (\<Union>x\<in>set xs. item_covers PS x) \<inter> aocc a = {} \<and> aocc a' = aocc a \<union> (\<Union>x\<in>set xs. item_covers PS x)"

lemma igrown_refl: "aok a \<Longrightarrow> igrown a a []"
  by (simp add: igrown_def)

lemma igrown_trans: "igrown a a' xs \<Longrightarrow> igrown a' a'' ys \<Longrightarrow> igrown a a'' (xs @ ys)"
  unfolding igrown_def by auto

lemma igrown_mono: "igrown a a' xs \<Longrightarrow> (\<Union>x\<in>set ys. item_covers PS x) = (\<Union>x\<in>set xs. item_covers PS x) \<Longrightarrow>
   (\<And>y. y \<in> set ys \<Longrightarrow> it_live a' y \<and> wf_item PS y) \<Longrightarrow> igrown a a' ys"
  unfolding igrown_def by auto

lemma slot_grow:
  assumes "aok a" and "i < 512" and "upd i a a'" and "sl_ok (aslot a' i)"
    and "sl_occ i (aslot a' i) = sl_occ i (aslot a i) \<union> item_covers PS x" and "item_covers PS x \<inter> sl_occ i (aslot a i) = {}"
    and "wf_item PS x" and "index x = i" and "slot_live slive (aslot a' i) x"
    and "\<And>y. slot_live slive (aslot a i) y \<Longrightarrow> slot_live slive (aslot a' i) y"
  shows "igrown a a' [x]"
proof -
  have o: "sl_occ i (aslot a i) = aocc a \<inter> {i * PS..<(i + 1) * PS}" using occ_slot[OF assms(1,2)] by simp
  have X: "item_covers PS x \<subseteq> {i * PS..<(i + 1) * PS}" using item_range[OF assms(7)] assms(8) by simp
  have "aocc a' = aocc a \<union> item_covers PS x" using upd_occ[OF assms(1,3,2,4)] assms(5) o by blast
  moreover have "item_covers PS x \<inter> aocc a = {}" using assms(6) o X by blast
  moreover have "it_live a' y" if "it_live a y" for y using it_live_upd[OF assms(3) that] assms(10) by blast
  ultimately show ?thesis using upd_ok[OF assms(1,3,4)] assms(2,7-9) by (simp add: igrown_def item_live_def)
qed

lemma slot_same:
  assumes "aok a" and "i < 512" and "upd i a a'" and "sl_ok (aslot a' i)"
    and "sl_occ i (aslot a' i) = sl_occ i (aslot a i)"
    and "\<And>y. slot_live slive (aslot a i) y \<Longrightarrow> slot_live slive (aslot a' i) y"
  shows "igrown a a' []"
proof -
  have "aocc a' = aocc a" using upd_occ[OF assms(1,3,2,4)] occ_slot[OF assms(1,2)] assms(5) by blast
  moreover have "it_live a' y" if "it_live a y" for y using it_live_upd[OF assms(3) that] assms(6) by blast
  ultimately show ?thesis using upd_ok[OF assms(1,3,4)] by (simp add: igrown_def)
qed

lemma sub_availability_ok:
  assumes "SUBTABLES M" and "sok st"
  shows "\<exists>v. sub_availability M st = Inr v \<and> v \<noteq> 0 \<and> v \<le> 3"
proof -
  obtain n where "pf_num_used (mt_sub M) st = Inr n" using page_frame_allocator.num_used_ok[OF sub[OF assms(1)] assms(2)] by blast
  moreover obtain b where "pf_is_full (mt_sub M) st = Inr b" using page_frame_allocator.is_full_ok[OF sub[OF assms(1)] assms(2)] by blast
  ultimately show ?thesis using assms(1) by (simp add: sub_availability_def)
qed

lemma refresh_ok:
  assumes "shape a" and "i < 512" and "\<And>st. suballocators a ! i = Some st \<Longrightarrow> SUBTABLES M \<and> sok st"
  shows "\<exists>a' v. refresh_availability M a i = Inr a' \<and> upd i a a' \<and> aslot a' i = (suballocators a ! i, entry (mlff_table a) i, v) \<and>
     (if suballocators a ! i = None then v = (if entry (mlff_table a) i = None then 0 else 3) else v \<noteq> 0)"
proof -
  have len: "length (suballocators a) = 512" "length (availability_bitmap a) = 128" "tok (mlff_table a)"
    using assms(1) by (auto simp: mlff_shape_def)
  have "\<exists>v. refresh_availability M a i = set_availability a i v \<and> v \<le> 3 \<and>
     (if suballocators a ! i = None then v = (if entry (mlff_table a) i = None then 0 else 3) else v \<noteq> 0)"
  proof (cases "suballocators a ! i")
    case None
    then show ?thesis using len assms(2) by (simp add: refresh_availability_def vec_get_ok table.is_unused_ok)
  next
    case (Some st)
    obtain v where "sub_availability M st = Inr v" "v \<noteq> 0" "v \<le> 3" using sub_availability_ok assms(3)[OF Some] by blast
    then show ?thesis using Some len assms(2) by (intro exI[of _ v]) (simp add: refresh_availability_def vec_get_ok)
  qed
  then obtain v where v: "refresh_availability M a i = set_availability a i v" "v \<le> 3"
    "if suballocators a ! i = None then v = (if entry (mlff_table a) i = None then 0 else 3) else v \<noteq> 0" by blast
  obtain bm where bm: "set_availability a i v = Inr (a\<lparr>availability_bitmap := bm\<rparr>)" "length bm = 128"
    "\<forall>j. avail (a\<lparr>availability_bitmap := bm\<rparr>) j = (if j = i then v else avail a j)"
    using set_availability_ok[OF len(2) assms(2) v(2)] by blast
  have "upd i a (a\<lparr>availability_bitmap := bm\<rparr>)" using assms(1) bm by (simp add: upd_def mlff_shape_def slot_def)
  moreover have "aslot (a\<lparr>availability_bitmap := bm\<rparr>) i = (suballocators a ! i, entry (mlff_table a) i, v)"
    using bm by (simp add: slot_def)
  ultimately show ?thesis using v(1,3) bm(1) by metis
qed

lemma point_to_subtable_ok:
  assumes "SUBTABLES M" and "sok st" and "tok t" and "i < 512"
  shows "\<exists>t' p. point_to_subtable M t i st = Inr t' \<and> tok t' \<and> entry t' = (entry t)(i \<mapsto> Inr p)"
proof -
  obtain p where p: "pf_ptr (mt_sub M) st = Inr p" "box_ok p" using page_frame_allocator.ptr_ok[OF sub[OF assms(1)] assms(2)] by blast
  show ?thesis using table.set_subtable_ok[OF assms(3,4)] box_ok_phys[OF p(2)] p(1) by (fastforce simp: point_to_subtable_def)
qed

lemma avail_upd_other [simp]:
  "avail (a\<lparr>suballocators := s\<rparr>) j = avail a j" "avail (a\<lparr>mlff_table := t\<rparr>) j = avail a j"
  by (simp_all add: avail_def)

lemma get_subtable_ok:
  assumes "SUBTABLES M" and "aok a" and "i < 512" and "avail a i \<noteq> 3" and "boxes_ok b"
  shows "\<exists>a1 st e. get_subtable_always M b a i = Inr (a1, st) \<and> upd i a a1 \<and> aslot a1 i = (Some st, Some (Inr e), avail a i) \<and> sok st
     \<and> (avail a i = 0 \<longrightarrow> sfresh st) \<and> sl_occ i (aslot a1 i) = sl_occ i (aslot a i)
     \<and> (\<forall>y. slot_live slive (aslot a i) y \<longrightarrow> slot_live slive (aslot a1 i) y)"
proof -
  have sh: "shape a" and s: "sl_ok (suballocators a ! i, entry (mlff_table a) i, avail a i)" and len: "length (suballocators a) = 512"
    and tk: "tok (mlff_table a)"
    using assms(2,3) by (auto simp: mlff_ok_def slot_def mlff_shape_def)
  show ?thesis
  proof (cases "suballocators a ! i")
    case (Some st)
    then show ?thesis using s len assms(3) upd_refl[OF sh] by (auto simp: get_subtable_always_def vec_get_ok slot_def)
  next
    case None
    then have e: "entry (mlff_table a) i = None" "avail a i = 0" using s assms(4) by (auto split: if_splits)
    obtain st where st: "pf_new (mt_sub M) (b [i]) = Inr st" "sfresh st"
      using page_frame_allocator.new_ok[OF sub[OF assms(1)]] assms(5) by (auto simp: boxes_ok_def)
    have f: "sok st" "socc st = {}" using page_frame_allocator.fresh_ok[OF sub[OF assms(1)] st(2)] by auto
    obtain t p where t: "point_to_subtable M (mlff_table a) i st = Inr t" "tok t" "entry t = (entry (mlff_table a))(i \<mapsto> Inr p)"
      using point_to_subtable_ok[OF assms(1) f(1) tk assms(3)] by blast
    let ?a = "a\<lparr>suballocators := (suballocators a)[i := Some st], mlff_table := t\<rparr>"
    have "get_subtable_always M b a i = Inr (?a, st)"
      using None st t len assms(3) by (simp add: get_subtable_always_def vec_get_ok vec_set_ok)
    moreover have "upd i a ?a" using sh t len by (simp add: upd_def mlff_shape_def slot_def)
    moreover have sl: "aslot ?a i = (Some st, Some (Inr p), avail a i)" "aslot a i = (None, None, avail a i)"
      using t len assms(3) None e by (simp_all add: slot_def)
    moreover have "slot_live slive (aslot a i) y \<Longrightarrow> slot_live slive (aslot ?a i) y" for y
      using sl by (cases y) auto
    ultimately show ?thesis using st f by auto
  qed
qed

text \<open>A call on the sub-allocator of a slot, followed by the refresh of its bits when it succeeds.\<close>

definition sub_call :: "(boxes \<Rightarrow> 's \<Rightarrow> ('s \<times> PartialPageAllocation option) exec) \<Rightarrow> (PartialPageAllocation \<Rightarrow> bool) \<Rightarrow> bool" where
  "sub_call f Q \<longleftrightarrow> (\<forall>b st. boxes_ok b \<longrightarrow> sok st \<longrightarrow> (\<exists>st' r. f b st = Inr (st', r) \<and> grown sok socc slive st st' r \<and>
     (\<forall>al. r = Some al \<longrightarrow> Q al) \<and> (sfresh st \<longrightarrow> r \<noteq> None)))"

lemma put_sub_ok:
  assumes "shape a" and "i < 512"
  shows "\<exists>a'. put_sub i st a = Inr a' \<and> upd i a a' \<and> aslot a' i = (Some st, entry (mlff_table a) i, avail a i)
    \<and> suballocators a' ! i = Some st \<and> mlff_table a' = mlff_table a"
  using assms by (auto simp: put_sub_def vec_set_ok mlff_shape_def upd_def slot_def)

lemma sub_alloc_span:
  assumes "SUBTABLES M" and "sok st" and "slive st al"
  shows "wf_item PS (SubTable i off al)" "item_covers PS (SubTable i off al) = (\<lambda>x. x + i * PS) ` covers al"
proof -
  have w: "wf_alloc al" "covers al \<subseteq> {..<PS}"
    using page_frame_allocator.live_ok[OF sub[OF assms(1)] assms(2,3)] page_frame_allocator.occ_span[OF sub[OF assms(1)] assms(2)]
      sub_span[OF assms(1)] by auto
  have sp: "covers al = {start_addr al..<end_addr al}" "start_addr al < end_addr al" using wf_alloc_span(1)[OF w(1)] by auto
  then have "end_addr al - 1 \<in> covers al" by auto
  then have "end_addr al \<le> PS" using w(2) by auto
  then show "wf_item PS (SubTable i off al)" "item_covers PS (SubTable i off al) = (\<lambda>x. x + i * PS) ` covers al" using w(1) by auto
qed

lemma sub_slot:
  assumes "SUBTABLES M" and "aok a" and "i < 512" and "avail a i \<noteq> 3" and "boxes_ok b" and "sub_call f Q"
  shows "\<exists>a1 r. in_subtable M b i f a = Inr (a1, r) \<and> (r = None \<longrightarrow> igrown a a1 [] \<and> upd i a a1 \<and> avail a i \<noteq> 0) \<and>
     (\<forall>al. r = Some al \<longrightarrow> Q al \<and> (\<exists>a2. refresh_availability M a1 i = Inr a2 \<and> upd i a a2 \<and> (\<forall>off. igrown a a2 [SubTable i off al])))"
proof -
  obtain a0 st e where a0: "get_subtable_always M b a i = Inr (a0, st)" "upd i a a0" "aslot a0 i = (Some st, Some (Inr e), avail a i)" "sok st"
    "avail a i = 0 \<longrightarrow> sfresh st" "sl_occ i (aslot a0 i) = sl_occ i (aslot a i)"
    "\<forall>y. slot_live slive (aslot a i) y \<longrightarrow> slot_live slive (aslot a0 i) y"
    using get_subtable_ok[OF assms(1-5)] by blast
  obtain st' r where r: "f (\<lambda>p. b (i # p)) st = Inr (st', r)" "grown sok socc slive st st' r" "\<forall>al. r = Some al \<longrightarrow> Q al" "sfresh st \<longrightarrow> r \<noteq> None"
    using assms(6) boxes_ok_sub[OF assms(5)] a0(4) unfolding sub_call_def by blast
  have sh0: "shape a0" using a0(2) by (simp add: upd_def)
  obtain a1 where a1: "put_sub i st' a0 = Inr a1" "upd i a0 a1" "aslot a1 i = (Some st', Some (Inr e), avail a i)" "suballocators a1 ! i = Some st'"
    using put_sub_ok[OF sh0 assms(3), of st'] a0(3) by (auto simp: slot_def)
  have run: "in_subtable M b i f a = Inr (a1, r)" using a0(1) r(1) a1(1) by (simp add: in_subtable_def)
  have u1: "upd i a a1" using upd_trans a0(2) a1(2) by blast
  have ok': "sok st'" and fr: "\<And>al. slive st al \<Longrightarrow> slive st' al" using r(2) by (auto simp: grown_def)
  have occ0: "sl_occ i (aslot a i) = (\<lambda>x. x + i * PS) ` socc st" using a0(3,6) by simp
  have frame: "slot_live slive (aslot a i) y \<Longrightarrow> slot_live slive (Some st', Some (Inr e), v) y" for y v
    using a0(3,7) fr by (cases y) auto
  have none: "igrown a a1 [] \<and> upd i a a1 \<and> avail a i \<noteq> 0" if "r = None"
  proof -
    have nz: "avail a i \<noteq> 0" using that r(4) a0(5) by blast
    have "socc st' = socc st" using r(2) that by (simp add: grown_def)
    then show ?thesis using slot_same[OF assms(2,3) u1] a1(3) u1 ok' assms(1) nz occ0 frame by simp
  qed
  have some: "Q al \<and> (\<exists>a2. refresh_availability M a1 i = Inr a2 \<and> upd i a a2 \<and> (\<forall>off. igrown a a2 [SubTable i off al]))" if "r = Some al" for al
  proof -
    obtain a2 v where a2: "refresh_availability M a1 i = Inr a2" "upd i a1 a2" "aslot a2 i = (Some st', Some (Inr e), v)" "v \<noteq> 0"
      using refresh_ok[of a1 i] u1 assms(1,3) ok' a1(3,4) by (auto simp: upd_def slot_def)
    have g: "slive st' al" "covers al \<inter> socc st = {}" "socc st' = socc st \<union> covers al" using r(2) that by (auto simp: grown_def)
    have "igrown a a2 [SubTable i off al]" for off
      using slot_grow[OF assms(2,3) upd_trans[OF u1 a2(2)], of "SubTable i off al"] sub_alloc_span[OF assms(1) ok' g(1), of i off]
        a2(3,4) assms(1) ok' occ0 g frame by (auto simp: image_Un image_Int[symmetric] inj_def)
    then show ?thesis using r(3) that a2(1) upd_trans[OF u1 a2(2)] by blast
  qed
  show ?thesis using run none some by blast
qed

lemma free_slot: "aok a \<Longrightarrow> i < 512 \<Longrightarrow> avail a i = 0 \<Longrightarrow> aslot a i = (None, None, 0)"
  by (cases "suballocators a ! i"; cases "entry (mlff_table a) i") (auto simp: mlff_ok_def slot_def split: if_splits dest: spec[of _ i])

lemma reserve_slot:
  assumes "aok a" and "i < 512" and "avail a i = 0"
  shows "\<exists>t a2. pt_reserve (mt_table M) (mlff_table a) i = Inr t \<and> refresh_availability M (a\<lparr>mlff_table := t\<rparr>) i = Inr a2
     \<and> upd i a a2 \<and> (\<forall>off. igrown a a2 [Page i off])"
proof -
  have sh: "shape a" and free: "aslot a i = (None, None, 0)" using assms free_slot by (auto simp: mlff_ok_def)
  obtain t d where t: "pt_reserve (mt_table M) (mlff_table a) i = Inr t" "tok t" "entry t = (entry (mlff_table a))(i \<mapsto> Inl d)"
    using table.reserve_ok sh assms(2) unfolding mlff_shape_def by blast
  let ?a = "a\<lparr>mlff_table := t\<rparr>"
  have u: "upd i a ?a" using sh t by (simp add: upd_def mlff_shape_def slot_def)
  obtain a2 where a2: "refresh_availability M ?a i = Inr a2" "upd i ?a a2" "aslot a2 i = (None, Some (Inl d), 3)"
    using refresh_ok[of ?a i] u assms(2) t(3) free by (auto simp: upd_def slot_def)
  have "igrown a a2 [Page i off]" for off
    by (rule slot_grow[OF assms(1,2) upd_trans[OF u a2(2)]]) (use free a2(3) in \<open>auto split: PAllocItem.splits elim!: slot_live.elims\<close>)
  then show ?thesis using t(1) a2(1) upd_trans[OF u a2(2)] by blast
qed

lemma sub_allocate_call: "SUBTABLES M \<Longrightarrow> page_request (mt_sub M) 0 sz \<Longrightarrow> sfits sz strat \<Longrightarrow>
   sub_call (\<lambda>b st. pf_allocate (mt_sub M) b st sz strat) (\<lambda>al. alloc_size al = sz)"
  unfolding sub_call_def using page_frame_allocator.allocate_ok[OF sub] by blast

lemma sub_allocate_at_call: "SUBTABLES M \<Longrightarrow> page_request (mt_sub M) addr sz \<Longrightarrow>
   sub_call (\<lambda>b st. pf_allocate_at (mt_sub M) b st addr sz) (\<lambda>al. start_addr al = addr \<and> alloc_size al = sz)"
  unfolding sub_call_def using page_frame_allocator.allocate_at_ok[OF sub] by blast

lemma whole_sub: "SUBTABLES M \<Longrightarrow> page_request (mt_sub M) 0 PS"
  using page_size_pos by (simp add: page_request_def sub_span)

lemma whole_sub_start:
  assumes "wf_item PS (SubTable i off al)" and "alloc_size al = PS"
  shows "item_start PS (SubTable i off al) = i * PS"
  using assms wf_alloc_span(1)[of al] by simp

lemma alloc_one_ok:
  assumes "aok a" and "idx < 512" and "avail a idx = 0" and "boxes_ok b"
  shows "\<exists>a' x. alloc_one M b start idx a = Inr (a', x) \<and> upd idx a a' \<and> igrown a a' [x] \<and> item_start PS x = idx * PS
     \<and> item_offset x = (idx - start) * PS \<and> item_size PS x = PS"
proof (cases "HUGEPAGES M")
  case True
  then show ?thesis using reserve_slot[OF assms(1-3)] by (auto simp: alloc_one_def)
next
  case False
  then have st: "SUBTABLES M" using divisible by simp
  have f: "sub_call (\<lambda>b st. pf_allocate (mt_sub M) b st PS ALLOCATION_DEFAULT) (\<lambda>al. alloc_size al = PS)"
    using sub_allocate_call[OF st whole_sub[OF st]] page_frame_allocator.fits_default[OF sub[OF st] whole_sub[OF st]] by blast
  obtain a1 al a2 where r: "in_subtable M b idx (\<lambda>b st. pf_allocate (mt_sub M) b st PS ALLOCATION_DEFAULT) a = Inr (a1, Some al)"
    "alloc_size al = PS" "refresh_availability M a1 idx = Inr a2" "upd idx a a2" "igrown a a2 [SubTable idx ((idx - start) * PS) al]"
    using sub_slot[OF st assms(1,2) _ assms(4) f] assms(3) by fastforce
  have "wf_item PS (SubTable idx ((idx - start) * PS) al)" using r(5) by (simp add: igrown_def)
  from whole_sub_start[OF this r(2)] show ?thesis using False st r by (simp add: alloc_one_def)
qed

lemma upd_avail: "upd i a a' \<Longrightarrow> j \<noteq> i \<Longrightarrow> avail a' j = avail a j"
  by (simp add: upd_def slot_def)

lemma ok_bitmap: "aok a \<Longrightarrow> length (availability_bitmap a) = 128"
  by (simp add: mlff_ok_def mlff_shape_def)

lemma igrown_ok: "igrown a a' xs \<Longrightarrow> aok a'"
  by (simp add: igrown_def)

lemma alloc_contiguous_ok:
  assumes "aok a" and "idx + n \<le> 512" and "start \<le> idx" and "\<And>j. idx \<le> j \<Longrightarrow> j < idx + n \<Longrightarrow> avail a j = 0" and "boxes_ok b"
  shows "\<exists>a' xs. alloc_contiguous M b start idx n a acc = Inr (a', acc @ xs) \<and> igrown a a' xs
     \<and> adjacent PS (idx * PS) ((idx - start) * PS) xs \<and> sum_list (map (item_size PS) xs) = n * PS"
  using assms
proof (induction n arbitrary: idx a acc)
  case 0
  then show ?case by (auto simp: igrown_refl)
next
  case (Suc n)
  have av: "avail a idx = 0" "idx < 512" using Suc.prems by auto
  obtain a1 x where x: "alloc_one M b start idx a = Inr (a1, x)" "upd idx a a1" "igrown a a1 [x]" "item_start PS x = idx * PS"
    "item_offset x = (idx - start) * PS" "item_size PS x = PS"
    using alloc_one_ok[OF Suc.prems(1) av(2,1) Suc.prems(5)] by blast
  have "\<exists>a' xs. alloc_contiguous M b start (idx + 1) n a1 (acc @ [x]) = Inr (a', (acc @ [x]) @ xs) \<and> igrown a1 a' xs
     \<and> adjacent PS ((idx + 1) * PS) ((idx + 1 - start) * PS) xs \<and> sum_list (map (item_size PS) xs) = n * PS"
    by (rule Suc.IH[OF igrown_ok[OF x(3)]]) (use Suc.prems upd_avail[OF x(2)] in auto)
  then obtain a' xs where xs: "alloc_contiguous M b start (idx + 1) n a1 (acc @ [x]) = Inr (a', (acc @ [x]) @ xs)" "igrown a1 a' xs"
     "adjacent PS ((idx + 1) * PS) ((idx + 1 - start) * PS) xs" "sum_list (map (item_size PS) xs) = n * PS" by blast
  have "(idx + 1 - start) * PS = (idx - start) * PS + PS" using Suc.prems(3) by (simp add: Suc_diff_le)
  then have "adjacent PS (idx * PS) ((idx - start) * PS) (x # xs)" using x xs(3) by (simp add: ac_simps)
  moreover have "igrown a a' (x # xs)" using igrown_trans[OF x(3) xs(2)] by simp
  ultimately show ?case using xs x av get_availability_ok[OF ok_bitmap[OF Suc.prems(1)] av(2)]
    by (intro exI[of _ a'] exI[of _ "x # xs"]) simp
qed

lemma alloc_rem_ok:
  assumes "SUBTABLES M" and "aok a" and "boxes_ok b" and "page_request (mt_sub M) inner sz"
  shows "\<exists>a' r. alloc_rem M b i inner sz a = Inr (a', r) \<and> (\<forall>j. j \<noteq> i \<longrightarrow> avail a' j = avail a j) \<and> (r = None \<longrightarrow> igrown a a' []) \<and>
     (\<forall>al. r = Some al \<longrightarrow> i < 512 \<and> start_addr al = inner \<and> alloc_size al = sz \<and> (\<forall>off. igrown a a' [SubTable i off al])) \<and>
     (i < 512 \<and> avail a i = 0 \<longrightarrow> r \<noteq> None)"
proof (cases "i < 512 \<and> avail a i \<le> (if sz \<ge> PS div 2 then 1 else 2)")
  case True
  then have i: "i < 512" "avail a i \<noteq> 3" by (auto simp: word_le_nat_alt split: if_splits)
  obtain a1 r where r: "in_subtable M b i (\<lambda>b st. pf_allocate_at (mt_sub M) b st inner sz) a = Inr (a1, r)"
    "r = None \<longrightarrow> igrown a a1 [] \<and> upd i a a1 \<and> avail a i \<noteq> 0"
    "\<forall>al. r = Some al \<longrightarrow> (start_addr al = inner \<and> alloc_size al = sz) \<and>
      (\<exists>a2. refresh_availability M a1 i = Inr a2 \<and> upd i a a2 \<and> (\<forall>off. igrown a a2 [SubTable i off al]))"
    using sub_slot[OF assms(1,2) i assms(3) sub_allocate_at_call[OF assms(1,4)]] by blast
  show ?thesis using True assms(1) r i upd_avail[of i a] npages_eq get_availability_ok[OF ok_bitmap[OF assms(2)] i(1)]
    by (cases r) (auto simp: alloc_rem_def)
next
  case False
  then show ?thesis using assms(1) npages_eq get_availability_ok[OF ok_bitmap[OF assms(2)], of i] igrown_refl[OF assms(2)]
    by (auto simp: alloc_rem_def)
qed

lemma alloc_inside_ok:
  assumes "SUBTABLES M" and "aok a" and "boxes_ok b" and "page_request (mt_sub M) 0 sz" and "sfits sz (pas_next_level_down strat)"
  shows "\<exists>a' r. alloc_inside M b i sz strat a = Inr (a', r) \<and> (r = None \<longrightarrow> igrown a a' []) \<and>
     (\<forall>al. r = Some al \<longrightarrow> i < 512 \<and> alloc_size al = sz \<and> (\<forall>off. igrown a a' [SubTable i off al])) \<and>
     (i < 512 \<and> avail a i = 0 \<longrightarrow> r \<noteq> None)"
proof (cases "i < 512 \<and> avail a i < 3")
  case True
  then have i: "i < 512" "avail a i \<noteq> 3" by auto
  obtain a1 r where r: "in_subtable M b i (\<lambda>b st. pf_allocate (mt_sub M) b st sz (pas_next_level_down strat)) a = Inr (a1, r)"
    "r = None \<longrightarrow> igrown a a1 [] \<and> upd i a a1 \<and> avail a i \<noteq> 0"
    "\<forall>al. r = Some al \<longrightarrow> alloc_size al = sz \<and>
      (\<exists>a2. refresh_availability M a1 i = Inr a2 \<and> upd i a a2 \<and> (\<forall>off. igrown a a2 [SubTable i off al]))"
    using sub_slot[OF assms(1,2) i assms(3) sub_allocate_call[OF assms(1,4,5)]] by blast
  show ?thesis using True assms(1) r i npages_eq get_availability_ok[OF ok_bitmap[OF assms(2)] i(1)]
    by (cases r) (auto simp: alloc_inside_def)
next
  case False
  then show ?thesis using assms(1) npages_eq get_availability_ok[OF ok_bitmap[OF assms(2)], of i] igrown_refl[OF assms(2)]
    by (auto simp: alloc_inside_def)
qed

lemma range_clear_ok:
  "length (availability_bitmap a) = 128 \<Longrightarrow> i + n \<le> 512 \<Longrightarrow> range_clear a i n = Inr (\<forall>j. i \<le> j \<longrightarrow> j < i + n \<longrightarrow> avail a j = 0)"
proof (induction n arbitrary: i)
  case (Suc n)
  have "(\<forall>j. i \<le> j \<longrightarrow> j < i + Suc n \<longrightarrow> avail a j = 0) \<longleftrightarrow> avail a i = 0 \<and> (\<forall>j. i + 1 \<le> j \<longrightarrow> j < i + 1 + n \<longrightarrow> avail a j = 0)"
    by auto (metis le_antisym not_less_eq_eq)
  then show ?case using Suc.IH[of "i + 1"] Suc.prems get_availability_ok[of a i] by simp
qed simp

section \<open>Allocation at one level\<close>

lemma grown_None: "igrown a a' [] \<Longrightarrow> grown aok aocc alive a a' None"
  by (simp add: igrown_def grown_def mlff_live_def)

lemma grown_Some:
  assumes "igrown a a' xs" and "adjacent PS pos 0 xs" and "sum_list (map (item_size PS) xs) = sz" and "0 < sz"
  shows "grown aok aocc alive a a' (Some (PartialPageAllocation xs PS))" "start_addr (PartialPageAllocation xs PS) = pos"
    "alloc_size (PartialPageAllocation xs PS) = sz"
proof -
  have ne: "xs \<noteq> []" using assms(3,4) by auto
  then have hd: "item_start PS (hd xs) = pos" using assms(2) by (cases xs) auto
  have "wf_alloc (PartialPageAllocation xs PS)" using assms(1,2) ne hd page_size_pos by (auto simp: igrown_def)
  then show "grown aok aocc alive a a' (Some (PartialPageAllocation xs PS))"
    using assms(1) by (auto simp: grown_def igrown_def mlff_live_def)
  show "start_addr (PartialPageAllocation xs PS) = pos" using ne hd by (simp add: start_addr_eq)
  show "alloc_size (PartialPageAllocation xs PS) = sz" using assms(3) by simp
qed

lemma pages_part:
  assumes "4096 dvd sz"
  shows "whole_pages M sz * PS + part_page M sz = sz" "part_page M sz < PS" "4096 dvd part_page M sz"
proof -
  have "(sz + 4095) div 4096 = sz div 4096" using assms by (elim dvdE) simp
  moreover have "\<not> SUBTABLES M \<Longrightarrow> PS = 4096" by (simp add: mlff_PAGE_SIZE_def)
  ultimately show "whole_pages M sz * PS + part_page M sz = sz" using assms by (auto simp: whole_pages_def part_page_def)
  show "part_page M sz < PS" using page_size_pos by (simp add: part_page_def)
  show "4096 dvd part_page M sz" using assms page_size_pos by (simp add: part_page_def dvd_mod)
qed

lemma build_sorted:
  assumes "igrown a a' xs" and "adjacent PS pos off ys" and "mset xs = mset ys"
  shows "sort_key item_offset xs = ys"
proof -
  have "set ys = set xs" using assms(3) by (metis mset_eq_setD)
  then show ?thesis using sort_adjacent[OF assms(2) _ page_size_pos(1) assms(3)] assms(1) by (simp add: igrown_def)
qed

definition alloc_result :: "('t, 's) MLFFAllocator \<Rightarrow> (('t, 's) MLFFAllocator \<times> PartialPageAllocation option) exec
    \<Rightarrow> (PartialPageAllocation \<Rightarrow> bool) \<Rightarrow> bool \<Rightarrow> bool" where
  "alloc_result a m Q must \<longleftrightarrow> (\<exists>a' r. m = Inr (a', r) \<and> grown aok aocc alive a a' r \<and> (\<forall>al. r = Some al \<longrightarrow> Q al) \<and> (must \<longrightarrow> r \<noteq> None))"

lemma alloc_result_None: "m = Inr (a', None) \<Longrightarrow> igrown a a' [] \<Longrightarrow> \<not> must \<Longrightarrow> alloc_result a m Q must"
  by (auto simp: alloc_result_def grown_None)

lemma alloc_result_Some:
  assumes "m = Inr (a', Some (PartialPageAllocation xs PS))" and "igrown a a' xs" and "adjacent PS pos 0 xs"
    and "sum_list (map (item_size PS) xs) = sz" and "0 < sz" and "\<And>al. start_addr al = pos \<Longrightarrow> alloc_size al = sz \<Longrightarrow> Q al"
  shows "alloc_result a m Q must"
  using grown_Some[OF assms(2-5)] assms(1,6) by (auto simp: alloc_result_def)

definition clear_range :: "('t, 's) MLFFAllocator \<Rightarrow> nat \<Rightarrow> nat \<Rightarrow> bool" where
  "clear_range a i n \<longleftrightarrow> (\<forall>j. i \<le> j \<longrightarrow> j < i + n \<longrightarrow> avail a j = 0)"

lemma contiguous_then:
  assumes "aok a" and "i + n \<le> 512" and "clear_range a i n" and "boxes_ok b"
  obtains a' xs where "alloc_contiguous M b i i n a [] = Inr (a', xs)" "igrown a a' xs" "adjacent PS (i * PS) 0 xs"
    "sum_list (map (item_size PS) xs) = n * PS"
  using alloc_contiguous_ok[OF assms(1,2) le_refl _ assms(4), of "[]"] assms(3) unfolding clear_range_def by fastforce

lemma try_inside_ok:
  assumes "aok a" and "boxes_ok b" and "0 < sz" and "4096 dvd sz" and "SUBTABLES M" and "whole_pages M sz = 0"
    and "sfits sz (pas_next_level_down strat)" and "offset < 512"
  shows "alloc_result a (try_offset M b strategy strat (whole_pages M sz) (part_page M sz) offset a) (\<lambda>al. alloc_size al = sz) (avail a offset = 0)"
proof -
  have p: "part_page M sz = sz" "sz < PS" using pages_part[OF assms(4)] assms(6) by auto
  then have req: "page_request (mt_sub M) 0 sz" using assms(3-5) sub_span by (simp add: page_request_def)
  obtain a' r where r: "alloc_inside M b offset sz strat a = Inr (a', r)" "r = None \<longrightarrow> igrown a a' []"
     "\<forall>al. r = Some al \<longrightarrow> offset < 512 \<and> alloc_size al = sz \<and> (\<forall>off. igrown a a' [SubTable offset off al])"
     "offset < 512 \<and> avail a offset = 0 \<longrightarrow> r \<noteq> None"
    using alloc_inside_ok[OF assms(5,1,2) req assms(7)] by blast
  have av: "get_availability a offset = Inr (avail a offset)" using get_availability_ok[OF ok_bitmap[OF assms(1)] assms(8)] .
  show ?thesis
  proof (cases "spread_mode strategy \<and> avail a offset \<noteq> 0")
    case True
    then show ?thesis using assms(5,6) av igrown_refl[OF assms(1)] by (intro alloc_result_None[of _ a]) (auto simp: try_offset_def)
  next
    case False
    then have run: "try_offset M b strategy strat (whole_pages M sz) (part_page M sz) offset a =
        Inr (a', map_option (\<lambda>al. PartialPageAllocation [SubTable offset 0 al] PS) r)"
      using assms(5,6) av r(1) p(1) by (auto simp: try_offset_def)
    show ?thesis
    proof (cases r)
      case None
      then show ?thesis using run r assms(8) by (intro alloc_result_None) auto
    next
      case (Some al)
      then have "alloc_size al = sz" "igrown a a' [SubTable offset 0 al]" using r(3) by auto
      then show ?thesis using run Some assms(3)
        by (intro alloc_result_Some[where xs = "[SubTable offset 0 al]"]) auto
    qed
  qed
qed

lemma try_pages_ok:
  assumes "aok a" and "boxes_ok b" and "0 < sz" and "4096 dvd sz" and "\<not> (SUBTABLES M \<and> whole_pages M sz = 0)"
    and "offset + search_npages M sz \<le> 512"
  shows "alloc_result a (try_offset M b strategy strat (whole_pages M sz) (part_page M sz) offset a) (\<lambda>al. alloc_size al = sz)
     (clear_range a offset (search_npages M sz))"
proof -
  let ?n = "whole_pages M sz" and ?r = "part_page M sz" and ?m = "try_offset M b strategy strat (whole_pages M sz) (part_page M sz) offset a"
  note pp = pages_part[OF assms(4)]
  have np: "offset + ?n \<le> 512" using assms(6) by (simp add: search_npages_def)
  have rc: "range_clear a offset ?n = Inr (clear_range a offset ?n)"
    using range_clear_ok[OF ok_bitmap[OF assms(1)] np] by (simp add: clear_range_def)
  have le: "clear_range a offset (search_npages M sz) \<Longrightarrow> clear_range a offset ?n" by (auto simp: clear_range_def search_npages_def)
  consider (busy) "\<not> clear_range a offset ?n" | (part) "clear_range a offset ?n" "?r \<noteq> 0" | (whole) "clear_range a offset ?n" "?r = 0" by blast
  then show ?thesis
  proof cases
    case busy
    then show ?thesis using assms(5) rc le igrown_refl[OF assms(1)] by (intro alloc_result_None[of _ a]) (auto simp: try_offset_def)
  next
    case whole
    obtain a' xs where xs: "alloc_contiguous M b offset offset ?n a [] = Inr (a', xs)" "igrown a a' xs" "adjacent PS (offset * PS) 0 xs"
      "sum_list (map (item_size PS) xs) = ?n * PS" using contiguous_then[OF assms(1) np whole(1) assms(2)] by blast
    have "?m = Inr (a', Some (PartialPageAllocation xs PS))"
      using assms(5) rc whole xs(1) build_sorted[OF xs(2,3)] by (auto simp: try_offset_def build_allocation_def)
    then show ?thesis using alloc_result_Some[OF _ xs(2,3)] xs(4) pp(1) whole(2) assms(3) by simp
  next
    case part
    then have st: "SUBTABLES M" by (simp add: part_page_def split: if_splits)
    have req: "page_request (mt_sub M) 0 ?r" using part pp st sub_span by (simp add: page_request_def)
    have lt: "offset + ?n < 512" using assms(6) part by (simp add: search_npages_def)
    obtain a1 r where r: "alloc_rem M b (offset + ?n) 0 ?r a = Inr (a1, r)" "\<forall>j. j \<noteq> offset + ?n \<longrightarrow> avail a1 j = avail a j"
      "r = None \<longrightarrow> igrown a a1 []"
      "\<forall>al. r = Some al \<longrightarrow> offset + ?n < 512 \<and> start_addr al = 0 \<and> alloc_size al = ?r \<and> (\<forall>off. igrown a a1 [SubTable (offset + ?n) off al])"
      "offset + ?n < 512 \<and> avail a (offset + ?n) = 0 \<longrightarrow> r \<noteq> None"
      using alloc_rem_ok[OF st assms(1,2) req] by blast
    show ?thesis
    proof (cases r)
      case None
      then have "\<not> clear_range a offset (search_npages M sz)" using r(5) lt part(2)
        by (auto simp: clear_range_def search_npages_def intro!: exI[of _ "offset + ?n"])
      then show ?thesis using None st assms(5) rc part r(1,3) by (intro alloc_result_None[of _ a1]) (auto simp: try_offset_def)
    next
      case (Some al)
      let ?x = "SubTable (offset + ?n) (?n * PS) al"
      have g: "start_addr al = 0" "alloc_size al = ?r" "igrown a a1 [?x]" using r(4) Some by auto
      have "clear_range a1 offset ?n" using part(1) r(2) by (auto simp: clear_range_def)
      then obtain a' xs where xs: "alloc_contiguous M b offset offset ?n a1 [] = Inr (a', xs)" "igrown a1 a' xs" "adjacent PS (offset * PS) 0 xs"
        "sum_list (map (item_size PS) xs) = ?n * PS" using contiguous_then[OF igrown_ok[OF g(3)] np _ assms(2)] by blast
      have ig: "igrown a a' (xs @ [?x])" using igrown_mono[OF igrown_trans[OF g(3) xs(2)]] igrown_trans[OF g(3) xs(2)]
        by (simp add: igrown_def Un_commute)
      have adj: "adjacent PS (offset * PS) 0 (xs @ [?x])" using xs(3,4) g(1) by (simp add: adjacent_append algebra_simps)
      have "?m = Inr (a', Some (PartialPageAllocation (xs @ [?x]) PS))"
        using assms(5) rc part st r(1) Some xs(1) build_sorted[OF ig adj] by (simp add: try_offset_def build_allocation_def)
      then show ?thesis using alloc_result_Some[OF _ ig adj] xs(4) g(2) pp(1) assms(3) by simp
    qed
  qed
qed

lemma alloc_result_mono: "alloc_result a m Q must \<Longrightarrow> (must' \<Longrightarrow> must) \<Longrightarrow> alloc_result a m Q must'"
  unfolding alloc_result_def by blast

lemma try_offset_ok:
  assumes "aok a" and "boxes_ok b" and "0 < sz" and "4096 dvd sz" and "SUBTABLES M \<and> whole_pages M sz = 0 \<longrightarrow> sfits sz (pas_next_level_down strat)"
    and "offset + search_npages M sz \<le> 512"
  shows "alloc_result a (try_offset M b strategy strat (whole_pages M sz) (part_page M sz) offset a) (\<lambda>al. alloc_size al = sz)
     (\<forall>i<512. avail a i = 0)"
proof (cases "SUBTABLES M \<and> whole_pages M sz = 0")
  case True
  then have "0 < part_page M sz" using pages_part(1)[OF assms(4)] assms(3) by simp
  then have "offset < 512" using assms(6) by (simp add: search_npages_def)
  then show ?thesis using True assms(5) by (intro alloc_result_mono[OF try_inside_ok[OF assms(1-4)]]) auto
next
  case False
  have "clear_range a offset (search_npages M sz)" if "\<forall>i<512. avail a i = 0" using that assms(6) by (auto simp: clear_range_def)
  then show ?thesis by (rule alloc_result_mono[OF try_pages_ok[OF assms(1-4) False assms(6)]])
qed

lemma search_ok:
  assumes "aok a" and "boxes_ok b" and "0 < sz" and "4096 dvd sz" and "SUBTABLES M \<and> whole_pages M sz = 0 \<longrightarrow> sfits sz (pas_next_level_down strat)"
    and "\<And>offset. offset \<in> set offsets \<Longrightarrow> offset + search_npages M sz \<le> 512"
  shows "alloc_result a (search_offsets M b strategy strat (whole_pages M sz) (part_page M sz) offsets a) (\<lambda>al. alloc_size al = sz)
     (offsets \<noteq> [] \<and> (\<forall>i<512. avail a i = 0))"
  using assms(1,6)
proof (induction offsets arbitrary: a)
  case Nil
  then show ?case by (intro alloc_result_None[of _ a]) (auto simp: igrown_refl)
next
  case (Cons offset offsets)
  have "alloc_result a (try_offset M b strategy strat (whole_pages M sz) (part_page M sz) offset a) (\<lambda>al. alloc_size al = sz) (\<forall>i<512. avail a i = 0)"
    using try_offset_ok[OF Cons.prems(1) assms(2-5)] Cons.prems(2) by simp
  then obtain a1 r where r: "try_offset M b strategy strat (whole_pages M sz) (part_page M sz) offset a = Inr (a1, r)"
    "grown aok aocc alive a a1 r" "\<forall>al. r = Some al \<longrightarrow> alloc_size al = sz" "(\<forall>i<512. avail a i = 0) \<longrightarrow> r \<noteq> None"
    unfolding alloc_result_def by blast
  show ?case
  proof (cases r)
    case None
    have "aok a1" using r(2) by (simp add: grown_def)
    then obtain a2 r2 where "search_offsets M b strategy strat (whole_pages M sz) (part_page M sz) offsets a1 = Inr (a2, r2)"
      "grown aok aocc alive a1 a2 r2" "\<forall>al. r2 = Some al \<longrightarrow> alloc_size al = sz"
      using Cons.IH[of a1] Cons.prems(2) unfolding alloc_result_def by auto
    moreover have "grown aok aocc alive a a2 r2" using r(2) None calculation(2) by (auto simp: grown_def split: option.splits)
    moreover have "\<not> (\<forall>i<512. avail a i = 0)" using r(4) None by blast
    ultimately show ?thesis using r(1) None unfolding alloc_result_def
      by (intro exI[of _ a2] exI[of _ r2]) auto
  next
    case (Some al)
    then show ?thesis using r unfolding alloc_result_def by (intro exI[of _ a1] exI[of _ r]) simp
  qed
qed

lemma search_end_ok:
  assumes "first + n \<le> 512" and "\<And>x. max_page strategy = Some x \<Longrightarrow> x + 1 < usize_limit \<and> first + n \<le> x + 1"
  shows "\<exists>e. search_end M strategy n = Inr e \<and> first < e \<and> (\<forall>i<e. i + n \<le> 512)"
proof (cases "max_page strategy")
  case None
  then show ?thesis using assms(1) npages_eq by (intro exI[of _ "512 - n + 1"]) (auto simp: search_end_def usub_def Let_def)
next
  case (Some x)
  have "x + 1 < usize_limit" "first + n \<le> x + 1" using assms(2)[OF Some] by auto
  then show ?thesis using assms(1) Some npages_eq
    by (intro exI[of _ "min (512 - n + 1) (x + 1 - n + 1)"]) (auto simp: search_end_def usub_def uadd_def Let_def)
qed

lemma allocate_correct:
  assumes "aok a" and "boxes_ok b" and "0 < sz" and "4096 dvd sz" and "mlff_fits M sfits sz strat"
  shows "alloc_result a (mlff_allocate M b a sz strat) (\<lambda>al. alloc_size al = sz) (\<forall>i<512. avail a i = 0)"
proof -
  let ?s = "hd strat" let ?f = "case min_page ?s of None \<Rightarrow> 0 | Some x \<Rightarrow> x" let ?n = "search_npages M sz"
  have fits: "strat \<noteq> []" "?f + ?n \<le> 512" "\<And>x. max_page ?s = Some x \<Longrightarrow> x + 1 < usize_limit \<and> ?f + ?n \<le> x + 1"
    "SUBTABLES M \<and> whole_pages M sz = 0 \<longrightarrow> sfits sz (pas_next_level_down strat)"
    using assms(5) npages_eq by (auto simp: mlff_fits_def Let_def)
  obtain e where e: "search_end M ?s ?n = Inr e" "?f < e" "\<forall>i<e. i + ?n \<le> 512" using search_end_ok[OF fits(2,3)] by blast
  let ?it = "concat (replicate (if spread_mode ?s then 2 else 1) (if reverse_order ?s then rev [?f..<e] else [?f..<e]))"
  have "pas_current strat = Inr ?s" using fits(1) by (simp add: pas_current_def vec_get_def hd_conv_nth)
  then have run: "mlff_allocate M b a sz strat = search_offsets M b ?s strat (whole_pages M sz) (part_page M sz) ?it a"
    using e(1) by (simp add: mlff_allocate_def search_npages_def Let_def)
  have "?it \<noteq> []" using e(2) by (auto simp: numeral_2_eq_2)
  moreover have "\<And>i. i \<in> set ?it \<Longrightarrow> i + ?n \<le> 512" using e(3) by (auto split: if_splits)
  ultimately show ?thesis using search_ok[OF assms(1-4) fits(4), of ?it ?s] unfolding run by simp
qed

section \<open>Deallocation at one level\<close>

lemma live_item:
  assumes "aok a" and "it_live a x"
  shows "wf_item PS x \<and> item_covers PS x \<subseteq> aocc a"
proof -
  have i: "index x < 512" "slot_live slive (aslot a (index x)) x" "sl_ok (aslot a (index x))"
    using assms by (auto simp: item_live_def mlff_ok_def)
  have "wf_item PS x \<and> item_covers PS x \<subseteq> sl_occ (index x) (aslot a (index x))"
  proof (cases x)
    case (Page i off)
    then show ?thesis using i(2) by (cases "aslot a i") auto
  next
    case (SubTable i off al)
    then obtain st e v where s: "aslot a i = (Some st, e, v)" "slive st al" "sok st" "SUBTABLES M"
      using i(2,3) by (cases "aslot a i") auto
    have "covers al \<subseteq> socc st" using page_frame_allocator.live_ok[OF sub[OF s(4)] s(3,2)] by blast
    then show ?thesis using sub_alloc_span[OF s(4,3,2), of i off] SubTable s(1) by auto
  qed
  then show ?thesis using occ_slot[OF assms(1) i(1)] by blast
qed

definition ishrunk :: "('t, 's) MLFFAllocator \<Rightarrow> ('t, 's) MLFFAllocator \<Rightarrow> nat set \<Rightarrow> bool" where
  "ishrunk a a' X \<longleftrightarrow> aok a' \<and> aocc a' = aocc a - X \<and> (\<forall>y. it_live a y \<longrightarrow> item_covers PS y \<inter> X = {} \<longrightarrow> it_live a' y)"

lemma ishrunk_trans: "ishrunk a a1 X \<Longrightarrow> ishrunk a1 a2 Y \<Longrightarrow> ishrunk a a2 (X \<union> Y)"
  unfolding ishrunk_def by (simp add: Int_Un_distrib Diff_Diff_Int set_diff_eq Un_def) blast

lemma slot_shrink:
  assumes "aok a" and "i < 512" and "upd i a a'" and "sl_ok (aslot a' i)" and "sl_occ i (aslot a' i) = sl_occ i (aslot a i) - X"
    and "X \<subseteq> {i * PS..<(i + 1) * PS}"
    and "\<And>y. index y = i \<Longrightarrow> slot_live slive (aslot a i) y \<Longrightarrow> item_covers PS y \<inter> X = {} \<Longrightarrow> slot_live slive (aslot a' i) y"
  shows "ishrunk a a' X"
proof -
  have "sl_occ i (aslot a i) = aocc a \<inter> {i * PS..<(i + 1) * PS}" using occ_slot[OF assms(1,2)] by simp
  then have "aocc a' = aocc a - X" using upd_occ[OF assms(1,3,2,4)] assms(5,6) by blast
  moreover have "it_live a' y" if "it_live a y" "item_covers PS y \<inter> X = {}" for y
    by (rule it_live_upd[OF assms(3) that(1)]) (use assms(7) that(2) in blast)
  ultimately show ?thesis using upd_ok[OF assms(1,3,4)] by (simp add: ishrunk_def)
qed

text \<open>The call that frees part of a sub-table, before the slot is tidied up.\<close>

lemma sub_dealloc:
  assumes "aok a" and "it_live a (SubTable i off al)"
  shows "\<exists>st st' e v. SUBTABLES M \<and> i < 512 \<and> get_suballocator_mut M a i = Inr (Some st) \<and> aslot a i = (Some st, Some (Inr e), v) \<and> v \<noteq> 0 \<and>
     pf_deallocate (mt_sub M) st al = Inr st' \<and> sok st \<and> sok st' \<and> slive st al \<and> socc st' = socc st - covers al \<and>
     (\<forall>al'. slive st al' \<longrightarrow> covers al' \<inter> covers al = {} \<longrightarrow> slive st' al')"
proof -
  have i: "i < 512" "slot_live slive (aslot a i) (SubTable i off al)" "sl_ok (aslot a i)" "length (suballocators a) = 512"
    using assms by (auto simp: item_live_def mlff_ok_def mlff_shape_def)
  obtain st e v where s: "aslot a i = (Some st, Some (Inr e), v)" "slive st al" "sok st" "SUBTABLES M" "v \<noteq> 0"
    using i(2,3) by (cases "aslot a i") auto
  have "get_suballocator_mut M a i = Inr (Some st)" using s i by (simp add: get_suballocator_mut_def vec_get_ok slot_def)
  then show ?thesis using page_frame_allocator.deallocate_ok[OF sub[OF s(4)] s(3,2)] s i by blast
qed

lemma sub_frame:
  assumes "SUBTABLES M" and "sok st" and "slive st al'" and "slive st al"
    and "item_covers PS (SubTable i off' al') \<inter> item_covers PS (SubTable i off al) = {}"
  shows "covers al' \<inter> covers al = {}"
  using assms(5) unfolding sub_alloc_span(2)[OF assms(1,2,3)] sub_alloc_span(2)[OF assms(1,2,4)] by auto

lemma undo_remainder_ok:
  assumes "aok a" and "it_live a (SubTable i off al)"
  shows "\<exists>a'. undo_remainder M i (Some al) a = Inr a' \<and> ishrunk a a' (item_covers PS (SubTable i off al))"
proof -
  obtain st st' e v where s: "SUBTABLES M" "i < 512" "get_suballocator_mut M a i = Inr (Some st)" "aslot a i = (Some st, Some (Inr e), v)" "v \<noteq> 0"
    "pf_deallocate (mt_sub M) st al = Inr st'" "sok st" "sok st'" "slive st al" "socc st' = socc st - covers al"
    "\<forall>al'. slive st al' \<longrightarrow> covers al' \<inter> covers al = {} \<longrightarrow> slive st' al'" using sub_dealloc[OF assms] by blast
  obtain a' where a': "put_sub i st' a = Inr a'" "upd i a a'" "aslot a' i = (Some st', Some (Inr e), v)"
    using put_sub_ok[of a i st'] assms(1) s(2,4) by (auto simp: mlff_ok_def slot_def)
  let ?X = "item_covers PS (SubTable i off al)"
  have X: "?X = (\<lambda>x. x + i * PS) ` covers al" "?X \<subseteq> {i * PS..<(i + 1) * PS}"
    using sub_alloc_span[OF s(1,7,9), of i off] item_range[of "SubTable i off al"] by auto
  have "ishrunk a a' ?X"
  proof (rule slot_shrink[OF assms(1) s(2) a'(2) _ _ X(2)])
    show "sl_ok (aslot a' i)" using a'(3) s(1,5,8) by simp
    show "sl_occ i (aslot a' i) = sl_occ i (aslot a i) - ?X" using a'(3) s(4,10) X(1) by (simp add: image_set_diff inj_def)
    show "slot_live slive (aslot a' i) y" if "index y = i" "slot_live slive (aslot a i) y" "item_covers PS y \<inter> ?X = {}" for y
      using that a'(3) s(4,11) sub_frame[OF s(1,7) _ s(9), of _ i _ off] by (cases y) auto
  qed
  then show ?thesis using s(3,6) a'(1) by (simp add: undo_remainder_def)
qed

lemma empty_slot:
  assumes "shape a" and "i < 512"
  shows "\<exists>t a'. pt_set_empty (mt_table M) (mlff_table a) i = Inr t \<and>
     refresh_availability M (a\<lparr>mlff_table := t, suballocators := (suballocators a)[i := None]\<rparr>) i = Inr a' \<and> upd i a a' \<and> aslot a' i = (None, None, 0)"
proof -
  have sh: "tok (mlff_table a)" "length (suballocators a) = 512" using assms(1) by (auto simp: mlff_shape_def)
  obtain t where t: "pt_set_empty (mt_table M) (mlff_table a) i = Inr t" "tok t" "entry t = (entry (mlff_table a))(i := None)"
    using table.set_empty_ok[OF sh(1) assms(2)] by blast
  let ?a = "a\<lparr>mlff_table := t, suballocators := (suballocators a)[i := None]\<rparr>"
  have u: "upd i a ?a" using assms t sh by (simp add: upd_def mlff_shape_def slot_def)
  obtain a' where "refresh_availability M ?a i = Inr a'" "upd i ?a a'" "aslot a' i = (None, None, 0)"
    using refresh_ok[of ?a i] u assms(2) t(3) sh(2) by (auto simp: upd_def)
  then show ?thesis using t(1) upd_trans[OF u] by blast
qed

text \<open>What freeing one item leaves in its slot.\<close>

lemma dealloc_page_run:
  assumes "aok a" and "it_live a (Page i off)"
  shows "\<exists>a'. mlff_deallocate_items M [Page i off] a = Inr a' \<and> i < 512 \<and> upd i a a' \<and> aslot a' i = (None, None, 0) \<and> (\<exists>e v. aslot a i = (None, Some e, v))"
proof -
  have i: "i < 512" "slot_live slive (aslot a i) (Page i off)" "shape a" using assms by (auto simp: item_live_def mlff_ok_def)
  then obtain e v where s: "aslot a i = (None, Some e, v)" by (cases "aslot a i") auto
  then have n: "suballocators a ! i = None" "length (suballocators a) = 512" using i(3) by (auto simp: slot_def mlff_shape_def)
  have "(suballocators a)[i := None] = suballocators a" using n by (metis list_update_id)
  then obtain t a' where t: "pt_set_empty (mt_table M) (mlff_table a) i = Inr t"
     "refresh_availability M (a\<lparr>mlff_table := t\<rparr>) i = Inr a'" "upd i a a'" "aslot a' i = (None, None, 0)"
    using empty_slot[OF i(3,1)] by fastforce
  then show ?thesis using i s by simp
qed

lemma dealloc_page_ok:
  assumes "aok a" and "it_live a (Page i off)"
  shows "\<exists>a'. mlff_deallocate_items M [Page i off] a = Inr a' \<and> ishrunk a a' (item_covers PS (Page i off))"
proof -
  obtain a' e v where t: "mlff_deallocate_items M [Page i off] a = Inr a'" "i < 512" "upd i a a'" "aslot a' i = (None, None, 0)" and s: "aslot a i = (None, Some e, v)"
    using dealloc_page_run[OF assms] by blast
  have "ishrunk a a' (item_covers PS (Page i off))"
  proof (rule slot_shrink[OF assms(1) t(2,3)])
    show "slot_live slive (aslot a' i) y" if "index y = i" "slot_live slive (aslot a i) y" "item_covers PS y \<inter> item_covers PS (Page i off) = {}" for y
      using that s page_size_pos(1) by (cases y) auto
  qed (use s t(4) in auto)
  then show ?thesis using t(1) by simp
qed

lemma dealloc_sub_run:
  assumes "aok a" and "it_live a (SubTable i off al)"
  shows "\<exists>a' st st' e v. mlff_deallocate_items M [SubTable i off al] a = Inr a' \<and> SUBTABLES M \<and> i < 512 \<and> upd i a a' \<and> aslot a i = (Some st, Some (Inr e), v)
    \<and> pf_deallocate (mt_sub M) st al = Inr st' \<and> sok st \<and> sok st' \<and> slive st al \<and> socc st' = socc st - covers al
    \<and> (\<forall>al'. slive st al' \<longrightarrow> covers al' \<inter> covers al = {} \<longrightarrow> slive st' al')
    \<and> (aslot a' i = (None, None, 0) \<and> socc st' = {} \<or> (\<exists>v. aslot a' i = (Some st', Some (Inr e), v) \<and> v \<noteq> 0))"
proof -
  obtain st st' e v where s: "SUBTABLES M" "i < 512" "get_suballocator_mut M a i = Inr (Some st)" "aslot a i = (Some st, Some (Inr e), v)" "v \<noteq> 0"
    "pf_deallocate (mt_sub M) st al = Inr st'" "sok st" "sok st'" "slive st al" "socc st' = socc st - covers al"
    "\<forall>al'. slive st al' \<longrightarrow> covers al' \<inter> covers al = {} \<longrightarrow> slive st' al'" using sub_dealloc[OF assms] by blast
  have sh: "shape a" "length (suballocators a) = 512" using assms(1) by (auto simp: mlff_ok_def mlff_shape_def)
  obtain n where n: "pf_num_used (mt_sub M) st' = Inr n" "n = 0 \<longrightarrow> socc st' = {}"
    using page_frame_allocator.num_used_ok[OF sub[OF s(1)] s(8)] by blast
  have "\<exists>a'. mlff_deallocate_items M [SubTable i off al] a = Inr a' \<and> upd i a a' \<and>
    (aslot a' i = (None, None, 0) \<and> socc st' = {} \<or> (\<exists>v. aslot a' i = (Some st', Some (Inr e), v) \<and> v \<noteq> 0))"
  proof (cases "n = 0")
    case True
    then show ?thesis using empty_slot[OF sh(1) s(2)] s(2,3,6) n sh(2) by (auto simp: vec_set_ok)
  next
    case False
    obtain a1 where a1: "put_sub i st' a = Inr a1" "upd i a a1" "aslot a1 i = (Some st', Some (Inr e), v)" "suballocators a1 ! i = Some st'"
      using put_sub_ok[OF sh(1) s(2), of st'] s(4) by (auto simp: slot_def)
    obtain a2 v' where "refresh_availability M a1 i = Inr a2" "upd i a1 a2" "aslot a2 i = (Some st', Some (Inr e), v')" "v' \<noteq> 0"
      using refresh_ok[of a1 i] a1 s(1,2,8) by (auto simp: upd_def slot_def)
    then show ?thesis using a1 s(3,6) n(1) False upd_trans[OF a1(2)] by auto
  qed
  then show ?thesis using s by blast
qed

lemma dealloc_sub_ok:
  assumes "aok a" and "it_live a (SubTable i off al)"
  shows "\<exists>a'. mlff_deallocate_items M [SubTable i off al] a = Inr a' \<and> ishrunk a a' (item_covers PS (SubTable i off al))"
proof -
  obtain a' st st' e v where s: "mlff_deallocate_items M [SubTable i off al] a = Inr a'" "SUBTABLES M" "i < 512" "upd i a a'" "aslot a i = (Some st, Some (Inr e), v)"
    "sok st" "sok st'" "slive st al" "socc st' = socc st - covers al" "\<forall>al'. slive st al' \<longrightarrow> covers al' \<inter> covers al = {} \<longrightarrow> slive st' al'"
    and new: "aslot a' i = (None, None, 0) \<and> socc st' = {} \<or> (\<exists>v. aslot a' i = (Some st', Some (Inr e), v) \<and> v \<noteq> 0)"
    using dealloc_sub_run[OF assms] by blast
  let ?X = "item_covers PS (SubTable i off al)"
  have X: "?X = (\<lambda>x. x + i * PS) ` covers al" "?X \<subseteq> {i * PS..<(i + 1) * PS}"
    using sub_alloc_span[OF s(2,6,8), of i off] item_range[of "SubTable i off al"] by auto
  have frame: "\<exists>al'. y = SubTable i (item_offset y) al' \<and> slive st' al'"
    if "index y = i" "slot_live slive (aslot a i) y" "item_covers PS y \<inter> ?X = {}" for y
    using that s(5,10) sub_frame[OF s(2,6) _ s(8), of _ i _ off] by (cases y) auto
  have "ishrunk a a' ?X"
  proof (rule slot_shrink[OF assms(1) s(3,4) _ _ X(2)])
    show "sl_ok (aslot a' i)" using new s(2,7) by auto
    show "sl_occ i (aslot a' i) = sl_occ i (aslot a i) - ?X"
      using new s(5,9) X(1) by (auto simp: image_set_diff[symmetric] inj_def)
    show "slot_live slive (aslot a' i) y" if y: "index y = i" "slot_live slive (aslot a i) y" "item_covers PS y \<inter> ?X = {}" for y
    proof -
      obtain al' where al': "y = SubTable i (item_offset y) al'" "slive st' al'" using frame[OF y] by blast
      have "wf_alloc al'" "covers al' \<subseteq> socc st'" using page_frame_allocator.live_ok[OF sub[OF s(2)] s(7) al'(2)] by auto
      then have "socc st' \<noteq> {}" using wf_alloc_span(1)[of al'] by auto
      then show ?thesis using new al' by (metis slot_live.simps(2))
    qed
  qed
  then show ?thesis using s(1) by blast
qed

lemma dealloc_item_ok:
  assumes "aok a" and "it_live a x"
  shows "\<exists>a'. mlff_deallocate_items M [x] a = Inr a' \<and> ishrunk a a' (item_covers PS x)"
  using assms(2) dealloc_page_ok[OF assms(1)] dealloc_sub_ok[OF assms(1)] by (cases x) (simp_all only:)

lemma dealloc_cons:
  "mlff_deallocate_items M (x # xs) a = exec_bind (mlff_deallocate_items M [x] a) (mlff_deallocate_items M xs)"
  by (cases x) (simp_all add: exec_bind_assoc)

lemma dealloc_items_ok:
  assumes "aok a" and "\<And>x. x \<in> set xs \<Longrightarrow> it_live a x" and "adjacent PS pos off xs"
  shows "\<exists>a'. mlff_deallocate_items M xs a = Inr a' \<and> ishrunk a a' (\<Union>x\<in>set xs. item_covers PS x)"
  using assms
proof (induction xs arbitrary: a pos off)
  case Nil
  then show ?case by (simp add: ishrunk_def)
next
  case (Cons x xs)
  obtain a1 where a1: "mlff_deallocate_items M [x] a = Inr a1" "ishrunk a a1 (item_covers PS x)"
    using dealloc_item_ok[OF Cons.prems(1)] Cons.prems(2)[of x] by auto
  have wf: "wf_item PS y" if "y \<in> set (x # xs)" for y using live_item[OF Cons.prems(1)] Cons.prems(2) that by blast
  have sp: "item_covers PS y = {item_start PS y..<item_start PS y + item_size PS y}" if "y \<in> set (x # xs)" for y
    using wf_alloc_span(2)[OF wf[OF that]] page_size_pos by blast
  have adj: "adjacent PS (pos + item_size PS x) (off + item_size PS x) xs" "item_start PS x = pos" using Cons.prems(3) by auto
  have "(\<Union>y\<in>set xs. item_covers PS y) = {pos + item_size PS x..<pos + item_size PS x + sum_list (map (item_size PS) xs)}"
    using adjacent_covers[OF adj(1)] sp by auto
  then have le: "item_covers PS y \<subseteq> {pos + item_size PS x..}" if "y \<in> set xs" for y using that by auto
  have dis: "item_covers PS y \<inter> item_covers PS x = {}" if "y \<in> set xs" for y
    using le[OF that] sp[of x] adj(2) by auto
  have "it_live a1 y" if "y \<in> set xs" for y using a1(2) Cons.prems(2)[of y] dis[OF that] that by (simp add: ishrunk_def)
  moreover have "aok a1" using a1(2) by (simp add: ishrunk_def)
  ultimately obtain a2 where a2: "mlff_deallocate_items M xs a1 = Inr a2" "ishrunk a1 a2 (\<Union>y\<in>set xs. item_covers PS y)"
    using Cons.IH[of a1] adj(1) by blast
  have "ishrunk a a2 (\<Union>y\<in>set (x # xs). item_covers PS y)" using ishrunk_trans[OF a1(2) a2(2)] by simp
  then show ?case using a1(1) a2(1) by (subst dealloc_cons) simp
qed

lemma deallocate_correct:
  assumes "aok a" and "alive a al"
  shows "\<exists>a'. mlff_deallocate M a al = Inr a' \<and> aok a' \<and> aocc a' = aocc a - covers al \<and>
     (\<forall>al'. alive a al' \<longrightarrow> covers al' \<inter> covers al = {} \<longrightarrow> alive a' al')"
proof -
  obtain xs where al: "al = PartialPageAllocation xs PS" using assms(2) by (cases al) (auto simp: mlff_live_def)
  then have xs: "\<And>x. x \<in> set xs \<Longrightarrow> it_live a x" "adjacent PS (item_start PS (hd xs)) 0 xs" using assms(2) by (auto simp: mlff_live_def)
  obtain a' where a': "mlff_deallocate_items M xs a = Inr a'" "ishrunk a a' (covers al)"
    using dealloc_items_ok[OF assms(1) xs] al by auto
  have "alive a' al'" if lv: "alive a al'" and dis: "covers al' \<inter> covers al = {}" for al'
  proof -
    obtain ys where ys: "al' = PartialPageAllocation ys PS" using lv by (cases al') (auto simp: mlff_live_def)
    have "it_live a' y" if "y \<in> set ys" for y
    proof -
      have "it_live a y" "item_covers PS y \<inter> covers al = {}" using that ys lv dis by (auto simp: mlff_live_def)
      then show ?thesis using a'(2) by (simp add: ishrunk_def)
    qed
    then show ?thesis using lv ys by (simp add: mlff_live_def)
  qed
  then show ?thesis using a' al by (simp add: mlff_deallocate_def ishrunk_def)
qed

section \<open>Allocation at a given address\<close>

definition rem_items :: "nat \<Rightarrow> nat \<Rightarrow> PartialPageAllocation option \<Rightarrow> PAllocItem list" where
  "rem_items i off r = (case r of None \<Rightarrow> [] | Some al \<Rightarrow> [SubTable i off al])"

text \<open>The outcomes of \<open>alloc_rem_if\<close>.\<close>

definition rem_outcome :: "bool \<Rightarrow> nat \<Rightarrow> nat \<Rightarrow> nat \<Rightarrow> ('t, 's) MLFFAllocator \<Rightarrow> ('t, 's) MLFFAllocator \<Rightarrow> PartialPageAllocation option option \<Rightarrow> bool" where
  "rem_outcome wanted i inner sz a a' r \<longleftrightarrow> (\<forall>j. (wanted \<longrightarrow> j \<noteq> i) \<longrightarrow> avail a' j = avail a j) \<and>
     (case r of None \<Rightarrow> igrown a a' [] \<and> wanted \<and> \<not> (i < 512 \<and> avail a i = 0)
      | Some ro \<Rightarrow> (ro \<noteq> None \<longleftrightarrow> wanted \<and> SUBTABLES M) \<and> (\<forall>off. igrown a a' (rem_items i off ro)) \<and>
          (\<forall>al. ro = Some al \<longrightarrow> start_addr al = inner \<and> alloc_size al = sz))"

lemma rem_outcome_ex:
  assumes "aok a" and "boxes_ok b" and "wanted \<and> SUBTABLES M \<longrightarrow> page_request (mt_sub M) inner sz"
  shows "\<exists>a' r. alloc_rem_if M b wanted i inner sz a = Inr (a', r) \<and> rem_outcome wanted i inner sz a a' r"
proof (cases "wanted \<and> SUBTABLES M")
  case True
  then obtain a' r where "alloc_rem M b i inner sz a = Inr (a', r)" "\<forall>j. j \<noteq> i \<longrightarrow> avail a' j = avail a j" "r = None \<longrightarrow> igrown a a' []"
     "\<forall>al. r = Some al \<longrightarrow> i < 512 \<and> start_addr al = inner \<and> alloc_size al = sz \<and> (\<forall>off. igrown a a' [SubTable i off al])"
     "i < 512 \<and> avail a i = 0 \<longrightarrow> r \<noteq> None" using alloc_rem_ok[OF _ assms(1,2)] assms(3) by blast
  then show ?thesis using True by (cases r) (auto simp: alloc_rem_if_def rem_items_def rem_outcome_def)
next
  case False
  then show ?thesis using igrown_refl[OF assms(1)] by (auto simp: alloc_rem_if_def rem_items_def rem_outcome_def)
qed

lemma rem_outcome_ok: "rem_outcome wanted i inner sz a a' r \<Longrightarrow> aok a'"
  by (cases r) (auto simp: rem_outcome_def igrown_def)

lemma it_live_offset: "it_live a (offset_mut f x) = it_live a x"
  by (cases x) (auto simp: item_live_def split: prod.splits; cases "aslot a (index x)"; auto)+

lemma offset_mut_id: "offset_mut (\<lambda>m. m) = id"
proof (rule ext)
  show "offset_mut (\<lambda>m. m) x = id x" for x by (cases x) auto
qed

lemma undo_igrown:
  assumes "aok a" and "igrown a a2 [x]" and "ishrunk a2 a3 (item_covers PS x)"
  shows "igrown a a3 []"
proof -
  have "it_live a3 y" if "it_live a y" for y
    using live_item[OF assms(1) that] assms(2,3) that unfolding igrown_def ishrunk_def by (auto 0 4)
  moreover have "aocc a3 = aocc a" using assms(2,3) by (auto simp: igrown_def ishrunk_def)
  ultimately show ?thesis using assms(3) by (simp add: igrown_def ishrunk_def)
qed

lemma at_undo:
  assumes "aok a" and "\<And>off. igrown a a1 (rem_items l off rem)" and "igrown a1 a2 []"
  shows "\<exists>a3. undo_remainder M l rem a2 = Inr a3 \<and> igrown a a3 []"
proof (cases rem)
  case None
  then show ?thesis using igrown_trans[OF assms(2)[of 0] assms(3)] by (simp add: undo_remainder_def rem_items_def)
next
  case (Some al)
  then have g: "igrown a a2 [SubTable l 0 al]" using igrown_trans[OF assms(2)[of 0] assms(3)] by (simp add: rem_items_def)
  then have "aok a2" "it_live a2 (SubTable l 0 al)" by (auto simp: igrown_def)
  then show ?thesis using undo_remainder_ok undo_igrown[OF assms(1) g] Some by blast
qed

lemma at_list:
  assumes "igrown a a' (rem_items l (n * PS) rem @ rem_items (k - 1) 0 srem @ xs)" and "adjacent PS (k * PS) 0 xs"
    and "sum_list (map (item_size PS) xs) = n * PS" and "l = k + n"
    and "\<And>al. rem = Some al \<Longrightarrow> start_addr al = 0 \<and> alloc_size al = r" and "rem = None \<longleftrightarrow> r = 0"
    and "\<And>al. srem = Some al \<Longrightarrow> start_addr al = at \<and> alloc_size al = srs" and "srem = None \<longleftrightarrow> srs = 0"
    and "srem \<noteq> None \<Longrightarrow> 0 < k" and "srem \<noteq> None \<Longrightarrow> 0 < n * PS + r \<Longrightarrow> at + srs = PS"
  shows "\<exists>ys. build_allocation M xs [map_option (\<lambda>al. (SubTable l (n * PS) al, 0)) rem, map_option (\<lambda>al. (SubTable (k - 1) 0 al, srs)) srem]
      = PartialPageAllocation ys PS \<and> igrown a a' ys \<and> adjacent PS (if srem = None then k * PS else (k - 1) * PS + at) 0 ys
      \<and> sum_list (map (item_size PS) ys) = srs + n * PS + r"
proof -
  let ?mid = "xs @ rem_items l (n * PS) rem" let ?ys = "rem_items (k - 1) 0 srem @ map (offset_mut (\<lambda>m. m + srs)) ?mid"
  have sum: "sum_list (map (item_size PS) ?mid) = n * PS + r" using assms(3,5,6) by (auto simp: rem_items_def split: option.splits)
  have adj: "adjacent PS (k * PS) 0 ?mid"
    using assms(2-5) by (auto simp: adjacent_append rem_items_def algebra_simps split: option.splits)
  have shifted: "adjacent PS (k * PS) srs (map (offset_mut (\<lambda>m. m + srs)) ?mid)" using adjacent_shift[OF adj, of srs] by simp
  have comp: "item_size PS \<circ> offset_mut f = item_size PS" for f by auto
  have pos: "(k - 1) * PS + at + srs = k * PS" if "srem \<noteq> None" "0 < n * PS + r"
    using assms(9)[OF that(1)] assms(10)[OF that] by (cases k) auto
  have sizes: "0 < item_size PS x" if "x \<in> set xs" for x
    using assms(1) that wf_alloc_span(2)[of PS x] page_size_pos(1) by (simp add: igrown_def)
  have empty: "?mid = []" if "n * PS + r = 0"
  proof -
    have "sum_list (map (item_size PS) xs) = 0" using that assms(3) by simp
    then have "xs = []" using sizes[of "hd xs"] by (cases xs) auto
    then show ?thesis using that assms(6) by (simp add: rem_items_def)
  qed
  have adj': "adjacent PS (if srem = None then k * PS else (k - 1) * PS + at) 0 ?ys"
    using shifted pos empty assms(7,8) by (cases "n * PS + r = 0"; cases srem) (auto simp: rem_items_def ac_simps)
  have cov: "(\<Union>x\<in>set ?ys. item_covers PS x) = (\<Union>x\<in>set (rem_items l (n * PS) rem @ rem_items (k - 1) 0 srem @ xs). item_covers PS x)"
    by auto
  have ig: "igrown a a' ?ys" by (rule igrown_mono[OF assms(1) cov]) (use assms(1) in \<open>auto simp: igrown_def it_live_offset\<close>)
  have "mset (push_remainders xs [map_option (\<lambda>al. (SubTable l (n * PS) al, 0)) rem, map_option (\<lambda>al. (SubTable (k - 1) 0 al, srs)) srem]) = mset ?ys"
    using assms(8) by (cases rem; cases srem) (auto simp: rem_items_def offset_mut_id)
  from sort_adjacent[OF adj' _ page_size_pos(1) this] have "build_allocation M xs [map_option (\<lambda>al. (SubTable l (n * PS) al, 0)) rem,
      map_option (\<lambda>al. (SubTable (k - 1) 0 al, srs)) srem] = PartialPageAllocation ?ys PS"
    using ig unfolding build_allocation_def igrown_def by blast
  moreover have "sum_list (map (item_size PS) ?ys) = srs + n * PS + r"
    using sum assms(7,8) by (cases srem) (auto simp: rem_items_def comp)
  ultimately show ?thesis using ig adj' by blast
qed

text \<open>A request split at \<open>at\<close>: \<open>srs\<close> bytes at the end of slot \<open>k - 1\<close>, then \<open>sz\<close> bytes from slot \<open>k\<close>.\<close>

definition at_request :: "nat \<Rightarrow> nat \<Rightarrow> nat \<Rightarrow> nat \<Rightarrow> bool" where
  "at_request k at srs sz \<longleftrightarrow> 4096 dvd sz \<and> k + search_npages M sz \<le> 512 \<and> 0 < srs + sz \<and>
     (if at = 0 then srs = 0 else SUBTABLES M \<and> 0 < k \<and> page_request (mt_sub M) at srs \<and> (0 < sz \<longrightarrow> at + srs = PS))"

definition at_pos :: "nat \<Rightarrow> nat \<Rightarrow> nat" where
  "at_pos k at = (if at = 0 then k * PS else (k - 1) * PS + at)"

lemma at_success:
  assumes "boxes_ok b" and "at_request k at srs sz" and "clear_range a k (whole_pages M sz)"
    and "rem_outcome (part_page M sz \<noteq> 0) (k + whole_pages M sz) 0 (part_page M sz) a a1 (Some rem)"
    and "rem_outcome (at \<noteq> 0) (k - 1) at srs a1 a2 (Some srem)"
  shows "\<exists>a3 xs ys. alloc_contiguous M b k k (whole_pages M sz) a2 [] = Inr (a3, xs) \<and>
     build_allocation M xs [map_option (\<lambda>al. (SubTable (k + whole_pages M sz) (whole_pages M sz * PS) al, 0)) rem,
       map_option (\<lambda>al. (SubTable (k - 1) 0 al, srs)) srem] = PartialPageAllocation ys PS \<and>
     igrown a a3 ys \<and> adjacent PS (at_pos k at) 0 ys \<and> sum_list (map (item_size PS) ys) = srs + sz"
proof -
  let ?n = "whole_pages M sz" and ?r = "part_page M sz"
  have q: "4096 dvd sz" "k + search_npages M sz \<le> 512" "at \<noteq> 0 \<Longrightarrow> SUBTABLES M \<and> 0 < k \<and> 0 < srs \<and> (0 < sz \<longrightarrow> at + srs = PS)" "at = 0 \<Longrightarrow> srs = 0"
    using assms(2) by (auto simp: at_request_def page_request_def split: if_splits)
  note pp = pages_part[OF q(1)]
  have np: "k + ?n \<le> 512" using q(2) by (auto simp: search_npages_def)
  have st: "?r \<noteq> 0 \<Longrightarrow> SUBTABLES M" by (simp add: part_page_def split: if_splits)
  have g1: "igrown a a1 (rem_items (k + ?n) off rem)" for off using assms(4) by (simp add: rem_outcome_def)
  have g2: "igrown a1 a2 (rem_items (k - 1) 0 srem)" using assms(5) by (simp add: rem_outcome_def)
  have "avail a2 j = avail a j" if "k \<le> j" "j < k + ?n" for j
  proof -
    have "j \<noteq> k + ?n" "at \<noteq> 0 \<longrightarrow> j \<noteq> k - 1" using that q(3) by auto
    then show ?thesis using assms(4,5) by (simp add: rem_outcome_def)
  qed
  then have "clear_range a2 k ?n" using assms(3) by (simp add: clear_range_def)
  then obtain a3 xs where xs: "alloc_contiguous M b k k ?n a2 [] = Inr (a3, xs)" "igrown a2 a3 xs" "adjacent PS (k * PS) 0 xs"
    "sum_list (map (item_size PS) xs) = ?n * PS" using contiguous_then[OF igrown_ok[OF g2] np _ assms(1)] by blast
  have rem: "rem = None \<longleftrightarrow> ?r = 0" "\<And>al. rem = Some al \<Longrightarrow> start_addr al = 0 \<and> alloc_size al = ?r" using assms(4) st by (auto simp: rem_outcome_def)
  have srem: "srem = None \<longleftrightarrow> srs = 0" "srem = None \<longleftrightarrow> at = 0" "\<And>al. srem = Some al \<Longrightarrow> start_addr al = at \<and> alloc_size al = srs"
    using assms(5) q(3,4) by (auto simp: rem_outcome_def)
  have full: "srem \<noteq> None \<Longrightarrow> 0 < k" "srem \<noteq> None \<Longrightarrow> 0 < ?n * PS + ?r \<Longrightarrow> at + srs = PS" using srem(2) q(3) pp(1) by auto
  from at_list[OF igrown_trans[OF g1 igrown_trans[OF g2 xs(2)]] xs(3,4) refl rem(2,1) srem(3,1) full]
  obtain ys where ys: "build_allocation M xs [map_option (\<lambda>al. (SubTable (k + ?n) (?n * PS) al, 0)) rem, map_option (\<lambda>al. (SubTable (k - 1) 0 al, srs)) srem]
      = PartialPageAllocation ys PS" "igrown a a3 ys" "adjacent PS (if srem = None then k * PS else (k - 1) * PS + at) 0 ys"
      "sum_list (map (item_size PS) ys) = srs + ?n * PS + ?r" by blast
  then show ?thesis using xs(1) srem(2) pp(1) by (auto simp: at_pos_def add.assoc)
qed

lemma allocate_at_parts_ok:
  assumes "aok a" and "boxes_ok b" and "at_request k at srs sz"
  shows "alloc_result a (allocate_at_parts M b a k at srs sz) (\<lambda>al. start_addr al = at_pos k at \<and> alloc_size al = srs + sz) (\<forall>i<512. avail a i = 0)"
proof -
  let ?n = "whole_pages M sz" and ?r = "part_page M sz" let ?l = "k + ?n"
  have q: "4096 dvd sz" "k + search_npages M sz \<le> 512" "0 < srs + sz" "at \<noteq> 0 \<Longrightarrow> 0 < k" "at \<noteq> 0 \<and> SUBTABLES M \<longrightarrow> page_request (mt_sub M) at srs"
    using assms(3) by (auto simp: at_request_def split: if_splits)
  have np: "k + ?n \<le> 512" "?r \<noteq> 0 \<Longrightarrow> ?l < 512" using q(2) by (auto simp: search_npages_def)
  have rc: "range_clear a k ?n = Inr (clear_range a k ?n)" using range_clear_ok[OF ok_bitmap[OF assms(1)] np(1)] by (simp add: clear_range_def)
  have req: "?r \<noteq> 0 \<and> SUBTABLES M \<longrightarrow> page_request (mt_sub M) 0 ?r"
    using pages_part(2,3)[OF q(1)] sub_span by (auto simp: page_request_def)
  obtain a1 r where r: "alloc_rem_if M b (?r \<noteq> 0) ?l 0 ?r a = Inr (a1, r)" "rem_outcome (?r \<noteq> 0) ?l 0 ?r a a1 r"
    using rem_outcome_ex[OF assms(1,2) req] by blast
  obtain a2 s where s: "alloc_rem_if M b (at \<noteq> 0) (k - 1) at srs a1 = Inr (a2, s)" "rem_outcome (at \<noteq> 0) (k - 1) at srs a1 a2 s"
    using rem_outcome_ex[OF rem_outcome_ok[OF r(2)] assms(2) q(5)] by blast
  consider (busy) "\<not> clear_range a k ?n" | (end_busy) "clear_range a k ?n" "r = None"
    | (start_busy) rem where "clear_range a k ?n" "r = Some rem" "s = None"
    | (free) rem srem where "clear_range a k ?n" "r = Some rem" "s = Some srem" by blast
  then show ?thesis
  proof cases
    case busy
    then have "\<not> (\<forall>i<512. avail a i = 0)" using np(1) unfolding clear_range_def by (meson order_less_le_trans)
    then show ?thesis using busy rc igrown_refl[OF assms(1)] by (intro alloc_result_None[of _ a]) (auto simp: allocate_at_parts_def Let_def)
  next
    case end_busy
    then show ?thesis using rc r np(2) by (intro alloc_result_None[of _ a1]) (auto simp: allocate_at_parts_def rem_outcome_def Let_def)
  next
    case start_busy
    then have at: "at \<noteq> 0" "igrown a1 a2 []" "\<not> (k - 1 < 512 \<and> avail a1 (k - 1) = 0)" using s(2) by (auto simp: rem_outcome_def)
    obtain a3 where a3: "undo_remainder M ?l rem a2 = Inr a3" "igrown a a3 []"
      using at_undo[OF assms(1) _ at(2), of ?l rem] r(2) start_busy(2) by (auto simp: rem_outcome_def)
    have "k - 1 < 512" "k - 1 \<noteq> ?l" using q(4)[OF at(1)] np(1) by auto
    then have "\<not> (\<forall>i<512. avail a i = 0)" using at(3) r(2) by (auto simp: rem_outcome_def)
    then show ?thesis using start_busy rc r(1) s(1) a3 by (intro alloc_result_None[of _ a3]) (auto simp: allocate_at_parts_def Let_def)
  next
    case free
    obtain a3 xs ys where ys: "alloc_contiguous M b k k ?n a2 [] = Inr (a3, xs)"
      "build_allocation M xs [map_option (\<lambda>al. (SubTable ?l (?n * PS) al, 0)) rem, map_option (\<lambda>al. (SubTable (k - 1) 0 al, srs)) srem] = PartialPageAllocation ys PS"
      "igrown a a3 ys" "adjacent PS (at_pos k at) 0 ys" "sum_list (map (item_size PS) ys) = srs + sz"
      using at_success[OF assms(2,3) free(1) r(2)[unfolded free(2)] s(2)[unfolded free(3)]] by blast
    have "(if ?n \<noteq> 0 then alloc_contiguous M b k k ?n a2 [] else Inr (a2, [])) = Inr (a3, xs)" using ys(1) by (cases ?n) auto
    then have "allocate_at_parts M b a k at srs sz = Inr (a3, Some (PartialPageAllocation ys PS))"
      using free rc r(1) s(1) ys(2) by (simp add: allocate_at_parts_def Let_def)
    then show ?thesis by (rule alloc_result_Some[OF _ ys(3,4,5) q(3)]) auto
  qed
qed

lemma npages_bound:
  assumes "4096 dvd sz" and "k * PS + sz \<le> 512 * PS"
  shows "k + search_npages M sz \<le> 512"
proof -
  have "(k + whole_pages M sz) * PS + part_page M sz \<le> 512 * PS" using assms pages_part(1)[OF assms(1)] by (simp add: algebra_simps)
  moreover have "(k + whole_pages M sz) * PS < 512 * PS \<or> part_page M sz = 0" using calculation by linarith
  ultimately show ?thesis using page_size_pos(1) by (auto simp: search_npages_def)
qed

lemma allocate_at_correct:
  assumes "aok a" and "boxes_ok b" and "0 < sz" and "4096 dvd sz" and "4096 dvd addr" and "addr + sz \<le> 512 * PS"
  shows "alloc_result a (mlff_allocate_at M b a addr sz) (\<lambda>al. start_addr al = addr \<and> alloc_size al = sz) (\<forall>i<512. avail a i = 0)"
proof -
  have crop: "crop_addr addr = addr" using crop_addr_id[of addr] assms(3,6) table_span by linarith
  have dm: "addr div PS * PS + addr mod PS = addr" "addr mod PS < PS" using page_size_pos by auto
  have nosub: "\<not> SUBTABLES M \<Longrightarrow> addr mod PS = 0" using assms(5) by (simp add: mlff_PAGE_SIZE_def)
  have add: "uadd sz (addr mod PS) = Inr sz" if "\<not> SUBTABLES M"
    using nosub[OF that] assms(6) table_span by (simp add: uadd_def usize_limit_def)
  show ?thesis
  proof (cases "addr mod PS = 0")
    case True
    then have run: "mlff_allocate_at M b a addr sz = allocate_at_parts M b a (addr div PS) 0 0 sz"
      using crop add by (cases "SUBTABLES M") (auto simp: mlff_allocate_at_def Let_def)
    have "at_request (addr div PS) 0 0 sz" using assms(3,4,6) dm True npages_bound[OF assms(4)] by (simp add: at_request_def)
    then show ?thesis using allocate_at_parts_ok[OF assms(1,2)] dm True unfolding run at_pos_def by fastforce
  next
    case False
    let ?at = "addr mod PS" let ?k = "addr div PS + 1" let ?s = "min (PS - ?at) sz"
    have st: "SUBTABLES M" using False nosub by metis
    have run: "mlff_allocate_at M b a addr sz = allocate_at_parts M b a ?k ?at ?s (sz - (PS - ?at))"
      using st False crop by (simp add: mlff_allocate_at_def Let_def)
    have al: "4096 dvd ?at" "4096 dvd PS - ?at" using assms(5) page_size_pos by (auto simp: dvd_mod)
    have dv: "4096 dvd sz - (PS - ?at)" using al assms(4) by simp
    have dvs: "4096 dvd ?s" using al(2) assms(4) by (simp add: min_def)
    have kb: "?k * PS + (sz - (PS - ?at)) \<le> 512 * PS"
    proof (cases "PS - ?at \<le> sz")
      case True
      then show ?thesis using dm assms(6) by (simp add: algebra_simps)
    next
      case False
      have "addr div PS < 512" using assms(3,6) page_size_pos by (simp add: div_less_iff_less_mult)
      then have "?k * PS \<le> 512 * PS" by (intro mult_le_mono1) simp
      then show ?thesis using False by simp
    qed
    have "at_request ?k ?at ?s (sz - (PS - ?at))"
      using False st al(1) dv dvs dm(2) assms(3) npages_bound[OF dv kb] sub_span by (auto simp: at_request_def page_request_def)
    from allocate_at_parts_ok[OF assms(1,2) this] show ?thesis using False dm unfolding run at_pos_def by (simp add: min_def split: if_splits)
  qed
qed

section \<open>One level gives the contract again\<close>

lemma fresh_avail: "afresh a \<Longrightarrow> i < 512 \<Longrightarrow> avail a i = 0"
  by (auto simp: mlff_fresh_def slot_def)

lemma unused_empty:
  assumes "aok a" and "pt_num_used (mt_table M) (mlff_table a) = 0"
  shows "aocc a = {}"
proof -
  have "card {i. i < 512 \<and> entry (mlff_table a) i \<noteq> None} = 0"
    using table.num_used_ok assms by (simp add: mlff_ok_def mlff_shape_def)
  then have e: "i < 512 \<Longrightarrow> entry (mlff_table a) i = None" for i by (auto simp: card_eq_0_iff)
  have "sl_occ i (aslot a i) = {}" if "i < 512" for i
  proof -
    have "sl_ok (aslot a i)" using assms(1) that by (simp add: mlff_ok_def)
    then show ?thesis using e[OF that] by (cases "suballocators a ! i") (auto simp: slot_def)
  qed
  then show ?thesis by (simp add: mlff_occ_def)
qed

lemma alive_occ:
  assumes "aok a" and "alive a al"
  shows "wf_alloc al \<and> covers al \<subseteq> aocc a"
proof -
  obtain xs where "al = PartialPageAllocation xs PS" using assms(2) by (cases al) (auto simp: mlff_live_def)
  then show ?thesis using assms live_item[OF assms(1)] by (auto simp: mlff_live_def)
qed

lemma default_fits:
  assumes "0 < sz" and "4096 dvd sz" and "sz \<le> 512 * PS"
  shows "mlff_fits M sfits sz ALLOCATION_DEFAULT"
proof -
  have "search_npages M sz \<le> 512" using npages_bound[OF assms(2), of 0] assms(3) by simp
  moreover have "sfits sz ALLOCATION_DEFAULT" if "SUBTABLES M" "whole_pages M sz = 0"
    using page_frame_allocator.fits_default[OF sub[OF that(1)], of sz] pages_part[OF assms(2)] that assms(1,2) sub_span
    by (simp add: page_request_def)
  ultimately show ?thesis
    by (simp add: mlff_fits_def npages_eq ALLOCATION_DEFAULT_def new_default_def pas_next_level_down_def)
qed

end

lemma mlff_ops_sel [simp]:
  "pf_npages (mlff_ops M) = mlff_NPAGES M" "pf_page_size (mlff_ops M) = mlff_PAGE_SIZE M" "pf_new (mlff_ops M) p = Inr (mlff_new M p)"
  "pf_num_used (mlff_ops M) a = Inr (pt_num_used (mt_table M) (mlff_table a))" "pf_is_full (mlff_ops M) a = Inr (mlff_is_full a)"
  "pf_ptr (mlff_ops M) a = Inr (table_ptr a)" "pf_allocate (mlff_ops M) = mlff_allocate M"
  "pf_allocate_at (mlff_ops M) = mlff_allocate_at M" "pf_deallocate (mlff_ops M) = mlff_deallocate M"
  "pf_split_page (mlff_ops M) = mlff_split_page M"
  by (simp_all add: mlff_ops_def)

sublocale first_fit < level: page_frame_allocator "mlff_ops M" "mlff_ok M tok entry sok" "mlff_occ M entry socc"
  "mlff_fresh tok entry" "mlff_live M entry slive" "mlff_fits M sfits"
proof
  show "0 < pf_page_size (mlff_ops M)" "4096 dvd pf_page_size (mlff_ops M)" "0 < pf_npages (mlff_ops M)"
    using page_size_pos npages_eq by simp_all
  show "pf_span (mlff_ops M) \<le> 2 ^ 48" using table_span npages_eq by (simp add: pf_span_def)
  show "\<exists>a. pf_new (mlff_ops M) p = Inr a \<and> afresh a" if "box_ok p" for p
    using that table.new_ok by (simp add: mlff_new_def mlff_fresh_def mlff_shape_def slot_def avail_def less_mult_imp_div_less)
  show "aok a \<and> aocc a = {}" if "afresh a" for a using that by (simp add: mlff_fresh_def mlff_ok_def mlff_occ_def)
  show "aocc a \<subseteq> {..<pf_span (mlff_ops M)}" if "aok a" for a
    using occ_iff[OF that] npages_eq page_size_pos by (auto simp: pf_span_def div_less_iff_less_mult)
  show "\<exists>p. pf_ptr (mlff_ops M) a = Inr p \<and> box_ok p" if "aok a" for a using that by (simp add: mlff_ok_def mlff_shape_def)
  show "\<exists>n. pf_num_used (mlff_ops M) a = Inr n \<and> (n = 0 \<longrightarrow> aocc a = {})" if "aok a" for a using unused_empty[OF that] by simp
  show "\<exists>b. pf_is_full (mlff_ops M) a = Inr b" if "aok a" for a by simp
  show "wf_alloc al \<and> covers al \<subseteq> aocc a" if "aok a" "alive a al" for a al using alive_occ that by blast
  show "mlff_fits M sfits sz ALLOCATION_DEFAULT" if "page_request (mlff_ops M) 0 sz" for sz
    using that default_fits npages_eq by (simp add: page_request_def pf_span_def)
  show "\<exists>a' r. pf_allocate (mlff_ops M) b a sz strat = Inr (a', r) \<and> grown aok aocc alive a a' r \<and> (\<forall>al. r = Some al \<longrightarrow> alloc_size al = sz) \<and> (afresh a \<longrightarrow> r \<noteq> None)"
    if "aok a" "boxes_ok b" "page_request (mlff_ops M) 0 sz" "mlff_fits M sfits sz strat" for a b sz strat
    using allocate_correct[OF that(1,2) _ _ that(4)] that(3) fresh_avail[of a] unfolding alloc_result_def page_request_def mlff_ops_sel by blast
  show "\<exists>a' r. pf_allocate_at (mlff_ops M) b a addr sz = Inr (a', r) \<and> grown aok aocc alive a a' r
      \<and> (\<forall>al. r = Some al \<longrightarrow> start_addr al = addr \<and> alloc_size al = sz) \<and> (afresh a \<longrightarrow> r \<noteq> None)"
    if "aok a" "boxes_ok b" "page_request (mlff_ops M) addr sz" for a b addr sz
    using allocate_at_correct[OF that(1,2), of sz addr] that(3) fresh_avail[of a] npages_eq
    unfolding alloc_result_def page_request_def pf_span_def mlff_ops_sel by auto
  show "\<exists>a'. pf_deallocate (mlff_ops M) a al = Inr a' \<and> aok a' \<and> aocc a' = aocc a - covers al
      \<and> (\<forall>al'. alive a al' \<longrightarrow> covers al' \<inter> covers al = {} \<longrightarrow> alive a' al')" if "aok a" "alive a al" for a al
    using deallocate_correct[OF that] unfolding mlff_ops_sel by blast
qed

section \<open>The four levels\<close>

text \<open>The invariant, the bytes in use, the live allocations and the fitting strategies of each level.\<close>

abbreviation l1_ok where "l1_ok api ft \<equiv> mlff_ok (X64Level1 api ft) x64_ok (x64_entry api) (\<lambda>_. True)"
abbreviation l1_occ where "l1_occ api ft \<equiv> mlff_occ (X64Level1 api ft) (x64_entry api) (\<lambda>_. {})"
abbreviation l1_live where "l1_live api ft \<equiv> mlff_live (X64Level1 api ft) (x64_entry api) (\<lambda>_ _. False)"
abbreviation l1_fits where "l1_fits api ft \<equiv> mlff_fits (X64Level1 api ft) (\<lambda>_ _. True)"
abbreviation l2_ok where "l2_ok api ft \<equiv> mlff_ok (X64Level2 api ft) x64_ok (x64_entry api) (l1_ok api ft)"
abbreviation l2_occ where "l2_occ api ft \<equiv> mlff_occ (X64Level2 api ft) (x64_entry api) (l1_occ api ft)"
abbreviation l2_live where "l2_live api ft \<equiv> mlff_live (X64Level2 api ft) (x64_entry api) (l1_live api ft)"
abbreviation l2_fits where "l2_fits api ft \<equiv> mlff_fits (X64Level2 api ft) (l1_fits api ft)"
abbreviation l3_ok where "l3_ok api ft \<equiv> mlff_ok (X64Level3 api ft) x64_ok (x64_entry api) (l2_ok api ft)"
abbreviation l3_occ where "l3_occ api ft \<equiv> mlff_occ (X64Level3 api ft) (x64_entry api) (l2_occ api ft)"
abbreviation l3_live where "l3_live api ft \<equiv> mlff_live (X64Level3 api ft) (x64_entry api) (l2_live api ft)"
abbreviation l3_fits where "l3_fits api ft \<equiv> mlff_fits (X64Level3 api ft) (l2_fits api ft)"
abbreviation l4_ok where "l4_ok api ft \<equiv> mlff_ok (X64Level4 api ft) x64_ok (x64_entry api) (l3_ok api ft)"
abbreviation l4_occ where "l4_occ api ft \<equiv> mlff_occ (X64Level4 api ft) (x64_entry api) (l3_occ api ft)"
abbreviation l4_live where "l4_live api ft \<equiv> mlff_live (X64Level4 api ft) (x64_entry api) (l3_live api ft)"
abbreviation l4_fits where "l4_fits api ft \<equiv> mlff_fits (X64Level4 api ft) (l3_fits api ft)"
abbreviation l_fresh where "l_fresh api \<equiv> mlff_fresh x64_ok (x64_entry api)"

lemma level_tables [simp]:
  "mt_table (X64Level1 api ft) = x64_page_table api ft 1" "mt_table (X64Level2 api ft) = x64_page_table api ft 2"
  "mt_table (X64Level3 api ft) = x64_page_table api ft 3" "mt_table (X64Level4 api ft) = x64_page_table api ft 4"
  "mt_sub (X64Level2 api ft) = mlff_ops (X64Level1 api ft)" "mt_sub (X64Level3 api ft) = mlff_ops (X64Level2 api ft)"
  "mt_sub (X64Level4 api ft) = mlff_ops (X64Level3 api ft)" "\<not> SUBTABLES (X64Level1 api ft)" "SUBTABLES (X64Level2 api ft)"
  "SUBTABLES (X64Level3 api ft)" "SUBTABLES (X64Level4 api ft)" "HUGEPAGES (X64Level1 api ft)"
  by (simp_all add: X64Level1_def X64Level2_def X64Level3_def X64Level4_def)

lemma level_npages [simp]:
  "mlff_NPAGES (X64Level1 api ft) = 512" "mlff_NPAGES (X64Level2 api ft) = 512"
  "mlff_NPAGES (X64Level3 api ft) = 512" "mlff_NPAGES (X64Level4 api ft) = 512"
  by (simp_all add: mlff_NPAGES_def x64_page_table_def)

lemma level_page_size [simp]:
  "mlff_PAGE_SIZE (X64Level1 api ft) = 4096" "mlff_PAGE_SIZE (X64Level2 api ft) = 0x200000"
  "mlff_PAGE_SIZE (X64Level3 api ft) = 0x40000000" "mlff_PAGE_SIZE (X64Level4 api ft) = 0x8000000000"
  by (simp_all add: mlff_PAGE_SIZE_def)

end
