(* ===== verification/Page_Levels.thy ===== *)
theory Page_Levels
  imports First_Fit_Correct
begin

text \<open>
  The page allocator of one address space: the four levels of the x86-64 table
  (\<open>memory/paging/arch/x86_64.rs\<close>) as instances of the first-fit allocator, and what any sequence of
  requests to the top level leaves behind.
\<close>

section \<open>The levels satisfy the contract\<close>

sublocale pte_crate < L1: first_fit "X64Level1 api ft" x64_ok "x64_entry api" "\<lambda>_. True" "\<lambda>_. {}" "\<lambda>_. True" "\<lambda>_ _. False" "\<lambda>_ _. True"
  for ft
  by (intro first_fit.intro first_fit_axioms.intro) (simp_all add: x64.page_table_axioms)

sublocale pte_crate < L2: first_fit "X64Level2 api ft" x64_ok "x64_entry api" "l1_ok api ft" "l1_occ api ft" "l_fresh api" "l1_live api ft" "l1_fits api ft"
  for ft
  by (intro first_fit.intro first_fit_axioms.intro) (simp_all add: x64.page_table_axioms L1.level.page_frame_allocator_axioms)

sublocale pte_crate < L3: first_fit "X64Level3 api ft" x64_ok "x64_entry api" "l2_ok api ft" "l2_occ api ft" "l_fresh api" "l2_live api ft" "l2_fits api ft"
  for ft
  by (intro first_fit.intro first_fit_axioms.intro) (simp_all add: x64.page_table_axioms L2.level.page_frame_allocator_axioms)

sublocale pte_crate < L4: first_fit "X64Level4 api ft" x64_ok "x64_entry api" "l3_ok api ft" "l3_occ api ft" "l_fresh api" "l3_live api ft" "l3_fits api ft"
  for ft
  by (intro first_fit.intro first_fit_axioms.intro) (simp_all add: x64.page_table_axioms L3.level.page_frame_allocator_axioms)

section \<open>Requests to the top level\<close>

definition top_ok :: "pte_api \<Rightarrow> features \<Rightarrow> level4 \<Rightarrow> bool" where
  "top_ok api ft = l4_ok api ft"

definition top_occ :: "pte_api \<Rightarrow> features \<Rightarrow> level4 \<Rightarrow> nat set" where
  "top_occ api ft = l4_occ api ft"

definition top_live :: "pte_api \<Rightarrow> features \<Rightarrow> level4 \<Rightarrow> PartialPageAllocation \<Rightarrow> bool" where
  "top_live api ft = l4_live api ft"

definition top_fits :: "pte_api \<Rightarrow> features \<Rightarrow> nat \<Rightarrow> strategies \<Rightarrow> bool" where
  "top_fits api ft = l4_fits api ft"

lemmas top_defs = top_ok_def top_occ_def top_live_def top_fits_def TopLevelPageAllocator_def

datatype vm_request = Allocate nat strategies | AllocateAt nat nat | Deallocate nat

fun vm_step :: "pte_api \<Rightarrow> features \<Rightarrow> boxes \<Rightarrow> vm_request \<Rightarrow> level4 \<times> PartialPageAllocation list \<Rightarrow> (level4 \<times> PartialPageAllocation list) exec" where
  "vm_step api ft b (Allocate sz strat) (a, held) =
     exec_bind (pf_allocate (TopLevelPageAllocator api ft) b a sz strat) (\<lambda>(a, r). Inr (a, case r of None \<Rightarrow> held | Some al \<Rightarrow> al # held))"
| "vm_step api ft b (AllocateAt addr sz) (a, held) =
     exec_bind (pf_allocate_at (TopLevelPageAllocator api ft) b a addr sz) (\<lambda>(a, r). Inr (a, case r of None \<Rightarrow> held | Some al \<Rightarrow> al # held))"
| "vm_step api ft b (Deallocate i) (a, held) =
     exec_bind (vec_get held i) (\<lambda>al.
     exec_bind (pf_deallocate (TopLevelPageAllocator api ft) a al) (\<lambda>a. Inr (a, take i held @ drop (i + 1) held)))"

text \<open>Requests as the paging API makes them: page-aligned, and freeing only what is held.\<close>

fun vm_valid :: "pte_api \<Rightarrow> features \<Rightarrow> nat \<Rightarrow> vm_request \<Rightarrow> bool" where
  "vm_valid api ft n (Allocate sz strat) \<longleftrightarrow> page_request (TopLevelPageAllocator api ft) 0 sz \<and> top_fits api ft sz strat"
| "vm_valid api ft n (AllocateAt addr sz) \<longleftrightarrow> page_request (TopLevelPageAllocator api ft) addr sz"
| "vm_valid api ft n (Deallocate i) \<longleftrightarrow> i < n"

text \<open>The states of an address space that valid requests lead to, from the empty table at \<open>p\<close>.\<close>

inductive vm_reach :: "pte_api \<Rightarrow> features \<Rightarrow> nat \<Rightarrow> level4 \<times> PartialPageAllocation list \<Rightarrow> bool" for api ft p where
  created: "vm_reach api ft p (mlff_new (X64Level4 api ft) p, [])"
| request: "vm_reach api ft p (a, held) \<Longrightarrow> boxes_ok b \<Longrightarrow> vm_valid api ft (length held) rq \<Longrightarrow>
    vm_step api ft b rq (a, held) = Inr s \<Longrightarrow> vm_reach api ft p s"

section \<open>The specification: an address space as a list of disjoint ranges\<close>

type_synonym space = "(nat \<times> nat) list"

fun range_of :: "nat \<times> nat \<Rightarrow> nat set" where
  "range_of (s, sz) = {s..<s + sz}"

definition span_of :: "PartialPageAllocation \<Rightarrow> nat \<times> nat" where
  "span_of al = (start_addr al, alloc_size al)"

definition space_free :: "space \<Rightarrow> nat \<times> nat \<Rightarrow> bool" where
  "space_free sp r \<longleftrightarrow> range_of r \<inter> (\<Union>q\<in>set sp. range_of q) = {} \<and> range_of r \<subseteq> {..<2 ^ 48}"

inductive space_step :: "vm_request \<Rightarrow> space \<Rightarrow> space \<Rightarrow> bool" where
  refused: "space_step (Allocate sz strat) sp sp"
| granted: "space_free sp (addr, sz) \<Longrightarrow> space_step (Allocate sz strat) sp ((addr, sz) # sp)"
| refused_at: "space_step (AllocateAt addr sz) sp sp"
| granted_at: "space_free sp (addr, sz) \<Longrightarrow> space_step (AllocateAt addr sz) sp ((addr, sz) # sp)"
| freed: "i < length sp \<Longrightarrow> space_step (Deallocate i) sp (take i sp @ drop (i + 1) sp)"

definition vm_inv :: "pte_api \<Rightarrow> features \<Rightarrow> level4 \<times> PartialPageAllocation list \<Rightarrow> bool" where
  "vm_inv api ft s \<longleftrightarrow> (case s of (a, held) \<Rightarrow> top_ok api ft a \<and> (\<forall>al\<in>set held. top_live api ft a al)
     \<and> sorted_wrt (\<lambda>x y. covers x \<inter> covers y = {}) held \<and> top_occ api ft a = (\<Union>al\<in>set held. covers al))"

lemma top_span: "pf_span (TopLevelPageAllocator api ft) = 2 ^ 48"
  by (simp add: pf_span_def TopLevelPageAllocator_def)

context pte_crate
begin

lemmas top_laws = L4.level.allocate_ok L4.level.allocate_at_ok L4.level.deallocate_ok L4.level.live_ok L4.level.occ_span

lemma live_span: "top_ok api ft a \<Longrightarrow> top_live api ft a al \<Longrightarrow> covers al = range_of (span_of al)"
  using L4.level.live_ok[of ft a al] wf_alloc_span(1)[of al] by (auto simp: top_defs span_of_def)

lemma grant_step:
  assumes "vm_inv api ft (a, held)" and "grown (top_ok api ft) (top_occ api ft) (top_live api ft) a a' (Some al)"
  shows "vm_inv api ft (a', al # held) \<and> space_free (map span_of held) (span_of al)"
proof -
  have g: "top_ok api ft a'" "top_live api ft a' al" "covers al \<inter> top_occ api ft a = {}" "top_occ api ft a' = top_occ api ft a \<union> covers al"
    "\<And>x. top_live api ft a x \<Longrightarrow> top_live api ft a' x"
    using assms(2) by (auto simp: grown_def)
  have held: "\<forall>x\<in>set held. covers x = range_of (span_of x)" "top_occ api ft a = (\<Union>x\<in>set held. covers x)"
    using assms(1) live_span by (auto simp: vm_inv_def)
  have "covers al \<subseteq> {..<2 ^ 48}" using L4.level.occ_span[of ft a'] g(1,4) top_span[of api ft] by (auto simp: top_defs)
  then have "space_free (map span_of held) (span_of al)" using live_span[OF g(1,2)] g(3) held by (auto simp: space_free_def)
  moreover have "vm_inv api ft (a', al # held)" using assms(1) g by (auto simp: vm_inv_def)
  ultimately show ?thesis by blast
qed

lemma refuse_step:
  "vm_inv api ft (a, held) \<Longrightarrow> grown (top_ok api ft) (top_occ api ft) (top_live api ft) a a' None \<Longrightarrow> vm_inv api ft (a', held)"
  by (auto simp: vm_inv_def grown_def)

lemma free_step:
  assumes "vm_inv api ft (a, held)" and "i < length held"
  shows "\<exists>a'. pf_deallocate (TopLevelPageAllocator api ft) a (held ! i) = Inr a' \<and> vm_inv api ft (a', take i held @ drop (i + 1) held)"
proof -
  have h: "held = take i held @ held ! i # drop (i + 1) held" using assms(2) by (simp add: id_take_nth_drop)
  let ?rest = "take i held @ drop (i + 1) held"
  have inv: "top_ok api ft a" "\<forall>al\<in>set held. top_live api ft a al" "sorted_wrt (\<lambda>x y. covers x \<inter> covers y = {}) held"
    "top_occ api ft a = (\<Union>al\<in>set held. covers al)" using assms(1) by (auto simp: vm_inv_def)
  have sp: "set held = insert (held ! i) (set ?rest)"
    using arg_cong[OF h, of set] by simp
  have srt': "sorted_wrt (\<lambda>x y. covers x \<inter> covers y = {}) (take i held @ held ! i # drop (i + 1) held)" using inv(3) h by metis
  then have dis: "\<forall>x\<in>set ?rest. covers x \<inter> covers (held ! i) = {}" and srt: "sorted_wrt (\<lambda>x y. covers x \<inter> covers y = {}) ?rest"
    by (fastforce simp: sorted_wrt_append)+
  obtain a' where a': "pf_deallocate (TopLevelPageAllocator api ft) a (held ! i) = Inr a'" "top_ok api ft a'"
    "top_occ api ft a' = top_occ api ft a - covers (held ! i)"
    "\<forall>x. top_live api ft a x \<longrightarrow> covers x \<inter> covers (held ! i) = {} \<longrightarrow> top_live api ft a' x"
    using L4.level.deallocate_ok[of ft a "held ! i"] inv(1,2) sp by (auto simp: top_defs)
  have "top_occ api ft a' = (\<Union>al\<in>set ?rest. covers al)" using a'(3) dis unfolding inv(4) sp by blast
  moreover have "\<forall>x\<in>set ?rest. top_live api ft a' x" using a'(4) inv(2) dis unfolding sp by blast
  ultimately show ?thesis using a'(1,2) srt by (simp add: vm_inv_def)
qed

lemma step_refines:
  assumes "vm_inv api ft (a, held)" and "boxes_ok b" and "vm_valid api ft (length held) rq"
  shows "\<exists>a' held'. vm_step api ft b rq (a, held) = Inr (a', held') \<and> vm_inv api ft (a', held')
     \<and> space_step rq (map span_of held) (map span_of held')"
proof (cases rq)
  case (Allocate sz strat)
  obtain a' r where r: "pf_allocate (TopLevelPageAllocator api ft) b a sz strat = Inr (a', r)"
    "grown (top_ok api ft) (top_occ api ft) (top_live api ft) a a' r" "\<forall>al. r = Some al \<longrightarrow> alloc_size al = sz"
    using L4.level.allocate_ok[of ft a b sz strat] assms Allocate by (auto simp: top_defs vm_inv_def)
  show ?thesis
  proof (cases r)
    case None
    then show ?thesis using r refuse_step[OF assms(1)] Allocate by (auto intro: space_step.intros)
  next
    case (Some al)
    then have sp: "span_of al = (start_addr al, sz)" using r(3) by (simp add: span_of_def)
    have g: "vm_inv api ft (a', al # held)" "space_free (map span_of held) (span_of al)" using grant_step[OF assms(1)] r(2) Some by auto
    show ?thesis using r(1) Some g(1) space_step.granted[OF g(2)[unfolded sp]] sp Allocate by simp
  qed
next
  case (AllocateAt addr sz)
  obtain a' r where r: "pf_allocate_at (TopLevelPageAllocator api ft) b a addr sz = Inr (a', r)"
    "grown (top_ok api ft) (top_occ api ft) (top_live api ft) a a' r" "\<forall>al. r = Some al \<longrightarrow> start_addr al = addr \<and> alloc_size al = sz"
    using L4.level.allocate_at_ok[of ft a b addr sz] assms AllocateAt by (auto simp: top_defs vm_inv_def)
  show ?thesis
  proof (cases r)
    case None
    then show ?thesis using r(1) refuse_step[OF assms(1)] r(2) space_step.refused_at AllocateAt by simp
  next
    case (Some al)
    then have sp: "span_of al = (addr, sz)" using r(3) by (simp add: span_of_def)
    have g: "vm_inv api ft (a', al # held)" "space_free (map span_of held) (span_of al)" using grant_step[OF assms(1)] r(2) Some by auto
    show ?thesis using r(1) Some g(1) space_step.granted_at[OF g(2)[unfolded sp]] sp AllocateAt by simp
  qed
next
  case (Deallocate i)
  then show ?thesis using free_step[OF assms(1), of i] assms(3) space_step.freed[of i "map span_of held"]
    by (auto simp: vec_get_ok take_map drop_map)
qed

lemma fresh_inv: "box_ok p \<Longrightarrow> vm_inv api ft (mlff_new (X64Level4 api ft) p, [])"
  using L4.level.new_ok[of p ft] L4.level.fresh_ok[of _ ft] by (auto simp: vm_inv_def top_defs)

lemma reach_inv: "vm_reach api ft p s \<Longrightarrow> box_ok p \<Longrightarrow> vm_inv api ft s"
proof (induction rule: vm_reach.induct)
  case created
  then show ?case by (rule fresh_inv)
next
  case (request a held b rq s)
  then show ?case using step_refines[of ft a held b rq] by auto
qed

lemma first_request:
  assumes "box_ok p" and "boxes_ok b" and "page_request (TopLevelPageAllocator api ft) 0 sz" and "top_fits api ft sz strat"
  shows "\<exists>a al. vm_step api ft b (Allocate sz strat) (mlff_new (X64Level4 api ft) p, []) = Inr (a, [al]) \<and> vm_reach api ft p (a, [al]) \<and> alloc_size al = sz"
proof -
  let ?a = "mlff_new (X64Level4 api ft) p"
  have f: "l_fresh api ?a" using L4.level.new_ok[OF assms(1), of ft] by simp
  then obtain a al where "pf_allocate (TopLevelPageAllocator api ft) b ?a sz strat = Inr (a, Some al)" "alloc_size al = sz"
    using L4.level.allocate_ok[of ft ?a b sz strat] L4.level.fresh_ok[of ?a ft] assms by (auto simp: top_defs)
  then have "vm_step api ft b (Allocate sz strat) (?a, []) = Inr (a, [al])" "alloc_size al = sz" by auto
  moreover have "vm_valid api ft (length []) (Allocate sz strat)" using assms(3,4) by simp
  ultimately show ?thesis using vm_reach.request[OF vm_reach.created assms(2)] by blast
qed

end

section \<open>Properties\<close>

definition demo_features :: features where
  "demo_features = \<lparr>per_page_NXE_bit = True, page_global_bit = True, one_gb_huge_pages = False\<rparr>"

lemma demo_box: "box_ok KERNEL_PTABLE_VADDR" "boxes_ok (\<lambda>_. KERNEL_PTABLE_VADDR)"
  by (simp_all add: box_ok_def boxes_ok_def KERNEL_PTABLE_VADDR_def TOPLEVEL_PAGE_SIZE_def)

lemma demo_request:
  "page_request (TopLevelPageAllocator x86_pte demo_features) 0 0x201000" "top_fits x86_pte demo_features 0x201000 KALLOCATION_KERNEL_STACK"
proof -
  show "page_request (TopLevelPageAllocator x86_pte demo_features) 0 0x201000" by (simp add: page_request_def top_span)
  show "top_fits x86_pte demo_features 0x201000 KALLOCATION_KERNEL_STACK"
    by (simp add: top_defs mlff_fits_def search_npages_def whole_pages_def part_page_def KALLOCATION_KERNEL_STACK_def new_default_def
        pas_next_level_down_def)
qed

text \<open>C5: Whatever sequence of page-aligned requests an address space has served, the ranges it has handed out
  and not taken back are pairwise disjoint, lie in the 48-bit space, and are exactly the bytes its tables mark
  as used at all four levels; and no further valid request panics.\<close>

theorem held_ranges_disjoint:
  assumes "pte_crate api" and "box_ok p" and "vm_reach api ft p (a, held)"
  shows "sorted_wrt (\<lambda>x y. range_of (span_of x) \<inter> range_of (span_of y) = {}) held
    \<and> top_occ api ft a = (\<Union>al\<in>set held. range_of (span_of al)) \<and> top_occ api ft a \<subseteq> {..<2 ^ 48}
    \<and> (\<forall>b rq. boxes_ok b \<and> vm_valid api ft (length held) rq \<longrightarrow> \<not> panics (vm_step api ft b rq (a, held)))"
proof -
  have inv: "vm_inv api ft (a, held)" using pte_crate.reach_inv[OF assms(1,3,2)] .
  then have cov: "\<And>al. al \<in> set held \<Longrightarrow> covers al = range_of (span_of al)"
    using pte_crate.live_span[OF assms(1)] by (auto simp: vm_inv_def)
  have "sorted_wrt (\<lambda>x y. range_of (span_of x) \<inter> range_of (span_of y) = {}) held"
    by (rule sorted_wrt_mono_rel[where P = "\<lambda>x y. covers x \<inter> covers y = {}"]) (use inv cov in \<open>auto simp: vm_inv_def\<close>)
  moreover have "top_occ api ft a = (\<Union>al\<in>set held. range_of (span_of al))" using inv cov by (auto simp: vm_inv_def)
  moreover have "top_occ api ft a \<subseteq> {..<2 ^ 48}"
    using pte_crate.top_laws(5)[OF assms(1), of ft a] inv top_span[of api ft] by (auto simp: vm_inv_def top_defs)
  moreover have "\<not> panics (vm_step api ft b rq (a, held))" if "boxes_ok b" "vm_valid api ft (length held) rq" for b rq
    using pte_crate.step_refines[OF assms(1) inv that] by auto
  ultimately show ?thesis by blast
qed

theorem held_ranges_disjoint_witness:
  "\<exists>a al. vm_reach x86_pte demo_features KERNEL_PTABLE_VADDR (a, [al]) \<and> alloc_size al = 0x201000
    \<and> top_occ x86_pte demo_features a = range_of (span_of al)"
proof -
  obtain a al where r: "vm_reach x86_pte demo_features KERNEL_PTABLE_VADDR (a, [al])" "alloc_size al = 0x201000"
    using x86.first_request[OF demo_box demo_request] by blast
  show ?thesis using held_ranges_disjoint[OF x86.pte_crate_axioms demo_box(1) r(1)] r by auto
qed

text \<open>C4: The four-level allocator implements the specification of an address space: from a state that satisfies
  the invariant, each valid request is a step of the list-of-disjoint-ranges specification, which grants a
  request only a range that is free.\<close>

theorem vm_step_refines:
  assumes "pte_crate api" and "vm_inv api ft (a, held)" and "boxes_ok b" and "vm_valid api ft (length held) rq"
  shows "\<exists>a' held'. vm_step api ft b rq (a, held) = Inr (a', held') \<and> vm_inv api ft (a', held')
     \<and> space_step rq (map span_of held) (map span_of held')"
  using pte_crate.step_refines[OF assms] .

theorem vm_step_refines_witness:
  "\<exists>a held. vm_step x86_pte demo_features (\<lambda>_. KERNEL_PTABLE_VADDR) (Allocate 0x201000 KALLOCATION_KERNEL_STACK)
       (mlff_new (X64Level4 x86_pte demo_features) KERNEL_PTABLE_VADDR, []) = Inr (a, held)
     \<and> space_step (Allocate 0x201000 KALLOCATION_KERNEL_STACK) [] (map span_of held)"
  using vm_step_refines[OF x86.pte_crate_axioms x86.fresh_inv[OF demo_box(1)] demo_box(2), where ft = demo_features and rq = "Allocate 0x201000 KALLOCATION_KERNEL_STACK"]
    demo_request by auto

text \<open>A request for more pages than a table has underflows the computation of the search range.\<close>

lemma oversized_request_panics:
  "mlff_NPAGES M < search_npages M sz \<Longrightarrow> strat \<noteq> [] \<Longrightarrow> mlff_allocate M b a sz strat = Inl ArithOverflow"
  by (simp add: mlff_allocate_def pas_current_def vec_get_def search_end_def usub_def search_npages_def Let_def)

lemma spread_skips:
  assumes "length (availability_bitmap a) = 128" and "SUBTABLES M" and "spread_mode strategy" and "\<And>i. i < 512 \<Longrightarrow> avail a i \<noteq> 0"
    and "\<And>i. i \<in> set offsets \<Longrightarrow> i < 512"
  shows "search_offsets M b strategy strat 0 r offsets a = Inr (a, None)"
  using assms(5)
proof (induction offsets)
  case (Cons i offsets)
  then show ?case using assms(1-4) get_availability_ok[OF assms(1), of i] by (simp add: try_offset_def)
qed simp

text \<open>An allocation smaller than a page of its level, under a strategy with \<open>spread_mode\<close>, fails and changes
  nothing as soon as every slot has a sub-table, however empty those are: the second round of the search applies
  the same restriction as the first.\<close>

theorem spread_mode_never_falls_back:
  assumes "length (availability_bitmap a) = 128" and "\<forall>i<512. avail a i \<noteq> 0" and "0 < sz" and "sz < 0x40000000"
  shows "mlff_allocate (X64Level3 api ft) b a sz (tl KALLOCATION_KERNEL_STACK) = Inr (a, None)"
proof -
  let ?M = "X64Level3 api ft" let ?s = "new_default\<lparr>reverse_order := True, spread_mode := True\<rparr>"
  have w: "whole_pages ?M sz = 0" "part_page ?M sz = sz" using assms(4) by (simp_all add: whole_pages_def part_page_def)
  have st: "tl KALLOCATION_KERNEL_STACK = [?s, new_default\<lparr>reverse_order := True\<rparr>]" by (simp add: KALLOCATION_KERNEL_STACK_def)
  have "set (concat (replicate 2 (rev [0..<512]))) \<subseteq> {..<512 :: nat}" by auto
  then have "search_offsets ?M b ?s (tl KALLOCATION_KERNEL_STACK) 0 sz (concat (replicate 2 (rev [0..<512]))) a = Inr (a, None)"
    using assms(1,2) by (intro spread_skips) (auto simp: new_default_def)
  then show ?thesis unfolding mlff_allocate_def pas_current_def st w
    using assms(3) by (simp add: vec_get_def new_default_def search_end_def usub_def Let_def)
qed

definition spread_demo :: level3 where
  "spread_demo = \<lparr>mlff_table = x64_new, suballocators = replicate 512 (Some (mlff_new (X64Level2 x86_pte demo_features) KERNEL_PTABLE_VADDR)),
     availability_bitmap = replicate 128 0x55, table_ptr = KERNEL_PTABLE_VADDR\<rparr>"

lemma spread_demo_avail: "i < 512 \<Longrightarrow> avail spread_demo i = 1"
proof -
  assume "i < 512"
  then have "availability_bitmap spread_demo ! (i div 4) = 0x55" by (simp add: spread_demo_def)
  moreover have "i mod 4 = 0 \<or> i mod 4 = 1 \<or> i mod 4 = 2 \<or> i mod 4 = 3" by linarith
  ultimately show ?thesis by (auto simp: avail_def)
qed

end
