(* ===== verification/Page_Api.thy ===== *)
theory Page_Api
  imports Page_Levels Page_Values
begin

text \<open>
  The paging API (\<open>memory/paging/api.rs\<close>): locked page allocators, page allocations and the operations
  on them (mapping, marking absent, splitting, freeing), the flushing of the TLB
  (\<open>memory/paging/arch/x86_64.rs\<close>), and paging contexts with their global tables.

  The source's generic functions over page allocators recurse through the level types; \<open>pfa_walk\<close> is
  the dictionary of those functions and \<open>mlff_walk\<close> builds the one of a level from the one below.
  The lock around an allocator is not modelled here: an operation is what its write guard does while
  it is held.
\<close>

section \<open>Walking an allocation\<close>

record 'a pfa_walk =
  pw_set_addr :: "'a \<Rightarrow> PartialPageAllocation \<Rightarrow> nat \<Rightarrow> nat \<Rightarrow> PageFlags \<Rightarrow> 'a exec"
  pw_set_missing :: "'a \<Rightarrow> PartialPageAllocation \<Rightarrow> nat \<Rightarrow> nat \<Rightarrow> 'a exec"
  pw_split_alloc :: "boxes \<Rightarrow> 'a \<Rightarrow> PartialPageAllocation \<Rightarrow> nat \<Rightarrow> ('a \<times> PartialPageAllocation \<times> PartialPageAllocation) exec"

fun foreach_entries :: "(nat \<Rightarrow> nat \<Rightarrow> 't \<Rightarrow> 't exec) \<Rightarrow> (nat \<Rightarrow> nat \<Rightarrow> 't \<Rightarrow> 't exec) \<Rightarrow> nat \<Rightarrow> PAllocItem list \<Rightarrow> 't \<Rightarrow> 't exec" where
  "foreach_entries body sabody parentoffset [] t = Inr t"
| "foreach_entries body sabody parentoffset (Page i off # xs) t =
     exec_bind (body i (parentoffset + off) t) (foreach_entries body sabody parentoffset xs)"
| "foreach_entries body sabody parentoffset (SubTable i off al # xs) t =
     exec_bind (sabody i (parentoffset + off) t) (foreach_entries body sabody parentoffset xs)"

fun foreach_subs :: "('t, 's) mlff_type \<Rightarrow> ('s \<Rightarrow> PartialPageAllocation \<Rightarrow> nat \<Rightarrow> 's exec) \<Rightarrow> nat \<Rightarrow> PAllocItem list
    \<Rightarrow> ('t, 's) MLFFAllocator \<Rightarrow> ('t, 's) MLFFAllocator exec" where
  "foreach_subs M f parentoffset [] a = Inr a"
| "foreach_subs M f parentoffset (Page i off # xs) a = foreach_subs M f parentoffset xs a"
| "foreach_subs M f parentoffset (SubTable i off al # xs) a =
     exec_bind (get_suballocator_mut M a i) (\<lambda>st.
     exec_bind (unwrap st) (\<lambda>st.
     exec_bind (f st al (parentoffset + off)) (\<lambda>st.
     exec_bind (put_sub i st a) (foreach_subs M f parentoffset xs))))"

definition ppa_foreach :: "('t, 's) mlff_type \<Rightarrow> (nat \<Rightarrow> nat \<Rightarrow> 't \<Rightarrow> 't exec) \<Rightarrow> (nat \<Rightarrow> nat \<Rightarrow> 't \<Rightarrow> 't exec)
    \<Rightarrow> ('s \<Rightarrow> PartialPageAllocation \<Rightarrow> nat \<Rightarrow> 's exec) \<Rightarrow> ('t, 's) MLFFAllocator \<Rightarrow> PartialPageAllocation \<Rightarrow> nat \<Rightarrow> ('t, 's) MLFFAllocator exec" where
  "ppa_foreach M body sabody recur a al parentoffset =
     exec_bind (foreach_entries body sabody parentoffset (entries al) (mlff_table a)) (\<lambda>t.
       foreach_subs M recur parentoffset (entries al) (a\<lparr>mlff_table := t\<rparr>))"

definition set_addr_inner :: "('t, 's) mlff_type \<Rightarrow> 's pfa_walk \<Rightarrow> ('t, 's) MLFFAllocator \<Rightarrow> PartialPageAllocation \<Rightarrow> nat \<Rightarrow> nat \<Rightarrow> PageFlags
    \<Rightarrow> ('t, 's) MLFFAllocator exec" where
  "set_addr_inner M W a al parentoffset base_addr flags =
     ppa_foreach M (\<lambda>i off t. pt_set_huge_addr (mt_table M) t i (base_addr + off) flags)
       (\<lambda>i off t. pt_add_subtable_flags (mt_table M) False t i flags)
       (\<lambda>st al off. pw_set_addr W st al off base_addr flags) a al parentoffset"

definition set_missing_inner :: "('t, 's) mlff_type \<Rightarrow> 's pfa_walk \<Rightarrow> ('t, 's) MLFFAllocator \<Rightarrow> PartialPageAllocation \<Rightarrow> nat \<Rightarrow> nat
    \<Rightarrow> ('t, 's) MLFFAllocator exec" where
  "set_missing_inner M W a al parentoffset data =
     ppa_foreach M (\<lambda>i off t. pt_set_absent (mt_table M) t i data) (\<lambda>i off t. Inr t)
       (\<lambda>st al off. pw_set_missing W st al off data) a al parentoffset"

section \<open>Splitting an allocation\<close>

definition split_sub :: "('t, 's) mlff_type \<Rightarrow> 's pfa_walk \<Rightarrow> boxes \<Rightarrow> nat \<Rightarrow> nat \<Rightarrow> PartialPageAllocation \<Rightarrow> nat \<Rightarrow> ('t, 's) MLFFAllocator
    \<Rightarrow> (('t, 's) MLFFAllocator \<times> PAllocItem \<times> PAllocItem) exec" where
  "split_sub M W boxes i off al mid a =
     exec_bind (get_suballocator_mut M a i) (\<lambda>st.
     exec_bind (unwrap st) (\<lambda>st.
     exec_bind (unwrap (if off \<le> mid then Some (mid - off) else None)) (\<lambda>lhs_size.
     exec_bind (pw_split_alloc W (\<lambda>p. boxes (i # p)) st al lhs_size) (\<lambda>(st, left, right).
     exec_bind (put_sub i st a) (\<lambda>a.
       Inr (a, SubTable i off left, SubTable i (off + lhs_size) right))))))"

definition split_item :: "('t, 's) mlff_type \<Rightarrow> 's pfa_walk \<Rightarrow> boxes \<Rightarrow> PAllocItem \<Rightarrow> nat \<Rightarrow> ('t, 's) MLFFAllocator
    \<Rightarrow> (('t, 's) MLFFAllocator \<times> PAllocItem \<times> PAllocItem) exec" where
  "split_item M W boxes item mid a = (case item of
       SubTable i off al \<Rightarrow> split_sub M W boxes i off al mid a
     | Page i off \<Rightarrow>
         exec_bind (mlff_split_page M boxes a i) (\<lambda>(a, r). case r of
           Some al \<Rightarrow> split_sub M W boxes i off al mid a
         | None \<Rightarrow> Inl ExplicitPanic))"

fun split_entries :: "('t, 's) mlff_type \<Rightarrow> 's pfa_walk \<Rightarrow> boxes \<Rightarrow> nat \<Rightarrow> PAllocItem list \<Rightarrow> PAllocItem list \<Rightarrow> PAllocItem list
    \<Rightarrow> ('t, 's) MLFFAllocator \<Rightarrow> (('t, 's) MLFFAllocator \<times> PAllocItem list \<times> PAllocItem list) exec" where
  "split_entries M W boxes mid [] lhs rhs a = Inr (a, lhs, rhs)"
| "split_entries M W boxes mid (item # rest) lhs rhs a =
     (if item_offset item < mid then
        if (case rest of [] \<Rightarrow> True | ni # _ \<Rightarrow> item_offset ni > mid)
        then exec_bind (split_item M W boxes item mid a) (\<lambda>(a, l, r).
               split_entries M W boxes mid rest (lhs @ [l]) (rhs @ [r]) a)
        else split_entries M W boxes mid rest (lhs @ [item]) rhs a
      else split_entries M W boxes mid rest lhs (rhs @ [item]) a)"

definition rebase :: "PAllocItem list \<Rightarrow> PAllocItem list" where
  "rebase rhs = (case rhs of [] \<Rightarrow> [] | x # _ \<Rightarrow> map (offset_mut (\<lambda>n. n - item_offset x)) rhs)"

definition split_alloc_inner :: "('t, 's) mlff_type \<Rightarrow> 's pfa_walk \<Rightarrow> boxes \<Rightarrow> ('t, 's) MLFFAllocator \<Rightarrow> PartialPageAllocation \<Rightarrow> nat
    \<Rightarrow> (('t, 's) MLFFAllocator \<times> PartialPageAllocation \<times> PartialPageAllocation) exec" where
  "split_alloc_inner M W boxes a al mid =
     exec_bind (split_entries M W boxes mid (entries al) [] [] a) (\<lambda>(a, lhs, rhs).
       Inr (a, PartialPageAllocation lhs (mlff_PAGE_SIZE M), PartialPageAllocation (rebase rhs) (mlff_PAGE_SIZE M)))"

definition mlff_walk :: "('t, 's) mlff_type \<Rightarrow> 's pfa_walk \<Rightarrow> ('t, 's) MLFFAllocator pfa_walk" where
  "mlff_walk M W = \<lparr>pw_set_addr = set_addr_inner M W, pw_set_missing = set_missing_inner M W, pw_split_alloc = split_alloc_inner M W\<rparr>"

definition no_walk :: "unit pfa_walk" where
  "no_walk = \<lparr>pw_set_addr = (\<lambda>_ _ _ _ _. Inl ExplicitPanic), pw_set_missing = (\<lambda>_ _ _ _. Inl ExplicitPanic),
     pw_split_alloc = (\<lambda>_ _ _ _. Inl ExplicitPanic)\<rparr>"

definition walk1 :: "pte_api \<Rightarrow> features \<Rightarrow> level1 pfa_walk" where
  "walk1 api ft = mlff_walk (X64Level1 api ft) no_walk"

definition walk2 :: "pte_api \<Rightarrow> features \<Rightarrow> level2 pfa_walk" where
  "walk2 api ft = mlff_walk (X64Level2 api ft) (walk1 api ft)"

definition walk3 :: "pte_api \<Rightarrow> features \<Rightarrow> level3 pfa_walk" where
  "walk3 api ft = mlff_walk (X64Level3 api ft) (walk2 api ft)"

definition walk4 :: "pte_api \<Rightarrow> features \<Rightarrow> level4 pfa_walk" where
  "walk4 api ft = mlff_walk (X64Level4 api ft) (walk3 api ft)"

section \<open>Flushing the TLB\<close>

text \<open>
  The addresses given to the instruction that invalidates one page.  Virtual addresses belong to an
  external crate: \<open>va_new\<close> refuses addresses that are not canonical, \<open>va_new_truncate\<close> makes them so.
\<close>

record virt_api =
  va_new :: "nat \<Rightarrow> nat exec"
  va_new_truncate :: "nat \<Rightarrow> nat"

definition canonical :: "nat \<Rightarrow> bool" where
  "canonical x \<longleftrightarrow> x < 2 ^ 47 \<or> (2 ^ 64 - 2 ^ 47 \<le> x \<and> x < 2 ^ 64)"

locale virt_crate =
  fixes V :: virt_api
  assumes new_canonical: "canonical x \<Longrightarrow> va_new V x = Inr x"
    and new_other: "\<not> canonical x \<Longrightarrow> panics (va_new V x)"
    and truncate: "va_new_truncate V x = (let y = x mod 2 ^ 48 in if y < 2 ^ 47 then y else y + (2 ^ 64 - 2 ^ 48))"

function call_invlpg_recursive :: "virt_api \<Rightarrow> PartialPageAllocation \<Rightarrow> nat \<Rightarrow> nat list exec"
  and invlpg_items :: "virt_api \<Rightarrow> PAllocItem list \<Rightarrow> nat \<Rightarrow> nat list exec" where
  "call_invlpg_recursive V (PartialPageAllocation xs ps) voffset = invlpg_items V xs voffset"
| "invlpg_items V [] voffset = Inr []"
| "invlpg_items V (Page i off # xs) voffset =
     exec_bind (va_new V (voffset + off)) (\<lambda>x. exec_bind (invlpg_items V xs voffset) (\<lambda>fs. Inr (x # fs)))"
| "invlpg_items V (SubTable i off al # xs) voffset =
     exec_bind (call_invlpg_recursive V al (voffset + off)) (\<lambda>fs. exec_bind (invlpg_items V xs voffset) (\<lambda>gs. Inr (fs @ gs)))"
  by pat_completeness auto
termination by (relation "measure (\<lambda>x. case x of Inl (_, al, _) \<Rightarrow> size al | Inr (_, xs, _) \<Rightarrow> size_list size xs)") auto

definition inval_tlb_pg :: "virt_api \<Rightarrow> PartialPageAllocation \<Rightarrow> nat \<Rightarrow> nat list exec" where
  "inval_tlb_pg V al voffset = call_invlpg_recursive V al (start_addr al + voffset)"

section \<open>Locked page allocators and page allocations\<close>

record LPAWGOptions =
  auto_flush_tlb :: bool
  is_global_page :: bool

definition options_default :: LPAWGOptions where
  "options_default = \<lparr>auto_flush_tlb = False, is_global_page = False\<rparr>"

record LPAMetadata =
  meta_offset :: nat
  default_options :: LPAWGOptions

record 'a LPAInternal =
  lpa_alloc :: 'a
  lpa_meta :: LPAMetadata
  active_count :: "16 word"

record PageAllocation =
  pa_allocation :: PartialPageAllocation
  pa_metadata :: LPAMetadata
  baseaddr_offset :: nat

text \<open>What the generic code needs of an allocator type: its trait, the recursive functions, and addresses.\<close>

record 'a vmem_type =
  vt_pfa :: "'a pfa"
  vt_walk :: "'a pfa_walk"
  vt_virt :: virt_api

definition lpa_new :: "'a \<Rightarrow> LPAMetadata \<Rightarrow> 'a LPAInternal" where
  "lpa_new alloc meta = \<lparr>lpa_alloc = alloc, lpa_meta = meta, active_count = 0\<rparr>"

definition begin_active :: "'a LPAInternal \<Rightarrow> 'a LPAInternal" where
  "begin_active lpa = lpa\<lparr>active_count := active_count lpa + 1\<rparr>"

definition end_active :: "'a LPAInternal \<Rightarrow> 'a LPAInternal" where
  "end_active lpa = lpa\<lparr>active_count := active_count lpa - 1\<rparr>"

definition write_when_active :: "'a LPAInternal \<Rightarrow> LPAWGOptions" where
  "write_when_active lpa = (default_options (lpa_meta lpa))\<lparr>auto_flush_tlb := active_count lpa > 0\<rparr>"

definition pa_new :: "'a LPAInternal \<Rightarrow> PartialPageAllocation \<Rightarrow> PageAllocation" where
  "pa_new lpa al = \<lparr>pa_allocation = al, pa_metadata = lpa_meta lpa, baseaddr_offset = 0\<rparr>"

definition pa_normalize :: "PageAllocation \<Rightarrow> PageAllocation" where
  "pa_normalize pa = pa\<lparr>baseaddr_offset := 0\<rparr>"

definition pa_start :: "'a vmem_type \<Rightarrow> PageAllocation \<Rightarrow> PageAlignedAddressT exec" where
  "pa_start T pa = exec_bind (uadd (start_addr (pa_allocation pa)) (meta_offset (pa_metadata pa))) (\<lambda>x.
     address_new (va_new_truncate (vt_virt T) x))"

definition pa_base :: "'a vmem_type \<Rightarrow> PageAllocation \<Rightarrow> nat exec" where
  "pa_base T pa = exec_bind (pa_start T pa) (\<lambda>s. exec_bind (address_get s) (\<lambda>x. uadd x (baseaddr_offset pa)))"

definition pa_end :: "'a vmem_type \<Rightarrow> PageAllocation \<Rightarrow> PageAlignedAddressT exec" where
  "pa_end T pa = exec_bind (uadd (end_addr (pa_allocation pa)) (meta_offset (pa_metadata pa))) (\<lambda>x.
     address_new (va_new_truncate (vt_virt T) x))"

definition pa_size :: "PageAllocation \<Rightarrow> PageAllocationSizeT exec" where
  "pa_size pa = exec_bind (size_new_checked (alloc_size (pa_allocation pa))) unwrap"

definition pa_length_after_base :: "PageAllocation \<Rightarrow> nat exec" where
  "pa_length_after_base pa = exec_bind (pa_size pa) (\<lambda>s. exec_bind (size_get s) (\<lambda>x. usub x (baseaddr_offset pa)))"

definition lpa_allocate :: "'a vmem_type \<Rightarrow> boxes \<Rightarrow> 'a LPAInternal \<Rightarrow> PageAllocationSizeT \<Rightarrow> strategies \<Rightarrow> ('a LPAInternal \<times> PageAllocation option) exec" where
  "lpa_allocate T b lpa sz alloc_strat =
     exec_bind (size_get sz) (\<lambda>sz.
     exec_bind (pf_allocate (vt_pfa T) b (lpa_alloc lpa) sz alloc_strat) (\<lambda>(a, r).
       Inr (lpa\<lparr>lpa_alloc := a\<rparr>, map_option (pa_new lpa) r)))"

definition lpa_allocate_at :: "'a vmem_type \<Rightarrow> boxes \<Rightarrow> 'a LPAInternal \<Rightarrow> PageAlignedAddressT \<Rightarrow> PageAllocationSizeT \<Rightarrow> ('a LPAInternal \<times> PageAllocation option) exec" where
  "lpa_allocate_at T b lpa addr sz =
     exec_bind (address_get addr) (\<lambda>addr.
     exec_bind (if meta_offset (lpa_meta lpa) \<le> addr then Inr (addr - meta_offset (lpa_meta lpa)) else Inl ExplicitPanic) (\<lambda>rel_addr.
     exec_bind (size_get sz) (\<lambda>sz.
     exec_bind (pf_allocate_at (vt_pfa T) b (lpa_alloc lpa) rel_addr sz) (\<lambda>(a, r). case r of
       None \<Rightarrow> Inr (lpa\<lparr>lpa_alloc := a\<rparr>, None)
     | Some al \<Rightarrow>
         exec_bind (pa_start T (pa_new lpa al)) (\<lambda>s.
         exec_bind (address_get s) (\<lambda>s.
         exec_bind (assert_that (addr = s)) (\<lambda>_.
           Inr (lpa\<lparr>lpa_alloc := a\<rparr>, Some (pa_new lpa al)))))))))"

definition lpa_allocate_alignedoffset :: "'a vmem_type \<Rightarrow> boxes \<Rightarrow> 'a LPAInternal \<Rightarrow> nat \<Rightarrow> strategies \<Rightarrow> nat \<Rightarrow> ('a LPAInternal \<times> PageAllocation option) exec" where
  "lpa_allocate_alignedoffset T b lpa sz alloc_strat phys_addr =
     exec_bind (address_new_rounded_with_excess phys_addr) (\<lambda>(phys_addr_aligned, allocation_offset).
     exec_bind (uadd sz allocation_offset) (\<lambda>allocated_size.
     exec_bind (size_new_rounded_with_excess allocated_size) (\<lambda>(allocated_size, _).
     exec_bind (lpa_allocate T b lpa allocated_size KALLOCATION_DYN_MMIO) (\<lambda>(lpa, r).
       Inr (lpa, map_option (\<lambda>pa. pa\<lparr>baseaddr_offset := baseaddr_offset pa + allocation_offset\<rparr>) r)))))"

section \<open>Operations on page allocations\<close>

text \<open>Each returns the addresses that were flushed from the TLB.\<close>

definition invalidate_tlb :: "'a vmem_type \<Rightarrow> PageAllocation \<Rightarrow> nat list exec" where
  "invalidate_tlb T pa = exec_bind (pa_start T pa) (\<lambda>_. inval_tlb_pg (vt_virt T) (pa_allocation pa) (meta_offset (pa_metadata pa)))"

definition auto_flush :: "'a vmem_type \<Rightarrow> 'a LPAInternal \<Rightarrow> PageAllocation \<Rightarrow> nat list exec" where
  "auto_flush T lpa pa = (if auto_flush_tlb (write_when_active lpa) then invalidate_tlb T pa else Inr [])"

definition guard_set_base_addr :: "'a vmem_type \<Rightarrow> 'a LPAInternal \<Rightarrow> PageAllocation \<Rightarrow> nat \<Rightarrow> PageFlags \<Rightarrow> ('a LPAInternal \<times> nat list) exec" where
  "guard_set_base_addr T lpa pa base_addr flags =
     (let flags = (if is_global_page (write_when_active lpa) then flags_or_m flags {MF_GLOBAL} else flags) in
     exec_bind (pw_set_addr (vt_walk T) (lpa_alloc lpa) (pa_allocation pa) 0 base_addr flags) (\<lambda>a.
     exec_bind (auto_flush T lpa pa) (\<lambda>fs. Inr (lpa\<lparr>lpa_alloc := a\<rparr>, fs))))"

definition guard_set_absent :: "'a vmem_type \<Rightarrow> 'a LPAInternal \<Rightarrow> PageAllocation \<Rightarrow> nat \<Rightarrow> ('a LPAInternal \<times> nat list) exec" where
  "guard_set_absent T lpa pa data =
     exec_bind (pw_set_missing (vt_walk T) (lpa_alloc lpa) (pa_allocation pa) 0 data) (\<lambda>a.
     exec_bind (auto_flush T lpa pa) (\<lambda>fs. Inr (lpa\<lparr>lpa_alloc := a\<rparr>, fs)))"

definition guard_dealloc :: "'a vmem_type \<Rightarrow> 'a LPAInternal \<Rightarrow> PageAllocation \<Rightarrow> ('a LPAInternal \<times> nat list) exec" where
  "guard_dealloc T lpa pa =
     exec_bind (pf_deallocate (vt_pfa T) (lpa_alloc lpa) (pa_allocation pa)) (\<lambda>a.
     exec_bind (auto_flush T lpa pa) (\<lambda>fs. Inr (lpa\<lparr>lpa_alloc := a\<rparr>, fs)))"

definition split_allocation :: "'a vmem_type \<Rightarrow> boxes \<Rightarrow> 'a LPAInternal \<Rightarrow> PageAllocation \<Rightarrow> PageAllocationSizeT
    \<Rightarrow> ('a LPAInternal \<times> PageAllocation \<times> PageAllocation) exec" where
  "split_allocation T b lpa pa mid =
     exec_bind (size_get mid) (\<lambda>mid.
     exec_bind (pw_split_alloc (vt_walk T) b (lpa_alloc lpa) (pa_allocation pa) mid) (\<lambda>(a, lhs, rhs).
       Inr (lpa\<lparr>lpa_alloc := a\<rparr>, pa\<lparr>pa_allocation := lhs\<rparr>, pa\<lparr>pa_allocation := rhs\<rparr>)))"

definition pa_set_base_addr :: "'a vmem_type \<Rightarrow> 'a LPAInternal \<Rightarrow> PageAllocation \<Rightarrow> nat \<Rightarrow> PageFlags \<Rightarrow> ('a LPAInternal \<times> nat list) exec" where
  "pa_set_base_addr T lpa pa base_addr flags = exec_bind (usub base_addr (baseaddr_offset pa)) (\<lambda>base. guard_set_base_addr T lpa pa base flags)"

definition pa_alloc_downwards :: "'a vmem_type \<Rightarrow> boxes \<Rightarrow> 'a LPAInternal \<Rightarrow> PageAllocation \<Rightarrow> PageAllocationSizeT \<Rightarrow> ('a LPAInternal \<times> PageAllocation option) exec" where
  "pa_alloc_downwards T b lpa pa sz =
     exec_bind (pa_start T pa) (\<lambda>s. exec_bind (address_get s) (\<lambda>x. exec_bind (size_get sz) (\<lambda>n.
     exec_bind (usub x n) (\<lambda>y. exec_bind (address_new y) (\<lambda>start. lpa_allocate_at T b lpa start sz)))))"

section \<open>Paging contexts and global tables\<close>

definition GLOBAL_PAGES_START_IDX :: nat where
  "GLOBAL_PAGES_START_IDX = 256"

definition KERNEL_STATIC_PT_IDX :: nat where
  "KERNEL_STATIC_PT_IDX = 511"

definition global_page_table_new :: "pte_api \<Rightarrow> features \<Rightarrow> virt_api \<Rightarrow> nat \<Rightarrow> nat \<Rightarrow> level3 LPAInternal" where
  "global_page_table_new api ft V p vmemaddr =
     lpa_new (mlff_new (X64Level3 api ft) p)
       \<lparr>meta_offset = va_new_truncate V vmemaddr, default_options = options_default\<lparr>is_global_page := True\<rparr>\<rparr>"

fun put_globals :: "('t, 's) mlff_type \<Rightarrow> nat \<Rightarrow> (nat \<times> PageFlags) list \<Rightarrow> ('t, 's) MLFFAllocator \<Rightarrow> ('t, 's) MLFFAllocator exec" where
  "put_globals M i [] a = Inr a"
| "put_globals M i ((phys_addr, flags) # gs) a = exec_bind (put_global_table M a i phys_addr flags) (put_globals M (i + 1) gs)"

definition paging_context_new :: "pte_api \<Rightarrow> features \<Rightarrow> nat \<Rightarrow> (nat \<times> PageFlags) list \<Rightarrow> nat \<times> PageFlags \<Rightarrow> level4 LPAInternal exec" where
  "paging_context_new api ft p globals kernel_static =
     exec_bind (put_globals (X64Level4 api ft) GLOBAL_PAGES_START_IDX globals (mlff_new (X64Level4 api ft) p)) (\<lambda>a.
     exec_bind (put_global_table (X64Level4 api ft) a KERNEL_STATIC_PT_IDX (fst kernel_static) (snd kernel_static)) (\<lambda>a.
       Inr (lpa_new a \<lparr>meta_offset = 0, default_options = options_default\<rparr>)))"

section \<open>The flush reaches exactly the mapped pages\<close>

fun leaf_pages :: "PartialPageAllocation \<Rightarrow> (nat \<times> nat) list" and item_leaves :: "nat \<Rightarrow> PAllocItem \<Rightarrow> (nat \<times> nat) list" where
  "leaf_pages (PartialPageAllocation xs ps) = concat (map (item_leaves ps) xs)"
| "item_leaves ps (Page i off) = [(i * ps, ps)]"
| "item_leaves ps (SubTable i off al) = map (\<lambda>(s, z). (s + i * ps, z)) (leaf_pages al)"

lemma adjacent_offset: "adjacent ps pos off xs \<Longrightarrow> x \<in> set xs \<Longrightarrow> item_start ps x + off = pos + item_offset x"
proof (induction xs arbitrary: pos off)
  case (Cons y ys)
  then show ?case by (cases "x = y") (auto simp: ac_simps dest!: Cons.IH)
qed simp

lemma leaf_pages_cover:
  "(\<Union>l\<in>set (leaf_pages al). {fst l..<fst l + snd l}) = covers al"
  "(\<Union>l\<in>set (item_leaves ps x). {fst l..<fst l + snd l}) = item_covers ps x"
proof (induction al and ps x rule: leaf_pages_item_leaves.induct)
  case (3 ps i off al)
  have "(\<Union>l\<in>set (item_leaves ps (SubTable i off al)). {fst l..<fst l + snd l}) =
      (\<lambda>x. x + i * ps) ` (\<Union>l\<in>set (leaf_pages al). {fst l..<fst l + snd l})"
    by (force simp: image_UN image_add_atLeastLessThan' case_prod_beta ac_simps)
  then show ?case using 3 by simp
qed (auto simp: UN_UN_flatten)

lemma invlpg_cons:
  "invlpg_items V (y # ys) base = exec_bind (invlpg_items V [y] base) (\<lambda>fs. exec_bind (invlpg_items V ys base) (\<lambda>gs. Inr (fs @ gs)))"
  by (cases y) (simp_all add: exec_bind_assoc)

lemma exec_bind_eq_id: "exec_bind m (\<lambda>x. Inr x) = m"
  by (cases m) auto

context virt_crate
begin

lemma invlpg_leaves:
  "wf_alloc al \<Longrightarrow> (\<forall>l\<in>set (leaf_pages al). start_addr al \<le> fst l) \<and>
     (\<forall>base. (\<forall>l\<in>set (leaf_pages al). canonical (base + (fst l - start_addr al))) \<longrightarrow>
        call_invlpg_recursive V al base = Inr (map (\<lambda>l. base + (fst l - start_addr al)) (leaf_pages al)))"
  "wf_item ps x \<Longrightarrow> (\<forall>l\<in>set (item_leaves ps x). item_start ps x \<le> fst l) \<and>
     (\<forall>base. (\<forall>l\<in>set (item_leaves ps x). canonical (base + item_offset x + (fst l - item_start ps x))) \<longrightarrow>
        invlpg_items V [x] base = Inr (map (\<lambda>l. base + item_offset x + (fst l - item_start ps x)) (item_leaves ps x)))"
proof (induction al and ps x rule: wf_alloc_wf_item.induct)
  case (1 xs ps)
  let ?pos = "item_start ps (hd xs)" and ?lv = "\<lambda>ys. concat (map (item_leaves ps) ys)"
  have wf: "xs \<noteq> []" "adjacent ps ?pos 0 xs" "\<And>x. x \<in> set xs \<Longrightarrow> wf_item ps x" using 1(2) by simp_all
  have adj: "item_start ps x = ?pos + item_offset x" if "x \<in> set xs" for x using adjacent_offset[OF wf(2) that] by simp
  have st: "start_addr (PartialPageAllocation xs ps) = ?pos" using wf(1) by (simp add: start_addr_eq)
  have low: "item_start ps x \<le> fst l" if "x \<in> set xs" "l \<in> set (item_leaves ps x)" for x l
    using conjunct1[OF 1(1)[OF that(1) wf(3)[OF that(1)]]] that(2) by blast
  have items: "invlpg_items V [x] base = Inr (map (\<lambda>l. base + item_offset x + (fst l - item_start ps x)) (item_leaves ps x))"
    if "x \<in> set xs" "\<forall>l\<in>set (item_leaves ps x). canonical (base + item_offset x + (fst l - item_start ps x))" for x base
    using conjunct2[OF 1(1)[OF that(1) wf(3)[OF that(1)]]] that(2) by blast
  have eq: "base + item_offset x + (fst l - item_start ps x) = base + (fst l - ?pos)" if "x \<in> set xs" "l \<in> set (item_leaves ps x)" for base x l
    using low[OF that] adj[OF that(1)] by simp
  have "invlpg_items V ys base = Inr (map (\<lambda>l. base + (fst l - ?pos)) (?lv ys))"
    if "set ys \<subseteq> set xs" "\<forall>l\<in>set (?lv xs). canonical (base + (fst l - ?pos))" for ys base
    using that(1)
  proof (induction ys)
    case (Cons y ys)
    then have y: "y \<in> set xs" by simp
    have "\<forall>l\<in>set (item_leaves ps y). canonical (base + item_offset y + (fst l - item_start ps y))"
    proof
      fix l assume l: "l \<in> set (item_leaves ps y)"
      show "canonical (base + item_offset y + (fst l - item_start ps y))" unfolding eq[OF y l] using that(2) y l by auto
    qed
    from items[OF y this] have "invlpg_items V [y] base = Inr (map (\<lambda>l. base + (fst l - ?pos)) (item_leaves ps y))" using eq[OF y] by simp
    then show ?case using Cons by (subst invlpg_cons) simp
  qed simp
  then have flush: "invlpg_items V xs base = Inr (map (\<lambda>l. base + (fst l - ?pos)) (?lv xs))"
    if "\<forall>l\<in>set (?lv xs). canonical (base + (fst l - ?pos))" for base using that by blast
  have "?pos \<le> fst l" if l: "l \<in> set (?lv xs)" for l
  proof -
    obtain x where "x \<in> set xs" "l \<in> set (item_leaves ps x)" using l by auto
    then show ?thesis using low adj by fastforce
  qed
  then show ?case using flush unfolding st by simp
next
  case (2 ps i off)
  then show ?case by (simp add: new_canonical)
next
  case (3 ps i off al)
  then show ?case by (auto simp: exec_bind_eq_id case_prod_beta comp_def ac_simps)
qed

lemma invlpg_first:
  "wf_alloc al \<Longrightarrow> \<not> canonical base \<Longrightarrow> panics (call_invlpg_recursive V al base)"
  "wf_item ps x \<Longrightarrow> item_offset x = 0 \<Longrightarrow> \<not> canonical base \<Longrightarrow> panics (invlpg_items V (x # xs) base)"
proof (induction al and ps x arbitrary: base and base xs rule: wf_alloc_wf_item.induct)
  case (1 ys ps)
  obtain y ys' where ys: "ys = y # ys'" using 1(2) by (cases ys) auto
  then have "wf_item ps y" "item_offset y = 0" "y \<in> set ys" using 1(2) by auto
  then show ?case using 1(1)[of y] 1(3) ys by simp
next
  case (2 ps i off)
  then show ?case using new_other[of base] by (cases "va_new V base") auto
next
  case (3 ps i off al)
  then have "panics (call_invlpg_recursive V al base)" by simp
  then show ?case using 3 by (cases "call_invlpg_recursive V al base") auto
qed

end

text \<open>The functions of the crate as the x86-64 manual has canonical addresses.\<close>

definition x86_virt :: virt_api where
  "x86_virt = \<lparr>va_new = (\<lambda>x. if canonical x then Inr x else Inl ExplicitPanic),
     va_new_truncate = (\<lambda>x. let y = x mod 2 ^ 48 in if y < 2 ^ 47 then y else y + (2 ^ 64 - 2 ^ 48))\<rparr>"

interpretation x86v: virt_crate x86_virt
  by unfold_locales (simp_all add: x86_virt_def)

definition demo_alloc :: PartialPageAllocation where
  "demo_alloc = PartialPageAllocation [SubTable 10 0 (PartialPageAllocation
     [Page 511 0] 0x200000), SubTable 11 0x200000 (PartialPageAllocation [SubTable 0 0 (PartialPageAllocation [Page 0 0, Page 1 4096] 4096)] 0x200000)] 0x40000000"

text \<open>C29: The TLB flush for an allocation whose addresses are canonical returns, and invalidates each of its leaf
  pages once, whatever mix of page sizes it consists of; those pages make up exactly the allocation.\<close>

theorem tlb_flush_exact:
  assumes "virt_crate V" and "wf_alloc al" and "\<forall>l\<in>set (leaf_pages al). canonical (fst l + voffset)"
  shows "inval_tlb_pg V al voffset = Inr (map (\<lambda>l. fst l + voffset) (leaf_pages al))
    \<and> (\<Union>l\<in>set (leaf_pages al). {fst l..<fst l + snd l}) = covers al"
proof -
  note lv = virt_crate.invlpg_leaves(1)[OF assms(1,2)]
  have eq: "start_addr al + voffset + (fst l - start_addr al) = fst l + voffset" if "l \<in> set (leaf_pages al)" for l
    using lv that by fastforce
  have "\<forall>l\<in>set (leaf_pages al). canonical (start_addr al + voffset + (fst l - start_addr al))"
    using assms(3) by (intro ballI, subst eq) auto
  then have "inval_tlb_pg V al voffset = Inr (map (\<lambda>l. start_addr al + voffset + (fst l - start_addr al)) (leaf_pages al))"
    using lv by (simp add: inval_tlb_pg_def)
  also have "\<dots> = Inr (map (\<lambda>l. fst l + voffset) (leaf_pages al))" using eq by simp
  finally show ?thesis using leaf_pages_cover(1) by blast
qed

theorem tlb_flush_exact_witness:
  "wf_alloc demo_alloc \<and> inval_tlb_pg x86_virt demo_alloc 0xFFFF800000000000 = Inr [0xFFFF8002BFE00000, 0xFFFF8002C0000000, 0xFFFF8002C0001000]"
proof -
  have wf: "wf_alloc demo_alloc" by (simp add: demo_alloc_def)
  have "\<forall>l\<in>set (leaf_pages demo_alloc). canonical (fst l + 0xFFFF800000000000)" by (simp add: demo_alloc_def canonical_def)
  from tlb_flush_exact[OF x86v.virt_crate_axioms wf this] wf show ?thesis by (simp add: demo_alloc_def)
qed

text \<open>In a table whose range starts at address 0, as that of every paging context does, flushing an allocation
  in the upper half panics, because the address passed on was never made canonical.\<close>

theorem tlb_flush_upper_half_panics:
  assumes "virt_crate V" and "wf_alloc al" and "2 ^ 47 \<le> start_addr al" and "end_addr al \<le> 2 ^ 48"
  shows "panics (inval_tlb_pg V al 0)"
proof -
  have "start_addr al < end_addr al" using wf_alloc_span(1)[OF assms(2)] by simp
  then have "\<not> canonical (start_addr al)" using assms(3,4) unfolding canonical_def by simp
  then show ?thesis using virt_crate.invlpg_first(1)[OF assms(1,2)] by (simp add: inval_tlb_pg_def)
qed

section \<open>A new paging context\<close>

context first_fit
begin

lemma put_global_ok:
  assumes "SUBTABLES M" and "aok a" and "i < 512" and "avail a i = 0" and "table_addr_ok p"
  shows "\<exists>a'. put_global_table M a i p fl = Inr a' \<and> upd i a a' \<and> igrown a a' [Page i 0]"
proof -
  have sh: "shape a" "tok (mlff_table a)" using assms(2) by (auto simp: mlff_ok_def mlff_shape_def)
  have free: "aslot a i = (None, None, 0)" using free_slot[OF assms(2-4)] .
  obtain t1 fl1 where t1: "pt_set_subtable_addr (mt_table M) (mlff_table a) i p = Inr t1" "tok t1" "entry t1 = (entry (mlff_table a))(i \<mapsto> Inr (p, fl1))"
    using table.set_subtable_ok[OF sh(2) assms(3,5)] by blast
  obtain t2 fl2 where t2: "pt_add_subtable_flags (mt_table M) True t1 i (flags_or_m fl {MF_GLOBAL}) = Inr t2" "tok t2" "entry t2 = (entry t1)(i \<mapsto> Inr (p, fl2))"
    using table.add_flags_ok[OF t1(2) assms(3)] t1(3) by fastforce
  let ?a = "a\<lparr>mlff_table := t2\<rparr>"
  obtain bm where bm: "set_availability ?a i 3 = Inr (?a\<lparr>availability_bitmap := bm\<rparr>)" "length bm = 128"
    "\<forall>j. avail (?a\<lparr>availability_bitmap := bm\<rparr>) j = (if j = i then 3 else avail ?a j)"
    using set_availability_ok[of ?a i 3] sh(1) assms(3) by (auto simp: mlff_shape_def)
  let ?a' = "?a\<lparr>availability_bitmap := bm\<rparr>"
  have run: "put_global_table M a i p fl = Inr ?a'"
    using assms(1,4) get_availability_ok[OF ok_bitmap[OF assms(2)] assms(3)] t1(1) t2(1) bm(1) by (simp add: put_global_table_def)
  have u: "upd i a ?a'" using sh(1) t1 t2 bm by (simp add: upd_def mlff_shape_def slot_def)
  have "aslot ?a' i = (None, Some (Inr (p, fl2)), 3)" using free t1(3) t2(3) bm(3) by (simp add: slot_def)
  then have "igrown a ?a' [Page i 0]"
    by (intro slot_grow[OF assms(2,3) u]) (use free in \<open>auto elim!: slot_live.elims\<close>)
  then show ?thesis using run u by blast
qed

lemma put_globals_ok:
  assumes "SUBTABLES M" and "aok a" and "i + length gs \<le> 512" and "\<And>j. i \<le> j \<Longrightarrow> j < i + length gs \<Longrightarrow> avail a j = 0"
    and "\<And>g. g \<in> set gs \<Longrightarrow> table_addr_ok (fst g)"
  shows "\<exists>a'. put_globals M i gs a = Inr a' \<and> aok a' \<and> (\<forall>j. j < i \<or> i + length gs \<le> j \<longrightarrow> avail a' j = avail a j)
     \<and> aocc a' = aocc a \<union> {i * PS..<(i + length gs) * PS}"
  using assms
proof (induction gs arbitrary: i a)
  case (Cons g gs)
  obtain p fl where g: "g = (p, fl)" by (cases g)
  obtain a1 where a1: "put_global_table M a i p fl = Inr a1" "upd i a a1" "igrown a a1 [Page i 0]"
    using put_global_ok[OF Cons.prems(1,2), of i p fl] Cons.prems(3) Cons.prems(4)[of i] Cons.prems(5)[of g] g by auto
  have "\<exists>a'. put_globals M (i + 1) gs a1 = Inr a' \<and> aok a' \<and> (\<forall>j. j < i + 1 \<or> i + 1 + length gs \<le> j \<longrightarrow> avail a' j = avail a1 j)
     \<and> aocc a' = aocc a1 \<union> {(i + 1) * PS..<(i + 1 + length gs) * PS}"
    by (rule Cons.IH[OF Cons.prems(1) igrown_ok[OF a1(3)]]) (use Cons.prems(3-5) upd_avail[OF a1(2)] in auto)
  then obtain a' where a': "put_globals M (i + 1) gs a1 = Inr a'" "aok a'" "\<forall>j. j < i + 1 \<or> i + 1 + length gs \<le> j \<longrightarrow> avail a' j = avail a1 j"
     "aocc a' = aocc a1 \<union> {(i + 1) * PS..<(i + 1 + length gs) * PS}" by blast
  have "aocc a1 = aocc a \<union> {i * PS..<(i + 1) * PS}" using a1(3) by (simp add: igrown_def)
  moreover have "{i * PS..<(i + 1) * PS} \<union> {(i + 1) * PS..<(i + 1 + length gs) * PS} = {i * PS..<(i + length (g # gs)) * PS}"
    by (subst ivl_disj_un_two(3)) auto
  ultimately have "aocc a' = aocc a \<union> {i * PS..<(i + length (g # gs)) * PS}" using a'(4) by (simp add: Un_assoc)
  moreover have "\<forall>j. j < i \<or> i + length (g # gs) \<le> j \<longrightarrow> avail a' j = avail a j" using a'(3) upd_avail[OF a1(2)] by auto
  ultimately show ?case using a1(1) a'(1,2) g by simp
qed simp

end

context pte_crate
begin

lemmas context_globals = L4.put_globals_ok L4.put_global_ok L4.level.new_ok L4.level.fresh_ok L4.fresh_avail L4.igrown_def L4.upd_avail

end

text \<open>Creating a paging context returns: its page allocator satisfies the invariant and has exactly the slots of the
  kernel, device and kernel-image tables in use, so all the rest of the 48-bit space is free.\<close>

lemma paging_context_new_ok:
  assumes "pte_crate api" and "box_ok p" and "table_addr_ok g1" and "table_addr_ok g2" and "table_addr_ok ks"
  shows "\<exists>lpa. paging_context_new api ft p [(g1, f1), (g2, f2)] (ks, f3) = Inr lpa \<and> top_ok api ft (lpa_alloc lpa)
    \<and> top_occ api ft (lpa_alloc lpa) = {2 ^ 47..<2 ^ 47 + 2 ^ 40} \<union> {2 ^ 48 - 2 ^ 39..<2 ^ 48} \<and> active_count lpa = 0
    \<and> lpa_meta lpa = \<lparr>meta_offset = 0, default_options = options_default\<rparr> \<and> avail (lpa_alloc lpa) 0 = 0"
proof -
  let ?M = "X64Level4 api ft" let ?a = "mlff_new ?M p"
  note laws = pte_crate.context_globals[OF assms(1)]
  have fr: "l_fresh api ?a" using laws(3)[OF assms(2), of ft] by simp
  have ok: "l4_ok api ft ?a" "l4_occ api ft ?a = {}" using laws(4)[OF fr, of ft] by auto
  have av: "avail ?a j = 0" if "j < 512" for j using laws(5)[OF fr that] .
  have gs: "table_addr_ok (fst g)" if "g \<in> set [(g1, f1), (g2, f2)]" for g using that assms(3,4) by auto
  obtain a1 where a1: "put_globals ?M 256 [(g1, f1), (g2, f2)] ?a = Inr a1" "l4_ok api ft a1"
    "\<forall>j. j < 256 \<or> 256 + 2 \<le> j \<longrightarrow> avail a1 j = avail ?a j" "l4_occ api ft a1 = {256 * 0x8000000000..<(256 + 2) * 0x8000000000}"
    using laws(1)[where gs = "[(g1, f1), (g2, f2)]" and i = 256, OF _ ok(1) _ _ gs] av ok(2) by (auto simp del: put_globals.simps)
  obtain a2 where a2: "put_global_table ?M a1 511 ks f3 = Inr a2" "l4_ok api ft a2" "l4_occ api ft a2 = l4_occ api ft a1 \<union> {511 * 0x8000000000..<512 * 0x8000000000}"
    and av2: "avail a2 0 = avail a1 0"
    using laws(2)[OF _ a1(2), of 511 ks f3] a1(3) av[of 511] assms(5) laws(7)[of 511 a1 _ 0] by (auto simp: laws(6))
  have "l4_occ api ft a2 = {2 ^ 47..<2 ^ 47 + 2 ^ 40} \<union> {2 ^ 48 - 2 ^ 39..<2 ^ 48}" using a1(4) a2(3) by simp
  moreover have "avail a2 0 = 0" using av2 a1(3) av[of 0] by simp
  ultimately show ?thesis using a1(1) a2(1,2)
    by (simp add: paging_context_new_def GLOBAL_PAGES_START_IDX_def KERNEL_STATIC_PT_IDX_def lpa_new_def top_defs)
qed

end
