(* ===== verification/Page_Mapping.thy ===== *)
theory Page_Mapping
  imports Page_Api
begin

text \<open>
  What mapping an allocation does to the tables.  \<open>mlff_leaf\<close> is the physical address that the entries
  record for a byte, following the allocator's own sub-tables; an entry for a page whose address is not a
  multiple of the page size translates nothing, as the processor faults on it.  The locale \<open>page_mapper\<close>
  extends the contract of a page allocator by the effect of \<open>pw_set_addr\<close>, and \<open>first_fit_map\<close>
  carries it from one level to the next.
\<close>

definition mlff_leaf :: "('t, 's) mlff_type \<Rightarrow> 't entry_view \<Rightarrow> ('s \<Rightarrow> nat \<Rightarrow> nat option) \<Rightarrow> ('t, 's) MLFFAllocator \<Rightarrow> nat \<Rightarrow> nat option" where
  "mlff_leaf M entry sleaf a x = (let i = x div mlff_PAGE_SIZE M; r = x mod mlff_PAGE_SIZE M in
     if i < 512 then (case suballocators a ! i of
         Some st \<Rightarrow> sleaf st r
       | None \<Rightarrow> (case entry (mlff_table a) i of
           Some (Inr (p, fl)) \<Rightarrow> if p mod mlff_PAGE_SIZE M = 0 then Some (p + r) else None
         | _ \<Rightarrow> None))
     else None)"

text \<open>Every page of the allocation falls on a multiple of its size when the allocation starts at \<open>base\<close>.\<close>

fun aligned_to :: "nat \<Rightarrow> PartialPageAllocation \<Rightarrow> bool" and aligned_item :: "nat \<Rightarrow> nat \<Rightarrow> PAllocItem \<Rightarrow> bool" where
  "aligned_to base (PartialPageAllocation xs ps) \<longleftrightarrow> (\<forall>x\<in>set xs. aligned_item base ps x)"
| "aligned_item base ps (Page i off) \<longleftrightarrow> (base + off) mod ps = 0"
| "aligned_item base ps (SubTable i off al) \<longleftrightarrow> aligned_to (base + off) al"

locale page_mapper = page_frame_allocator A ok occ fresh live fits
  for A :: "'a pfa" and ok occ fresh live fits +
  fixes W :: "'a pfa_walk" and leaf :: "'a \<Rightarrow> nat \<Rightarrow> nat option"
  assumes set_addr_ok: "ok a \<Longrightarrow> live a al \<Longrightarrow> aligned_to (base + off) al \<Longrightarrow> base + off + alloc_size al \<le> phys_limit \<Longrightarrow>
    \<exists>a'. pw_set_addr W a al off base fl = Inr a' \<and> ok a' \<and> occ a' = occ a \<and> live a' = live a
      \<and> (\<forall>x. leaf a' x = (if x \<in> covers al then Some (base + off + (x - start_addr al)) else leaf a x))"
    and congruent_aligned: "ok a \<Longrightarrow> live a al \<Longrightarrow> b mod pf_page_size A = start_addr al mod pf_page_size A \<Longrightarrow> aligned_to b al"

definition strip :: "(nat + (nat \<times> PageFlags)) option \<Rightarrow> (nat + nat) option" where
  "strip e = map_option (map_sum id fst) e"

lemma strip_simps [simp]: "strip None = None" "strip (Some (Inl d)) = Some (Inl d)" "strip (Some (Inr (p, fl))) = Some (Inr p)"
  by (simp_all add: strip_def)

lemma strip_None [simp]: "strip e = None \<longleftrightarrow> e = None"
  by (simp add: strip_def)

lemma strip_present: "strip e = Some (Inr p) \<longleftrightarrow> (\<exists>fl. e = Some (Inr (p, fl)))"
  by (cases e; cases "the e") (auto simp: strip_def)

locale first_fit_map = first_fit M tok entry sok socc sfresh slive sfits
  for M :: "('t, 's) mlff_type" and tok :: "'t \<Rightarrow> bool" and entry :: "'t entry_view" and sok socc sfresh slive sfits +
  fixes SW :: "'s pfa_walk" and sleaf :: "'s \<Rightarrow> nat \<Rightarrow> nat option"
  assumes sub_map: "SUBTABLES M \<Longrightarrow> page_mapper (mt_sub M) sok socc sfresh slive sfits SW sleaf"
begin

abbreviation aleaf where "aleaf \<equiv> mlff_leaf M entry sleaf"

definition map_entries :: "nat \<Rightarrow> PageFlags \<Rightarrow> nat \<Rightarrow> PAllocItem list \<Rightarrow> 't \<Rightarrow> 't exec" where
  "map_entries base fl = foreach_entries (\<lambda>i off t. pt_set_huge_addr (mt_table M) t i (base + off) fl)
     (\<lambda>i off t. pt_add_subtable_flags (mt_table M) False t i fl)"

lemma map_entries_cons: "map_entries base fl po (x # xs) t = exec_bind (map_entries base fl po [x] t) (map_entries base fl po xs)"
  by (cases x) (simp_all add: map_entries_def exec_bind_assoc)

lemma map_entry_ok:
  assumes "tok t" and "\<And>i off. x = Page i off \<Longrightarrow> i < 512 \<and> V (i * PS) = base + (po + off) \<and> table_addr_ok (V (i * PS))"
    and "\<And>i off al. x = SubTable i off al \<Longrightarrow> i < 512 \<and> (\<exists>p. strip (entry t i) = Some (Inr p))"
  shows "\<exists>t'. map_entries base fl po [x] t = Inr t' \<and> tok t' \<and>
     (\<forall>j. strip (entry t' j) = (if \<exists>off. x = Page j off then Some (Inr (V (j * PS))) else strip (entry t j)))"
proof (cases x)
  case (Page i off)
  then have i: "i < 512" "V (i * PS) = base + (po + off)" "table_addr_ok (base + (po + off))" using assms(2)[of i off] by auto
  obtain t1 fl' where "pt_set_huge_addr (mt_table M) t i (base + (po + off)) fl = Inr t1" "tok t1" "entry t1 = (entry t)(i \<mapsto> Inr (base + (po + off), fl'))"
    using table.set_huge_ok[OF assms(1) i(1,3)] by blast
  then show ?thesis using Page i(2) by (simp add: map_entries_def exec_bind_eq_id)
next
  case (SubTable i off al)
  obtain p fl0 where i: "i < 512" "entry t i = Some (Inr (p, fl0))" using assms(3)[of i off al] SubTable by (auto simp: strip_present)
  obtain t1 fl' where "pt_add_subtable_flags (mt_table M) False t i fl = Inr t1" "tok t1" "entry t1 = (entry t)(i \<mapsto> Inr (p, fl'))"
    using table.add_flags_ok[OF assms(1) i] by blast
  then show ?thesis using SubTable i(2) by (simp add: map_entries_def exec_bind_eq_id)
qed

lemma entries_ok:
  assumes "tok t" and "\<And>i off. Page i off \<in> set xs \<Longrightarrow> i < 512 \<and> V (i * PS) = base + (po + off) \<and> table_addr_ok (V (i * PS))"
    and "\<And>i off al. SubTable i off al \<in> set xs \<Longrightarrow> i < 512 \<and> (\<exists>p. strip (entry t i) = Some (Inr p))"
  shows "\<exists>t'. map_entries base fl po xs t = Inr t' \<and> tok t' \<and>
     (\<forall>j. strip (entry t' j) = (if \<exists>off. Page j off \<in> set xs then Some (Inr (V (j * PS))) else strip (entry t j)))"
  using assms
proof (induction xs arbitrary: t)
  case (Cons x xs)
  obtain t1 where t1: "map_entries base fl po [x] t = Inr t1" "tok t1"
     "\<And>j. strip (entry t1 j) = (if \<exists>off. x = Page j off then Some (Inr (V (j * PS))) else strip (entry t j))"
    using map_entry_ok[OF Cons.prems(1), of x V base po fl] Cons.prems(2,3) by (metis list.set_intros(1))
  have "\<exists>t'. map_entries base fl po xs t1 = Inr t' \<and> tok t' \<and>
     (\<forall>j. strip (entry t' j) = (if \<exists>off. Page j off \<in> set xs then Some (Inr (V (j * PS))) else strip (entry t1 j)))"
  proof (rule Cons.IH[OF t1(2)])
    show "i < 512 \<and> V (i * PS) = base + (po + off) \<and> table_addr_ok (V (i * PS))" if "Page i off \<in> set xs" for i off
      by (rule Cons.prems(2)) (use that in simp)
    show "i < 512 \<and> (\<exists>p. strip (entry t1 i) = Some (Inr p))" if "SubTable i off al \<in> set xs" for i off al
      using Cons.prems(3)[of i off al] that t1(3)[of i] by simp
  qed
  then obtain t' where t': "map_entries base fl po xs t1 = Inr t'" "tok t'"
     "\<And>j. strip (entry t' j) = (if \<exists>off. Page j off \<in> set xs then Some (Inr (V (j * PS))) else strip (entry t1 j))" by blast
  have "strip (entry t' j) = (if \<exists>off. Page j off \<in> set (x # xs) then Some (Inr (V (j * PS))) else strip (entry t j))" for j
    unfolding t'(3) t1(3) by auto
  then show ?case using t1(1) t'(1,2) by (subst map_entries_cons) simp
qed (simp add: map_entries_def)

text \<open>What the second loop does to the sub-allocator of a slot.\<close>

definition touched :: "nat \<Rightarrow> PAllocItem list \<Rightarrow> nat \<Rightarrow> bool" where
  "touched j xs y \<longleftrightarrow> (\<exists>off al. SubTable j off al \<in> set xs \<and> y \<in> covers al)"

lemma touched_cons: "touched j (x # xs) y \<longleftrightarrow> touched j [x] y \<or> touched j xs y"
  by (auto simp: touched_def)

definition sub_mapped :: "(nat \<Rightarrow> nat) \<Rightarrow> PAllocItem list \<Rightarrow> nat \<Rightarrow> 's option \<Rightarrow> 's option \<Rightarrow> bool" where
  "sub_mapped V xs j s s' \<longleftrightarrow> (case s of None \<Rightarrow> s' = None | Some st \<Rightarrow> \<exists>st'. s' = Some st' \<and> (sok st \<longrightarrow> sok st') \<and> socc st' = socc st \<and> slive st' = slive st \<and>
     (\<forall>y. sleaf st' y = (if touched j xs y then Some (V (y + j * PS)) else sleaf st y)))"

lemma sub_mapped_refl: "(\<And>off al. SubTable j off al \<notin> set xs) \<Longrightarrow> sub_mapped V xs j s s"
  by (auto simp: sub_mapped_def touched_def split: option.splits)

lemma sub_mapped_trans:
  "sub_mapped V [x] j s s1 \<Longrightarrow> sub_mapped V xs j s1 s2 \<Longrightarrow> sub_mapped V (x # xs) j s s2"
  by (cases s) (auto simp: sub_mapped_def touched_cons[of j x xs])

definition map_subs :: "nat \<Rightarrow> PageFlags \<Rightarrow> nat \<Rightarrow> PAllocItem list \<Rightarrow> ('t, 's) MLFFAllocator \<Rightarrow> ('t, 's) MLFFAllocator exec" where
  "map_subs base fl = foreach_subs M (\<lambda>st al off. pw_set_addr SW st al off base fl)"

lemma map_subs_cons: "map_subs base fl po (x # xs) a = exec_bind (map_subs base fl po [x] a) (map_subs base fl po xs)"
  by (cases x) (simp_all add: map_subs_def exec_bind_assoc)

text \<open>An item of the allocation that the value function \<open>V\<close> describes.\<close>

definition sub_item_ok :: "(nat \<Rightarrow> nat) \<Rightarrow> nat \<Rightarrow> nat \<Rightarrow> ('t, 's) MLFFAllocator \<Rightarrow> PAllocItem \<Rightarrow> bool" where
  "sub_item_ok V base po a x \<longleftrightarrow> (case x of Page i off \<Rightarrow> True | SubTable i off al \<Rightarrow> SUBTABLES M \<and> i < 512 \<and>
     (\<exists>st. suballocators a ! i = Some st \<and> sok st \<and> slive st al) \<and> aligned_to (base + (po + off)) al \<and>
     base + (po + off) + alloc_size al \<le> phys_limit \<and> (\<forall>y\<in>covers al. V (y + i * PS) = base + (po + off) + (y - start_addr al)))"

lemma map_sub_ok:
  assumes "length (suballocators a) = 512" and "sub_item_ok V base po a x"
  shows "\<exists>a'. map_subs base fl po [x] a = Inr a' \<and> a' = a\<lparr>suballocators := suballocators a'\<rparr> \<and> length (suballocators a') = 512 \<and>
     (\<forall>j<512. sub_mapped V [x] j (suballocators a ! j) (suballocators a' ! j))"
proof (cases x)
  case (Page i off)
  then show ?thesis using assms(1) by (auto simp: map_subs_def intro: sub_mapped_refl)
next
  case (SubTable i off al)
  then obtain st where st: "SUBTABLES M" "i < 512" "suballocators a ! i = Some st" "sok st" "slive st al"
    "aligned_to (base + (po + off)) al" "base + (po + off) + alloc_size al \<le> phys_limit"
    "\<And>y. y \<in> covers al \<Longrightarrow> V (y + i * PS) = base + (po + off) + (y - start_addr al)"
    using assms(2) by (auto simp: sub_item_ok_def)
  obtain st' where st': "pw_set_addr SW st al (po + off) base fl = Inr st'" "sok st'" "socc st' = socc st" "slive st' = slive st"
    "\<forall>y. sleaf st' y = (if y \<in> covers al then Some (base + (po + off) + (y - start_addr al)) else sleaf st y)"
    using page_mapper.set_addr_ok[OF sub_map[OF st(1)] st(4-7)] by blast
  let ?a = "a\<lparr>suballocators := (suballocators a)[i := Some st']\<rparr>"
  have "map_subs base fl po [x] a = Inr ?a"
    using SubTable st st' assms(1) by (simp add: map_subs_def get_suballocator_mut_def vec_get_ok put_sub_def vec_set_ok)
  moreover have "sub_mapped V [x] j (suballocators a ! j) (suballocators ?a ! j)" if "j < 512" for j
    using SubTable st(2,3,8) st'(2-5) assms(1) that by (auto simp: sub_mapped_def touched_def nth_list_update split: option.splits)
  ultimately show ?thesis using assms(1) by (intro exI[of _ ?a]) simp
qed

lemma sub_item_ok_mapped:
  assumes "sub_item_ok V base po a x" and "\<And>j. j < 512 \<Longrightarrow> sub_mapped V ys j (suballocators a ! j) (suballocators a' ! j)"
  shows "sub_item_ok V base po a' x"
proof (cases x)
  case (SubTable i off al)
  then show ?thesis using assms(1) assms(2)[of i] by (auto simp: sub_item_ok_def sub_mapped_def)
qed (simp add: sub_item_ok_def)

lemma subs_ok:
  assumes "length (suballocators a) = 512" and "\<And>x. x \<in> set xs \<Longrightarrow> sub_item_ok V base po a x"
  shows "\<exists>a'. map_subs base fl po xs a = Inr a' \<and> a' = a\<lparr>suballocators := suballocators a'\<rparr> \<and> length (suballocators a') = 512 \<and>
     (\<forall>j<512. sub_mapped V xs j (suballocators a ! j) (suballocators a' ! j))"
  using assms
proof (induction xs arbitrary: a)
  case Nil
  then show ?case by (auto simp: map_subs_def intro: sub_mapped_refl)
next
  case (Cons x xs)
  obtain a1 where a1: "map_subs base fl po [x] a = Inr a1" "a1 = a\<lparr>suballocators := suballocators a1\<rparr>" "length (suballocators a1) = 512"
    "\<And>j. j < 512 \<Longrightarrow> sub_mapped V [x] j (suballocators a ! j) (suballocators a1 ! j)"
    using map_sub_ok[OF Cons.prems(1), of V base po x fl] Cons.prems(2)[of x] by auto
  have "sub_item_ok V base po a1 y" if "y \<in> set xs" for y
    using sub_item_ok_mapped[OF Cons.prems(2) a1(4)] that by simp
  then obtain a2 where a2: "map_subs base fl po xs a1 = Inr a2" "a2 = a1\<lparr>suballocators := suballocators a2\<rparr>" "length (suballocators a2) = 512"
    "\<forall>j<512. sub_mapped V xs j (suballocators a1 ! j) (suballocators a2 ! j)"
    using Cons.IH[OF a1(3)] by blast
  have "a2 = a\<lparr>suballocators := suballocators a2\<rparr>" using a1(2) a2(2) by (cases a; cases a1; cases a2) simp
  moreover have "sub_mapped V (x # xs) j (suballocators a ! j) (suballocators a2 ! j)" if "j < 512" for j
    using sub_mapped_trans[OF a1(4)[OF that]] a2(4) that by blast
  ultimately show ?case using a1(1) a2(1,3) by (subst map_subs_cons) (intro exI[of _ a2], simp)
qed

lemma adjacent_end:
  "adjacent ps pos off xs \<Longrightarrow> x \<in> set xs \<Longrightarrow> item_start ps x + item_size ps x \<le> pos + sum_list (map (item_size ps) xs)"
proof (induction xs arbitrary: pos off)
  case (Cons y ys)
  have e: "pos + item_size ps y + sum_list (map (item_size ps) ys) = pos + sum_list (map (item_size ps) (y # ys))" by simp
  show ?case using Cons.prems Cons.IH[of "pos + item_size ps y" "off + item_size ps y"] unfolding e by auto
qed simp

text \<open>States whose slots hold the same kind of thing, used by the same allocations.\<close>

definition slots_equiv :: "('t, 's) MLFFAllocator \<Rightarrow> ('t, 's) MLFFAllocator \<Rightarrow> bool" where
  "slots_equiv a a' \<longleftrightarrow> (\<forall>j<512. avail a' j = avail a j \<and> (case suballocators a ! j of
       None \<Rightarrow> suballocators a' ! j = None \<and> (entry (mlff_table a') j = None \<longleftrightarrow> entry (mlff_table a) j = None)
     | Some st \<Rightarrow> \<exists>st'. suballocators a' ! j = Some st' \<and> (sok st \<longrightarrow> sok st') \<and> socc st' = socc st \<and> slive st' = slive st \<and>
         ((\<exists>p. entry (mlff_table a) j = Some (Inr p)) \<longrightarrow> (\<exists>p. entry (mlff_table a') j = Some (Inr p)))))"

lemma slots_equiv_keeps:
  assumes "slots_equiv a a'" and "aok a" and "shape a'"
  shows "aok a' \<and> aocc a' = aocc a \<and> alive a' = alive a"
proof -
  have e: "sl_ok (aslot a' j) \<and> sl_occ j (aslot a' j) = sl_occ j (aslot a j) \<and> slot_live slive (aslot a' j) = slot_live slive (aslot a j)"
    if "j < 512" for j
  proof -
    have ok: "sl_ok (aslot a j)" using assms(2) that by (simp add: mlff_ok_def)
    have q: "avail a' j = avail a j" "case suballocators a ! j of
       None \<Rightarrow> suballocators a' ! j = None \<and> (entry (mlff_table a') j = None \<longleftrightarrow> entry (mlff_table a) j = None)
     | Some st \<Rightarrow> \<exists>st'. suballocators a' ! j = Some st' \<and> (sok st \<longrightarrow> sok st') \<and> socc st' = socc st \<and> slive st' = slive st \<and>
         ((\<exists>p. entry (mlff_table a) j = Some (Inr p)) \<longrightarrow> (\<exists>p. entry (mlff_table a') j = Some (Inr p)))"
      using assms(1) that by (auto simp: slots_equiv_def)
    have "slot_live slive (aslot a' j) x = slot_live slive (aslot a j) x" for x
      using q by (cases x; cases "suballocators a ! j") (auto simp: slot_def)
    moreover have "sl_ok (aslot a' j) \<and> sl_occ j (aslot a' j) = sl_occ j (aslot a j)"
      using q ok by (cases "suballocators a ! j") (auto simp: slot_def)
    ultimately show ?thesis by blast
  qed
  have "it_live a' x = it_live a x" for x using e by (auto simp: item_live_def)
  then have "alive a' = alive a" by (simp add: mlff_live_def fun_eq_iff)
  then show ?thesis using e assms(3) by (simp add: mlff_ok_def mlff_occ_def)
qed

section \<open>Mapping at one level\<close>

lemma live_cases:
  assumes "aok a" and "it_live a x"
  shows "index x < 512 \<and> wf_item PS x \<and> (case x of
       Page i off \<Rightarrow> suballocators a ! i = None \<and> entry (mlff_table a) i \<noteq> None
     | SubTable i off al \<Rightarrow> SUBTABLES M \<and> (\<exists>st p. suballocators a ! i = Some st \<and> sok st \<and> slive st al \<and> entry (mlff_table a) i = Some (Inr p)))"
proof -
  have i: "index x < 512" "slot_live slive (aslot a (index x)) x" "sl_ok (aslot a (index x))"
    using assms by (auto simp: item_live_def mlff_ok_def)
  then show ?thesis using live_item[OF assms] by (cases x) (auto simp: slot_def)
qed

lemma items_ok:
  assumes "aok a" and "alive a (PartialPageAllocation xs PS)" and "aligned_to B (PartialPageAllocation xs PS)"
    and "B + alloc_size (PartialPageAllocation xs PS) \<le> phys_limit" and "B = base + po"
    and "V = (\<lambda>pos. B + (pos - start_addr (PartialPageAllocation xs PS)))"
  shows "Page i off \<in> set xs \<Longrightarrow> i < 512 \<and> V (i * PS) = base + (po + off) \<and> table_addr_ok (V (i * PS)) \<and> V (i * PS) mod PS = 0"
    "SubTable i off al \<in> set xs \<Longrightarrow> sub_item_ok V base po a (SubTable i off al)"
proof -
  let ?al = "PartialPageAllocation xs PS" and ?pos = "item_start PS (hd xs)"
  have wf: "wf_alloc ?al" "\<forall>x\<in>set xs. it_live a x" using assms(2) by (auto simp: mlff_live_def)
  have pos: "start_addr ?al = ?pos" using wf(1) by (simp add: start_addr_eq)
  have adj: "adjacent PS ?pos 0 xs" using wf(1) by simp
  have off: "item_start PS x = ?pos + item_offset x" if "x \<in> set xs" for x using adjacent_offset[OF adj that] by simp
  have fit: "item_offset x + item_size PS x \<le> alloc_size ?al" if "x \<in> set xs" for x
    using adjacent_end[OF adj that] off[OF that] by simp
  show "i < 512 \<and> V (i * PS) = base + (po + off) \<and> table_addr_ok (V (i * PS)) \<and> V (i * PS) mod PS = 0" if p: "Page i off \<in> set xs"
  proof -
    have v: "V (i * PS) = B + off" using off[OF p] assms(6) pos by simp
    have al: "(B + off) mod PS = 0" using assms(3) p by fastforce
    then have "(B + off) mod 4096 = 0" using page_size_pos(2) by (meson dvd_trans mod_eq_0_iff_dvd)
    moreover have "B + off < phys_limit" using fit[OF p] assms(4) page_size_pos(1) by simp
    moreover have "i < 512" using live_cases[OF assms(1)] wf(2) p by fastforce
    ultimately show ?thesis using v al assms(5) by (simp add: table_addr_ok_def add.assoc)
  qed
  show "sub_item_ok V base po a (SubTable i off al)" if p: "SubTable i off al \<in> set xs"
  proof -
    have "V (y + i * PS) = base + (po + off) + (y - start_addr al)" if "y \<in> covers al" for y
    proof -
      have "wf_alloc al" using live_cases[OF assms(1)] wf(2) p by fastforce
      then have "start_addr al \<le> y" using wf_alloc_span(1) that by auto
      then show ?thesis using off[OF p] assms(5,6) pos by simp
    qed
    moreover have "aligned_to (base + (po + off)) al" using assms(3,5) p by (fastforce simp: add.assoc)
    moreover have "base + (po + off) + alloc_size al \<le> phys_limit" using fit[OF p] assms(4,5) by simp
    ultimately show ?thesis using live_cases[OF assms(1)] wf(2) p by (fastforce simp: sub_item_ok_def)
  qed
qed

lemma covers_slot:
  assumes "aok a" and "alive a (PartialPageAllocation xs PS)" and "x div PS < 512"
  shows "x \<in> covers (PartialPageAllocation xs PS) \<longleftrightarrow> (\<exists>off. Page (x div PS) off \<in> set xs) \<or> touched (x div PS) xs (x mod PS)"
proof -
  have "x \<in> item_covers PS y \<longleftrightarrow> (\<exists>off. y = Page (x div PS) off) \<or> (\<exists>off al. y = SubTable (x div PS) off al \<and> x mod PS \<in> covers al)"
    if "y \<in> set xs" for y
  proof -
    have wf: "wf_item PS y" using live_item[OF assms(1)] assms(2) that by (auto simp: mlff_live_def)
    have r: "x \<in> item_covers PS y \<Longrightarrow> index y = x div PS" using item_range[OF wf] in_range_iff[of x "index y"] by auto
    have d: "x = x mod PS + x div PS * PS" by simp
    show ?thesis
    proof (cases y)
      case (Page i off)
      then show ?thesis using r in_range_iff[of x i] by auto
    next
      case (SubTable i off al)
      have "x = z + x div PS * PS \<longleftrightarrow> z = x mod PS" for z using d by linarith
      then have "x \<in> (\<lambda>z. z + x div PS * PS) ` covers al \<longleftrightarrow> x mod PS \<in> covers al" by auto
      then show ?thesis using SubTable r by auto
    qed
  qed
  then show ?thesis by (auto simp: touched_def)
qed

text \<open>The state after both loops: every page item holds its address, every sub-table item is mapped.\<close>

definition mapped_state :: "(nat \<Rightarrow> nat) \<Rightarrow> PAllocItem list \<Rightarrow> ('t, 's) MLFFAllocator \<Rightarrow> ('t, 's) MLFFAllocator \<Rightarrow> bool" where
  "mapped_state V xs a a' \<longleftrightarrow> shape a' \<and> (\<forall>j. avail a' j = avail a j) \<and>
     (\<forall>j. strip (entry (mlff_table a') j) = (if \<exists>off. Page j off \<in> set xs then Some (Inr (V (j * PS))) else strip (entry (mlff_table a) j))) \<and>
     (\<forall>j<512. sub_mapped V xs j (suballocators a ! j) (suballocators a' ! j))"

lemma set_addr_run:
  assumes "aok a" and "\<And>x. x \<in> set xs \<Longrightarrow> it_live a x"
    and "\<And>i off. Page i off \<in> set xs \<Longrightarrow> i < 512 \<and> V (i * PS) = base + (po + off) \<and> table_addr_ok (V (i * PS))"
    and "\<And>i off al. SubTable i off al \<in> set xs \<Longrightarrow> sub_item_ok V base po a (SubTable i off al)"
  shows "\<exists>a'. set_addr_inner M SW a (PartialPageAllocation xs PS) po base fl = Inr a' \<and> mapped_state V xs a a'"
proof -
  have sh: "shape a" "tok (mlff_table a)" "length (suballocators a) = 512" using assms(1) by (auto simp: mlff_ok_def mlff_shape_def)
  have sb: "i < 512 \<and> (\<exists>p. strip (entry (mlff_table a) i) = Some (Inr p))" if "SubTable i off al' \<in> set xs" for i off al'
    using live_cases[OF assms(1) assms(2)[OF that]] by auto
  have "\<exists>t. map_entries base fl po xs (mlff_table a) = Inr t \<and> tok t \<and>
    (\<forall>j. strip (entry t j) = (if \<exists>off. Page j off \<in> set xs then Some (Inr (V (j * PS))) else strip (entry (mlff_table a) j)))"
    by (rule entries_ok[OF sh(2)]) (use assms(3) sb in blast)+
  then obtain t where t: "map_entries base fl po xs (mlff_table a) = Inr t" "tok t"
    "\<forall>j. strip (entry t j) = (if \<exists>off. Page j off \<in> set xs then Some (Inr (V (j * PS))) else strip (entry (mlff_table a) j))" by blast
  let ?a = "a\<lparr>mlff_table := t\<rparr>"
  have "sub_item_ok V base po ?a x" if "x \<in> set xs" for x
    using assms(4) that by (cases x) (auto simp: sub_item_ok_def)
  then obtain a' where a': "map_subs base fl po xs ?a = Inr a'" "a' = ?a\<lparr>suballocators := suballocators a'\<rparr>" "length (suballocators a') = 512"
    "\<forall>j<512. sub_mapped V xs j (suballocators a ! j) (suballocators a' ! j)"
    using subs_ok[of ?a xs V base po fl] sh(3) by auto
  have "set_addr_inner M SW a (PartialPageAllocation xs PS) po base fl = Inr a'"
    using t(1) a'(1) by (simp add: set_addr_inner_def ppa_foreach_def map_entries_def map_subs_def)
  moreover have "mlff_table a' = t" "shape a'" "avail a' j = avail a j" for j
    using sh(1) t(2) a'(2,3) by (cases a; cases a'; simp add: avail_def mlff_shape_def)+
  ultimately show ?thesis using t(3) a'(4) by (simp add: mapped_state_def)
qed

lemma mapped_equiv:
  assumes "aok a" and "\<And>x. x \<in> set xs \<Longrightarrow> it_live a x" and "mapped_state V xs a a'"
  shows "slots_equiv a a'"
  unfolding slots_equiv_def
proof (intro allI impI conjI)
  fix j :: nat assume j: "j < 512"
  have m: "strip (entry (mlff_table a') j) = (if \<exists>off. Page j off \<in> set xs then Some (Inr (V (j * PS))) else strip (entry (mlff_table a) j))"
    "sub_mapped V xs j (suballocators a ! j) (suballocators a' ! j)" using assms(3) j by (auto simp: mapped_state_def)
  have pg: "suballocators a ! j = None \<and> entry (mlff_table a) j \<noteq> None" if "Page j off \<in> set xs" for off
    using live_cases[OF assms(1) assms(2)[OF that]] by simp
  show "avail a' j = avail a j" using assms(3) by (simp add: mapped_state_def)
  show "case suballocators a ! j of
       None \<Rightarrow> suballocators a' ! j = None \<and> (entry (mlff_table a') j = None \<longleftrightarrow> entry (mlff_table a) j = None)
     | Some st \<Rightarrow> \<exists>st'. suballocators a' ! j = Some st' \<and> (sok st \<longrightarrow> sok st') \<and> socc st' = socc st \<and> slive st' = slive st \<and>
         ((\<exists>p. entry (mlff_table a) j = Some (Inr p)) \<longrightarrow> (\<exists>p. entry (mlff_table a') j = Some (Inr p)))"
  proof (cases "suballocators a ! j")
    case None
    have "entry (mlff_table a') j = None \<longleftrightarrow> entry (mlff_table a) j = None" using m(1) pg by (metis option.distinct(1) strip_None)
    then show ?thesis using m(2) None by (simp add: sub_mapped_def)
  next
    case (Some st)
    then have "strip (entry (mlff_table a') j) = strip (entry (mlff_table a) j)" using m(1) pg by fastforce
    then have "(\<exists>p. entry (mlff_table a) j = Some (Inr p)) \<longrightarrow> (\<exists>p. entry (mlff_table a') j = Some (Inr p))" by (metis strip_present surj_pair)
    then show ?thesis using m(2) Some by (auto simp: sub_mapped_def)
  qed
qed

text \<open>The address recorded by a slot without a sub-table.\<close>

definition page_leaf :: "nat \<Rightarrow> (nat + nat) option \<Rightarrow> nat option" where
  "page_leaf r e = (case e of Some (Inr p) \<Rightarrow> if p mod PS = 0 then Some (p + r) else None | _ \<Rightarrow> None)"

lemma aleaf_alt: "aleaf a x = (if x div PS < 512 then (case suballocators a ! (x div PS) of
     Some st \<Rightarrow> sleaf st (x mod PS) | None \<Rightarrow> page_leaf (x mod PS) (strip (entry (mlff_table a) (x div PS)))) else None)"
  by (auto simp: mlff_leaf_def page_leaf_def strip_def Let_def split: option.splits sum.splits)

lemma mapped_leaf:
  assumes "aok a" and "alive a (PartialPageAllocation xs PS)" and "mapped_state V xs a a'"
    and "\<And>i off. Page i off \<in> set xs \<Longrightarrow> V (i * PS) mod PS = 0" and "\<And>x y. x \<in> covers (PartialPageAllocation xs PS) \<Longrightarrow> V (x div PS * PS) + x mod PS = V x \<or> \<not> (\<exists>off. Page (x div PS) off \<in> set xs)"
  shows "aleaf a' x = (if x \<in> covers (PartialPageAllocation xs PS) then Some (V x) else aleaf a x)"
proof (cases "x div PS < 512")
  case False
  then have "x \<notin> covers (PartialPageAllocation xs PS)" using alive_occ[OF assms(1,2)] occ_iff[OF assms(1), of x] by blast
  then show ?thesis using False by (simp add: aleaf_alt)
next
  case i: True
  note cv = covers_slot[OF assms(1,2) i]
  have lv: "\<And>y. y \<in> set xs \<Longrightarrow> it_live a y" using assms(2) by (simp add: mlff_live_def)
  have m: "strip (entry (mlff_table a') (x div PS)) = (if \<exists>off. Page (x div PS) off \<in> set xs then Some (Inr (V (x div PS * PS))) else strip (entry (mlff_table a) (x div PS)))"
    "sub_mapped V xs (x div PS) (suballocators a ! (x div PS)) (suballocators a' ! (x div PS))" using assms(3) i by (auto simp: mapped_state_def)
  show ?thesis
  proof (cases "suballocators a ! (x div PS)")
    case (Some st)
    have "\<not> (\<exists>off. Page (x div PS) off \<in> set xs)" using live_cases[OF assms(1) lv] Some by fastforce
    then have "x \<in> covers (PartialPageAllocation xs PS) \<longleftrightarrow> touched (x div PS) xs (x mod PS)" using cv by blast
    moreover have "x mod PS + x div PS * PS = x" by simp
    ultimately show ?thesis using m(2) Some i by (auto simp: aleaf_alt sub_mapped_def)
  next
    case None
    have "\<not> touched (x div PS) xs (x mod PS)" using live_cases[OF assms(1) lv] None unfolding touched_def by fastforce
    then have c: "x \<in> covers (PartialPageAllocation xs PS) \<longleftrightarrow> (\<exists>off. Page (x div PS) off \<in> set xs)" using cv by blast
    have "suballocators a' ! (x div PS) = None" using m(2) None by (simp add: sub_mapped_def)
    then show ?thesis using m(1) c None i assms(4,5) by (auto simp: aleaf_alt page_leaf_def)
  qed
qed

lemma set_addr_correct:
  assumes "aok a" and "alive a al" and "aligned_to (base + po) al" and "base + po + alloc_size al \<le> phys_limit"
  shows "\<exists>a'. set_addr_inner M SW a al po base fl = Inr a' \<and> aok a' \<and> aocc a' = aocc a \<and> alive a' = alive a \<and>
     (\<forall>x. aleaf a' x = (if x \<in> covers al then Some (base + po + (x - start_addr al)) else aleaf a x))"
proof -
  obtain xs where al: "al = PartialPageAllocation xs PS" using assms(2) by (cases al) (auto simp: mlff_live_def)
  define V where "V = (\<lambda>pos. base + po + (pos - start_addr al))"
  note it = items_ok[OF assms(1) assms(2-4)[unfolded al] refl V_def[unfolded al]]
  have lv: "it_live a x" if "x \<in> set xs" for x using assms(2) al that by (simp add: mlff_live_def)
  obtain a' where a': "set_addr_inner M SW a al po base fl = Inr a'" "mapped_state V xs a a'"
    using set_addr_run[OF assms(1) lv _ it(2)] it(1) al by blast
  have keep: "aok a' \<and> aocc a' = aocc a \<and> alive a' = alive a"
    using slots_equiv_keeps[OF mapped_equiv[OF assms(1) lv a'(2)] assms(1)] a'(2) by (simp add: mapped_state_def)
  have "V (x div PS * PS) + x mod PS = V x \<or> \<not> (\<exists>off. Page (x div PS) off \<in> set xs)" for x
  proof -
    have "start_addr al \<le> x div PS * PS" if p: "Page (x div PS) off \<in> set xs" for off
    proof -
      have "wf_alloc al" using assms(2) by (simp add: mlff_live_def)
      then show ?thesis using adjacent_offset[of PS "item_start PS (hd xs)" 0 xs, OF _ p] al by (auto simp: start_addr_eq)
    qed
    moreover have "x div PS * PS + x mod PS = x" by simp
    ultimately show ?thesis unfolding V_def by (metis (no_types, lifting) Nat.add_diff_assoc2 add.assoc)
  qed
  then have "aleaf a' x = (if x \<in> covers al then Some (V x) else aleaf a x)" for x
    using mapped_leaf[OF assms(1) assms(2)[unfolded al] a'(2)] it(1) unfolding al by blast
  then show ?thesis using a'(1) keep by (auto simp: V_def)
qed

lemma congruent_correct:
  assumes "aok a" and "alive a al" and "b mod PS = start_addr al mod PS"
  shows "aligned_to b al"
proof -
  obtain xs where al: "al = PartialPageAllocation xs PS" using assms(2) by (cases al) (auto simp: mlff_live_def)
  have wf: "wf_alloc al" "\<And>x. x \<in> set xs \<Longrightarrow> it_live a x" using assms(2) al by (auto simp: mlff_live_def)
  have pos: "item_start PS x = start_addr al + item_offset x" if "x \<in> set xs" for x
    using adjacent_offset[of PS "item_start PS (hd xs)" 0 xs, OF _ that] wf(1) al by (auto simp: start_addr_eq)
  have cong: "(b + item_offset x) mod PS = item_start PS x mod PS" if "x \<in> set xs" for x
    using pos[OF that] assms(3) by (metis mod_add_left_eq)
  have "aligned_item b PS x" if x: "x \<in> set xs" for x
  proof (cases x)
    case (Page i off)
    then show ?thesis using cong[OF x] by simp
  next
    case (SubTable i off al')
    then obtain st where st: "SUBTABLES M" "sok st" "slive st al'" using live_cases[OF assms(1) wf(2)[OF x]] by auto
    have "pf_page_size (mt_sub M) dvd PS" using st(1) by (simp add: mlff_PAGE_SIZE_def)
    moreover have "(b + off) mod PS = start_addr al' mod PS" using cong[OF x] SubTable by simp
    ultimately have "(b + off) mod pf_page_size (mt_sub M) = start_addr al' mod pf_page_size (mt_sub M)" by (metis mod_mod_cancel)
    then show ?thesis using page_mapper.congruent_aligned[OF sub_map[OF st(1)] st(2,3)] SubTable by simp
  qed
  then show ?thesis using al by simp
qed

end

sublocale first_fit_map < mapper: page_mapper "mlff_ops M" "mlff_ok M tok entry sok" "mlff_occ M entry socc"
  "mlff_fresh tok entry" "mlff_live M entry slive" "mlff_fits M sfits" "mlff_walk M SW" "mlff_leaf M entry sleaf"
  by (intro page_mapper.intro page_mapper_axioms.intro level.page_frame_allocator_axioms)
    (simp_all add: mlff_walk_def set_addr_correct congruent_correct)

section \<open>The four levels\<close>

abbreviation l1_leaf where "l1_leaf api ft \<equiv> mlff_leaf (X64Level1 api ft) (x64_entry api) (\<lambda>_ _. None)"
abbreviation l2_leaf where "l2_leaf api ft \<equiv> mlff_leaf (X64Level2 api ft) (x64_entry api) (l1_leaf api ft)"
abbreviation l3_leaf where "l3_leaf api ft \<equiv> mlff_leaf (X64Level3 api ft) (x64_entry api) (l2_leaf api ft)"
abbreviation l4_leaf where "l4_leaf api ft \<equiv> mlff_leaf (X64Level4 api ft) (x64_entry api) (l3_leaf api ft)"

sublocale pte_crate < M1: first_fit_map "X64Level1 api ft" x64_ok "x64_entry api" "\<lambda>_. True" "\<lambda>_. {}" "\<lambda>_. True" "\<lambda>_ _. False" "\<lambda>_ _. True"
  no_walk "\<lambda>_ _. None" for ft
  by (intro first_fit_map.intro first_fit_map_axioms.intro L1.first_fit_axioms) simp

sublocale pte_crate < M2: first_fit_map "X64Level2 api ft" x64_ok "x64_entry api" "l1_ok api ft" "l1_occ api ft" "l_fresh api" "l1_live api ft" "l1_fits api ft"
  "walk1 api ft" "l1_leaf api ft" for ft
  by (intro first_fit_map.intro first_fit_map_axioms.intro L2.first_fit_axioms) (simp add: walk1_def M1.mapper.page_mapper_axioms)

sublocale pte_crate < M3: first_fit_map "X64Level3 api ft" x64_ok "x64_entry api" "l2_ok api ft" "l2_occ api ft" "l_fresh api" "l2_live api ft" "l2_fits api ft"
  "walk2 api ft" "l2_leaf api ft" for ft
  by (intro first_fit_map.intro first_fit_map_axioms.intro L3.first_fit_axioms) (simp add: walk2_def M2.mapper.page_mapper_axioms)

sublocale pte_crate < M4: first_fit_map "X64Level4 api ft" x64_ok "x64_entry api" "l3_ok api ft" "l3_occ api ft" "l_fresh api" "l3_live api ft" "l3_fits api ft"
  "walk3 api ft" "l3_leaf api ft" for ft
  by (intro first_fit_map.intro first_fit_map_axioms.intro L4.first_fit_axioms) (simp add: walk3_def M3.mapper.page_mapper_axioms)

context pte_crate
begin

lemmas top_set_addr = M4.set_addr_correct

end

definition top_leaf :: "pte_api \<Rightarrow> features \<Rightarrow> level4 \<Rightarrow> nat \<Rightarrow> nat option" where
  "top_leaf api ft = l4_leaf api ft"

definition context_type :: "pte_api \<Rightarrow> features \<Rightarrow> virt_api \<Rightarrow> level4 vmem_type" where
  "context_type api ft V = \<lparr>vt_pfa = TopLevelPageAllocator api ft, vt_walk = walk4 api ft, vt_virt = V\<rparr>"

lemma context_set_base_addr:
  assumes "pte_crate api" and "top_ok api ft (lpa_alloc lpa)" and "top_live api ft (lpa_alloc lpa) (pa_allocation pa)"
    and "baseaddr_offset pa \<le> base" and "aligned_to (base - baseaddr_offset pa) (pa_allocation pa)"
    and "base - baseaddr_offset pa + alloc_size (pa_allocation pa) \<le> phys_limit"
    and "auto_flush (context_type api ft V) lpa pa = Inr fs"
  shows "\<exists>a'. pa_set_base_addr (context_type api ft V) lpa pa base fl = Inr (lpa\<lparr>lpa_alloc := a'\<rparr>, fs)
    \<and> top_ok api ft a' \<and> top_occ api ft a' = top_occ api ft (lpa_alloc lpa) \<and> top_live api ft a' = top_live api ft (lpa_alloc lpa)
    \<and> (\<forall>x. top_leaf api ft a' x = (if x \<in> covers (pa_allocation pa)
         then Some (base - baseaddr_offset pa + (x - start_addr (pa_allocation pa))) else top_leaf api ft (lpa_alloc lpa) x))"
  using pte_crate.top_set_addr[OF assms(1), of ft "lpa_alloc lpa" "pa_allocation pa" "base - baseaddr_offset pa" 0
      "if is_global_page (write_when_active lpa) then flags_or_m fl {MF_GLOBAL} else fl"] assms(2-7)
  by (auto simp: top_defs top_leaf_def pa_set_base_addr_def guard_set_base_addr_def context_type_def walk4_def mlff_walk_def usub_def Let_def)


lemma demo_live:
  "\<exists>a al. top_ok x86_pte demo_features a \<and> top_live x86_pte demo_features a al \<and> start_addr al = 0x5000 \<and> alloc_size al = 0x300000"
proof -
  let ?a = "mlff_new (X64Level4 x86_pte demo_features) KERNEL_PTABLE_VADDR"
  have f: "l_fresh x86_pte ?a" using x86.L4.level.new_ok[OF demo_box(1), of demo_features] by simp
  have "page_request (mlff_ops (X64Level4 x86_pte demo_features)) 0x5000 0x300000" by (simp add: page_request_def pf_span_def)
  then obtain a al where "grown (l4_ok x86_pte demo_features) (l4_occ x86_pte demo_features) (l4_live x86_pte demo_features) ?a a (Some al)"
    "start_addr al = 0x5000" "alloc_size al = 0x300000"
    using x86.L4.level.allocate_at_ok[where ft = demo_features and a = ?a and addr = "0x5000" and sz = "0x300000", OF _ demo_box(2)]
      x86.L4.level.fresh_ok[OF f] f by fastforce
  then show ?thesis by (auto simp: top_defs grown_def)
qed


end
