(* ===== verification/Promises.thy ===== *)
theory Promises
  imports Kernel_Prelude
begin

text \<open>
  Promises and acknowledgements (\<open>sync/promise.rs\<close>), with the waiting loop \<open>wait_until_try\<close> of
  \<open>sync/waitlist.rs\<close>.

  Both are cells that one of several concurrent calls fills, and that any number of tasks wait for.
  \<open>once_ops\<close> is what the waiting protocol needs of the cell, and \<open>once_step\<close> the interleaving of the
  atomic steps of the calls that fill it and of the tasks that get it.  The waiting list is locked
  from the check of the cell until the task is on the list, as the source does by handing the lock to
  the scheduler; waking everybody is one step because it holds that lock throughout.  The locale
  \<open>one_shot\<close> is the contract of the cell, and both cells of the source are instances.
\<close>

section \<open>The cells\<close>

definition PROMISE_EMPTY :: "8 word" where "PROMISE_EMPTY = 0"
definition PROMISE_INUSE :: "8 word" where "PROMISE_INUSE = 1"
definition PROMISE_COMPLETE :: "8 word" where "PROMISE_COMPLETE = 2"

lemmas promise_states = PROMISE_EMPTY_def PROMISE_INUSE_def PROMISE_COMPLETE_def

record 'v POnceLock =
  once_state :: "8 word"
  once_value :: "'v option"

definition once_new :: "'v POnceLock" where
  "once_new = \<lparr>once_state = PROMISE_EMPTY, once_value = None\<rparr>"

definition once_get :: "'v POnceLock \<Rightarrow> 'v option exec" where
  "once_get c = (if once_state c = PROMISE_COMPLETE then exec_bind (unwrap (once_value c)) (\<lambda>v. Inr (Some v)) else Inr None)"

definition once_claim :: "'v \<Rightarrow> 'v POnceLock \<Rightarrow> 'v POnceLock option" where
  "once_claim v c = (if once_state c = PROMISE_EMPTY then Some (c\<lparr>once_state := PROMISE_INUSE\<rparr>) else None)"

fun once_fill :: "'v \<Rightarrow> nat \<Rightarrow> 'v POnceLock \<Rightarrow> 'v POnceLock" where
  "once_fill v 0 c = c\<lparr>once_value := Some v\<rparr>"
| "once_fill v (Suc k) c = c\<lparr>once_state := PROMISE_COMPLETE\<rparr>"

definition once_set :: "'v \<Rightarrow> 'v POnceLock \<Rightarrow> 'v POnceLock \<times> bool" where
  "once_set v c = (case once_claim v c of None \<Rightarrow> (c, False) | Some c \<Rightarrow> (once_fill v 1 (once_fill v 0 c), True))"

definition once_is_filled :: "'v POnceLock \<Rightarrow> bool" where
  "once_is_filled c \<longleftrightarrow> once_state c = PROMISE_COMPLETE"

definition once_is_empty :: "'v POnceLock \<Rightarrow> bool" where
  "once_is_empty c \<longleftrightarrow> once_state c = PROMISE_EMPTY"

definition ACK_EMPTY :: "8 word" where "ACK_EMPTY = 0"
definition ACK_POSITIVE :: "8 word" where "ACK_POSITIVE = 1"
definition ACK_NEGATIVE :: "8 word" where "ACK_NEGATIVE = 2"

lemmas ack_states = ACK_EMPTY_def ACK_POSITIVE_def ACK_NEGATIVE_def

definition ack_fill :: "8 word \<Rightarrow> 8 word \<Rightarrow> 8 word option" where
  "ack_fill v c = (if c = ACK_EMPTY then Some v else None)"

definition ack_get :: "8 word \<Rightarrow> bool option" where
  "ack_get c = (if c = ACK_EMPTY then None else Some (c = ACK_POSITIVE))"

definition ack_try_get :: "8 word \<Rightarrow> bool option exec" where
  "ack_try_get c = (if c = ACK_EMPTY then Inr None else if c = ACK_POSITIVE then Inr (Some True)
     else if c = ACK_NEGATIVE then Inr (Some False) else Inl UnreachableCode)"

definition ack_is_pending :: "8 word \<Rightarrow> bool" where
  "ack_is_pending c \<longleftrightarrow> c = ACK_EMPTY"

section \<open>Filling and waiting, interleaved\<close>

record ('c, 'v) once_ops =
  oc_init :: 'c
  oc_claim :: "'v \<Rightarrow> 'c \<Rightarrow> 'c option"
  oc_fill :: "'v \<Rightarrow> nat \<Rightarrow> 'c \<Rightarrow> 'c"
  oc_steps :: nat
  oc_peek :: "'c \<Rightarrow> 'v option exec"

text \<open>A task in \<open>get\<close>, and a call of \<open>_fill_internal\<close> (from \<open>complete\<close>, \<open>cancel\<close> or \<open>drop\<close>).\<close>

datatype 'v getter = GStart | GLocked | GMust | GWaiting | GDone 'v | GPanic
datatype 'v filler = FStart 'v | FFill 'v nat | FNotify 'v | FDone bool

record ('c, 'v) once_sys =
  cell :: 'c
  getters :: "nat \<Rightarrow> 'v getter"
  fillers :: "nat \<Rightarrow> 'v filler"
  list_lock :: "nat option"

definition set_getter :: "nat \<Rightarrow> 'v getter \<Rightarrow> ('c, 'v) once_sys \<Rightarrow> ('c, 'v) once_sys" where
  "set_getter i g s = s\<lparr>getters := (getters s)(i := g)\<rparr>"

definition set_filler :: "nat \<Rightarrow> 'v filler \<Rightarrow> ('c, 'v) once_sys \<Rightarrow> ('c, 'v) once_sys" where
  "set_filler j f s = s\<lparr>fillers := (fillers s)(j := f)\<rparr>"

definition wake_all :: "('c, 'v) once_sys \<Rightarrow> ('c, 'v) once_sys" where
  "wake_all s = s\<lparr>getters := (\<lambda>i. if getters s i = GWaiting then GStart else getters s i)\<rparr>"

inductive once_step :: "('c, 'v) once_ops \<Rightarrow> ('c, 'v) once_sys \<Rightarrow> ('c, 'v) once_sys \<Rightarrow> bool" for Op where
  lock: "getters s i = GStart \<Longrightarrow> list_lock s = None \<Longrightarrow> once_step Op s (set_getter i GLocked (s\<lparr>list_lock := Some i\<rparr>))"
| hit: "getters s i = GLocked \<Longrightarrow> oc_peek Op (cell s) = Inr (Some v) \<Longrightarrow> once_step Op s (set_getter i (GDone v) (s\<lparr>list_lock := None\<rparr>))"
| miss: "getters s i = GLocked \<Longrightarrow> oc_peek Op (cell s) = Inr None \<Longrightarrow> once_step Op s (set_getter i GMust s)"
| crash: "getters s i = GLocked \<Longrightarrow> oc_peek Op (cell s) = Inl p \<Longrightarrow> once_step Op s (set_getter i GPanic s)"
| sleep: "getters s i = GMust \<Longrightarrow> once_step Op s (set_getter i GWaiting (s\<lparr>list_lock := None\<rparr>))"
| win: "fillers s j = FStart v \<Longrightarrow> oc_claim Op v (cell s) = Some c \<Longrightarrow>
    once_step Op s (set_filler j (if oc_steps Op = 0 then FNotify v else FFill v 0) (s\<lparr>cell := c\<rparr>))"
| lose: "fillers s j = FStart v \<Longrightarrow> oc_claim Op v (cell s) = None \<Longrightarrow> once_step Op s (set_filler j (FDone False) s)"
| fill: "fillers s j = FFill v k \<Longrightarrow>
    once_step Op s (set_filler j (if Suc k = oc_steps Op then FNotify v else FFill v (Suc k)) (s\<lparr>cell := oc_fill Op v k (cell s)\<rparr>))"
| notify: "fillers s j = FNotify v \<Longrightarrow> list_lock s = None \<Longrightarrow> once_step Op s (set_filler j (FDone True) (wake_all s))"

definition once_start :: "('c, 'v) once_ops \<Rightarrow> (nat \<Rightarrow> 'v) \<Rightarrow> ('c, 'v) once_sys" where
  "once_start Op f0 = \<lparr>cell = oc_init Op, getters = (\<lambda>_. GStart), fillers = (\<lambda>j. FStart (f0 j)), list_lock = None\<rparr>"

definition once_reach :: "('c, 'v) once_ops \<Rightarrow> (nat \<Rightarrow> 'v) \<Rightarrow> ('c, 'v) once_sys \<Rightarrow> bool" where
  "once_reach Op f0 s \<longleftrightarrow> (once_step Op)\<^sup>*\<^sup>* (once_start Op f0) s"

definition promise_ops :: "('v POnceLock, 'v) once_ops" where
  "promise_ops = \<lparr>oc_init = once_new, oc_claim = once_claim, oc_fill = once_fill, oc_steps = 2, oc_peek = once_get\<rparr>"

definition ack_ops :: "(8 word, bool) once_ops" where
  "ack_ops = \<lparr>oc_init = ACK_EMPTY, oc_claim = (\<lambda>v. ack_fill (if v then ACK_POSITIVE else ACK_NEGATIVE)),
     oc_fill = (\<lambda>_ _ c. c), oc_steps = 0, oc_peek = (\<lambda>c. Inr (ack_get c))\<rparr>"

text \<open>
  The calls of a fulfiller and the value each puts in the cell, and what the callers of \<open>complete\<close>,
  \<open>get\<close> and \<open>try_get\<close> see.  \<open>None\<close> in the cell of a promise is a cancelled promise.
\<close>

datatype 'v fulfil_call = Complete 'v | Cancel | DropFulfiller

fun promise_value :: "'v fulfil_call \<Rightarrow> 'v option" where
  "promise_value (Complete v) = Some v"
| "promise_value Cancel = None"
| "promise_value DropFulfiller = None"

fun ack_value :: "unit fulfil_call \<Rightarrow> bool" where
  "ack_value (Complete _) = True"
| "ack_value Cancel = False"
| "ack_value DropFulfiller = False"

definition complete_result :: "bool \<Rightarrow> 'v option \<Rightarrow> ('v + unit) exec" where
  "complete_result ok v = (if ok then Inr (Inr ()) else exec_bind (unwrap v) (\<lambda>x. Inr (Inl x)))"

definition promise_get_result :: "'v option \<Rightarrow> unit + 'v" where
  "promise_get_result v = (case v of Some x \<Rightarrow> Inr x | None \<Rightarrow> Inl ())"

definition promise_try_get :: "'v option POnceLock \<Rightarrow> (bool + 'v) exec" where
  "promise_try_get c = exec_bind (once_get c) (\<lambda>r. Inr (case r of
       Some (Some v) \<Rightarrow> Inr v | Some None \<Rightarrow> Inl True | None \<Rightarrow> Inl False))"

definition promise_is_pending :: "'v option POnceLock \<Rightarrow> bool" where
  "promise_is_pending c \<longleftrightarrow> \<not> once_is_filled c"

section \<open>The contract of a cell\<close>

datatype 'v phase = Empty | Filling 'v nat | Full 'v

locale one_shot =
  fixes Op :: "('c, 'v) once_ops" and rep :: "'c \<Rightarrow> 'v phase \<Rightarrow> bool"
  assumes init_rep: "rep (oc_init Op) Empty"
    and claim_empty: "rep c Empty \<Longrightarrow> \<exists>c'. oc_claim Op v c = Some c' \<and> rep c' (if oc_steps Op = 0 then Full v else Filling v 0)"
    and claim_other: "rep c p \<Longrightarrow> p \<noteq> Empty \<Longrightarrow> oc_claim Op v c = None"
    and fill_rep: "rep c (Filling v k) \<Longrightarrow> k < oc_steps Op \<Longrightarrow>
      rep (oc_fill Op v k c) (if Suc k = oc_steps Op then Full v else Filling v (Suc k))"
    and peek_rep: "rep c p \<Longrightarrow> oc_peek Op c = Inr (case p of Full v \<Rightarrow> Some v | _ \<Rightarrow> None)"
begin

fun idle :: "'v filler \<Rightarrow> bool" where
  "idle (FStart v) \<longleftrightarrow> True"
| "idle (FDone b) \<longleftrightarrow> \<not> b"
| "idle _ \<longleftrightarrow> False"

fun pending_value :: "'v filler \<Rightarrow> 'v option" where
  "pending_value (FDone b) = None"
| "pending_value (FStart v) = Some v"
| "pending_value (FFill v k) = Some v"
| "pending_value (FNotify v) = Some v"

definition fillers_inv :: "(nat \<Rightarrow> 'v) \<Rightarrow> 'v phase \<Rightarrow> (nat \<Rightarrow> 'v filler) \<Rightarrow> bool" where
  "fillers_inv f0 p f \<longleftrightarrow> (\<forall>j. pending_value (f j) \<in> {None, Some (f0 j)}) \<and> (case p of
       Empty \<Rightarrow> \<forall>j. idle (f j)
     | Filling v k \<Rightarrow> k < oc_steps Op \<and> (\<exists>w. f0 w = v \<and> f w = FFill v k \<and> (\<forall>j. j \<noteq> w \<longrightarrow> idle (f j)))
     | Full v \<Rightarrow> \<exists>w. f0 w = v \<and> (f w = FNotify v \<or> f w = FDone True) \<and> (\<forall>j. j \<noteq> w \<longrightarrow> idle (f j)))"

definition getters_inv :: "'v phase \<Rightarrow> ('c, 'v) once_sys \<Rightarrow> bool" where
  "getters_inv p s \<longleftrightarrow> (\<forall>i. getters s i \<noteq> GPanic) \<and> (\<forall>i v. getters s i = GDone v \<longrightarrow> p = Full v)
     \<and> (\<forall>i. getters s i = GLocked \<or> getters s i = GMust \<longrightarrow> list_lock s = Some i)
     \<and> (\<forall>v. p = Full v \<and> (\<exists>i. getters s i = GWaiting \<or> getters s i = GMust) \<longrightarrow> (\<exists>j. fillers s j = FNotify v))"

definition once_inv :: "(nat \<Rightarrow> 'v) \<Rightarrow> 'v phase \<Rightarrow> ('c, 'v) once_sys \<Rightarrow> bool" where
  "once_inv f0 p s \<longleftrightarrow> rep (cell s) p \<and> fillers_inv f0 p (fillers s) \<and> getters_inv p s"

lemma peek_Some: "oc_peek Op c = Inr (Some v) \<Longrightarrow> rep c p \<Longrightarrow> p = Full v"
  by (auto dest: peek_rep split: phase.splits)

lemma peek_None: "oc_peek Op c = Inr None \<Longrightarrow> rep c p \<Longrightarrow> p \<noteq> Full v"
  by (auto dest: peek_rep)

lemma once_inv_start: "once_inv f0 Empty (once_start Op f0)"
  by (auto simp: once_inv_def once_start_def fillers_inv_def getters_inv_def init_rep)

lemma getter_steps:
  assumes "once_inv f0 p s" and "g \<noteq> GPanic" and "list_lock s = None \<or> list_lock s = Some i"
    and "\<And>v. g = GDone v \<Longrightarrow> p = Full v"
    and "g = GLocked \<or> g = GMust \<Longrightarrow> l = Some i"
    and "\<And>v. g = GWaiting \<or> g = GMust \<Longrightarrow> p = Full v \<Longrightarrow> \<exists>j. fillers s j = FNotify v"
  shows "once_inv f0 p (set_getter i g (s\<lparr>list_lock := l\<rparr>))"
  using assms unfolding once_inv_def getters_inv_def set_getter_def by (auto split: if_splits)

lemma filling_phase:
  assumes "once_inv f0 p s" and "fillers s j = FFill v k"
  shows "p = Filling v k \<and> k < oc_steps Op \<and> v = f0 j \<and> (\<forall>i. i \<noteq> j \<longrightarrow> idle (fillers s i))"
proof (cases p)
  case Empty
  then have "idle (fillers s j)" using assms(1) by (simp add: once_inv_def fillers_inv_def)
  then show ?thesis by (simp add: assms(2))
next
  case (Filling v' k')
  then obtain w where w: "f0 w = v'" "k' < oc_steps Op" "fillers s w = FFill v' k'" "\<forall>i. i \<noteq> w \<longrightarrow> idle (fillers s i)"
    using assms(1) unfolding once_inv_def fillers_inv_def by (elim conjE) (simp, blast)
  moreover have "\<not> idle (fillers s j)" using assms(2) by simp
  ultimately have "w = j" by metis
  then show ?thesis using w assms(2) Filling by simp
next
  case (Full v')
  then obtain w where w: "fillers s w = FNotify v' \<or> fillers s w = FDone True" "\<forall>i. i \<noteq> w \<longrightarrow> idle (fillers s i)"
    using assms(1) unfolding once_inv_def fillers_inv_def by (elim conjE) (simp, blast)
  moreover have "\<not> idle (fillers s j)" using assms(2) by simp
  ultimately have "w = j" by metis
  then show ?thesis using w assms(2) by simp
qed

lemma notify_phase:
  assumes "once_inv f0 p s" and "fillers s j = FNotify v \<or> fillers s j = FDone True"
  shows "p = Full (f0 j) \<and> (\<forall>i. i \<noteq> j \<longrightarrow> idle (fillers s i))"
proof (cases p)
  case Empty
  then have "idle (fillers s j)" using assms(1) by (simp add: once_inv_def fillers_inv_def)
  then show ?thesis using assms(2) by auto
next
  case (Filling v' k')
  then obtain w where w: "fillers s w = FFill v' k'" "\<forall>i. i \<noteq> w \<longrightarrow> idle (fillers s i)"
    using assms(1) unfolding once_inv_def fillers_inv_def by (elim conjE) (simp, blast)
  then show ?thesis using assms(2) by (cases "w = j") auto
next
  case (Full v')
  then obtain w where w: "f0 w = v'" "\<forall>i. i \<noteq> w \<longrightarrow> idle (fillers s i)"
    using assms(1) unfolding once_inv_def fillers_inv_def by (elim conjE) (simp, blast)
  moreover have "\<not> idle (fillers s j)" using assms(2) by auto
  ultimately have "w = j" by metis
  then show ?thesis using w Full by blast
qed

lemma fillers_inv_lose:
  assumes f: "fillers_inv f0 p f" and j: "f j = FStart v" and p: "p \<noteq> Empty"
  shows "fillers_inv f0 p (f(j := FDone False))"
proof (cases p)
  case (Filling u k)
  then obtain w where "f0 w = u \<and> f w = FFill u k \<and> (\<forall>i. i \<noteq> w \<longrightarrow> idle (f i))" "k < oc_steps Op"
    using f unfolding fillers_inv_def by auto
  moreover from this j have "w \<noteq> j" by auto
  ultimately have "\<exists>w. f0 w = u \<and> (f(j := FDone False)) w = FFill u k \<and> (\<forall>i. i \<noteq> w \<longrightarrow> idle ((f(j := FDone False)) i))"
    by (intro exI[of _ w]) simp
  then show ?thesis using f Filling unfolding fillers_inv_def by simp
next
  case (Full u)
  then obtain w where "f0 w = u \<and> (f w = FNotify u \<or> f w = FDone True) \<and> (\<forall>i. i \<noteq> w \<longrightarrow> idle (f i))"
    using f unfolding fillers_inv_def by auto
  moreover from this j have "w \<noteq> j" by auto
  ultimately have "\<exists>w. f0 w = u \<and> ((f(j := FDone False)) w = FNotify u \<or> (f(j := FDone False)) w = FDone True)
      \<and> (\<forall>i. i \<noteq> w \<longrightarrow> idle ((f(j := FDone False)) i))"
    by (intro exI[of _ w]) simp
  then show ?thesis using f Full unfolding fillers_inv_def by simp
qed (use p in simp)

lemma getters_inv_lose:
  assumes "getters_inv p s" and "fillers s j = FStart v"
  shows "getters_inv p (set_filler j (FDone False) s)"
proof -
  have "\<exists>i. (fillers (set_filler j (FDone False) s)) i = FNotify u" if ex: "\<exists>i. fillers s i = FNotify u" for u
  proof -
    obtain i where "fillers s i = FNotify u" using ex ..
    then show ?thesis using assms(2) by (intro exI[of _ i]) (auto simp: set_filler_def)
  qed
  then show ?thesis using assms(1) unfolding getters_inv_def by (auto simp: set_filler_def)
qed

lemma claim_steps:
  assumes inv: "once_inv f0 p s" and j: "fillers s j = FStart v"
  shows "oc_claim Op v (cell s) = Some c \<Longrightarrow>
      \<exists>p'. once_inv f0 p' (set_filler j (if oc_steps Op = 0 then FNotify v else FFill v 0) (s\<lparr>cell := c\<rparr>))"
    and "oc_claim Op v (cell s) = None \<Longrightarrow> once_inv f0 p (set_filler j (FDone False) s)"
proof -
  have r: "rep (cell s) p" using inv by (simp add: once_inv_def)
  have "pending_value (fillers s j) \<in> {None, Some (f0 j)}" using inv unfolding once_inv_def fillers_inv_def by blast
  then have v: "v = f0 j" by (simp add: j)
  { assume c: "oc_claim Op v (cell s) = Some c"
    then have e: "p = Empty" using claim_other[OF r, of v] by auto
    let ?p = "if oc_steps Op = 0 then Full v else Filling v 0"
    have "rep c ?p" using claim_empty[of "cell s" v] r c e by auto
    then have "once_inv f0 ?p (set_filler j (if oc_steps Op = 0 then FNotify v else FFill v 0) (s\<lparr>cell := c\<rparr>))"
      using inv e v by (auto simp: once_inv_def fillers_inv_def getters_inv_def set_filler_def)
    then show "\<exists>p'. once_inv f0 p' (set_filler j (if oc_steps Op = 0 then FNotify v else FFill v 0) (s\<lparr>cell := c\<rparr>))" .. }
  assume "oc_claim Op v (cell s) = None"
  then have "p \<noteq> Empty" using claim_empty[of "cell s" v] r by auto
  then show "once_inv f0 p (set_filler j (FDone False) s)"
    using inv j fillers_inv_lose[of f0 p "fillers s" j v] getters_inv_lose[of p s j v] by (simp add: once_inv_def set_filler_def)
qed

lemma once_inv_step:
  assumes "once_step Op s s'" and "once_inv f0 p s"
  shows "\<exists>p'. once_inv f0 p' s'"
  using assms
proof (induction rule: once_step.induct)
  case (lock s i)
  then show ?case using getter_steps[of f0 p s GLocked i "Some i"] by auto
next
  case (hit s i v)
  then have "list_lock s = Some i" "p = Full v" using peek_Some by (auto simp: once_inv_def getters_inv_def)
  then show ?case using hit getter_steps[of f0 p s "GDone v" i None] by auto
next
  case (miss s i)
  then have l: "list_lock s = Some i" "\<And>v. p \<noteq> Full v" using peek_None by (auto simp: once_inv_def getters_inv_def)
  then have eq: "s\<lparr>list_lock := Some i\<rparr> = s" by simp
  show ?case using miss l getter_steps[of f0 p s GMust i "Some i", unfolded eq] by auto
next
  case (crash s i q)
  then show ?case using peek_rep[of "cell s" p] by (simp add: once_inv_def)
next
  case (sleep s i)
  then have "list_lock s = Some i" "\<And>v. p = Full v \<Longrightarrow> \<exists>j. fillers s j = FNotify v"
    by (auto simp: once_inv_def getters_inv_def)
  then show ?case using sleep getter_steps[of f0 p s GWaiting i None] by auto
next
  case (win s j v c)
  then show ?case using claim_steps(1) by blast
next
  case (lose s j v)
  then show ?case using claim_steps(2) by blast
next
  case (fill s j v k)
  note k = filling_phase[OF fill(2,1)]
  let ?p = "if Suc k = oc_steps Op then Full v else Filling v (Suc k)"
  have "once_inv f0 ?p (set_filler j (if Suc k = oc_steps Op then FNotify v else FFill v (Suc k)) (s\<lparr>cell := oc_fill Op v k (cell s)\<rparr>))"
    using fill k fill_rep[of "cell s" v k] by (auto simp: once_inv_def fillers_inv_def getters_inv_def set_filler_def)
  then show ?case ..
next
  case (notify s j v)
  have "p = Full (f0 j)" "\<forall>i. i \<noteq> j \<longrightarrow> idle (fillers s i)" using notify_phase[of f0 p s j v] notify by auto
  then have "once_inv f0 p (set_filler j (FDone True) (wake_all s))"
    using notify by (auto simp: once_inv_def fillers_inv_def getters_inv_def set_filler_def wake_all_def split: if_splits)
  then show ?case ..
qed

lemma once_inv_reach: "once_reach Op f0 s \<Longrightarrow> \<exists>p. once_inv f0 p s"
  unfolding once_reach_def by (induction rule: rtranclp_induct) (use once_inv_start once_inv_step in blast)+

lemma one_shot_safe:
  assumes "once_reach Op f0 s"
  shows "getters s i \<noteq> GPanic \<and> (getters s i = GDone v \<longrightarrow> oc_peek Op (cell s) = Inr (Some v) \<and> v \<in> range f0)
    \<and> (fillers s j = FDone True \<and> fillers s j' = FDone True \<longrightarrow> j = j')"
proof -
  obtain p where p: "once_inv f0 p s" using once_inv_reach[OF assms] by auto
  have "p = Full v \<and> v \<in> range f0" if "getters s i = GDone v"
    using p that by (auto simp: once_inv_def getters_inv_def fillers_inv_def)
  moreover have "j = j'" if "fillers s j = FDone True" "fillers s j' = FDone True"
  proof -
    have "\<not> idle (fillers s j')" using that by simp
    then show ?thesis using notify_phase[OF p, of j] that by metis
  qed
  ultimately show ?thesis using p by (auto simp: once_inv_def getters_inv_def dest: peek_rep)
qed

lemma one_shot_wakes:
  assumes "once_reach Op f0 s" and "fillers s j = FDone True"
  shows "oc_peek Op (cell s) = Inr (Some (f0 j)) \<and> getters s i \<in> {GStart, GLocked, GDone (f0 j)}"
proof -
  obtain p where p: "once_inv f0 p s" using once_inv_reach[OF assms(1)] by auto
  note full = notify_phase[OF p, of j, simplified assms(2), simplified]
  have "fillers s k \<noteq> FNotify v" for k v using full assms(2) by (cases "k = j") auto
  then have "getters s i \<noteq> GWaiting \<and> getters s i \<noteq> GMust \<and> getters s i \<noteq> GPanic \<and> (\<forall>v. getters s i = GDone v \<longrightarrow> v = f0 j)"
    using p full unfolding once_inv_def getters_inv_def by blast
  then show ?thesis using p full by (cases "getters s i") (auto simp: once_inv_def dest: peek_rep)
qed

end

section \<open>The two cells meet the contract\<close>

fun once_rep :: "'v POnceLock \<Rightarrow> 'v phase \<Rightarrow> bool" where
  "once_rep c Empty \<longleftrightarrow> once_state c = PROMISE_EMPTY"
| "once_rep c (Filling v k) \<longleftrightarrow> once_state c = PROMISE_INUSE \<and> (k = 0 \<or> k = 1 \<and> once_value c = Some v)"
| "once_rep c (Full v) \<longleftrightarrow> once_state c = PROMISE_COMPLETE \<and> once_value c = Some v"

fun ack_rep :: "8 word \<Rightarrow> bool phase \<Rightarrow> bool" where
  "ack_rep c Empty \<longleftrightarrow> c = ACK_EMPTY"
| "ack_rep c (Filling v k) \<longleftrightarrow> False"
| "ack_rep c (Full v) \<longleftrightarrow> c = (if v then ACK_POSITIVE else ACK_NEGATIVE)"

interpretation promise: one_shot promise_ops once_rep
proof unfold_locales
  show "once_rep (oc_init promise_ops) Empty" by (simp add: promise_ops_def once_new_def)
  show "\<exists>c'. oc_claim promise_ops v c = Some c' \<and> once_rep c' (if oc_steps promise_ops = 0 then Full v else Filling v 0)"
    if "once_rep c Empty" for c and v :: 'v
    using that by (simp add: promise_ops_def once_claim_def)
  show "oc_claim promise_ops v c = None" if "once_rep c p" "p \<noteq> Empty" for c p and v :: 'v
    using that by (cases p) (auto simp: promise_ops_def once_claim_def promise_states)
  show "once_rep (oc_fill promise_ops v k c) (if Suc k = oc_steps promise_ops then Full v else Filling v (Suc k))"
    if "once_rep c (Filling v k)" for c k and v :: 'v
    using that by (auto simp: promise_ops_def)
  show "oc_peek promise_ops c = Inr (case p of Full v \<Rightarrow> Some v | _ \<Rightarrow> None)" if "once_rep c p" for c and p :: "'v phase"
    using that by (cases p) (auto simp: promise_ops_def once_get_def promise_states exec_simps)
qed

interpretation ack: one_shot ack_ops ack_rep
  by unfold_locales (auto simp: ack_ops_def ack_fill_def ack_get_def ack_states split: phase.splits if_splits elim!: ack_rep.elims)

section \<open>What waiting for a promise or an acknowledgement gives\<close>

text \<open>C16: However the calls of a promise's fulfiller (any number of concurrent \<open>complete\<close>s, \<open>cancel\<close>s and the
  final \<open>drop\<close>) interleave with the tasks that wait for it, no \<open>get\<close> panics, at most one call succeeds, every
  \<open>get\<close> that has returned holds the one value in the cell, which one of the calls put there, and once the
  successful call has returned no task is asleep or about to sleep on the list: each has that call's value
  or finds it at its next check.\<close>

theorem promise_delivery:
  assumes "once_reach promise_ops (\<lambda>j. promise_value (calls j)) s"
  shows "getters s i \<noteq> GPanic
    \<and> (getters s i = GDone v \<longrightarrow> once_get (cell s) = Inr (Some v) \<and> (\<exists>j. v = promise_value (calls j)))
    \<and> (fillers s j = FDone True \<and> fillers s j' = FDone True \<longrightarrow> j = j')
    \<and> (fillers s j = FDone True \<longrightarrow> once_get (cell s) = Inr (Some (promise_value (calls j)))
         \<and> getters s i \<in> {GStart, GLocked, GDone (promise_value (calls j))})"
  using promise.one_shot_safe[OF assms, of i v j j'] promise.one_shot_wakes[OF assms, of j i]
  by (auto simp: promise_ops_def)

lemma once_reach_step: "once_reach Op f0 s \<Longrightarrow> once_step Op s s' \<Longrightarrow> once_reach Op f0 s'"
  unfolding once_reach_def by (rule rtranclp.rtrancl_into_rtrancl)

lemma once_reach_start: "once_reach Op f0 (once_start Op f0)"
  by (simp add: once_reach_def)

lemmas once_run_simps = once_start_def set_getter_def set_filler_def wake_all_def promise_ops_def once_new_def
  once_get_def once_claim_def promise_states ack_ops_def ack_fill_def ack_get_def ack_states exec_simps

text \<open>A task checks too early and sleeps, the promise is completed, and the task is woken.\<close>

lemma promise_run:
  "\<exists>s. once_reach promise_ops (\<lambda>j. promise_value (Complete (7::nat))) s \<and> fillers s 0 = FDone True \<and> getters s 0 = GStart"
proof -
  define s0 :: "(nat option POnceLock, nat option) once_sys" where "s0 = once_start promise_ops (\<lambda>j. promise_value (Complete 7))"
  define s1 where "s1 = set_getter 0 GLocked (s0\<lparr>list_lock := Some 0\<rparr>)"
  define s2 where "s2 = set_getter 0 GMust s1"
  define s3 where "s3 = set_getter 0 GWaiting (s2\<lparr>list_lock := None\<rparr>)"
  define s4 where "s4 = set_filler 0 (FFill (Some 7) 0) (s3\<lparr>cell := (cell s3)\<lparr>once_state := PROMISE_INUSE\<rparr>\<rparr>)"
  define s5 where "s5 = set_filler 0 (FFill (Some 7) 1) (s4\<lparr>cell := once_fill (Some 7) 0 (cell s4)\<rparr>)"
  define s6 where "s6 = set_filler 0 (FNotify (Some 7)) (s5\<lparr>cell := once_fill (Some 7) 1 (cell s5)\<rparr>)"
  define s7 where "s7 = set_filler 0 (FDone True) (wake_all s6)"
  note defs = s0_def s1_def s2_def s3_def s4_def s5_def s6_def s7_def
  have r1: "once_step promise_ops s0 s1" unfolding s1_def by (rule lock) (simp_all add: s0_def once_run_simps)
  have r2: "once_step promise_ops s1 s2" unfolding s2_def by (rule miss) (simp_all add: defs once_run_simps)
  have r3: "once_step promise_ops s2 s3" unfolding s3_def by (rule sleep) (simp add: defs once_run_simps)
  have r4: "once_step promise_ops s3 s4"
    using once_step.win[of s3 0 "Some 7" promise_ops "(cell s3)\<lparr>once_state := PROMISE_INUSE\<rparr>"] by (simp add: defs once_run_simps)
  have r5: "once_step promise_ops s4 s5" using once_step.fill[of s4 0 "Some 7" 0 promise_ops] by (simp add: defs once_run_simps)
  have r6: "once_step promise_ops s5 s6" using once_step.fill[of s5 0 "Some 7" 1 promise_ops] by (simp add: defs once_run_simps)
  have r7: "once_step promise_ops s6 s7" unfolding s7_def by (rule notify[of _ _ "Some 7"]) (simp_all add: defs once_run_simps)
  note start = once_reach_start[of promise_ops "\<lambda>j. promise_value (Complete (7::nat))", folded s0_def]
  note r3 = once_reach_step[OF once_reach_step[OF once_reach_step[OF start r1] r2] r3]
  note r7 = once_reach_step[OF once_reach_step[OF once_reach_step[OF once_reach_step[OF r3 r4] r5] r6] r7]
  have "fillers s7 0 = FDone True \<and> getters s7 0 = GStart" by (simp add: defs once_run_simps)
  then show ?thesis using r7 by blast
qed

theorem promise_delivery_witness:
  "\<exists>s. once_reach promise_ops (\<lambda>j. promise_value (Complete (7::nat))) s \<and> getters s 0 = GStart \<and> once_get (cell s) = Inr (Some (Some 7))"
proof -
  obtain s where s: "once_reach promise_ops (\<lambda>j. promise_value (Complete (7::nat))) s" "fillers s 0 = FDone True" "getters s 0 = GStart"
    using promise_run by auto
  show ?thesis using promise_delivery[OF s(1), of 0 _ 0 0] s by (intro exI[of _ s]) simp
qed

text \<open>The same of an acknowledgement, whose cell is filled by one compare-and-exchange: at most one of
  \<open>complete\<close>, \<open>cancel\<close> and \<open>drop\<close> returns true, every \<open>get\<close> returns what that call says, and once it has returned no
  task is left asleep.  The \<open>unreachable!\<close> of \<open>try_get\<close> is not reached.\<close>

theorem acknowledgement_delivery:
  assumes "once_reach ack_ops (\<lambda>j. ack_value (calls j)) s"
  shows "(getters s i = GDone v \<longrightarrow> ack_get (cell s) = Some v)
    \<and> (fillers s j = FDone True \<and> fillers s j' = FDone True \<longrightarrow> j = j')
    \<and> (fillers s j = FDone True \<longrightarrow> ack_get (cell s) = Some (ack_value (calls j))
         \<and> getters s i \<in> {GStart, GLocked, GDone (ack_value (calls j))})
    \<and> ack_try_get (cell s) = Inr (ack_get (cell s))"
proof -
  obtain p where "ack.once_inv (\<lambda>j. ack_value (calls j)) p s" using ack.once_inv_reach[OF assms] ..
  then have "ack_rep (cell s) p" by (simp add: ack.once_inv_def)
  then have "ack_try_get (cell s) = Inr (ack_get (cell s))"
    by (cases p) (auto simp: ack_try_get_def ack_get_def ack_states)
  then show ?thesis using ack.one_shot_safe[OF assms, of i v j j'] ack.one_shot_wakes[OF assms, of j i]
    by (auto simp: ack_ops_def)
qed

text \<open>Used by one caller at a time the cell is an ordinary write-once variable.\<close>

lemma once_set_get:
  "once_set v once_new = (c, True) \<Longrightarrow> once_get c = Inr (Some v) \<and> once_set u c = (c, False) \<and> once_is_filled c"
  by (auto simp: once_set_def once_is_filled_def once_run_simps split: option.splits)

end
