(* ===== verification/Work_Queue.thy ===== *)
theory Work_Queue
  imports Kernel_Prelude
begin

text \<open>
  The blocking queue \<open>WQueue\<close> of \<open>sync/queue.rs\<close>, over the waiting list of \<open>sync/waitlist.rs\<close>.

  The state is the queue, the waiting list in wake-up order, the holder of the waiting list's lock,
  and where each task is inside \<open>get\<close> or \<open>push\<close>.  \<open>wq_step\<close> interleaves the sections that hold a
  lock: one step per section of the queue's lock, and one step to lock the waiting list, one to check the
  predicate and one to sleep, because pushes may come in between.  The history of what was pushed
  and delivered is kept beside the state.
\<close>

section \<open>The queue\<close>

text \<open>
  Where a task is: outside; in \<open>get\<close> before \<open>pop_front\<close>; before taking the waiting list's lock in
  \<open>wait_ifnt\<close>; with the lock before the predicate; with the lock after a false predicate; asleep on the
  list; in \<open>push\<close> between the queue and \<open>notify_one\<close>.
\<close>

datatype wq_pc = Outside | Popping | Locking | Checking | Sleepy | Asleep | Notifying

record 'a wqueue =
  wq_items :: "'a list"
  wq_waiters :: "nat list"
  wq_lock :: "nat option"
  wq_pc :: "nat \<Rightarrow> wq_pc"
  wq_pushed :: "'a list"
  wq_taken :: "(nat \<times> 'a) list"

definition at_pc :: "nat \<Rightarrow> wq_pc \<Rightarrow> 'a wqueue \<Rightarrow> 'a wqueue" where
  "at_pc t p q = q\<lparr>wq_pc := (wq_pc q)(t := p)\<rparr>"

definition wq_empty :: "'a wqueue" where
  "wq_empty = \<lparr>wq_items = [], wq_waiters = [], wq_lock = None, wq_pc = (\<lambda>_. Outside), wq_pushed = [], wq_taken = []\<rparr>"

text \<open>\<open>get_if_available\<close>: one pop under the queue's lock; \<open>get\<close> and \<open>get_nonblocking\<close> use the same pop.\<close>

definition get_if_available :: "nat \<Rightarrow> 'a wqueue \<Rightarrow> 'a wqueue \<times> 'a option" where
  "get_if_available t q = (case wq_items q of [] \<Rightarrow> (q, None)
     | x # xs \<Rightarrow> (q\<lparr>wq_items := xs, wq_taken := wq_taken q @ [(t, x)]\<rparr>, Some x))"

definition get_nonblocking :: "bool \<Rightarrow> nat \<Rightarrow> 'a wqueue \<Rightarrow> 'a wqueue \<times> 'a option" where
  "get_nonblocking locked t q = (if locked then (q, None) else get_if_available t q)"

definition wq_push_item :: "'a \<Rightarrow> 'a wqueue \<Rightarrow> 'a wqueue" where
  "wq_push_item x q = q\<lparr>wq_items := wq_items q @ [x], wq_pushed := wq_pushed q @ [x]\<rparr>"

definition wq_notify_one :: "'a wqueue \<Rightarrow> 'a wqueue" where
  "wq_notify_one q = (case wq_waiters q of [] \<Rightarrow> q | w # ws \<Rightarrow> at_pc w Locking (q\<lparr>wq_waiters := ws\<rparr>))"

inductive wq_step :: "'a wqueue \<Rightarrow> 'a wqueue \<Rightarrow> bool" where
  call_get: "wq_pc q t = Outside \<Longrightarrow> wq_step q (at_pc t Popping q)"
| pop: "wq_pc q t = Popping \<Longrightarrow> get_if_available t q = (q', r) \<Longrightarrow>
    wq_step q (at_pc t (if r = None then Locking else Outside) q')"
| lock_list: "wq_pc q t = Locking \<Longrightarrow> wq_lock q = None \<Longrightarrow> wq_step q (at_pc t Checking (q\<lparr>wq_lock := Some t\<rparr>))"
| found: "wq_pc q t = Checking \<Longrightarrow> wq_items q \<noteq> [] \<Longrightarrow> wq_step q (at_pc t Popping (q\<lparr>wq_lock := None\<rparr>))"
| none: "wq_pc q t = Checking \<Longrightarrow> wq_items q = [] \<Longrightarrow> wq_step q (at_pc t Sleepy q)"
| suspend: "wq_pc q t = Sleepy \<Longrightarrow> wq_step q (at_pc t Asleep (q\<lparr>wq_lock := None, wq_waiters := wq_waiters q @ [t]\<rparr>))"
| push: "wq_pc q t = Outside \<Longrightarrow> wq_step q (at_pc t Notifying (wq_push_item x q))"
| notify: "wq_pc q t = Notifying \<Longrightarrow> wq_lock q = None \<Longrightarrow> wq_step q (at_pc t Outside (wq_notify_one q))"
| try_get: "wq_pc q t = Outside \<Longrightarrow> get_nonblocking locked t q = (q', r) \<Longrightarrow> wq_step q q'"

definition wq_reach :: "'a wqueue \<Rightarrow> bool" where
  "wq_reach q \<longleftrightarrow> wq_step\<^sup>*\<^sup>* wq_empty q"

section \<open>Invariants\<close>

definition wq_fifo :: "'a wqueue \<Rightarrow> bool" where
  "wq_fifo q \<longleftrightarrow> wq_pushed q = map snd (wq_taken q) @ wq_items q"

text \<open>The tasks that will still look at the queue, and the notifications still to come.\<close>

definition awake :: "'a wqueue \<Rightarrow> nat set" where
  "awake q = {t. wq_pc q t \<in> {Popping, Locking, Checking}}"

definition notifying :: "'a wqueue \<Rightarrow> nat set" where
  "notifying q = {t. wq_pc q t = Notifying}"

definition few_active :: "'a wqueue \<Rightarrow> bool" where
  "few_active q \<longleftrightarrow> finite {t. wq_pc q t \<noteq> Outside}"

definition wq_shape :: "'a wqueue \<Rightarrow> bool" where
  "wq_shape q \<longleftrightarrow> distinct (wq_waiters q) \<and> (\<forall>t. t \<in> set (wq_waiters q) \<longleftrightarrow> wq_pc q t = Asleep)
     \<and> (\<forall>t. wq_pc q t \<in> {Checking, Sleepy} \<longrightarrow> wq_lock q = Some t)
     \<and> few_active q"

definition wq_supply :: "'a wqueue \<Rightarrow> bool" where
  "wq_supply q \<longleftrightarrow> (wq_waiters q \<noteq> [] \<longrightarrow> length (wq_items q) \<le> card (awake q) + card (notifying q))
     \<and> ((\<exists>t. wq_pc q t = Sleepy) \<longrightarrow> length (wq_items q) \<le> card (notifying q))"

definition wq_inv :: "'a wqueue \<Rightarrow> bool" where
  "wq_inv q \<longleftrightarrow> wq_fifo q \<and> wq_shape q \<and> wq_supply q"

lemma at_pc_fields [simp]:
  "wq_items (at_pc t p q) = wq_items q" "wq_waiters (at_pc t p q) = wq_waiters q" "wq_lock (at_pc t p q) = wq_lock q"
  "wq_pushed (at_pc t p q) = wq_pushed q" "wq_taken (at_pc t p q) = wq_taken q"
  "wq_pc (at_pc t p q) u = (if u = t then p else wq_pc q u)"
  by (simp_all add: at_pc_def)

lemma awake_at_pc: "awake (at_pc t p q) = (if p \<in> {Popping, Locking, Checking} then insert t (awake q) else awake q - {t})"
  by (auto simp: awake_def)

lemma notifying_at_pc: "notifying (at_pc t p q) = (if p = Notifying then insert t (notifying q) else notifying q - {t})"
  by (auto simp: notifying_def)

lemma awake_cong: "wq_pc q' = wq_pc q \<Longrightarrow> awake q' = awake q" by (simp add: awake_def)

lemma notifying_cong: "wq_pc q' = wq_pc q \<Longrightarrow> notifying q' = notifying q" by (simp add: notifying_def)

lemma in_awake: "t \<in> awake q \<longleftrightarrow> wq_pc q t \<in> {Popping, Locking, Checking}" by (simp add: awake_def)

lemma in_notifying: "t \<in> notifying q \<longleftrightarrow> wq_pc q t = Notifying" by (simp add: notifying_def)

lemma shape_finite: "wq_shape q \<Longrightarrow> finite (awake q)" "wq_shape q \<Longrightarrow> finite (notifying q)"
  by (auto simp: wq_shape_def few_active_def awake_def notifying_def elim!: rev_finite_subset)

lemma few_active_at_pc: "few_active q \<Longrightarrow> wq_pc q' = wq_pc q \<Longrightarrow> few_active (at_pc t p q')"
  unfolding few_active_def by (rule finite_subset[of _ "insert t {t. wq_pc q t \<noteq> Outside}"]) auto

lemma shapeD:
  assumes "wq_shape q"
  shows "distinct (wq_waiters q)" and "t \<in> set (wq_waiters q) \<longleftrightarrow> wq_pc q t = Asleep" and "few_active q"
    and "wq_pc q t = Checking \<Longrightarrow> wq_lock q = Some t" and "wq_pc q t = Sleepy \<Longrightarrow> wq_lock q = Some t"
  using assms by (auto simp: wq_shape_def)

lemmas wq_sets = awake_at_pc notifying_at_pc in_awake in_notifying

lemma shape_at_pc:
  assumes "wq_shape q" and "wq_pc q t \<noteq> Asleep" and "p \<noteq> Asleep" and "wq_pc q' = wq_pc q" and "wq_waiters q' = wq_waiters q"
    and "p \<in> {Checking, Sleepy} \<Longrightarrow> wq_lock q' = Some t"
    and "wq_lock q' = wq_lock q \<or> wq_lock q = None \<or> wq_lock q = Some t"
  shows "wq_shape (at_pc t p q')"
proof -
  note d = shapeD[OF assms(1)]
  have "wq_lock q' = Some u" if "u \<noteq> t" "wq_pc q u \<in> {Checking, Sleepy}" for u
  proof -
    have "wq_lock q = Some u" using that(2) d(4,5)[of u] by auto
    then show ?thesis using assms(7) that(1) by auto
  qed
  then show ?thesis using assms d few_active_at_pc[of q q'] unfolding wq_shape_def by (simp add: d(2))
qed

lemma wq_inv_empty: "wq_inv wq_empty"
  by (simp add: wq_inv_def wq_fifo_def wq_shape_def wq_supply_def wq_empty_def few_active_def)

lemma get_if_available_cases:
  assumes "get_if_available t q = (q', r)"
  obtains (none) "wq_items q = []" "q' = q" "r = None"
    | (some) x xs where "wq_items q = x # xs" "q' = q\<lparr>wq_items := xs, wq_taken := wq_taken q @ [(t, x)]\<rparr>" "r = Some x"
  using assms by (auto simp: get_if_available_def split: list.splits)

lemma fifo_step: "wq_step q q' \<Longrightarrow> wq_fifo q \<Longrightarrow> wq_fifo q'"
  by (induction rule: wq_step.induct)
    (auto simp: wq_fifo_def wq_push_item_def wq_notify_one_def get_if_available_def get_nonblocking_def split: list.splits if_splits)

lemma shape_notify:
  assumes "wq_shape q" and "wq_pc q t = Notifying"
  shows "wq_shape (at_pc t Outside (wq_notify_one q))"
proof (cases "wq_waiters q")
  case Nil
  then show ?thesis using assms shape_at_pc[of q t Outside q] by (simp add: wq_notify_one_def)
next
  case (Cons w ws)
  note d = shapeD[OF assms(1)]
  have w: "wq_pc q w = Asleep" using d(2)[of w] Cons by simp
  then have "w \<noteq> t" using assms(2) by auto
  have "u \<in> set ws \<longleftrightarrow> wq_pc (at_pc w Locking q) u = Asleep" for u using d(1) d(2)[of u] Cons by auto
  then have "wq_shape (at_pc w Locking (q\<lparr>wq_waiters := ws\<rparr>))"
    using d(1,3-) Cons few_active_at_pc[of q "q\<lparr>wq_waiters := ws\<rparr>" w Locking] unfolding wq_shape_def by simp
  then show ?thesis using assms(2) Cons \<open>w \<noteq> t\<close> shape_at_pc[of "at_pc w Locking (q\<lparr>wq_waiters := ws\<rparr>)" t Outside "at_pc w Locking (q\<lparr>wq_waiters := ws\<rparr>)"]
    by (simp add: wq_notify_one_def)
qed

lemma shape_step: "wq_step q q' \<Longrightarrow> wq_shape q \<Longrightarrow> wq_shape q'"
proof (induction rule: wq_step.induct)
  case (pop q t q' r)
  from pop(2) show ?case using pop by (cases rule: get_if_available_cases) (auto intro!: shape_at_pc[of q])
next
  case (suspend q t)
  note d = shapeD[OF suspend(2)]
  let ?q = "q\<lparr>wq_lock := None, wq_waiters := wq_waiters q @ [t]\<rparr>"
  have "wq_pc q u \<noteq> Checking \<and> wq_pc q u \<noteq> Sleepy" if "u \<noteq> t" for u using d(4,5)[of u] d(5)[of t] suspend(1) that by auto
  then show ?case using suspend(1) d(1,2) few_active_at_pc[OF d(3), of ?q t Asleep] unfolding wq_shape_def by auto
next
  case (notify q t)
  then show ?case by (simp add: shape_notify)
next
  case (try_get q t locked q' r)
  then show ?case by (auto simp: get_nonblocking_def wq_shape_def few_active_def elim!: get_if_available_cases split: if_splits)
next
  case (call_get q t)
  then show ?case by (intro shape_at_pc[of q]) auto
next
  case (lock_list q t)
  then show ?case by (intro shape_at_pc[of q]) auto
next
  case (found q t)
  then show ?case using shapeD(4)[of q t] by (intro shape_at_pc[of q]) auto
next
  case (none q t)
  then show ?case using shapeD(4)[of q t] by (intro shape_at_pc[of q]) auto
next
  case (push q t x)
  then show ?case by (intro shape_at_pc[of q]) (auto simp: wq_push_item_def)
qed

lemma supplyI:
  "(wq_waiters q \<noteq> [] \<Longrightarrow> length (wq_items q) \<le> card (awake q) + card (notifying q)) \<Longrightarrow>
   (\<And>u. wq_pc q u = Sleepy \<Longrightarrow> length (wq_items q) \<le> card (notifying q)) \<Longrightarrow> wq_supply q"
  unfolding wq_supply_def by blast

lemma supplyD:
  assumes "wq_supply q"
  shows "wq_waiters q \<noteq> [] \<Longrightarrow> length (wq_items q) \<le> card (awake q) + card (notifying q)"
    and "wq_pc q u = Sleepy \<Longrightarrow> length (wq_items q) \<le> card (notifying q)"
  using assms unfolding wq_supply_def by blast+

lemma supply_notify:
  assumes "wq_shape q" "wq_supply q" and t: "wq_pc q t = Notifying" and "wq_lock q = None"
  shows "wq_supply (at_pc t Outside (wq_notify_one q))"
proof -
  note fin = shape_finite[OF assms(1)]
  have nosl: "wq_pc q u \<noteq> Sleepy" for u using shapeD(5)[OF assms(1), of u] assms(4) by auto
  show ?thesis
  proof (cases "wq_waiters q")
    case Nil
    then show ?thesis using nosl by (auto simp: wq_supply_def wq_notify_one_def)
  next
    case (Cons w ws)
    have "wq_pc q w = Asleep" using shapeD(2)[OF assms(1), of w] Cons by simp
    then have w: "wq_pc q w = Asleep" "w \<noteq> t" using t by auto
    let ?q = "q\<lparr>wq_waiters := ws\<rparr>"
    have c: "awake ?q = awake q" "notifying ?q = notifying q" by (simp_all add: awake_def notifying_def)
    have "card (insert w (awake q)) = Suc (card (awake q))" using w fin by (simp add: in_awake)
    moreover have "Suc (card (notifying q - {t})) = card (notifying q)" using card_Suc_Diff1[OF fin(2), of t] t by (simp add: in_notifying)
    moreover have "insert w (awake q) - {t} = insert w (awake q)" using t w by (auto simp: in_awake)
    moreover have "notifying q - {w} - {t} = notifying q - {t}" using w by (auto simp: in_notifying)
    ultimately show ?thesis using nosl assms(2) Cons
      by (auto simp: wq_supply_def wq_notify_one_def awake_at_pc notifying_at_pc c)
  qed
qed

lemma supply_pop:
  assumes "wq_shape q" "wq_supply q" and t: "wq_pc q t = Popping" and "wq_items q = x # xs"
  shows "wq_supply (at_pc t Outside (q\<lparr>wq_items := xs, wq_taken := h\<rparr>))"
proof -
  let ?q = "q\<lparr>wq_items := xs, wq_taken := h\<rparr>"
  have c: "awake ?q = awake q" "notifying ?q = notifying q" by (simp_all add: awake_def notifying_def)
  have "Suc (card (awake q - {t})) = card (awake q)"
    using card_Suc_Diff1[OF shape_finite(1)[OF assms(1)], of t] t by (simp add: in_awake)
  moreover have "notifying q - {t} = notifying q" using t by (simp add: in_notifying)
  ultimately show ?thesis using supplyD[OF assms(2)] assms(4)
    by (intro supplyI, simp_all add: awake_at_pc notifying_at_pc c split: if_splits) (metis Suc_leD)
qed

lemma supply_push:
  assumes "wq_shape q" "wq_supply q" and t: "wq_pc q t = Outside"
  shows "wq_supply (at_pc t Notifying (wq_push_item x q))"
proof -
  have c: "awake (wq_push_item x q) = awake q" "notifying (wq_push_item x q) = notifying q"
    by (simp_all add: awake_def notifying_def wq_push_item_def)
  have "card (insert t (notifying q)) = Suc (card (notifying q))" "awake q - {t} = awake q"
    using t shape_finite(2)[OF assms(1)] by (simp_all add: in_notifying in_awake)
  moreover have "wq_items (wq_push_item x q) = wq_items q @ [x]" "wq_waiters (wq_push_item x q) = wq_waiters q"
    "wq_pc (wq_push_item x q) = wq_pc q" by (simp_all add: wq_push_item_def)
  ultimately show ?thesis using supplyD[OF assms(2)]
    by (intro supplyI) (simp_all add: awake_at_pc notifying_at_pc c split: if_splits)
qed

lemma supply_move:
  assumes "wq_shape q" "wq_supply q" and t: "wq_pc q t \<in> {Outside, Popping, Locking, Checking}"
    and p: "p \<in> {Popping, Locking, Checking}" and q': "wq_items q' = wq_items q" "wq_waiters q' = wq_waiters q" "wq_pc q' = wq_pc q"
  shows "wq_supply (at_pc t p q')"
proof -
  have "card (awake q) \<le> card (insert t (awake q))" using shape_finite(1)[OF assms(1)] by (simp add: card_insert_le)
  moreover have "notifying q - {t} = notifying q" using t by (auto simp: in_notifying)
  moreover have "awake (at_pc t p q') = insert t (awake q)" "notifying (at_pc t p q') = notifying q - {t}"
    using p by (auto simp: awake_at_pc notifying_at_pc awake_cong[OF q'(3)] notifying_cong[OF q'(3)])
  ultimately show ?thesis using supplyD[OF assms(2)] p q' by (intro supplyI) (fastforce split: if_splits)+
qed

lemma supply_step: "wq_step q q' \<Longrightarrow> wq_shape q \<Longrightarrow> wq_supply q \<Longrightarrow> wq_supply q'"
proof (induction rule: wq_step.induct)
  case (pop q t q' r)
  from pop(2) show ?case using pop supply_pop[of q t] supply_move[of q t Locking q] by (cases rule: get_if_available_cases) simp_all
next
  case (none q t)
  then show ?case by (simp add: wq_supply_def)
next
  case (suspend q t)
  let ?q = "q\<lparr>wq_lock := None, wq_waiters := wq_waiters q @ [t]\<rparr>"
  have c: "awake ?q = awake q" "notifying ?q = notifying q" by (simp_all add: awake_def notifying_def)
  have "length (wq_items q) \<le> card (notifying q)" using suspend by (auto simp: wq_supply_def)
  moreover have "notifying q - {t} = notifying q" using suspend by (auto simp: in_notifying)
  ultimately show ?case by (simp add: wq_supply_def awake_at_pc notifying_at_pc c)
next
  case (push q t x)
  then show ?case by (simp add: supply_push)
next
  case (notify q t)
  then show ?case by (simp add: supply_notify)
next
  case (try_get q t locked q' r)
  then have "q' = q \<or> get_if_available t q = (q', r)" by (auto simp: get_nonblocking_def split: if_splits)
  then show ?case
  proof
    assume "get_if_available t q = (q', r)"
    then show ?case
    proof (cases rule: get_if_available_cases)
      case (some x xs)
      then have c: "awake q' = awake q" "notifying q' = notifying q" by (simp_all add: awake_def notifying_def)
      show ?thesis using supplyD[OF try_get(4)] some by (intro supplyI, simp_all add: c[unfolded some(2)]) (metis Suc_leD)
    qed (use try_get in simp)
  qed (use try_get in simp)
qed (auto intro!: supply_move)

lemma wq_inv_reach: "wq_reach q \<Longrightarrow> wq_inv q"
  unfolding wq_reach_def
  by (induction rule: rtranclp_induct) (auto simp: wq_inv_empty, auto simp: wq_inv_def fifo_step shape_step supply_step)

section \<open>What the queue guarantees\<close>

text \<open>C15: In every interleaving of \<open>get\<close>, \<open>get_nonblocking\<close> and \<open>push\<close> the queue is first in first out: the items
  delivered so far, in delivery order, followed by those still queued are exactly the items pushed, in
  order.  The waiting list holds each sleeping task once.  And no wake-up is lost: while a task sleeps
  on the list, every queued item has its own task that is still awake inside \<open>get\<close> or its own \<open>push\<close> that is
  still to notify; so when all of them have finished and a task still sleeps, the queue is empty.\<close>

theorem wqueue_correct:
  assumes "wq_reach q"
  shows "map snd (wq_taken q) @ wq_items q = wq_pushed q
    \<and> distinct (wq_waiters q) \<and> (t \<in> set (wq_waiters q) \<longleftrightarrow> wq_pc q t = Asleep)
    \<and> (wq_pc q t = Asleep \<longrightarrow> length (wq_items q) \<le> card (awake q) + card (notifying q))"
proof -
  have inv: "wq_fifo q" "wq_shape q" "wq_supply q" using wq_inv_reach[OF assms] by (simp_all add: wq_inv_def)
  note d = shapeD[OF inv(2)]
  have "wq_waiters q \<noteq> []" if "wq_pc q t = Asleep" using d(2)[of t] that by auto
  then show ?thesis using inv d(1,2) by (auto simp: wq_fifo_def wq_supply_def)
qed

theorem wqueue_correct_witness:
  "wq_reach (at_pc 1 Notifying (wq_push_item (5::nat) (at_pc 0 Popping wq_empty)))
   \<and> map snd (wq_taken (at_pc 1 Notifying (wq_push_item (5::nat) (at_pc 0 Popping wq_empty)))) @ [5] = [5]"
proof -
  let ?q1 = "at_pc 0 Popping (wq_empty :: nat wqueue)"
  let ?q2 = "at_pc 1 Notifying (wq_push_item (5::nat) ?q1)"
  have "wq_step wq_empty ?q1" by (rule call_get) (simp add: wq_empty_def)
  moreover have "wq_step ?q1 ?q2" by (rule push) (simp add: wq_empty_def)
  ultimately have r: "wq_reach ?q2" unfolding wq_reach_def by (meson r_into_rtranclp rtranclp_trans)
  show ?thesis using r wqueue_correct[OF r] by (simp add: wq_push_item_def wq_empty_def)
qed

end
