(* ===== verification/Unified_Memory.thy ===== *)
theory Unified_Memory
  imports Page_Mapping Descriptor_Table Buddy_Allocator
begin

text \<open>
  Unified allocations (\<open>memory/unified.rs\<close>): physical backing memory in sections together with the
  virtual allocations that show it, and the stacks and offset-mapped allocations built on them.

  The world of these operations has the physical allocator, the kernel's global page table, the
  bytes of physical memory, the table of absent pages, and whatever other address spaces there are.
  The trait \<open>AnyPageAllocation\<close> is the dictionary \<open>any_page_allocation\<close>, with one instance for
  allocations in the kernel table and one for those in a paging context.

  An \<open>Arc\<close> that an absent-page entry points to is represented by a number.  Dropping a value is an
  explicit call, at the place where the scope of the source ends.
\<close>

section \<open>Offsets and sizes\<close>

definition size_as_offset :: "PageAllocationSizeT \<Rightarrow> PageAlignedOffsetT exec" where
  "size_as_offset s =
     exec_bind (size_get s) (\<lambda>n.
     exec_bind (if isize_ok (int n) then Inr (int n) else Inl UnwrapNone) (\<lambda>i.
     exec_bind (offset_new_checked i) unwrap))"

definition add_offset_and_size :: "PageAlignedOffsetT \<Rightarrow> PageAllocationSizeT \<Rightarrow> PageAlignedOffsetT exec" where
  "add_offset_and_size off s = exec_bind (size_as_offset s) (offset_add off)"

definition sub_offset_and_size :: "PageAlignedOffsetT \<Rightarrow> PageAllocationSizeT \<Rightarrow> PageAlignedOffsetT exec" where
  "sub_offset_and_size off s = exec_bind (size_as_offset s) (offset_sub off)"

text \<open>\<open>isize\<close> to \<open>usize\<close> by \<open>try_into().unwrap()\<close>, and on to a size.\<close>

definition offset_as_usize :: "PageAlignedOffsetT \<Rightarrow> nat exec" where
  "offset_as_usize off = exec_bind (offset_get off) (\<lambda>i. if i < 0 then Inl UnwrapNone else Inr (nat i))"

definition offset_as_size :: "PageAlignedOffsetT \<Rightarrow> PageAllocationSizeT exec" where
  "offset_as_size off = exec_bind (offset_as_usize off) (\<lambda>n. exec_bind (size_new_checked n) unwrap)"

section \<open>Types\<close>

datatype GuardPageType = StackLimit | NullPointer

datatype AllocationType = UninitMem | ZeroedMem | GuardPage GuardPageType

definition needs_initialisation :: "AllocationType \<Rightarrow> bool" where
  "needs_initialisation t = (case t of UninitMem \<Rightarrow> False | GuardPage _ \<Rightarrow> False | ZeroedMem \<Rightarrow> True)"

datatype BackingType =
    PhysMemExclusive PhysicalMemoryAllocation
  | PhysMemShared PhysicalMemoryAllocation nat
  | CopyOnWrite BackingSection
  | ReservedMem
and BackingSection = BackingSection (sec_mode: BackingType) (sec_size: PageAllocationSizeT)

fun mode_phys_addr :: "BackingType \<Rightarrow> nat option exec" and section_phys_addr :: "BackingSection \<Rightarrow> nat option exec" where
  "mode_phys_addr (PhysMemExclusive alloc) = Inr (Some (pma_addr alloc))"
| "mode_phys_addr (PhysMemShared allocation off) = exec_bind (uadd (pma_addr allocation) off) (\<lambda>x. Inr (Some x))"
| "mode_phys_addr (CopyOnWrite cow) = section_phys_addr cow"
| "mode_phys_addr ReservedMem = Inr None"
| "section_phys_addr (BackingSection mode sz) = mode_phys_addr mode"

definition is_read_only :: "BackingSection \<Rightarrow> bool" where
  "is_read_only s = (case sec_mode s of
     PhysMemExclusive _ \<Rightarrow> False | PhysMemShared _ _ \<Rightarrow> False | CopyOnWrite _ \<Rightarrow> True | ReservedMem \<Rightarrow> False)"

record AllocationBacking =
  sections :: "BackingSection list"
  requested_type :: AllocationType
  backing_offset :: PageAlignedOffsetT
  total_size :: PageAllocationSizeT

datatype AbsentPagesItemA =
    NormalAllocation nat nat PageAlignedOffsetT
  | StaticGuardPage GuardPageType

record 'p VirtualAllocation =
  va_allocation :: 'p
  va_size :: PageAllocationSizeT
  va_handle :: location

record 'p VirtualSlot =
  vs_allocations :: "'p VirtualAllocation list"
  vs_default_flags :: PageFlags
  vs_offset :: PageAlignedOffsetT

record 'p UnifiedAllocationInner =
  virt_slots :: "'p VirtualSlot option list"
  backing :: AllocationBacking

text \<open>What the machine and the third-party crates provide.\<close>

record machine =
  mc_api :: pte_api
  mc_features :: features
  mc_virt :: virt_api
  mc_boxes :: boxes

record 'v world =
  phys :: buddy
  kernel_table :: "level3 LPAInternal"
  memory :: "nat \<Rightarrow> 8 word"
  absent_pages :: "(AbsentPagesItemA, unit) descriptor_table"
  absent_places :: "location \<Rightarrow> nat \<times> nat"
  spaces :: 'v

record ('w, 'p) any_page_allocation =
  ap_start :: "'p \<Rightarrow> PageAlignedAddressT exec"
  ap_size :: "'p \<Rightarrow> PageAllocationSizeT exec"
  ap_pt_phys_addr :: "'w \<Rightarrow> 'p \<Rightarrow> nat exec"
  ap_set_base_addr :: "'w \<Rightarrow> 'p \<Rightarrow> nat \<Rightarrow> PageFlags \<Rightarrow> 'w exec"
  ap_set_absent :: "'w \<Rightarrow> 'p \<Rightarrow> nat \<Rightarrow> 'w exec"
  ap_split :: "'w \<Rightarrow> 'p \<Rightarrow> PageAllocationSizeT \<Rightarrow> ('w \<times> 'p \<times> 'p) exec"
  ap_alloc_downwards :: "'w \<Rightarrow> 'p \<Rightarrow> PageAllocationSizeT \<Rightarrow> ('w \<times> 'p option) exec"
  ap_drop :: "'w \<Rightarrow> 'p \<Rightarrow> 'w exec"

section \<open>The implementations of the trait\<close>

definition lpa_get_phys_addr :: "'a vmem_type \<Rightarrow> 'a LPAInternal \<Rightarrow> nat exec" where
  "lpa_get_phys_addr T lpa = exec_bind (pf_ptr (vt_pfa T) (lpa_alloc lpa)) ptaddr_virt_to_phys"

text \<open>\<open>get\<close> and \<open>put\<close> find the table of the allocation in the world; the addresses flushed are not kept.\<close>

definition page_allocation_dyn :: "'a vmem_type \<Rightarrow> boxes \<Rightarrow> ('w \<Rightarrow> 'a LPAInternal) \<Rightarrow> ('a LPAInternal \<Rightarrow> 'w \<Rightarrow> 'w)
    \<Rightarrow> ('w, PageAllocation) any_page_allocation" where
  "page_allocation_dyn T b get put = \<lparr>
     ap_start = pa_start T,
     ap_size = pa_size,
     ap_pt_phys_addr = (\<lambda>w pa. lpa_get_phys_addr T (get w)),
     ap_set_base_addr = (\<lambda>w pa base flags. exec_bind (pa_set_base_addr T (get w) pa base flags) (\<lambda>(l, _). Inr (put l w))),
     ap_set_absent = (\<lambda>w pa data. exec_bind (guard_set_absent T (get w) pa data) (\<lambda>(l, _). Inr (put l w))),
     ap_split = (\<lambda>w pa mid. exec_bind (split_allocation T b (get w) pa mid) (\<lambda>(l, lhs, rhs). Inr (put l w, lhs, rhs))),
     ap_alloc_downwards = (\<lambda>w pa sz. exec_bind (pa_alloc_downwards T b (get w) pa sz) (\<lambda>(l, r). Inr (put l w, r))),
     ap_drop = (\<lambda>w pa. exec_bind (guard_dealloc T (get w) pa) (\<lambda>(l, _). Inr (put l w)))\<rparr>"

definition kernel_type :: "machine \<Rightarrow> level3 vmem_type" where
  "kernel_type mc = \<lparr>vt_pfa = mlff_ops (X64Level3 (mc_api mc) (mc_features mc)), vt_walk = walk3 (mc_api mc) (mc_features mc), vt_virt = mc_virt mc\<rparr>"

definition kernel_dyn :: "machine \<Rightarrow> ('v world, PageAllocation) any_page_allocation" where
  "kernel_dyn mc = page_allocation_dyn (kernel_type mc) (mc_boxes mc) kernel_table (\<lambda>l w. w\<lparr>kernel_table := l\<rparr>)"

definition context_dyn :: "machine \<Rightarrow> (level4 LPAInternal world, PageAllocation) any_page_allocation" where
  "context_dyn mc = page_allocation_dyn (context_type (mc_api mc) (mc_features mc) (mc_virt mc)) (mc_boxes mc) spaces (\<lambda>l w. w\<lparr>spaces := l\<rparr>)"

section \<open>New backing memory\<close>

definition kernel_allocate :: "machine \<Rightarrow> 'v world \<Rightarrow> PageAllocationSizeT \<Rightarrow> strategies \<Rightarrow> ('v world \<times> PageAllocation option) exec" where
  "kernel_allocate mc w sz strat = exec_bind (lpa_allocate (kernel_type mc) (mc_boxes mc) (kernel_table w) sz strat) (\<lambda>(l, r). Inr (w\<lparr>kernel_table := l\<rparr>, r))"

definition kernel_allocate_at :: "machine \<Rightarrow> 'v world \<Rightarrow> PageAlignedAddressT \<Rightarrow> PageAllocationSizeT \<Rightarrow> ('v world \<times> PageAllocation option) exec" where
  "kernel_allocate_at mc w addr sz = exec_bind (lpa_allocate_at (kernel_type mc) (mc_boxes mc) (kernel_table w) addr sz) (\<lambda>(l, r). Inr (w\<lparr>kernel_table := l\<rparr>, r))"

definition map_into_vmem :: "machine \<Rightarrow> 'v world \<Rightarrow> nat \<Rightarrow> PageAllocationSizeT \<Rightarrow> ('v world \<times> PageAllocation \<times> nat) exec" where
  "map_into_vmem mc w phys_addr sz =
     exec_bind (kernel_allocate mc w sz KALLOCATION_KERNEL_GENERALDYN) (\<lambda>(w, r).
     exec_bind (unwrap r) (\<lambda>vmap.
     exec_bind (ap_set_base_addr (kernel_dyn mc) w vmap phys_addr (flags_new {WRITEABLE} {PINNED})) (\<lambda>w.
     exec_bind (pa_start (kernel_type mc) vmap) (\<lambda>s.
     exec_bind (address_get s) (\<lambda>ptr. Inr (w, vmap, ptr))))))"

text \<open>
  \<open>write_bytes\<close> through the kernel table: the bytes written are those the table translates the
  addresses to, which are relative to the start of the table.
\<close>

definition kernel_translate :: "machine \<Rightarrow> 'v world \<Rightarrow> nat \<Rightarrow> nat option" where
  "kernel_translate mc w vaddr = (let off = meta_offset (lpa_meta (kernel_table w)) in
     if off \<le> vaddr then l3_leaf (mc_api mc) (mc_features mc) (lpa_alloc (kernel_table w)) (vaddr - off) else None)"

fun write_bytes :: "(nat \<Rightarrow> nat option) \<Rightarrow> nat \<Rightarrow> 8 word \<Rightarrow> nat \<Rightarrow> (nat \<Rightarrow> 8 word) \<Rightarrow> nat \<Rightarrow> 8 word" where
  "write_bytes tr ptr v 0 m = m"
| "write_bytes tr ptr v (Suc n) m = (let m = write_bytes tr ptr v n m in
     case tr (ptr + n) of Some p \<Rightarrow> m(p := v) | None \<Rightarrow> m)"

definition initialise :: "machine \<Rightarrow> AllocationType \<Rightarrow> 'v world \<Rightarrow> nat \<Rightarrow> PageAllocationSizeT \<Rightarrow> 'v world exec" where
  "initialise mc t w phys_addr sz =
     (if \<not> needs_initialisation t then Inr w
      else
        exec_bind (map_into_vmem mc w phys_addr sz) (\<lambda>(w, vmap, ptr).
        exec_bind (case t of
            ZeroedMem \<Rightarrow> exec_bind (size_get sz) (\<lambda>n. Inr (w\<lparr>memory := write_bytes (kernel_translate mc w) ptr 0 n (memory w)\<rparr>))
          | _ \<Rightarrow> Inl UnreachableCode) (\<lambda>w.
          ap_drop (kernel_dyn mc) w vmap)))"

definition allocate_new_backing :: "machine \<Rightarrow> 'v world \<Rightarrow> AllocationType \<Rightarrow> PageAllocationSizeT \<Rightarrow> ('v world \<times> BackingType option) exec" where
  "allocate_new_backing mc w btype sz = (case btype of
     GuardPage _ \<Rightarrow> Inr (w, Some ReservedMem)
   | _ \<Rightarrow>
       exec_bind (palloc (phys w) sz) (\<lambda>(ph, r). case r of
         None \<Rightarrow> Inr (w\<lparr>phys := ph\<rparr>, None)
       | Some phys_allocation \<Rightarrow>
           exec_bind (assert_that (raw_size (pma_size phys_allocation) \<ge> raw_size sz)) (\<lambda>_.
           exec_bind (initialise mc btype (w\<lparr>phys := ph\<rparr>) (pma_addr phys_allocation) sz) (\<lambda>w.
             Inr (w, Some (PhysMemExclusive phys_allocation))))))"

definition alloc_new_inner :: "machine \<Rightarrow> 'v world \<Rightarrow> AllocationType \<Rightarrow> PageAllocationSizeT \<Rightarrow> ('v world \<times> 'p UnifiedAllocationInner option) exec" where
  "alloc_new_inner mc w btype sz =
     exec_bind (allocate_new_backing mc w btype sz) (\<lambda>(w, r). case r of
       None \<Rightarrow> Inr (w, None)
     | Some backing_item \<Rightarrow>
         exec_bind (offset_new 0) (\<lambda>zero.
           Inr (w, Some \<lparr>virt_slots = [None],
             backing = \<lparr>sections = [BackingSection backing_item sz], requested_type = btype, backing_offset = zero, total_size = sz\<rparr>\<rparr>)))"

definition total_size_plus :: "AllocationBacking \<Rightarrow> PageAllocationSizeT \<Rightarrow> PageAllocationSizeT exec" where
  "total_size_plus bk sz =
     exec_bind (size_get (total_size bk)) (\<lambda>x. exec_bind (size_get sz) (\<lambda>y. exec_bind (uadd x y) size_new))"

definition inner_expand_downwards :: "machine \<Rightarrow> 'v world \<Rightarrow> 'p UnifiedAllocationInner \<Rightarrow> PageAllocationSizeT \<Rightarrow> ('v world \<times> 'p UnifiedAllocationInner \<times> bool) exec" where
  "inner_expand_downwards mc w u sz =
     exec_bind (allocate_new_backing mc w (requested_type (backing u)) sz) (\<lambda>(w, r). case r of
       None \<Rightarrow> Inr (w, u, False)
     | Some allocation \<Rightarrow>
         exec_bind (total_size_plus (backing u) sz) (\<lambda>total.
         exec_bind (sub_offset_and_size (backing_offset (backing u)) sz) (\<lambda>off.
           Inr (w, u\<lparr>backing := (backing u)\<lparr>sections := BackingSection allocation sz # sections (backing u), total_size := total, backing_offset := off\<rparr>\<rparr>, True))))"

definition inner_expand_upwards :: "machine \<Rightarrow> 'v world \<Rightarrow> 'p UnifiedAllocationInner \<Rightarrow> PageAllocationSizeT \<Rightarrow> ('v world \<times> 'p UnifiedAllocationInner \<times> bool) exec" where
  "inner_expand_upwards mc w u sz =
     exec_bind (allocate_new_backing mc w (requested_type (backing u)) sz) (\<lambda>(w, r). case r of
       None \<Rightarrow> Inr (w, u, False)
     | Some allocation \<Rightarrow>
         exec_bind (total_size_plus (backing u) sz) (\<lambda>total.
           Inr (w, u\<lparr>backing := (backing u)\<lparr>sections := sections (backing u) @ [BackingSection allocation sz], total_size := total\<rparr>\<rparr>, True)))"

section \<open>Virtual allocations and the table of absent pages\<close>

text \<open>
  The absent-pages table has 16 descriptors and 8 sub-tables per level.  The fuel for a new
  descriptor is more than the size of the tree, which is enough for the descent to end.
\<close>

definition absent_new :: "AbsentPagesItemA \<Rightarrow> nat \<Rightarrow> nat \<Rightarrow> 'v world \<Rightarrow> ('v world \<times> location) exec" where
  "absent_new item pt_phys_addr virt_addr w =
     (case create_new_descriptor (Suc (size (root (absent_pages w)))) 16 8 (absent_pages w) of
       None \<Rightarrow> Inl UnreachableCode
     | Some r \<Rightarrow>
         exec_bind r (\<lambda>(dt, loc).
         exec_bind (unwrap (lookup_loc (root dt) loc)) (\<lambda>d.
           Inr (w\<lparr>absent_pages := dt\<lparr>root := update_loc (root dt) loc (handle_downgrade (commit item () d))\<rparr>,
                 absent_places := (absent_places w)(loc := (pt_phys_addr, virt_addr))\<rparr>, loc))))"

definition absent_drop :: "location \<Rightarrow> 'v world \<Rightarrow> 'v world exec" where
  "absent_drop loc w =
     exec_bind (unwrap (lookup_loc (root (absent_pages w)) loc)) (\<lambda>d.
       Inr (w\<lparr>absent_pages := (absent_pages w)\<lparr>root := update_loc (root (absent_pages w)) loc (handle_drop False d)\<rparr>\<rparr>))"

definition absent_id :: "'v world \<Rightarrow> location \<Rightarrow> nat exec" where
  "absent_id w loc = exec_bind (unwrap (lookup_loc (root (absent_pages w)) loc)) (\<lambda>d. Inr (unat (desc_id d)))"

definition virtual_allocation_new :: "('v world, 'p) any_page_allocation \<Rightarrow> 'v world \<Rightarrow> 'p \<Rightarrow> AbsentPagesItemA \<Rightarrow> ('v world \<times> 'p VirtualAllocation) exec" where
  "virtual_allocation_new D w allocation meta_a =
     exec_bind (ap_size D allocation) (\<lambda>sz.
     exec_bind (ap_pt_phys_addr D w allocation) (\<lambda>pt.
     exec_bind (ap_start D allocation) (\<lambda>s.
     exec_bind (address_get s) (\<lambda>va.
     exec_bind (absent_new meta_a pt va w) (\<lambda>(w, loc).
       Inr (w, \<lparr>va_allocation = allocation, va_size = sz, va_handle = loc\<rparr>))))))"

definition virtual_allocation_drop :: "('v world, 'p) any_page_allocation \<Rightarrow> 'v world \<Rightarrow> 'p VirtualAllocation \<Rightarrow> 'v world exec" where
  "virtual_allocation_drop D w va = exec_bind (ap_drop D w (va_allocation va)) (absent_drop (va_handle va))"

fun drop_all :: "('v world, 'p) any_page_allocation \<Rightarrow> 'v world \<Rightarrow> 'p VirtualAllocation list \<Rightarrow> 'v world exec" where
  "drop_all D w [] = Inr w"
| "drop_all D w (va # vas) = exec_bind (virtual_allocation_drop D w va) (\<lambda>w. drop_all D w vas)"

section \<open>Remapping\<close>

definition remap_page :: "('v world, 'p) any_page_allocation \<Rightarrow> 'v world \<Rightarrow> BackingSection \<Rightarrow> PageFlags \<Rightarrow> 'p VirtualAllocation \<Rightarrow> nat \<Rightarrow> bool \<Rightarrow> 'v world exec" where
  "remap_page D w sec flags virt mapping_addr_offset force_readonly =
     exec_bind (section_phys_addr sec) (\<lambda>addr. case addr of
       Some addr \<Rightarrow>
         exec_bind (uadd addr mapping_addr_offset) (\<lambda>addr.
           ap_set_base_addr D w (va_allocation virt) addr
             (if force_readonly \<or> is_read_only sec then flags_sub_t flags {WRITEABLE} else flags))
     | None \<Rightarrow>
         exec_bind (absent_id w (va_handle virt)) (\<lambda>abt_id. ap_set_absent D w (va_allocation virt) abt_id))"

text \<open>
  The state of one slot during \<open>_remap_pages\<close>: the world, where the next allocation starts, the
  allocations still to process and those already put back.  A slot is \<open>None\<close> once it is done.
\<close>

record 'p VirtRemapState =
  prev_alloc_end :: PageAlignedOffsetT
  to_process :: "'p VirtualAllocation list"
  put_back :: "'p VirtualAllocation list"
  rs_flags :: PageFlags
  rs_slot :: nat

text \<open>One turn of the inner loop: \<open>Inl\<close> of the state to continue with, \<open>Inr\<close> of it to leave the loop.\<close>

definition remap_turn :: "('v world, 'p) any_page_allocation \<Rightarrow> nat \<Rightarrow> bool \<Rightarrow> bool \<Rightarrow> BackingSection \<Rightarrow> PageAlignedOffsetT \<Rightarrow> PageAlignedOffsetT
    \<Rightarrow> 'p VirtualAllocation \<Rightarrow> 'p VirtRemapState \<Rightarrow> 'v world \<Rightarrow> (('v world \<times> 'p VirtRemapState) + ('v world \<times> 'p VirtRemapState)) exec" where
  "remap_turn D self_arc force_readonly is_first_section sec bstart bend virt_alloc st w =
     (let vstart = prev_alloc_end st in
      exec_bind (add_offset_and_size vstart (va_size virt_alloc)) (\<lambda>vend.
      let st = st\<lparr>prev_alloc_end := vend\<rparr> in
      if raw_offset vend \<le> raw_offset bstart then
        (if is_first_section then exec_bind (virtual_allocation_drop D w virt_alloc) (\<lambda>w. Inr (Inl (w, st))) else Inl UnreachableCode)
      else if raw_offset vstart \<ge> raw_offset bend then
        Inr (Inr (w, st\<lparr>to_process := virt_alloc # to_process st\<rparr>))
      else if raw_offset vstart \<ge> raw_offset bstart \<and> raw_offset vend \<le> raw_offset bend then
        exec_bind (offset_sub vstart bstart) (\<lambda>off.
        exec_bind (offset_as_usize off) (\<lambda>addr_offset.
        exec_bind (remap_page D w sec (rs_flags st) virt_alloc addr_offset force_readonly) (\<lambda>w.
          Inr (Inl (w, st\<lparr>put_back := put_back st @ [virt_alloc]\<rparr>)))))
      else if raw_offset vend > raw_offset bend then
        exec_bind (offset_sub bend vstart) (\<lambda>off.
        exec_bind (offset_as_size off) (\<lambda>part_of_us_size.
        exec_bind (ap_split D w (va_allocation virt_alloc) part_of_us_size) (\<lambda>(w, lhs, rhs).
        exec_bind (virtual_allocation_new D w rhs (NormalAllocation self_arc (rs_slot st) bend)) (\<lambda>(w, rhs).
        exec_bind (virtual_allocation_new D w lhs (NormalAllocation self_arc (rs_slot st) vstart)) (\<lambda>(w, lhs).
        exec_bind (absent_drop (va_handle virt_alloc) w) (\<lambda>w.
          Inr (Inl (w, st\<lparr>to_process := lhs # rhs # to_process st\<rparr>))))))))
      else
        exec_bind (offset_sub vstart bstart) (\<lambda>off.
        exec_bind (offset_as_size off) (\<lambda>start_overran_by.
        exec_bind (ap_split D w (va_allocation virt_alloc) start_overran_by) (\<lambda>(w, lhs, rhs).
        exec_bind (virtual_allocation_new D w rhs (NormalAllocation self_arc (rs_slot st) bstart)) (\<lambda>(w, rhs).
        exec_bind (if is_first_section then ap_drop D w lhs else Inl UnreachableCode) (\<lambda>w.
        exec_bind (absent_drop (va_handle virt_alloc) w) (\<lambda>w.
          Inr (Inl (w, st\<lparr>to_process := rhs # to_process st\<rparr>))))))))))"

lemma remap_turn_advances:
  assumes "remap_turn D self_arc fr first sec bstart bend va st w = Inr (Inl (w', st'))"
  shows "nat (max (raw_offset bstart) (raw_offset bend) - raw_offset (prev_alloc_end st')) < nat (max (raw_offset bstart) (raw_offset bend) - raw_offset (prev_alloc_end st))"
  using assms
  by (fastforce simp: remap_turn_def Let_def add_offset_and_size_def size_as_offset_def size_get_def offset_add_def offset_new_def isize_chk_def
      offset_new_checked_def exec_dests split: if_splits prod.splits)

text \<open>
  The inner loop.  Every turn that continues moves the end of the last allocation forward, so it
  terminates.  A slot with nothing left to process is done; the next section finds nothing in it.
\<close>

function remap_slot :: "('v world, 'p) any_page_allocation \<Rightarrow> nat \<Rightarrow> bool \<Rightarrow> bool \<Rightarrow> BackingSection \<Rightarrow> PageAlignedOffsetT \<Rightarrow> PageAlignedOffsetT
    \<Rightarrow> 'p VirtRemapState \<Rightarrow> 'v world \<Rightarrow> ('v world \<times> 'p VirtRemapState) exec" where
  "remap_slot D self_arc force_readonly is_first_section sec bstart bend st w = (case to_process st of
     [] \<Rightarrow> Inr (w, st)
   | virt_alloc # rest \<Rightarrow>
      (case remap_turn D self_arc force_readonly is_first_section sec bstart bend virt_alloc (st\<lparr>to_process := rest\<rparr>) w of
         Inl p \<Rightarrow> Inl p
       | Inr (Inr r) \<Rightarrow> Inr r
       | Inr (Inl (w, st)) \<Rightarrow> remap_slot D self_arc force_readonly is_first_section sec bstart bend st w))"
  by pat_completeness auto

termination remap_slot
proof (relation "measure (\<lambda>(D, self_arc, fr, first, sec, bstart, bend, st, w). nat (max (raw_offset bstart) (raw_offset bend) - raw_offset (prev_alloc_end st)))", goal_cases)
  case (2 D self_arc fr first sec bstart bend st w va rest x2 x1 w' st')
  then show ?case using remap_turn_advances[of D self_arc fr first sec bstart bend va "st\<lparr>to_process := rest\<rparr>" w w' st'] by simp
qed simp

declare remap_slot.simps [simp del]

fun remap_slots :: "('v world, 'p) any_page_allocation \<Rightarrow> nat \<Rightarrow> bool \<Rightarrow> bool \<Rightarrow> BackingSection \<Rightarrow> PageAlignedOffsetT \<Rightarrow> PageAlignedOffsetT
    \<Rightarrow> 'p VirtRemapState list \<Rightarrow> 'v world \<Rightarrow> ('v world \<times> 'p VirtRemapState list) exec" where
  "remap_slots D self_arc fr first sec bstart bend [] w = Inr (w, [])"
| "remap_slots D self_arc fr first sec bstart bend (st # sts) w =
     exec_bind (remap_slot D self_arc fr first sec bstart bend st w) (\<lambda>(w, st).
     exec_bind (remap_slots D self_arc fr first sec bstart bend sts w) (\<lambda>(w, sts). Inr (w, st # sts)))"

fun remap_sections :: "('v world, 'p) any_page_allocation \<Rightarrow> nat \<Rightarrow> bool \<Rightarrow> bool \<Rightarrow> BackingSection list \<Rightarrow> PageAlignedOffsetT
    \<Rightarrow> 'p VirtRemapState list \<Rightarrow> 'v world \<Rightarrow> ('v world \<times> 'p VirtRemapState list) exec" where
  "remap_sections D self_arc fr first [] bstart sts w = Inr (w, sts)"
| "remap_sections D self_arc fr first (sec # secs) bstart sts w =
     exec_bind (add_offset_and_size bstart (sec_size sec)) (\<lambda>bend.
     exec_bind (remap_slots D self_arc fr first sec bstart bend sts w) (\<lambda>(w, sts).
       remap_sections D self_arc fr False secs bend sts w))"

text \<open>The slots chosen by \<open>virt_slot\<close> are drained into states, and what was put back is their new content.\<close>

definition start_states :: "nat option \<Rightarrow> 'p VirtualSlot option list \<Rightarrow> 'p VirtRemapState list" where
  "start_states only slots = concat (map (\<lambda>(i, slot). case slot of
      Some sl \<Rightarrow> if only = None \<or> only = Some i
        then [\<lparr>prev_alloc_end = vs_offset sl, to_process = vs_allocations sl, put_back = [], rs_flags = vs_default_flags sl, rs_slot = i\<rparr>] else []
    | None \<Rightarrow> []) (List.enumerate 0 slots))"

definition store_state :: "'p VirtRemapState \<Rightarrow> 'p VirtualSlot option list \<Rightarrow> 'p VirtualSlot option list" where
  "store_state st slots = slots[rs_slot st := map_option (\<lambda>sl. sl\<lparr>vs_allocations := put_back st\<rparr>) (slots ! rs_slot st)]"

fun drop_states :: "('v world, 'p) any_page_allocation \<Rightarrow> 'v world \<Rightarrow> 'p VirtRemapState list \<Rightarrow> 'v world exec" where
  "drop_states D w [] = Inr w"
| "drop_states D w (st # sts) = exec_bind (drop_all D w (to_process st)) (\<lambda>w. drop_states D w sts)"

definition remap_pages :: "('v world, 'p) any_page_allocation \<Rightarrow> nat \<Rightarrow> nat option \<Rightarrow> bool \<Rightarrow> 'v world \<Rightarrow> 'p UnifiedAllocationInner \<Rightarrow> ('v world \<times> 'p UnifiedAllocationInner) exec" where
  "remap_pages D self_arc virt_slot force_readonly w u =
     exec_bind (remap_sections D self_arc force_readonly True (sections (backing u)) (backing_offset (backing u)) (start_states virt_slot (virt_slots u)) w) (\<lambda>(w, sts).
     exec_bind (drop_states D w sts) (\<lambda>w.
       Inr (w, u\<lparr>virt_slots := fold store_state sts (virt_slots u)\<rparr>)))"

text \<open>
  \<open>_remap_pages_fast\<close>: no splitting, so the loop is structural.  The allocation that is past the
  section has already been taken from the iterator when the loop is left.
\<close>

fun remap_fast_slot :: "('v world, 'p) any_page_allocation \<Rightarrow> bool \<Rightarrow> BackingSection \<Rightarrow> PageAlignedOffsetT \<Rightarrow> PageAlignedOffsetT \<Rightarrow> PageFlags
    \<Rightarrow> PageAlignedOffsetT \<Rightarrow> 'p VirtualAllocation list \<Rightarrow> 'v world \<Rightarrow> ('v world \<times> PageAlignedOffsetT \<times> 'p VirtualAllocation list) exec" where
  "remap_fast_slot D fr sec bstart bend flags vstart [] w = Inr (w, vstart, [])"
| "remap_fast_slot D fr sec bstart bend flags vstart (va # rest) w =
     exec_bind (add_offset_and_size vstart (va_size va)) (\<lambda>vend.
     if raw_offset vstart \<ge> raw_offset bend then Inr (w, vend, rest)
     else
       exec_bind (assert_that (raw_offset vstart \<ge> raw_offset bstart)) (\<lambda>_.
       exec_bind (assert_that (raw_offset vend \<le> raw_offset bend)) (\<lambda>_.
       exec_bind (offset_sub vstart bstart) (\<lambda>off.
       exec_bind (offset_as_usize off) (\<lambda>addr_offset.
       exec_bind (remap_page D w sec flags va addr_offset fr) (\<lambda>w.
         remap_fast_slot D fr sec bstart bend flags vend rest w))))))"

fun remap_fast_slots :: "('v world, 'p) any_page_allocation \<Rightarrow> bool \<Rightarrow> BackingSection \<Rightarrow> PageAlignedOffsetT \<Rightarrow> PageAlignedOffsetT
    \<Rightarrow> 'p VirtRemapState list \<Rightarrow> 'v world \<Rightarrow> ('v world \<times> 'p VirtRemapState list) exec" where
  "remap_fast_slots D fr sec bstart bend [] w = Inr (w, [])"
| "remap_fast_slots D fr sec bstart bend (st # sts) w =
     exec_bind (remap_fast_slot D fr sec bstart bend (rs_flags st) (prev_alloc_end st) (to_process st) w) (\<lambda>(w, vend, rest).
     exec_bind (remap_fast_slots D fr sec bstart bend sts w) (\<lambda>(w, sts). Inr (w, st\<lparr>prev_alloc_end := vend, to_process := rest\<rparr> # sts)))"

fun remap_fast_sections :: "('v world, 'p) any_page_allocation \<Rightarrow> bool \<Rightarrow> BackingSection list \<Rightarrow> PageAlignedOffsetT
    \<Rightarrow> 'p VirtRemapState list \<Rightarrow> 'v world \<Rightarrow> 'v world exec" where
  "remap_fast_sections D fr [] bstart sts w = Inr w"
| "remap_fast_sections D fr (sec # secs) bstart sts w =
     exec_bind (add_offset_and_size bstart (sec_size sec)) (\<lambda>bend.
     exec_bind (remap_fast_slots D fr sec bstart bend sts w) (\<lambda>(w, sts). remap_fast_sections D fr secs bend sts w))"

definition remap_pages_fast :: "('v world, 'p) any_page_allocation \<Rightarrow> nat option \<Rightarrow> bool \<Rightarrow> 'v world \<Rightarrow> 'p UnifiedAllocationInner \<Rightarrow> 'v world exec" where
  "remap_pages_fast D virt_slot force_readonly w u =
     remap_fast_sections D force_readonly (sections (backing u)) (backing_offset (backing u)) (start_states virt_slot (virt_slots u)) w"

section \<open>Growing the virtual allocations\<close>

fun sum_offset :: "PageAlignedOffsetT \<Rightarrow> PageAllocationSizeT list \<Rightarrow> PageAlignedOffsetT exec" where
  "sum_offset off [] = Inr off"
| "sum_offset off (s # ss) = exec_bind (add_offset_and_size off s) (\<lambda>off. sum_offset off ss)"

definition expand_slot_down :: "('v world, 'p) any_page_allocation \<Rightarrow> nat \<Rightarrow> PageAlignedOffsetT \<Rightarrow> nat \<Rightarrow> 'p VirtualSlot \<Rightarrow> 'v world
    \<Rightarrow> ('v world \<times> 'p VirtualSlot \<times> bool) exec" where
  "expand_slot_down D self_arc bottom_offset virt_idx sl w = (case vs_allocations sl of
     [] \<Rightarrow> Inl UnwrapNone
   | old # _ \<Rightarrow>
       exec_bind (offset_sub (vs_offset sl) bottom_offset) (\<lambda>off.
       exec_bind (offset_get off) (\<lambda>amount_missing.
       if amount_missing \<le> 0 then Inr (w, sl, True)
       else
         exec_bind (size_new (nat amount_missing)) (\<lambda>amount_missing.
         exec_bind (ap_alloc_downwards D w (va_allocation old) amount_missing) (\<lambda>(w, r). case r of
           None \<Rightarrow> Inr (w, sl, False)
         | Some new_allocation \<Rightarrow>
             exec_bind (virtual_allocation_new D w new_allocation (NormalAllocation self_arc virt_idx bottom_offset)) (\<lambda>(w, va).
               Inr (w, sl\<lparr>vs_allocations := va # vs_allocations sl\<rparr>, True)))))))"

text \<open>Growing upwards is not implemented in the source: a slot that is too short stays as it is.\<close>

definition expand_slot_up :: "PageAlignedOffsetT \<Rightarrow> 'p VirtualSlot \<Rightarrow> bool exec" where
  "expand_slot_up top_offset sl = (case vs_allocations sl of
     [] \<Rightarrow> Inl UnwrapNone
   | _ \<Rightarrow>
       exec_bind (sum_offset (vs_offset sl) (map va_size (vs_allocations sl))) (\<lambda>old_offset.
       exec_bind (offset_sub top_offset old_offset) (\<lambda>off.
       exec_bind (offset_get off) (\<lambda>amount_missing.
       if amount_missing \<le> 0 then Inr True else exec_bind (size_new (nat amount_missing)) (\<lambda>_. Inr False)))))"

fun expand_all_down :: "('v world, 'p) any_page_allocation \<Rightarrow> nat \<Rightarrow> PageAlignedOffsetT \<Rightarrow> nat \<Rightarrow> 'p VirtualSlot option list \<Rightarrow> 'v world
    \<Rightarrow> ('v world \<times> 'p VirtualSlot option list \<times> nat list) exec" where
  "expand_all_down D self_arc bottom i [] w = Inr (w, [], [])"
| "expand_all_down D self_arc bottom i (None # sls) w =
     exec_bind (expand_all_down D self_arc bottom (Suc i) sls w) (\<lambda>(w, sls, ok). Inr (w, None # sls, ok))"
| "expand_all_down D self_arc bottom i (Some sl # sls) w =
     exec_bind (expand_slot_down D self_arc bottom i sl w) (\<lambda>(w, sl, good).
     exec_bind (expand_all_down D self_arc bottom (Suc i) sls w) (\<lambda>(w, sls, ok). Inr (w, Some sl # sls, if good then i # ok else ok)))"

fun expand_all_up :: "PageAlignedOffsetT \<Rightarrow> nat \<Rightarrow> 'p VirtualSlot option list \<Rightarrow> nat list exec" where
  "expand_all_up top_off i [] = Inr []"
| "expand_all_up top_off i (None # sls) = expand_all_up top_off (Suc i) sls"
| "expand_all_up top_off i (Some sl # sls) =
     exec_bind (expand_slot_up top_off sl) (\<lambda>good. exec_bind (expand_all_up top_off (Suc i) sls) (\<lambda>ok. Inr (if good then i # ok else ok)))"

definition expand_vmem :: "('v world, 'p) any_page_allocation \<Rightarrow> nat \<Rightarrow> 'v world \<Rightarrow> 'p UnifiedAllocationInner \<Rightarrow> ('v world \<times> 'p UnifiedAllocationInner \<times> nat list) exec" where
  "expand_vmem D self_arc w u =
     exec_bind (sum_offset (backing_offset (backing u)) (map sec_size (sections (backing u)))) (\<lambda>top_offset.
     exec_bind (expand_all_down D self_arc (backing_offset (backing u)) 0 (virt_slots u) w) (\<lambda>(w, slots, down).
     exec_bind (expand_all_up top_offset 0 slots) (\<lambda>up.
     exec_bind (remap_pages D self_arc None False w (u\<lparr>virt_slots := slots\<rparr>)) (\<lambda>(w, u).
       Inr (w, u, filter (\<lambda>i. i \<in> set up) down)))))"

section \<open>Adding and clearing virtual mappings\<close>

definition free_slot_index :: "'p VirtualSlot option list \<Rightarrow> nat" where
  "free_slot_index slots = (case position (\<lambda>sl. sl = None) slots of Some i \<Rightarrow> i | None \<Rightarrow> length slots)"

definition new_virt_mapping :: "('v world, 'p) any_page_allocation \<Rightarrow> nat \<Rightarrow> 'v world \<Rightarrow> 'p UnifiedAllocationInner \<Rightarrow> 'p \<Rightarrow> PageFlags \<Rightarrow> PageAlignedOffsetT
    \<Rightarrow> ('v world \<times> 'p UnifiedAllocationInner \<times> nat) exec" where
  "new_virt_mapping D self_arc w u allocation flags off =
     (let slot_idx = free_slot_index (virt_slots u);
          slots = (if slot_idx < length (virt_slots u) then virt_slots u else virt_slots u @ [None]) in
      exec_bind (offset_add (backing_offset (backing u)) off) (\<lambda>off.
      exec_bind (virtual_allocation_new D w allocation (NormalAllocation self_arc slot_idx off)) (\<lambda>(w, va).
      exec_bind (vec_set slots slot_idx (Some \<lparr>vs_allocations = [va], vs_default_flags = flags, vs_offset = off\<rparr>)) (\<lambda>slots.
      exec_bind (remap_pages D self_arc (Some slot_idx) False w (u\<lparr>virt_slots := slots\<rparr>)) (\<lambda>(w, u).
        Inr (w, u, slot_idx))))))"

definition clear_virt_mapping :: "('v world, 'p) any_page_allocation \<Rightarrow> 'v world \<Rightarrow> 'p UnifiedAllocationInner \<Rightarrow> nat \<Rightarrow> ('v world \<times> 'p UnifiedAllocationInner) exec" where
  "clear_virt_mapping D w u sidx =
     exec_bind (vec_get (virt_slots u) sidx) (\<lambda>prev.
     exec_bind (vec_set (virt_slots u) sidx None) (\<lambda>slots.
     exec_bind (assert_that (prev \<noteq> None)) (\<lambda>_.
     exec_bind (case prev of Some sl \<Rightarrow> drop_all D w (vs_allocations sl) | None \<Rightarrow> Inr w) (\<lambda>w.
       Inr (w, u\<lparr>virt_slots := slots\<rparr>)))))"

section \<open>Unified allocations\<close>

text \<open>
  The operations of \<open>UnifiedAllocation\<close> take the locked inner value and return it.  A
  \<open>UnifiedVirtGuard\<close> is the index of its slot.
\<close>

definition ua_expand_downwards :: "('v world, 'p) any_page_allocation \<Rightarrow> machine \<Rightarrow> nat \<Rightarrow> 'v world \<Rightarrow> 'p UnifiedAllocationInner \<Rightarrow> PageAllocationSizeT
    \<Rightarrow> ('v world \<times> 'p UnifiedAllocationInner \<times> nat list) exec" where
  "ua_expand_downwards D mc self_arc w u sz = exec_bind (inner_expand_downwards mc w u sz) (\<lambda>(w, u, _). expand_vmem D self_arc w u)"

definition ua_expand_upwards :: "('v world, 'p) any_page_allocation \<Rightarrow> machine \<Rightarrow> nat \<Rightarrow> 'v world \<Rightarrow> 'p UnifiedAllocationInner \<Rightarrow> PageAllocationSizeT
    \<Rightarrow> ('v world \<times> 'p UnifiedAllocationInner \<times> nat list) exec" where
  "ua_expand_upwards D mc self_arc w u sz = exec_bind (inner_expand_upwards mc w u sz) (\<lambda>(w, u, _). expand_vmem D self_arc w u)"

definition map_vmem :: "('v world, 'p) any_page_allocation \<Rightarrow> nat \<Rightarrow> 'v world \<Rightarrow> 'p UnifiedAllocationInner \<Rightarrow> 'p \<Rightarrow> PageFlags \<Rightarrow> PageAlignedOffsetT
    \<Rightarrow> ('v world \<times> 'p UnifiedAllocationInner \<times> nat) exec" where
  "map_vmem D self_arc w u allocation flags off = new_virt_mapping D self_arc w u allocation flags off"

definition virt_guard_drop :: "('v world, 'p) any_page_allocation \<Rightarrow> 'v world \<Rightarrow> 'p UnifiedAllocationInner \<Rightarrow> nat \<Rightarrow> ('v world \<times> 'p UnifiedAllocationInner) exec" where
  "virt_guard_drop D w u sidx = clear_virt_mapping D w u sidx"

definition slot_mut :: "'p UnifiedAllocationInner \<Rightarrow> nat \<Rightarrow> 'p VirtualSlot exec" where
  "slot_mut u i = exec_bind (vec_get (virt_slots u) i) unwrap"

fun sum_sizes :: "nat \<Rightarrow> PageAllocationSizeT list \<Rightarrow> nat exec" where
  "sum_sizes n [] = Inr n"
| "sum_sizes n (s # ss) = exec_bind (size_get s) (\<lambda>x. exec_bind (uadd n x) (\<lambda>n. sum_sizes n ss))"

definition get_bounds :: "('v world, 'p) any_page_allocation \<Rightarrow> 'p UnifiedAllocationInner \<Rightarrow> nat \<Rightarrow> (PageAlignedAddressT \<times> PageAllocationSizeT) exec" where
  "get_bounds D u i =
     exec_bind (slot_mut u i) (\<lambda>sl. case vs_allocations sl of
       [] \<Rightarrow> Inl UnwrapNone
     | va # _ \<Rightarrow>
         exec_bind (ap_start D (va_allocation va)) (\<lambda>s.
         exec_bind (sum_sizes 0 (map va_size (vs_allocations sl))) (\<lambda>n.
         exec_bind (size_new n) (\<lambda>sz. Inr (s, sz)))))"

text \<open>
  Dropping a unified allocation drops its slots and then its sections.  Shared and copy-on-write
  sections are reference counted and are never created by the source.
\<close>

definition section_drop :: "'v world \<Rightarrow> BackingSection \<Rightarrow> 'v world exec" where
  "section_drop w sec = (case sec_mode sec of
     PhysMemExclusive al \<Rightarrow> exec_bind (pmem_drop (phys w) al) (\<lambda>ph. Inr (w\<lparr>phys := ph\<rparr>))
   | _ \<Rightarrow> Inr w)"

fun sections_drop :: "'v world \<Rightarrow> BackingSection list \<Rightarrow> 'v world exec" where
  "sections_drop w [] = Inr w"
| "sections_drop w (s # ss) = exec_bind (section_drop w s) (\<lambda>w. sections_drop w ss)"

fun slots_drop :: "('v world, 'p) any_page_allocation \<Rightarrow> 'v world \<Rightarrow> 'p VirtualSlot option list \<Rightarrow> 'v world exec" where
  "slots_drop D w [] = Inr w"
| "slots_drop D w (None # sls) = slots_drop D w sls"
| "slots_drop D w (Some sl # sls) = exec_bind (drop_all D w (vs_allocations sl)) (\<lambda>w. slots_drop D w sls)"

definition unified_drop :: "('v world, 'p) any_page_allocation \<Rightarrow> 'v world \<Rightarrow> 'p UnifiedAllocationInner \<Rightarrow> 'v world exec" where
  "unified_drop D w u = exec_bind (slots_drop D w (virt_slots u)) (\<lambda>w. sections_drop w (sections (backing u)))"

section \<open>Stacks\<close>

text \<open>A stack owns the unified allocations of its main part and of its guard page.\<close>

record 'p AllocatedStack =
  stack_main :: "'p UnifiedAllocationInner"
  main_slot :: nat
  guard_page :: "'p UnifiedAllocationInner"
  guard_slot :: nat
  page_flags :: PageFlags
  guard_size :: PageAllocationSizeT

definition stack_alloc_new :: "('v world, 'p) any_page_allocation \<Rightarrow> machine \<Rightarrow> ('v world \<Rightarrow> PageAllocationSizeT \<Rightarrow> ('v world \<times> 'p option) exec)
    \<Rightarrow> nat \<Rightarrow> nat \<Rightarrow> 'v world \<Rightarrow> PageAllocationSizeT \<Rightarrow> PageAllocationSizeT \<Rightarrow> PageFlags \<Rightarrow> ('v world \<times> 'p AllocatedStack option) exec" where
  "stack_alloc_new D mc allocator main_arc guard_arc w stack_size gsize flags =
     exec_bind (alloc_new_inner mc w UninitMem stack_size) (\<lambda>(w, r). case r of None \<Rightarrow> Inr (w, None) | Some main_alloc \<Rightarrow>
     exec_bind (alloc_new_inner mc w (GuardPage StackLimit) gsize) (\<lambda>(w, r). case r of None \<Rightarrow> exec_bind (unified_drop D w main_alloc) (\<lambda>w. Inr (w, None)) | Some guard_alloc \<Rightarrow>
     exec_bind (size_get stack_size) (\<lambda>x. exec_bind (size_get gsize) (\<lambda>y. exec_bind (uadd x y) (\<lambda>n. exec_bind (size_new n) (\<lambda>size_total.
     exec_bind (allocator w size_total) (\<lambda>(w, r). case r of
       None \<Rightarrow> exec_bind (unified_drop D w guard_alloc) (\<lambda>w. exec_bind (unified_drop D w main_alloc) (\<lambda>w. Inr (w, None)))
     | Some virt_total \<Rightarrow>
     exec_bind (ap_split D w virt_total gsize) (\<lambda>(w, virt_guard, virt_main).
     exec_bind (offset_new 0) (\<lambda>zero.
     exec_bind (map_vmem D guard_arc w guard_alloc virt_guard flags zero) (\<lambda>(w, guard_alloc, vu_guard).
     exec_bind (map_vmem D main_arc w main_alloc virt_main flags zero) (\<lambda>(w, main_alloc, vu_main).
       Inr (w, Some \<lparr>stack_main = main_alloc, main_slot = vu_main, guard_page = guard_alloc, guard_slot = vu_guard, page_flags = flags, guard_size = gsize\<rparr>))))))))))))"

definition stack_bottom_vaddr :: "('v world, 'p) any_page_allocation \<Rightarrow> 'p AllocatedStack \<Rightarrow> PageAlignedAddressT exec" where
  "stack_bottom_vaddr D st =
     exec_bind (get_bounds D (stack_main st) (main_slot st)) (\<lambda>(max_top, sz).
     exec_bind (address_get max_top) (\<lambda>x. exec_bind (size_get sz) (\<lambda>n. exec_bind (uadd x n) address_new)))"

text \<open>
  The old guard allocations, from the last to the first, and then the extra allocation become the
  start of the main part.  Each comes with its size and the absent-page handle it gives up.
\<close>

fun move_to_main :: "('v world, 'p) any_page_allocation \<Rightarrow> nat \<Rightarrow> nat \<Rightarrow> 'v world \<Rightarrow> 'p VirtualSlot
    \<Rightarrow> ('p \<times> PageAllocationSizeT \<times> location option) list \<Rightarrow> ('v world \<times> 'p VirtualSlot) exec" where
  "move_to_main D main_arc sidx w sl [] = Inr (w, sl)"
| "move_to_main D main_arc sidx w sl ((p, sz, old) # ps) =
     exec_bind (sub_offset_and_size (vs_offset sl) sz) (\<lambda>new_offset.
     exec_bind (virtual_allocation_new D w p (NormalAllocation main_arc sidx new_offset)) (\<lambda>(w, va).
     exec_bind (case old of Some loc \<Rightarrow> absent_drop loc w | None \<Rightarrow> Inr w) (\<lambda>w.
       move_to_main D main_arc sidx w (sl\<lparr>vs_offset := new_offset, vs_allocations := va # vs_allocations sl\<rparr>) ps)))"

definition stack_expand :: "('v world, 'p) any_page_allocation \<Rightarrow> machine \<Rightarrow> nat \<Rightarrow> nat \<Rightarrow> 'v world \<Rightarrow> 'p AllocatedStack \<Rightarrow> PageAllocationSizeT
    \<Rightarrow> ('v world \<times> 'p AllocatedStack \<times> bool) exec" where
  "stack_expand D mc main_arc guard_arc w st amount =
     exec_bind (size_get amount) (\<lambda>n. exec_bind (size_get (guard_size st)) (\<lambda>g. exec_bind (usub n g) (\<lambda>rest.
     exec_bind (size_new_checked rest) (\<lambda>extra_amount.
     exec_bind (size_new 0) (\<lambda>default.
     exec_bind (size_get (case extra_amount of Some x \<Rightarrow> x | None \<Rightarrow> default)) (\<lambda>e. exec_bind (uadd e g) (\<lambda>t. exec_bind (size_new t) (\<lambda>total_to_allocate.
     exec_bind (slot_mut (guard_page st) (guard_slot st)) (\<lambda>gsl.
     exec_bind (vec_get (vs_allocations gsl) 0) (\<lambda>front.
     exec_bind (ap_alloc_downwards D w (va_allocation front) total_to_allocate) (\<lambda>(w, r). case r of
       None \<Rightarrow> Inr (w, st, False)
     | Some new_alloc \<Rightarrow>
     exec_bind (case extra_amount of
         Some _ \<Rightarrow> exec_bind (ap_split D w new_alloc (guard_size st)) (\<lambda>(w, lhs, rhs). exec_bind (ap_size D rhs) (\<lambda>rs. Inr (w, lhs, [(rhs, rs, None)])))
       | None \<Rightarrow> Inr (w, new_alloc, [])) (\<lambda>(w, new_guard_alloc, extra_main_alloc).
     exec_bind (vec_set (virt_slots (guard_page st)) (guard_slot st) (Some (gsl\<lparr>vs_allocations := []\<rparr>))) (\<lambda>gslots.
     exec_bind (slot_mut (stack_main st) (main_slot st)) (\<lambda>msl.
     exec_bind (move_to_main D main_arc (main_slot st) w msl 
         (rev (map (\<lambda>va. (va_allocation va, va_size va, Some (va_handle va))) (vs_allocations gsl)) @ extra_main_alloc)) (\<lambda>(w, msl).
     exec_bind (vec_set (virt_slots (stack_main st)) (main_slot st) (Some msl)) (\<lambda>mslots.
     exec_bind (ua_expand_downwards D mc main_arc w ((stack_main st)\<lparr>virt_slots := mslots\<rparr>) amount) (\<lambda>(w, main_u, expansion_results).
     exec_bind (assert_that (main_slot st \<in> set expansion_results)) (\<lambda>_.
     exec_bind (offset_new 0) (\<lambda>zero.
     exec_bind (map_vmem D guard_arc w ((guard_page st)\<lparr>virt_slots := gslots\<rparr>) new_guard_alloc (page_flags st) zero) (\<lambda>(w, guard_u, new_slot).
     exec_bind (virt_guard_drop D w guard_u (guard_slot st)) (\<lambda>(w, guard_u).
       Inr (w, st\<lparr>stack_main := main_u, guard_page := guard_u, guard_slot := new_slot\<rparr>, True))))))))))))))))))))))"

section \<open>Offset-mapped allocations\<close>

record OffsetMappedAllocation =
  om_virt :: PageAllocation
  om_phys :: PhysicalMemoryAllocation

definition om_alloc_new :: "machine \<Rightarrow> 'v world \<Rightarrow> PageAllocationSizeT \<Rightarrow> PageFlags \<Rightarrow> ('v world \<times> OffsetMappedAllocation option) exec" where
  "om_alloc_new mc w sz flags =
     exec_bind (palloc (phys w) sz) (\<lambda>(ph, r). let w = w\<lparr>phys := ph\<rparr> in case r of
       None \<Rightarrow> Inr (w, None)
     | Some p \<Rightarrow>
         exec_bind (uadd (pma_addr p) KERNEL_PTABLE_VADDR) (\<lambda>a. exec_bind (address_new a) (\<lambda>virt_addr.
         exec_bind (kernel_allocate_at mc w virt_addr (pma_size p)) (\<lambda>(w, virt).
         exec_bind (assert_that (virt \<noteq> None)) (\<lambda>_.
         exec_bind (unwrap virt) (\<lambda>virt.
         exec_bind (ap_set_base_addr (kernel_dyn mc) w virt (pma_addr p) flags) (\<lambda>w.
           Inr (w, Some \<lparr>om_virt = virt, om_phys = p\<rparr>))))))))"

definition om_get_phys_addr :: "OffsetMappedAllocation \<Rightarrow> PageAlignedAddressT exec" where
  "om_get_phys_addr om = address_new (pma_addr (om_phys om))"

definition om_get_virt_addr :: "machine \<Rightarrow> OffsetMappedAllocation \<Rightarrow> PageAlignedAddressT exec" where
  "om_get_virt_addr mc om = pa_start (kernel_type mc) (om_virt om)"

definition om_get_size :: "OffsetMappedAllocation \<Rightarrow> PageAllocationSizeT exec" where
  "om_get_size om = exec_bind (pa_size (om_virt om)) (\<lambda>vs.
     exec_bind (assert_that (pma_size (om_phys om) = vs)) (\<lambda>_. Inr (pma_size (om_phys om))))"

definition om_leak :: "machine \<Rightarrow> OffsetMappedAllocation \<Rightarrow> (nat \<times> PageAlignedAddressT \<times> PageAllocationSizeT) exec" where
  "om_leak mc om =
     exec_bind (om_get_phys_addr om) (\<lambda>pa. exec_bind (om_get_virt_addr mc om) (\<lambda>va. exec_bind (address_get va) (\<lambda>v.
     exec_bind (om_get_size om) (\<lambda>sz. Inr (v, pa, sz)))))"

definition om_drop :: "machine \<Rightarrow> 'v world \<Rightarrow> OffsetMappedAllocation \<Rightarrow> 'v world exec" where
  "om_drop mc w om =
     exec_bind (ap_drop (kernel_dyn mc) w (om_virt om)) (\<lambda>w.
     exec_bind (pmem_drop (phys w) (om_phys om)) (\<lambda>ph. Inr (w\<lparr>phys := ph\<rparr>)))"

end
