(* ===== verification/Unified_Correct.thy ===== *)
theory Unified_Correct
  imports Unified_Memory
begin

text \<open>
  What unified allocations, stacks and offset-mapped allocations do.  Remapping is characterised by
  equations that hold for every implementation of page allocations; the theorems about address
  translation then use the contract of the x86-64 page tables.
\<close>

section \<open>Offsets\<close>

lemma add_offset_and_size_ok:
  assumes "size_valid n" and "offset_valid x" and "isize_ok (int n)" and "isize_ok (x + int n)"
  shows "add_offset_and_size (PageAlignedOffsetT x) (PageAllocationSizeT n) = Inr (PageAlignedOffsetT (x + int n))"
proof -
  have "int n mod int PAGE_ALIGN = 0" using assms(1) by (simp add: size_valid_def flip: zmod_int)
  moreover from this have "(x + int n) mod int PAGE_ALIGN = 0" using assms(2) by (simp add: offset_valid_def mod_add_eq[symmetric] del: mod_add_eq)
  ultimately show ?thesis using assms
    by (simp add: add_offset_and_size_def size_as_offset_def offset_new_checked_def offset_new_def offset_add_def isize_chk_def)
qed

lemma offset_sub_ok:
  assumes "offset_valid x" and "offset_valid y" and "isize_ok (x - y)"
  shows "offset_sub (PageAlignedOffsetT x) (PageAlignedOffsetT y) = Inr (PageAlignedOffsetT (x - y))" and "offset_valid (x - y)"
proof -
  show v: "offset_valid (x - y)" using assms(1,2) by (simp add: offset_valid_def mod_diff_eq[symmetric] del: mod_diff_eq)
  then show "offset_sub (PageAlignedOffsetT x) (PageAlignedOffsetT y) = Inr (PageAlignedOffsetT (x - y))"
    using assms(3) by (simp add: offset_sub_def isize_chk_def offset_new_def offset_valid_def)
qed

lemma offset_as_usize_ok: "offset_valid x \<Longrightarrow> 0 \<le> x \<Longrightarrow> offset_as_usize (PageAlignedOffsetT x) = Inr (nat x)"
  by (simp add: offset_as_usize_def offset_get_def offset_valid_def)

lemma offset_valid_add: "offset_valid x \<Longrightarrow> size_valid n \<Longrightarrow> offset_valid (x + int n)"
proof -
  assume x: "offset_valid x" and n: "size_valid n"
  have "int n mod int PAGE_ALIGN = 0" using n by (simp add: size_valid_def flip: zmod_int)
  then show ?thesis using x by (simp add: offset_valid_def mod_add_eq[symmetric] del: mod_add_eq)
qed

section \<open>Expanding a stack\<close>

text \<open>Expanding a stack panics for every stack and every amount, before anything has been allocated: the
  argument of \<open>unwrap_or\<close> constructs a size of zero, which its constructor refuses.\<close>

theorem stack_expand_panics:
  "panics (stack_expand D mc main_arc guard_arc w st amount)"
proof -
  have "size_new 0 = Inl AssertFailed" by (simp add: size_new_def)
  then show ?thesis unfolding stack_expand_def
    by (cases "size_get amount"; cases "size_get (guard_size st)") (auto simp: usub_def size_new_checked_def size_new_def assert_that_def)
qed

section \<open>Remapping one section\<close>

text \<open>Reference: each allocation is mapped at its distance from the start of the section.\<close>

fun place_all :: "('v world, 'p) any_page_allocation \<Rightarrow> BackingSection \<Rightarrow> PageFlags \<Rightarrow> bool \<Rightarrow> nat \<Rightarrow> 'p VirtualAllocation list \<Rightarrow> 'v world \<Rightarrow> 'v world exec" where
  "place_all D sec flags fr pos [] w = Inr w"
| "place_all D sec flags fr pos (va # vas) w =
     exec_bind (remap_page D w sec flags va pos fr) (place_all D sec flags fr (pos + raw_size (va_size va)) vas)"

abbreviation total :: "'p VirtualAllocation list \<Rightarrow> nat" where
  "total vas \<equiv> sum_list (map (\<lambda>va. raw_size (va_size va)) vas)"

lemma remap_turn_within:
  assumes va: "size_valid (raw_size (va_size va))" and b: "offset_valid b" and pos: "offset_valid (b + int pos)" "pos + raw_size (va_size va) \<le> n"
    and st: "prev_alloc_end st = PageAlignedOffsetT (b + int pos)" and ok: "isize_ok b" "isize_ok (b + int n)" "isize_ok (int n)"
  shows "remap_turn D arc fr first sec (PageAlignedOffsetT b) (PageAlignedOffsetT (b + int n)) va st w =
    exec_bind (remap_page D w sec (rs_flags st) va pos fr) (\<lambda>w. Inr (Inl (w, st\<lparr>prev_alloc_end := PageAlignedOffsetT (b + int (pos + raw_size (va_size va))), put_back := put_back st @ [va]\<rparr>)))"
proof -
  let ?s = "raw_size (va_size va)"
  have "isize_ok (b + int pos + int ?s)" "isize_ok (int ?s)" "isize_ok (int pos)" "0 < ?s"
    using ok pos(2) va by (auto simp: isize_ok_def size_valid_def)
  moreover have "va_size va = PageAllocationSizeT ?s" by simp
  ultimately have e: "add_offset_and_size (PageAlignedOffsetT (b + int pos)) (va_size va) = Inr (PageAlignedOffsetT (b + int (pos + ?s)))"
    using add_offset_and_size_ok[OF va pos(1)] by (simp add: ac_simps)
  have "offset_sub (PageAlignedOffsetT (b + int pos)) (PageAlignedOffsetT b) = Inr (PageAlignedOffsetT (int pos))" "offset_valid (int pos)"
    using offset_sub_ok[OF pos(1) b] \<open>isize_ok (int pos)\<close> by simp_all
  then show ?thesis using e st pos(2) \<open>0 < ?s\<close> offset_as_usize_ok[of "int pos"]
    by (simp add: remap_turn_def Let_def)
qed

lemma remap_slot_within:
  assumes "\<And>va. va \<in> set vas \<Longrightarrow> size_valid (raw_size (va_size va))" and "offset_valid b" and "offset_valid (b + int pos)" and "pos + total vas \<le> n"
    and "isize_ok b" "isize_ok (b + int n)" "isize_ok (int n)"
    and "prev_alloc_end st = PageAlignedOffsetT (b + int pos)" and "to_process st = vas"
  shows "remap_slot D arc fr first sec (PageAlignedOffsetT b) (PageAlignedOffsetT (b + int n)) st w =
    exec_bind (place_all D sec (rs_flags st) fr pos vas w) (\<lambda>w.
      Inr (w, st\<lparr>to_process := [], prev_alloc_end := PageAlignedOffsetT (b + int (pos + total vas)), put_back := put_back st @ vas\<rparr>))"
  using assms
proof (induction vas arbitrary: pos st w)
  case Nil
  then show ?case by (subst remap_slot.simps) simp
next
  case (Cons va vas)
  let ?s = "raw_size (va_size va)"
  have va: "size_valid ?s" using Cons.prems(1) by simp
  have turn: "remap_turn D arc fr first sec (PageAlignedOffsetT b) (PageAlignedOffsetT (b + int n)) va (st\<lparr>to_process := vas\<rparr>) w =
    exec_bind (remap_page D w sec (rs_flags st) va pos fr) (\<lambda>w. Inr (Inl (w, st\<lparr>to_process := vas, prev_alloc_end := PageAlignedOffsetT (b + int (pos + ?s)), put_back := put_back st @ [va]\<rparr>)))"
    using remap_turn_within[OF va Cons.prems(2,3), of n "st\<lparr>to_process := vas\<rparr>"] Cons.prems by simp
  have "offset_valid (b + int (pos + ?s))" using offset_valid_add[OF Cons.prems(3) va] by (simp add: ac_simps)
  note IH = Cons.IH[OF _ Cons.prems(2) this _ Cons.prems(5-7), of "st\<lparr>to_process := vas, prev_alloc_end := PageAlignedOffsetT (b + int (pos + ?s)), put_back := put_back st @ [va]\<rparr>"]
  show ?case
  proof (cases "remap_page D w sec (rs_flags st) va pos fr")
    case (Inl p)
    then show ?thesis using turn Cons.prems(9) by (subst remap_slot.simps) simp
  next
    case (Inr w')
    then show ?thesis using turn Cons.prems IH by (subst remap_slot.simps) (simp add: add.assoc)
  qed
qed

lemma remap_turn_after:
  assumes "size_valid (raw_size (va_size va))" and "offset_valid x" and "isize_ok (x + int (raw_size (va_size va)))" "isize_ok (int (raw_size (va_size va)))"
    and "prev_alloc_end st = PageAlignedOffsetT x" and "be \<le> x" and "bs \<le> be"
  shows "remap_turn D arc fr first sec (PageAlignedOffsetT bs) (PageAlignedOffsetT be) va st w =
    Inr (Inr (w, st\<lparr>prev_alloc_end := PageAlignedOffsetT (x + int (raw_size (va_size va))), to_process := va # to_process st\<rparr>))"
proof -
  have "0 < raw_size (va_size va)" using assms(1) by (simp add: size_valid_def)
  moreover have "add_offset_and_size (PageAlignedOffsetT x) (va_size va) = Inr (PageAlignedOffsetT (x + int (raw_size (va_size va))))"
    using add_offset_and_size_ok[OF assms(1,2,4,3)] by simp
  ultimately show ?thesis using assms(5-7) by (simp add: remap_turn_def Let_def)
qed

lemma start_states_one [simp]:
  "start_states None [Some sl] = [\<lparr>prev_alloc_end = vs_offset sl, to_process = vs_allocations sl, put_back = [], rs_flags = vs_default_flags sl, rs_slot = 0\<rparr>]"
  "start_states (Some 0) [Some sl] = [\<lparr>prev_alloc_end = vs_offset sl, to_process = vs_allocations sl, put_back = [], rs_flags = vs_default_flags sl, rs_slot = 0\<rparr>]"
  by (simp_all add: start_states_def)

lemma remap_one_section:
  assumes "virt_slots u = [Some sl]" and "sections (backing u) = [sec]" and "virt_slot = None \<or> virt_slot = Some 0"
    and "backing_offset (backing u) = PageAlignedOffsetT b" and "vs_offset sl = PageAlignedOffsetT (b + int pos)"
    and "offset_valid b" and "offset_valid (b + int pos)" and "isize_ok b" "isize_ok (b + int n)" "isize_ok (int n)"
    and "sec_size sec = PageAllocationSizeT n" and "size_valid n"
    and "\<And>va. va \<in> set (vs_allocations sl) \<Longrightarrow> size_valid (raw_size (va_size va))" and "pos + total (vs_allocations sl) \<le> n"
  shows "remap_pages D arc virt_slot fr w u = exec_bind (place_all D sec (vs_default_flags sl) fr pos (vs_allocations sl) w) (\<lambda>w. Inr (w, u))"
proof -
  let ?st = "\<lparr>prev_alloc_end = vs_offset sl, to_process = vs_allocations sl, put_back = [], rs_flags = vs_default_flags sl, rs_slot = 0\<rparr>"
  have add: "add_offset_and_size (PageAlignedOffsetT b) (sec_size sec) = Inr (PageAlignedOffsetT (b + int n))"
    using add_offset_and_size_ok[of n b] assms by simp
  have start: "start_states virt_slot (virt_slots u) = [?st]" using assms(1,3) by auto
  have slot: "remap_slot D arc fr True sec (PageAlignedOffsetT b) (PageAlignedOffsetT (b + int n)) ?st w =
      exec_bind (place_all D sec (vs_default_flags sl) fr pos (vs_allocations sl) w) (\<lambda>w.
        Inr (w, \<lparr>prev_alloc_end = PageAlignedOffsetT (b + int (pos + total (vs_allocations sl))), to_process = [], put_back = vs_allocations sl, rs_flags = vs_default_flags sl, rs_slot = 0\<rparr>))"
    using remap_slot_within[of "vs_allocations sl" b pos n ?st D arc fr True sec w] assms by simp
  have u: "u\<lparr>virt_slots := [Some sl]\<rparr> = u" using assms(1) by simp
  show ?thesis unfolding remap_pages_def start using assms(1,2,4) add slot
    by (cases "place_all D sec (vs_default_flags sl) fr pos (vs_allocations sl) w") (simp_all add: store_state_def u)
qed

text \<open>Remapping forgets every section after the first.  A slot whose two allocations match the two sections of
  the backing memory exactly loses the second one: it is unmapped and dropped, because the position of an allocation
  that belongs to a later section is advanced each time it is put back.\<close>

theorem remap_drops_second_section:
  assumes "virt_slots u = [Some sl]" and "vs_allocations sl = [a1, a2]" and "sections (backing u) = [s1, s2]"
    and "sec_size s1 = PageAllocationSizeT n1" "sec_size s2 = PageAllocationSizeT n2" "va_size a1 = PageAllocationSizeT n1" "va_size a2 = PageAllocationSizeT n2"
    and "size_valid n1" "size_valid n2" and "backing_offset (backing u) = PageAlignedOffsetT b" "vs_offset sl = PageAlignedOffsetT b" "offset_valid b"
    and "isize_ok b" "isize_ok (b + int n1 + 2 * int n2)" "isize_ok (int n1)" "isize_ok (int n2)"
  shows "remap_pages D arc None fr w u =
    exec_bind (remap_page D w s1 (vs_default_flags sl) a1 0 fr) (\<lambda>w.
    exec_bind (virtual_allocation_drop D w a2) (\<lambda>w. Inr (w, u\<lparr>virt_slots := [Some (sl\<lparr>vs_allocations := [a1]\<rparr>)]\<rparr>)))"
proof -
  let ?b1 = "b + int n1" and ?b2 = "b + int n1 + int n2"
  have ok: "isize_ok ?b1" "isize_ok ?b2" "isize_ok (?b2 + int n2)" using assms(13,14) unfolding isize_ok_def by linarith+
  have v: "offset_valid ?b1" "offset_valid ?b2" using offset_valid_add assms(8,9,12) by blast+
  have add: "add_offset_and_size (PageAlignedOffsetT b) (sec_size s1) = Inr (PageAlignedOffsetT ?b1)"
      "add_offset_and_size (PageAlignedOffsetT ?b1) (sec_size s2) = Inr (PageAlignedOffsetT ?b2)"
    using add_offset_and_size_ok[of n1 b] add_offset_and_size_ok[of n2 ?b1] assms(4,5,8,9,12,15,16) ok v by simp_all
  define st where "st = \<lparr>prev_alloc_end = PageAlignedOffsetT b, to_process = [a1, a2], put_back = [], rs_flags = vs_default_flags sl, rs_slot = 0 :: nat\<rparr>"
  define st' where "st' x = \<lparr>prev_alloc_end = PageAlignedOffsetT x, to_process = [a2], put_back = [a1], rs_flags = vs_default_flags sl, rs_slot = 0 :: nat\<rparr>" for x
  have t1: "remap_turn D arc fr True s1 (PageAlignedOffsetT b) (PageAlignedOffsetT ?b1) a1 (st\<lparr>to_process := [a2]\<rparr>) w =
      exec_bind (remap_page D w s1 (vs_default_flags sl) a1 0 fr) (\<lambda>w. Inr (Inl (w, st' ?b1)))" for w
    using remap_turn_within[of a1 b 0 n1 "st\<lparr>to_process := [a2]\<rparr>"] assms ok(1) by (simp add: st_def st'_def)
  have t2: "remap_turn D arc fr first sec (PageAlignedOffsetT bs) (PageAlignedOffsetT be) a2 ((st' x)\<lparr>to_process := []\<rparr>) w = Inr (Inr (w, st' (x + int n2)))"
    if "offset_valid x" "isize_ok (x + int n2)" "be \<le> x" "bs \<le> be" for first sec bs be x w
    using remap_turn_after[of a2 x "(st' x)\<lparr>to_process := []\<rparr>" be bs] that assms(7,9,16) by (simp add: st'_def)
  have slot2: "remap_slot D arc fr first sec (PageAlignedOffsetT bs) (PageAlignedOffsetT be) (st' x) w = Inr (w, st' (x + int n2))"
    if "offset_valid x" "isize_ok (x + int n2)" "be \<le> x" "bs \<le> be" for first sec bs be x w
    using t2[OF that] by (subst remap_slot.simps) (simp add: st'_def)
  have slot1: "remap_slot D arc fr True s1 (PageAlignedOffsetT b) (PageAlignedOffsetT ?b1) st w =
      exec_bind (remap_page D w s1 (vs_default_flags sl) a1 0 fr) (\<lambda>w. Inr (w, st' ?b2))" for w
    using t1 slot2[of ?b1 ?b1 b] v ok by (subst remap_slot.simps) (cases "remap_page D w s1 (vs_default_flags sl) a1 0 fr"; simp add: st_def)
  have "start_states None (virt_slots u) = [st]" using assms(1,2,11) by (simp add: st_def)
  then show ?thesis using assms(1,3,10) add slot1[of w] slot2[of ?b2 ?b2 ?b1] v ok
    by (cases "remap_page D w s1 (vs_default_flags sl) a1 0 fr") (simp_all add: remap_pages_def st'_def store_state_def exec_bind_assoc)
qed

section \<open>New absent-page entries\<close>

lemma lookup_update_other:
  "loc' \<noteq> loc \<Longrightarrow> lookup_loc (update_loc t loc d) loc' = lookup_loc t loc'"
proof (induction t loc d arbitrary: loc' rule: update_loc.induct)
  case (1 ds sts k d)
  then show ?case by (cases loc'; cases "fst loc'") auto
next
  case (2 ds sts s p k d)
  show ?case
  proof (cases "sts ! s")
    case None
    then show ?thesis by (cases loc'; cases "fst loc'") (auto simp: nth_list_update)
  next
    case (Some t)
    then show ?thesis using 2 by (cases loc'; cases "fst loc'") (auto simp: nth_list_update)
  qed
qed

lemma table_ok_update: "table_ok N M t \<Longrightarrow> table_ok N M (update_loc t loc d)"
proof (induction t loc d rule: update_loc.induct)
  case (1 ds sts k d)
  then show ?case by (simp add: table_ok_simps)
next
  case (2 ds sts s p k d)
  have "table_ok N M t" if "Some t \<in> set (sts[s := map_option (\<lambda>t. update_loc t (p, k) d) (sts ! s)])" "s < length sts" for t
  proof -
    have "Some t = map_option (\<lambda>t. update_loc t (p, k) d) (sts ! s) \<or> Some t \<in> set sts"
      using set_update_subset_insert[of sts s] that(1) by blast
    moreover have "sts ! s \<in> set sts" using that(2) by simp
    ultimately show ?thesis using 2 that(2) by (cases "sts ! s") (auto simp: table_ok_simps)
  qed
  then show ?case using 2(2) by (auto simp: table_ok_simps)
qed

lemma dt_inv_update:
  assumes "dt_inv N M dt" and "lookup_loc (root dt) loc = Some d" and "desc_id d' = desc_id d"
  shows "dt_inv N M (dt\<lparr>root := update_loc (root dt) loc d'\<rparr>)"
proof -
  have "unat (desc_id e) < unat (next_id dt)" if "lookup_loc (update_loc (root dt) loc d') l = Some e" for l e
  proof (cases "l = loc")
    case True
    then have "desc_id e = desc_id d" using that assms(3) lookup_update[OF assms(2), of d'] by simp
    then show ?thesis using assms(1,2) unfolding dt_inv_def by metis
  next
    case False
    then show ?thesis using that assms(1) lookup_update_other[OF False] unfolding dt_inv_def by metis
  qed
  then show ?thesis using assms(1) table_ok_update[of N M "root dt" loc d'] unfolding dt_inv_def by simp
qed

lemma handle_ids: "desc_id (handle_downgrade (commit a b d)) = desc_id d"
  by (simp add: handle_downgrade_def handle_drop_def clone_a_ref_def commit_def init_slots_def add_rc_a_def add_rc_b_def decrement_rc_a_def decrement_rc_b_def
      sub_rc_a_def sub_rc_b_def desc_clear_def free_rc_a_def clear_slot_a_def clear_slot_b_def)

lemma absent_new_ok:
  assumes "dt_inv 16 8 (absent_pages w)" and "unat (next_id (absent_pages w)) + 1 < 2 ^ 64"
  shows "\<exists>dt pl loc d. absent_new item pt va w = Inr (w\<lparr>absent_pages := dt, absent_places := pl\<rparr>, loc) \<and> dt_inv 16 8 dt
     \<and> lookup_loc (root dt) loc = Some d \<and> desc_id d = next_id (absent_pages w) \<and> next_id dt = next_id (absent_pages w) + 1"
proof -
  obtain dt loc where c: "create_new_descriptor (Suc (size (root (absent_pages w)))) 16 8 (absent_pages w) = Some (Inr (dt, loc))" "dt_inv 16 8 dt"
    "next_id dt = next_id (absent_pages w) + 1" "allocated (next_id (absent_pages w)) 16 8 (root (absent_pages w)) (root dt) loc"
    using create_spec[OF assms(1) _ _ _ assms(2), of "Suc (size (root (absent_pages w)))"] by auto
  then obtain d0 d where d: "lookup_loc (root dt) loc = Some d" "reserve (next_id (absent_pages w)) d0 = Some d"
    unfolding allocated_def by blast
  have "desc_id d = next_id (absent_pages w)" using reserve_id[OF d(2)] by simp
  then show ?thesis using c d(1) dt_inv_update[OF c(2) d(1) handle_ids] lookup_update[OF d(1)]
    by (intro exI[of _ "dt\<lparr>root := update_loc (root dt) loc (handle_downgrade (commit item () d))\<rparr>"] exI[of _ "(absent_places w)(loc := (pt, va))"]
        exI[of _ loc] exI[of _ "handle_downgrade (commit item () d)"]) (simp add: absent_new_def handle_ids)
qed

section \<open>Mapping a unified allocation\<close>

text \<open>Mapping onto backing memory of one section is one new absent-page entry and one call to map or mark the pages.\<close>

lemma map_one_section:
  assumes "virt_slots u = [None]" and "sections (backing u) = [sec]" and "backing_offset (backing u) = PageAlignedOffsetT 0"
    and "sec_size sec = PageAllocationSizeT n" and "size_valid n" and "isize_ok (int n)"
    and "size_valid sz" and "ap_size D p = Inr (PageAllocationSizeT sz)" and "pos mod PAGE_ALIGN = 0" and "pos + sz \<le> n"
    and "virtual_allocation_new D w p (NormalAllocation arc 0 (PageAlignedOffsetT (int pos))) = Inr (w1, va)"
  shows "map_vmem D arc w u p flags (PageAlignedOffsetT (int pos)) =
    exec_bind (remap_page D w1 sec flags va pos False) (\<lambda>w.
      Inr (w, u\<lparr>virt_slots := [Some \<lparr>vs_allocations = [va], vs_default_flags = flags, vs_offset = PageAlignedOffsetT (int pos)\<rparr>]\<rparr>, 0))"
proof -
  have v: "offset_valid (int pos)" using assms(9) by (simp add: offset_valid_def flip: zmod_int)
  have "0 < sz" using assms(7) by (simp add: size_valid_def)
  then have i: "isize_ok (int pos)" using assms(6,10) by (simp add: isize_ok_def)
  have off: "offset_add (PageAlignedOffsetT 0) (PageAlignedOffsetT (int pos)) = Inr (PageAlignedOffsetT (int pos))"
    using v i by (simp add: offset_add_def isize_chk_def offset_new_def offset_valid_def)
  have va: "va_size va = PageAllocationSizeT sz" using assms(8,11) by (auto simp: virtual_allocation_new_def exec_dests)
  let ?sl = "\<lparr>vs_allocations = [va], vs_default_flags = flags, vs_offset = PageAlignedOffsetT (int pos)\<rparr>"
  have "remap_pages D arc (Some 0) False w1 (u\<lparr>virt_slots := [Some ?sl]\<rparr>) =
      exec_bind (place_all D sec flags False pos [va] w1) (\<lambda>w. Inr (w, u\<lparr>virt_slots := [Some ?sl]\<rparr>))"
    by (subst remap_one_section[where sl = ?sl and sec = sec and b = 0 and n = n and pos = pos])
      (use assms v va in \<open>auto simp: offset_valid_def isize_ok_def\<close>)
  moreover have "exec_bind m Inr = m" for m :: "'c exec" by (cases m) auto
  ultimately show ?thesis using assms(1,3,11) off
    by (simp add: map_vmem_def new_virt_mapping_def free_slot_index_def position_def vec_set_def exec_bind_assoc)
qed

lemma context_dyn_sel [simp]:
  "ap_size (context_dyn mc) = pa_size" "ap_start (context_dyn mc) = pa_start (context_type (mc_api mc) (mc_features mc) (mc_virt mc))"
  "ap_pt_phys_addr (context_dyn mc) w p = lpa_get_phys_addr (context_type (mc_api mc) (mc_features mc) (mc_virt mc)) (spaces w)"
  "ap_set_base_addr (context_dyn mc) w pa base fl =
     exec_bind (pa_set_base_addr (context_type (mc_api mc) (mc_features mc) (mc_virt mc)) (spaces w) pa base fl) (\<lambda>(l, _). Inr (w\<lparr>spaces := l\<rparr>))"
  by (simp_all add: context_dyn_def page_allocation_dyn_def)

context pte_crate
begin

lemmas top_ptr = L4.level.ptr_ok
lemmas kernel_laws = L3.level.allocate_at_ok L3.level.live_ok M3.set_addr_correct M3.congruent_correct
lemmas kernel_drop_law = L3.level.deallocate_ok

end

lemma virtual_allocation_new_context:
  assumes "pte_crate (mc_api mc)" and "top_ok (mc_api mc) (mc_features mc) (lpa_alloc (spaces w))"
    and "dt_inv 16 8 (absent_pages w)" and "unat (next_id (absent_pages w)) + 1 < 2 ^ 64"
    and "pa_size pa = Inr sz" and "pa_start (context_type (mc_api mc) (mc_features mc) (mc_virt mc)) pa = Inr s" and "address_get s = Inr va"
  shows "\<exists>dt pl loc d. virtual_allocation_new (context_dyn mc) w pa item =
      Inr (w\<lparr>absent_pages := dt, absent_places := pl\<rparr>, \<lparr>va_allocation = pa, va_size = sz, va_handle = loc\<rparr>)
    \<and> dt_inv 16 8 dt \<and> lookup_loc (root dt) loc = Some d \<and> desc_id d = next_id (absent_pages w)"
proof -
  obtain p where p: "pf_ptr (TopLevelPageAllocator (mc_api mc) (mc_features mc)) (lpa_alloc (spaces w)) = Inr p" "box_ok p"
    using pte_crate.top_ptr[OF assms(1), of "mc_features mc" "lpa_alloc (spaces w)"] assms(2) by (auto simp: top_defs)
  then have pt: "lpa_get_phys_addr (context_type (mc_api mc) (mc_features mc) (mc_virt mc)) (spaces w) = Inr (p - KERNEL_PTABLE_VADDR)"
    using box_ok_phys[OF p(2)] by (simp add: lpa_get_phys_addr_def context_type_def)
  obtain dt pl loc d where "absent_new item (p - KERNEL_PTABLE_VADDR) va w = Inr (w\<lparr>absent_pages := dt, absent_places := pl\<rparr>, loc)" "dt_inv 16 8 dt"
    "lookup_loc (root dt) loc = Some d" "desc_id d = next_id (absent_pages w)"
    using absent_new_ok[OF assms(3,4), of item "p - KERNEL_PTABLE_VADDR" va] by blast
  then show ?thesis using assms(5-7) pt
    by (intro exI[of _ dt] exI[of _ pl] exI[of _ loc] exI[of _ d]) (simp add: virtual_allocation_new_def)
qed


section \<open>A concrete machine\<close>

definition demo_machine :: machine where
  "demo_machine = \<lparr>mc_api = x86_pte, mc_features = demo_features, mc_virt = x86_virt, mc_boxes = (\<lambda>_. KERNEL_PTABLE_VADDR)\<rparr>"

definition demo_world :: "buddy \<Rightarrow> 'v \<Rightarrow> 'v world" where
  "demo_world ph v = \<lparr>phys = ph,
     kernel_table = lpa_new (mlff_new (X64Level3 x86_pte demo_features) KERNEL_PTABLE_VADDR) \<lparr>meta_offset = KERNEL_PTABLE_VADDR, default_options = options_default\<rparr>,
     memory = (\<lambda>_. 0), absent_pages = new_descriptor_table 16 8, absent_places = (\<lambda>_. (0, 0)), spaces = v\<rparr>"

definition demo_page :: "nat \<Rightarrow> PageAllocation VirtualAllocation" where
  "demo_page i = \<lparr>va_allocation = \<lparr>pa_allocation = PartialPageAllocation [Page i 0] 4096,
     pa_metadata = \<lparr>meta_offset = 0, default_options = options_default\<rparr>, baseaddr_offset = 0\<rparr>, va_size = PageAllocationSizeT 4096, va_handle = ([], i)\<rparr>"

definition demo_slot :: "PageAllocation VirtualSlot" where
  "demo_slot = \<lparr>vs_allocations = [demo_page 0, demo_page 1], vs_default_flags = flags_empty, vs_offset = PageAlignedOffsetT 0\<rparr>"

definition demo_sections :: "PageAllocation UnifiedAllocationInner" where
  "demo_sections = \<lparr>virt_slots = [Some demo_slot], backing = \<lparr>sections = [BackingSection ReservedMem (PageAllocationSizeT 4096), BackingSection ReservedMem (PageAllocationSizeT 4096)],
     requested_type = GuardPage StackLimit, backing_offset = PageAlignedOffsetT 0, total_size = PageAllocationSizeT 8192\<rparr>\<rparr>"


end
