(* ===== verification/Offset_Mapped.thy ===== *)
theory Offset_Mapped
  imports Unified_Correct
begin

text \<open>
  Offset-mapped allocations: the kernel's global page table shows the physical memory they use at
  a fixed distance.  The facts about the kernel table combine the contract of a level-3 table with
  the arithmetic of canonical addresses.
\<close>

section \<open>The kernel table\<close>

definition kernel_ok :: "machine \<Rightarrow> 'v world \<Rightarrow> bool" where
  "kernel_ok mc w \<longleftrightarrow> l3_ok (mc_api mc) (mc_features mc) (lpa_alloc (kernel_table w)) \<and> meta_offset (lpa_meta (kernel_table w)) = KERNEL_PTABLE_VADDR"

definition kernel_occ :: "machine \<Rightarrow> 'v world \<Rightarrow> nat set" where
  "kernel_occ mc w = l3_occ (mc_api mc) (mc_features mc) (lpa_alloc (kernel_table w))"

definition kernel_live :: "machine \<Rightarrow> 'v world \<Rightarrow> PartialPageAllocation \<Rightarrow> bool" where
  "kernel_live mc w = l3_live (mc_api mc) (mc_features mc) (lpa_alloc (kernel_table w))"

definition machine_ok :: "machine \<Rightarrow> bool" where
  "machine_ok mc \<longleftrightarrow> pte_crate (mc_api mc) \<and> virt_crate (mc_virt mc) \<and> boxes_ok (mc_boxes mc)"

definition kernel_span :: nat where
  "kernel_span = 2 ^ 39"

lemma kernel_canonical:
  assumes "x < kernel_span"
  shows "canonical (KERNEL_PTABLE_VADDR + x)" and "virt_crate V \<Longrightarrow> va_new_truncate V (KERNEL_PTABLE_VADDR + x) = KERNEL_PTABLE_VADDR + x"
    and "KERNEL_PTABLE_VADDR + x < usize_limit"
proof -
  have x: "x < 0x8000000000" using assms by (simp add: kernel_span_def)
  show "canonical (KERNEL_PTABLE_VADDR + x)" using x by (simp add: canonical_def KERNEL_PTABLE_VADDR_def)
  show "KERNEL_PTABLE_VADDR + x < usize_limit" using x by (simp add: KERNEL_PTABLE_VADDR_def usize_limit_def)
  have "(0xFFFF800000000000 + x) mod 0x1000000000000 = 0x800000000000 + x"
  proof -
    have "(0xFFFF * 0x1000000000000 + (0x800000000000 + x)) mod 0x1000000000000 = (0x800000000000 + x) mod 0x1000000000000"
      by (rule mod_mult_self3)
    moreover have "(0x800000000000 + x) mod 0x1000000000000 = 0x800000000000 + x" using x by (intro mod_less) simp
    ultimately show ?thesis by (simp add: add.assoc[symmetric])
  qed
  then show "va_new_truncate V (KERNEL_PTABLE_VADDR + x) = KERNEL_PTABLE_VADDR + x" if "virt_crate V"
    using virt_crate.truncate[OF that, of "KERNEL_PTABLE_VADDR + x"] by (simp add: KERNEL_PTABLE_VADDR_def Let_def)
qed

lemma kernel_page_mod: "x mod PAGE_ALIGN = 0 \<Longrightarrow> (KERNEL_PTABLE_VADDR + x) mod PAGE_ALIGN = 0"
proof -
  have "KERNEL_PTABLE_VADDR mod PAGE_ALIGN = 0" by (simp add: KERNEL_PTABLE_VADDR_def PAGE_ALIGN_def)
  then show "x mod PAGE_ALIGN = 0 \<Longrightarrow> (KERNEL_PTABLE_VADDR + x) mod PAGE_ALIGN = 0" by (metis add_0 mod_add_left_eq)
qed

lemma kernel_pa_start:
  assumes "machine_ok mc" and "meta_offset (pa_metadata pa) = KERNEL_PTABLE_VADDR" and "start_addr (pa_allocation pa) = x" and "x < kernel_span" and "x mod PAGE_ALIGN = 0"
  shows "pa_start (kernel_type mc) pa = Inr (PageAlignedAddressT (KERNEL_PTABLE_VADDR + x))"
    and "address_get (PageAlignedAddressT (KERNEL_PTABLE_VADDR + x)) = Inr (KERNEL_PTABLE_VADDR + x)"
proof -
  have v: "virt_crate (mc_virt mc)" using assms(1) by (simp add: machine_ok_def)
  note k = kernel_canonical[OF assms(4)] kernel_page_mod[OF assms(5)]
  show "pa_start (kernel_type mc) pa = Inr (PageAlignedAddressT (KERNEL_PTABLE_VADDR + x))"
    using assms(2,3) k(2)[OF v] k(3,4) by (simp add: pa_start_def uadd_def kernel_type_def address_new_def ac_simps)
  show "address_get (PageAlignedAddressT (KERNEL_PTABLE_VADDR + x)) = Inr (KERNEL_PTABLE_VADDR + x)"
    using k(4) by (simp add: address_get_def)
qed

lemma kernel_allocate_at_ok:
  assumes mc: "machine_ok mc" and ok: "kernel_ok mc w" and x: "x mod PAGE_ALIGN = 0" and n: "size_valid n" and fit: "x + n \<le> kernel_span"
  shows "\<exists>a r. kernel_allocate_at mc w (PageAlignedAddressT (KERNEL_PTABLE_VADDR + x)) (PageAllocationSizeT n) =
      Inr (w\<lparr>kernel_table := (kernel_table w)\<lparr>lpa_alloc := a\<rparr>\<rparr>, map_option (pa_new (kernel_table w)) r)
    \<and> grown (l3_ok (mc_api mc) (mc_features mc)) (l3_occ (mc_api mc) (mc_features mc)) (l3_live (mc_api mc) (mc_features mc)) (lpa_alloc (kernel_table w)) a r
    \<and> (\<forall>al. r = Some al \<longrightarrow> start_addr al = x \<and> alloc_size al = n)
    \<and> (l_fresh (mc_api mc) (lpa_alloc (kernel_table w)) \<longrightarrow> r \<noteq> None)"
proof -
  let ?A = "mlff_ops (X64Level3 (mc_api mc) (mc_features mc))"
  have crate: "pte_crate (mc_api mc)" "boxes_ok (mc_boxes mc)" using mc by (simp_all add: machine_ok_def)
  have l3: "l3_ok (mc_api mc) (mc_features mc) (lpa_alloc (kernel_table w))" "meta_offset (lpa_meta (kernel_table w)) = KERNEL_PTABLE_VADDR"
    using ok by (simp_all add: kernel_ok_def)
  have "page_request ?A x n" using x n fit
    by (simp add: page_request_def pf_span_def kernel_span_def size_valid_def PAGE_ALIGN_def mod_eq_0_iff_dvd)
  from pte_crate.kernel_laws(1)[OF crate(1) l3(1) crate(2) this] obtain a r where
    a: "mlff_allocate_at (X64Level3 (mc_api mc) (mc_features mc)) (mc_boxes mc) (lpa_alloc (kernel_table w)) x n = Inr (a, r)"
       "grown (l3_ok (mc_api mc) (mc_features mc)) (l3_occ (mc_api mc) (mc_features mc)) (l3_live (mc_api mc) (mc_features mc)) (lpa_alloc (kernel_table w)) a r"
       "\<forall>al. r = Some al \<longrightarrow> start_addr al = x \<and> alloc_size al = n" "l_fresh (mc_api mc) (lpa_alloc (kernel_table w)) \<longrightarrow> r \<noteq> None" by auto
  have xs: "x < kernel_span" using fit n by (simp add: size_valid_def)
  have st: "pa_start (kernel_type mc) (pa_new (kernel_table w) al) = Inr (PageAlignedAddressT (KERNEL_PTABLE_VADDR + x))" if "r = Some al" for al
    using kernel_pa_start(1)[OF mc, of "pa_new (kernel_table w) al" x] l3(2) a(3) that xs x by (simp add: pa_new_def)
  have "lpa_allocate_at (kernel_type mc) (mc_boxes mc) (kernel_table w) (PageAlignedAddressT (KERNEL_PTABLE_VADDR + x)) (PageAllocationSizeT n) =
      Inr ((kernel_table w)\<lparr>lpa_alloc := a\<rparr>, map_option (pa_new (kernel_table w)) r)"
    using a(1) l3(2) st n kernel_page_mod[OF x]
    by (cases r) (simp_all add: lpa_allocate_at_def address_get_def kernel_type_def)
  then show ?thesis using a by (intro exI[of _ a] exI[of _ r]) (simp add: kernel_allocate_at_def)
qed

lemma leaf_pages_pos:
  "wf_alloc al \<Longrightarrow> l \<in> set (leaf_pages al) \<Longrightarrow> 0 < snd l"
  "wf_item ps x \<Longrightarrow> 0 < ps \<Longrightarrow> l \<in> set (item_leaves ps x) \<Longrightarrow> 0 < snd l"
  by (induction al and ps x arbitrary: l and l rule: wf_alloc_wf_item.induct) fastforce+

lemma kernel_flush_ok:
  assumes mc: "machine_ok mc" and wf: "wf_alloc (pa_allocation pa)" and m: "meta_offset (pa_metadata pa) = KERNEL_PTABLE_VADDR"
    and st: "start_addr (pa_allocation pa) = x" "x mod PAGE_ALIGN = 0" and fit: "x + alloc_size (pa_allocation pa) \<le> kernel_span"
  shows "\<exists>fs. auto_flush (kernel_type mc) lpa pa = Inr fs"
proof -
  let ?al = "pa_allocation pa"
  have v: "virt_crate (mc_virt mc)" using mc by (simp add: machine_ok_def)
  have sp: "covers ?al = {x..<x + alloc_size ?al}" "0 < alloc_size ?al" using wf_alloc_span(1)[OF wf] st(1) by simp_all
  have low: "x \<le> fst l \<and> fst l < kernel_span" if "l \<in> set (leaf_pages ?al)" for l
  proof -
    have "0 < snd l" using leaf_pages_pos(1)[OF wf that] .
    then have "fst l \<in> covers ?al" using leaf_pages_cover(1)[of ?al] that by fastforce
    then show ?thesis using sp fit by auto
  qed
  have "\<forall>l\<in>set (leaf_pages ?al). canonical (x + KERNEL_PTABLE_VADDR + (fst l - x))"
  proof
    fix l assume l: "l \<in> set (leaf_pages ?al)"
    have "x + KERNEL_PTABLE_VADDR + (fst l - x) = KERNEL_PTABLE_VADDR + fst l" using low[OF l] by simp
    then show "canonical (x + KERNEL_PTABLE_VADDR + (fst l - x))" using kernel_canonical(1)[of "fst l"] low[OF l] by simp
  qed
  then have "\<exists>fs. inval_tlb_pg (mc_virt mc) ?al KERNEL_PTABLE_VADDR = Inr fs"
    using virt_crate.invlpg_leaves(1)[OF v wf] st(1) unfolding inval_tlb_pg_def by blast
  then show ?thesis using kernel_pa_start(1)[OF mc m st(1) _ st(2)] sp fit m
    by (auto simp: auto_flush_def invalidate_tlb_def kernel_type_def)
qed

lemma kernel_map_ok:
  assumes mc: "machine_ok mc" and ok: "kernel_ok mc w" and live: "l3_live (mc_api mc) (mc_features mc) (lpa_alloc (kernel_table w)) al"
    and st: "start_addr al = x" "x mod PAGE_ALIGN = 0" and fit: "x + alloc_size al \<le> kernel_span"
  shows "\<exists>a. ap_set_base_addr (kernel_dyn mc) w (pa_new (kernel_table w) al) x fl = Inr (w\<lparr>kernel_table := (kernel_table w)\<lparr>lpa_alloc := a\<rparr>\<rparr>)
    \<and> kernel_ok mc (w\<lparr>kernel_table := (kernel_table w)\<lparr>lpa_alloc := a\<rparr>\<rparr>) \<and> kernel_occ mc (w\<lparr>kernel_table := (kernel_table w)\<lparr>lpa_alloc := a\<rparr>\<rparr>) = kernel_occ mc w
    \<and> l3_live (mc_api mc) (mc_features mc) a = l3_live (mc_api mc) (mc_features mc) (lpa_alloc (kernel_table w))
    \<and> (\<forall>v. kernel_translate mc (w\<lparr>kernel_table := (kernel_table w)\<lparr>lpa_alloc := a\<rparr>\<rparr>) v =
         (if v \<in> {KERNEL_PTABLE_VADDR + x..<KERNEL_PTABLE_VADDR + x + alloc_size al} then Some (v - KERNEL_PTABLE_VADDR) else kernel_translate mc w v))"
proof -
  let ?ft = "mc_features mc" and ?api = "mc_api mc" and ?a = "lpa_alloc (kernel_table w)" and ?pa = "pa_new (kernel_table w) al"
  have crate: "pte_crate ?api" using mc by (simp add: machine_ok_def)
  have l3: "l3_ok ?api ?ft ?a" "meta_offset (lpa_meta (kernel_table w)) = KERNEL_PTABLE_VADDR" using ok by (simp_all add: kernel_ok_def)
  have wf: "wf_alloc al" using pte_crate.kernel_laws(2)[OF crate l3(1) live] by simp
  have cov: "covers al = {x..<x + alloc_size al}" using wf_alloc_span(1)[OF wf] st(1) by simp
  obtain fs where fs: "auto_flush (kernel_type mc) (kernel_table w) ?pa = Inr fs"
    using kernel_flush_ok[OF mc, of ?pa x] wf l3(2) st fit by (auto simp: pa_new_def)
  have al: "aligned_to x al" using pte_crate.kernel_laws(4)[OF crate l3(1) live, of x] st(1) by simp
  have lim: "x + 0 + alloc_size al \<le> phys_limit" using fit by (simp add: kernel_span_def phys_limit_def)
  let ?fl = "if is_global_page (write_when_active (kernel_table w)) then flags_or_m fl {MF_GLOBAL} else fl"
  obtain a where a: "set_addr_inner (X64Level3 ?api ?ft) (walk2 ?api ?ft) ?a al 0 x ?fl = Inr a" "l3_ok ?api ?ft a" "l3_occ ?api ?ft a = l3_occ ?api ?ft ?a"
     "l3_live ?api ?ft a = l3_live ?api ?ft ?a" "\<forall>y. l3_leaf ?api ?ft a y = (if y \<in> covers al then Some (x + 0 + (y - start_addr al)) else l3_leaf ?api ?ft ?a y)"
    using pte_crate.kernel_laws(3)[OF crate l3(1) live _ lim, of ?fl] al by auto
  have "ap_set_base_addr (kernel_dyn mc) w ?pa x fl = Inr (w\<lparr>kernel_table := (kernel_table w)\<lparr>lpa_alloc := a\<rparr>\<rparr>)"
    using a(1) fs by (simp add: kernel_dyn_def page_allocation_dyn_def pa_set_base_addr_def guard_set_base_addr_def usub_def pa_new_def kernel_type_def walk3_def mlff_walk_def Let_def)
  moreover have "kernel_translate mc (w\<lparr>kernel_table := (kernel_table w)\<lparr>lpa_alloc := a\<rparr>\<rparr>) v =
      (if v \<in> {KERNEL_PTABLE_VADDR + x..<KERNEL_PTABLE_VADDR + x + alloc_size al} then Some (v - KERNEL_PTABLE_VADDR) else kernel_translate mc w v)" for v
    using a(5) cov st(1) l3(2) by (auto simp: kernel_translate_def Let_def)
  ultimately show ?thesis using a l3(2) by (intro exI[of _ a]) (simp add: kernel_ok_def kernel_occ_def)
qed

section \<open>Allocating offset-mapped memory\<close>

definition below :: "nat \<Rightarrow> block multiset \<Rightarrow> bool" where
  "below n M \<longleftrightarrow> (\<forall>x. cover M x \<noteq> 0 \<longrightarrow> x < n)"

lemma palloc_block:
  assumes "palloc_post a L n a' m" and "buddy_inv a L" and "below lim (free_mset a)"
  shows "\<exists>k. pma_block m = (k, pma_addr m) \<and> pma_size m = PageAllocationSizeT (bsz k) \<and> size_valid (bsz k) \<and> pma_addr m mod PAGE_ALIGN = 0
    \<and> pma_addr m + bsz k \<le> lim \<and> n \<le> bsz k"
proof -
  obtain k p where k: "pma_block m = (k, p)" by (cases "pma_block m")
  have post: "pma_addr m = p" "pma_size m = PageAllocationSizeT (bsz k)" "n \<le> bsz k" "buddy_inv a' (add_mset (k, p) L)"
    "cover (add_mset (k, p) (free_mset a')) = cover (free_mset a)" using assms(1) k by (simp_all add: palloc_post_def)
  have "block_ok (k, p)" using post(4) by (simp add: buddy_inv_def)
  then have al: "bsz k dvd p" by (simp add: block_ok_def)
  have pa: "PAGE_ALIGN dvd bsz k" by (simp add: bsz_def)
  let ?x = "p + bsz k - 1"
  obtain j where j: "bsz k = Suc j" using bsz_pos[of k] by (cases "bsz k") simp_all
  then have "has_byte (k, p) ?x" by (simp add: has_byte_def)
  then have "cover (add_mset (k, p) (free_mset a')) ?x \<noteq> 0" by (simp add: cover_def)
  then have "cover (free_mset a) ?x \<noteq> 0" using post(5) by simp
  then have "p + bsz k \<le> lim" using assms(3) j unfolding below_def by fastforce
  then show ?thesis using k post al pa by (auto simp: size_valid_def dvd_trans mod_eq_0_iff_dvd)
qed

text \<open>What a successful call promises about the state after it.\<close>

definition om_post :: "machine \<Rightarrow> block multiset \<Rightarrow> nat \<Rightarrow> 'v world \<Rightarrow> 'v world \<Rightarrow> OffsetMappedAllocation \<Rightarrow> bool" where
  "om_post mc L n w w' om \<longleftrightarrow> (let p = pma_addr (om_phys om); sz = raw_size (pma_size (om_phys om)) in
     palloc_post (phys w) L n (phys w') (om_phys om) \<and> n \<le> sz
     \<and> om_get_virt_addr mc om = Inr (PageAlignedAddressT (KERNEL_PTABLE_VADDR + p)) \<and> om_get_size om = Inr (pma_size (om_phys om))
     \<and> (\<forall>i. i < sz \<longrightarrow> kernel_translate mc w' (KERNEL_PTABLE_VADDR + p + i) = Some (p + i))
     \<and> kernel_ok mc w' \<and> kernel_occ mc w' = kernel_occ mc w \<union> {p..<p + sz} \<and> {p..<p + sz} \<inter> kernel_occ mc w = {}
     \<and> kernel_live mc w' (pa_allocation (om_virt om)) \<and> (\<forall>al. kernel_live mc w al \<longrightarrow> kernel_live mc w' al)
     \<and> covers (pa_allocation (om_virt om)) = {p..<p + sz} \<and> meta_offset (pa_metadata (om_virt om)) = KERNEL_PTABLE_VADDR
     \<and> memory w' = memory w \<and> absent_pages w' = absent_pages w \<and> spaces w' = spaces w)"

lemma om_mapped:
  assumes mc: "machine_ok mc" and ok: "kernel_ok mc w" and post: "palloc_post (phys w) L n ph m" and sz: "pma_size m = PageAllocationSizeT b" "size_valid b" "n \<le> b"
    and x: "pma_addr m mod PAGE_ALIGN = 0" "pma_addr m + b \<le> kernel_span"
    and g: "grown (l3_ok (mc_api mc) (mc_features mc)) (l3_occ (mc_api mc) (mc_features mc)) (l3_live (mc_api mc) (mc_features mc)) (lpa_alloc (kernel_table w)) a (Some al)"
    and al: "start_addr al = pma_addr m" "alloc_size al = b"
  shows "\<exists>w'. ap_set_base_addr (kernel_dyn mc) (w\<lparr>phys := ph, kernel_table := (kernel_table w)\<lparr>lpa_alloc := a\<rparr>\<rparr>) (pa_new (kernel_table w) al) (pma_addr m) fl = Inr w'
    \<and> om_post mc L n w w' \<lparr>om_virt = pa_new (kernel_table w) al, om_phys = m\<rparr>"
proof -
  let ?p = "pma_addr m" and ?w = "w\<lparr>phys := ph, kernel_table := (kernel_table w)\<lparr>lpa_alloc := a\<rparr>\<rparr>"
  have g': "l3_ok (mc_api mc) (mc_features mc) a" "l3_live (mc_api mc) (mc_features mc) a al" "covers al \<inter> kernel_occ mc w = {}"
    "l3_occ (mc_api mc) (mc_features mc) a = kernel_occ mc w \<union> covers al" using g by (simp_all add: grown_def kernel_occ_def)
  have keep: "l3_live (mc_api mc) (mc_features mc) a al'" if "kernel_live mc w al'" for al' using g that by (simp add: grown_def kernel_live_def)
  have okw: "kernel_ok mc ?w" using ok g'(1) by (simp add: kernel_ok_def)
  have crate: "pte_crate (mc_api mc)" using mc by (simp add: machine_ok_def)
  have wf: "wf_alloc al" using pte_crate.kernel_laws(2)[OF crate g'(1,2)] by simp
  have cov: "covers al = {?p..<?p + b}" using wf_alloc_span(1)[OF wf] al by simp
  have meta: "meta_offset (lpa_meta (kernel_table w)) = KERNEL_PTABLE_VADDR" using ok by (simp add: kernel_ok_def)
  have pl: "?p < kernel_span" using x(2) sz(2) by (simp add: size_valid_def)
  have virt: "pa_start (kernel_type mc) (pa_new (kernel_table w) al) = Inr (PageAlignedAddressT (KERNEL_PTABLE_VADDR + ?p))"
    using kernel_pa_start(1)[OF mc, of "pa_new (kernel_table w) al" ?p] meta al(1) pl x(1) by (simp add: pa_new_def)
  have vsz: "pa_size (pa_new (kernel_table w) al) = Inr (PageAllocationSizeT b)"
    using sz(2) al(2) by (simp add: pa_size_def pa_new_def size_new_checked_def size_valid_def size_new_def)
  have new: "pa_new (kernel_table ?w) al = pa_new (kernel_table w) al" by (simp add: pa_new_def)
  obtain a2 where a2: "ap_set_base_addr (kernel_dyn mc) ?w (pa_new (kernel_table ?w) al) ?p fl = Inr (?w\<lparr>kernel_table := (kernel_table ?w)\<lparr>lpa_alloc := a2\<rparr>\<rparr>)"
    "kernel_ok mc (?w\<lparr>kernel_table := (kernel_table ?w)\<lparr>lpa_alloc := a2\<rparr>\<rparr>)" "kernel_occ mc (?w\<lparr>kernel_table := (kernel_table ?w)\<lparr>lpa_alloc := a2\<rparr>\<rparr>) = kernel_occ mc ?w"
    "l3_live (mc_api mc) (mc_features mc) a2 = l3_live (mc_api mc) (mc_features mc) a"
    "\<forall>v. kernel_translate mc (?w\<lparr>kernel_table := (kernel_table ?w)\<lparr>lpa_alloc := a2\<rparr>\<rparr>) v =
         (if v \<in> {KERNEL_PTABLE_VADDR + ?p..<KERNEL_PTABLE_VADDR + ?p + alloc_size al} then Some (v - KERNEL_PTABLE_VADDR) else kernel_translate mc ?w v)"
    using kernel_map_ok[OF mc okw _ al(1) x(1), of fl] g'(2) x(2) al(2) by auto
  let ?w2 = "?w\<lparr>kernel_table := (kernel_table ?w)\<lparr>lpa_alloc := a2\<rparr>\<rparr>"
  have occ: "kernel_occ mc ?w2 = kernel_occ mc w \<union> {?p..<?p + b}" using a2(3) g'(4) cov by (simp add: kernel_occ_def)
  have tr: "kernel_translate mc ?w2 (KERNEL_PTABLE_VADDR + ?p + i) = Some (?p + i)" if "i < b" for i using a2(5) al(2) that by simp
  have lv: "kernel_live mc ?w2 al" "\<And>al'. kernel_live mc w al' \<Longrightarrow> kernel_live mc ?w2 al'" using a2(4) g'(2) keep by (simp_all add: kernel_live_def)
  have "om_post mc L n w ?w2 \<lparr>om_virt = pa_new (kernel_table w) al, om_phys = m\<rparr>"
    unfolding om_post_def Let_def using post sz(1,3) virt vsz tr a2(2) occ g'(3)[unfolded cov] lv cov meta by (simp add: om_get_virt_addr_def om_get_size_def pa_new_def)
  then show ?thesis using a2(1) new by metis
qed

lemma om_alloc_cases:
  assumes mc: "machine_ok mc" and ok: "kernel_ok mc w" and inv: "buddy_inv (phys w) L" and low: "below kernel_span (free_mset (phys w))" and n: "size_valid n"
  shows "case om_alloc_new mc w (PageAllocationSizeT n) fl of
      Inr (w', None) \<Rightarrow> w' = w \<and> (\<forall>b\<in>#free_mset (phys w). bsz (fst b) < n)
    | Inr (w', Some om) \<Rightarrow> om_post mc L n w w' om
    | Inl e \<Rightarrow> e = AssertFailed \<and> \<not> l_fresh (mc_api mc) (lpa_alloc (kernel_table w)) \<and> (\<exists>ph m w'. palloc (phys w) (PageAllocationSizeT n) = Inr (ph, Some m)
        \<and> kernel_allocate_at mc (w\<lparr>phys := ph\<rparr>) (PageAlignedAddressT (KERNEL_PTABLE_VADDR + pma_addr m)) (pma_size m) = Inr (w', None))"
proof -
  obtain ph r where ph: "palloc (phys w) (PageAllocationSizeT n) = Inr (ph, r)" "case r of None \<Rightarrow> ph = phys w \<and> (\<forall>b\<in>#free_mset (phys w). bsz (fst b) < n) | Some m \<Rightarrow> palloc_post (phys w) L n ph m"
    using palloc_cases[OF inv n] by blast
  show ?thesis
  proof (cases r)
    case None
    then show ?thesis using ph by (simp add: om_alloc_new_def)
  next
    case (Some m)
    then have post: "palloc_post (phys w) L n ph m" using ph(2) by simp
    obtain k where k: "pma_size m = PageAllocationSizeT (bsz k)" "size_valid (bsz k)" "pma_addr m mod PAGE_ALIGN = 0" "pma_addr m + bsz k \<le> kernel_span" "n \<le> bsz k"
      using palloc_block[OF post inv low] by (elim exE conjE) (rule that)
    let ?w = "w\<lparr>phys := ph\<rparr>" and ?x = "pma_addr m"
    have x: "?x < kernel_span" using k(4) bsz_pos[of k] by linarith
    have va: "uadd ?x KERNEL_PTABLE_VADDR = Inr (KERNEL_PTABLE_VADDR + ?x)" "address_new (KERNEL_PTABLE_VADDR + ?x) = Inr (PageAlignedAddressT (KERNEL_PTABLE_VADDR + ?x))"
      using kernel_canonical(3)[OF x] kernel_page_mod[OF k(3)] by (simp_all add: uadd_def address_new_def add.commute)
    have "kernel_ok mc ?w" using ok by (simp add: kernel_ok_def)
    from kernel_allocate_at_ok[OF mc this k(3,2,4)] obtain a r2 where a: "kernel_allocate_at mc ?w (PageAlignedAddressT (KERNEL_PTABLE_VADDR + ?x)) (pma_size m) =
         Inr (?w\<lparr>kernel_table := (kernel_table w)\<lparr>lpa_alloc := a\<rparr>\<rparr>, map_option (pa_new (kernel_table w)) r2)"
       "grown (l3_ok (mc_api mc) (mc_features mc)) (l3_occ (mc_api mc) (mc_features mc)) (l3_live (mc_api mc) (mc_features mc)) (lpa_alloc (kernel_table w)) a r2"
       "\<forall>al. r2 = Some al \<longrightarrow> start_addr al = ?x \<and> alloc_size al = bsz k" "l_fresh (mc_api mc) (lpa_alloc (kernel_table w)) \<longrightarrow> r2 \<noteq> None"
      unfolding k(1) by (elim exE conjE) simp
    show ?thesis
    proof (cases r2)
      case None
      then show ?thesis using ph(1) Some va a(1,4) by (simp add: om_alloc_new_def Let_def)
    next
      case (Some al)
      then obtain w' where "ap_set_base_addr (kernel_dyn mc) (?w\<lparr>kernel_table := (kernel_table w)\<lparr>lpa_alloc := a\<rparr>\<rparr>) (pa_new (kernel_table w) al) ?x fl = Inr w'"
        "om_post mc L n w w' \<lparr>om_virt = pa_new (kernel_table w) al, om_phys = m\<rparr>"
        using om_mapped[OF mc ok post k(1,2,5,3,4)] a(2,3) by blast
      then show ?thesis using ph(1) \<open>r = Some m\<close> Some va a(1) by (simp add: om_alloc_new_def Let_def)
    qed
  qed
qed

section \<open>Allocating and dropping in a shared world\<close>

definition om_block :: "OffsetMappedAllocation \<Rightarrow> block" where
  "om_block om = pma_block (om_phys om)"

definition om_ok :: "machine \<Rightarrow> 'v world \<Rightarrow> OffsetMappedAllocation \<Rightarrow> bool" where
  "om_ok mc w om \<longleftrightarrow> (case om_block om of (k, p) \<Rightarrow>
     om_get_virt_addr mc om = Inr (PageAlignedAddressT (KERNEL_PTABLE_VADDR + p)) \<and> om_get_size om = Inr (PageAllocationSizeT (bsz k))
     \<and> pma_addr (om_phys om) = p \<and> size_valid (bsz k) \<and> p mod PAGE_ALIGN = 0 \<and> p + bsz k \<le> kernel_span
     \<and> kernel_live mc w (pa_allocation (om_virt om)) \<and> covers (pa_allocation (om_virt om)) = {p..<p + bsz k}
     \<and> meta_offset (pa_metadata (om_virt om)) = KERNEL_PTABLE_VADDR)"

text \<open>The kernel table is sound, and the physical allocator accounts for the blocks \<open>L\<close> that are in use.\<close>

definition world_ok :: "machine \<Rightarrow> block multiset \<Rightarrow> 'v world \<Rightarrow> bool" where
  "world_ok mc L w \<longleftrightarrow> kernel_ok mc w \<and> buddy_inv (phys w) L \<and> low_cover (free_mset (phys w) + L)"

lemma low_cover_below: "low_cover (M + N) \<Longrightarrow> below kernel_span M"
  unfolding low_cover_def below_def kernel_span_def bsz_MAX_ORDER cover_simps by (metis add_is_0)

lemma om_alloc_step:
  assumes mc: "machine_ok mc" and ok: "world_ok mc L w" and n: "size_valid n" and run: "om_alloc_new mc w (PageAllocationSizeT n) fl = Inr (w', r)"
  shows "case r of None \<Rightarrow> w' = w | Some om \<Rightarrow> world_ok mc (add_mset (om_block om) L) w' \<and> om_ok mc w' om \<and> n \<le> bsz (fst (om_block om)) \<and> (\<forall>om'. om_ok mc w om' \<longrightarrow> om_ok mc w' om')"
proof (cases r)
  case None
  then show ?thesis using om_alloc_cases[OF mc _ _ low_cover_below n, of w L L fl] ok run by (simp add: world_ok_def)
next
  case (Some om)
  obtain k p where b: "om_block om = (k, p)" by (cases "om_block om")
  have inv: "buddy_inv (phys w) L" "low_cover (free_mset (phys w) + L)" using ok by (simp_all add: world_ok_def)
  have post: "om_post mc L n w w' om" using om_alloc_cases[OF mc _ inv(1) low_cover_below n, of L fl] ok run Some by (simp add: world_ok_def)
  then have ph: "palloc_post (phys w) L n (phys w') (om_phys om)" by (simp add: om_post_def Let_def)
  then have ph': "pma_addr (om_phys om) = p" "pma_size (om_phys om) = PageAllocationSizeT (bsz k)" "n \<le> bsz k" "buddy_inv (phys w') (add_mset (k, p) L)"
    "cover (add_mset (k, p) (free_mset (phys w'))) = cover (free_mset (phys w))" using b by (simp_all add: palloc_post_def om_block_def)
  have "cover (free_mset (phys w') + add_mset (k, p) L) = cover (free_mset (phys w) + L)" using ph'(5) by (auto simp: fun_eq_iff)
  then have "low_cover (free_mset (phys w') + add_mset (k, p) L)" using inv(2) low_cover_cong by blast
  moreover have "size_valid (bsz k)" "p mod PAGE_ALIGN = 0" "p + bsz k \<le> kernel_span"
    using palloc_block[OF ph inv(1) low_cover_below[OF inv(2)]] b ph'(1) by (auto simp: om_block_def)
  ultimately show ?thesis using post ph' b Some by (auto simp: om_post_def Let_def om_ok_def world_ok_def split: prod.splits)
qed

lemma kernel_drop_ok:
  assumes mc: "machine_ok mc" and ok: "kernel_ok mc w" and om: "om_ok mc w om"
  shows "\<exists>a. ap_drop (kernel_dyn mc) w (om_virt om) = Inr (w\<lparr>kernel_table := (kernel_table w)\<lparr>lpa_alloc := a\<rparr>\<rparr>)
    \<and> kernel_ok mc (w\<lparr>kernel_table := (kernel_table w)\<lparr>lpa_alloc := a\<rparr>\<rparr>)
    \<and> (\<forall>al. kernel_live mc w al \<longrightarrow> covers al \<inter> covers (pa_allocation (om_virt om)) = {} \<longrightarrow> kernel_live mc (w\<lparr>kernel_table := (kernel_table w)\<lparr>lpa_alloc := a\<rparr>\<rparr>) al)"
proof -
  let ?ft = "mc_features mc" and ?api = "mc_api mc" and ?al = "pa_allocation (om_virt om)"
  obtain k p where b: "om_block om = (k, p)" by (cases "om_block om")
  have o: "kernel_live mc w ?al" "covers ?al = {p..<p + bsz k}" "meta_offset (pa_metadata (om_virt om)) = KERNEL_PTABLE_VADDR" "p mod PAGE_ALIGN = 0" "p + bsz k \<le> kernel_span"
    using om b by (simp_all add: om_ok_def)
  have crate: "pte_crate ?api" using mc by (simp add: machine_ok_def)
  have l3: "l3_ok ?api ?ft (lpa_alloc (kernel_table w))" "l3_live ?api ?ft (lpa_alloc (kernel_table w)) ?al"
    using ok o(1) by (simp_all add: kernel_ok_def kernel_live_def)
  have wf: "wf_alloc ?al" using pte_crate.kernel_laws(2)[OF crate l3] by simp
  have st: "start_addr ?al = p" "alloc_size ?al = bsz k"
    using wf_alloc_span(1)[OF wf] o(2) by (auto simp: atLeastLessThan_eq_iff)
  obtain fs where fs: "auto_flush (kernel_type mc) (kernel_table w) (om_virt om) = Inr fs" using kernel_flush_ok[OF mc wf o(3) st(1) o(4)] st(2) o(5) by auto
  obtain a where "mlff_deallocate (X64Level3 ?api ?ft) (lpa_alloc (kernel_table w)) ?al = Inr a" "l3_ok ?api ?ft a"
    "\<forall>al'. l3_live ?api ?ft (lpa_alloc (kernel_table w)) al' \<longrightarrow> covers al' \<inter> covers ?al = {} \<longrightarrow> l3_live ?api ?ft a al'"
    using pte_crate.kernel_drop_law[OF crate l3] by auto
  then show ?thesis using fs ok
    by (intro exI[of _ a]) (simp add: kernel_dyn_def page_allocation_dyn_def guard_dealloc_def kernel_type_def kernel_ok_def kernel_live_def)
qed

lemma om_drop_step:
  assumes mc: "machine_ok mc" and ok: "world_ok mc (add_mset (om_block om) L) w" and om: "om_ok mc w om"
  shows "\<exists>w'. om_drop mc w om = Inr w' \<and> world_ok mc L w' \<and> (\<forall>om'. om_ok mc w om' \<longrightarrow> om_block om' \<in># L \<longrightarrow> om_ok mc w' om')"
proof -
  obtain k p where b: "om_block om = (k, p)" by (cases "om_block om")
  have w: "kernel_ok mc w" "buddy_inv (phys w) (add_mset (k, p) L)" "low_cover (free_mset (phys w) + add_mset (k, p) L)" using ok b by (simp_all add: world_ok_def)
  obtain a where a: "ap_drop (kernel_dyn mc) w (om_virt om) = Inr (w\<lparr>kernel_table := (kernel_table w)\<lparr>lpa_alloc := a\<rparr>\<rparr>)"
    "kernel_ok mc (w\<lparr>kernel_table := (kernel_table w)\<lparr>lpa_alloc := a\<rparr>\<rparr>)"
    "\<forall>al. kernel_live mc w al \<longrightarrow> covers al \<inter> covers (pa_allocation (om_virt om)) = {} \<longrightarrow> kernel_live mc (w\<lparr>kernel_table := (kernel_table w)\<lparr>lpa_alloc := a\<rparr>\<rparr>) al"
    using kernel_drop_ok[OF mc w(1) om] by blast
  obtain ph where ph: "pmem_drop (phys w) (om_phys om) = Inr ph" "buddy_inv ph L" "cover (free_mset ph) = cover (add_mset (k, p) (free_mset (phys w)))"
    using pmem_drop_cases[OF w(2), of "om_phys om"] b w(3) low_cover_gaps by (auto simp: om_block_def)
  let ?w = "w\<lparr>kernel_table := (kernel_table w)\<lparr>lpa_alloc := a\<rparr>, phys := ph\<rparr>"
  have "cover (free_mset ph + L) = cover (free_mset (phys w) + add_mset (k, p) L)" using ph(3) by (auto simp: fun_eq_iff)
  then have "low_cover (free_mset ph + L)" using w(3) low_cover_cong by blast
  then have "world_ok mc L ?w" using a(2) ph(2) by (simp add: world_ok_def kernel_ok_def)
  moreover have "om_ok mc ?w om'" if o: "om_ok mc w om'" "om_block om' \<in># L" for om'
  proof -
    have "cover (add_mset (k, p) L) x \<le> 1" for x using w(2) cover_le_1_sub[of "add_mset (k, p) L" "free_mset (phys w)"] by (simp add: buddy_inv_def add.commute)
    then have dis: "\<not> (has_byte (om_block om') x \<and> has_byte (k, p) x)" for x using cover_pos[OF o(2), of x] by (metis cover_simps(3) add_le_same_cancel1 not_less)
    obtain k' p' where b': "om_block om' = (k', p')" by (cases "om_block om'")
    have c: "covers (pa_allocation (om_virt om')) = {p'..<p' + bsz k'}" "covers (pa_allocation (om_virt om)) = {p..<p + bsz k}"
      using o(1) om b b' by (simp_all add: om_ok_def)
    have "covers (pa_allocation (om_virt om')) \<inter> covers (pa_allocation (om_virt om)) = {}"
      using dis unfolding c b' has_byte_def fst_conv snd_conv disjoint_iff atLeastLessThan_iff by metis
    then have "kernel_live mc ?w (pa_allocation (om_virt om'))" using a(3) o(1) b' by (simp add: om_ok_def kernel_live_def)
    then show ?thesis using o(1) b' by (simp add: om_ok_def)
  qed
  moreover have "om_drop mc w om = Inr ?w" using a(1) ph(1) by (simp add: om_drop_def)
  ultimately show ?thesis by blast
qed

section \<open>Properties\<close>

lemma demo_machine_ok: "machine_ok demo_machine"
  using x86.pte_crate_axioms x86v.virt_crate_axioms demo_box(2) by (simp add: machine_ok_def demo_machine_def)

lemma demo_kernel:
  "l_fresh x86_pte (lpa_alloc (kernel_table (demo_world ph v)))" "kernel_ok demo_machine (demo_world ph v)"
proof -
  show f: "l_fresh x86_pte (lpa_alloc (kernel_table (demo_world ph v)))"
    using x86.L3.level.new_ok[OF demo_box(1), of demo_features] by (simp add: demo_world_def lpa_new_def)
  show "kernel_ok demo_machine (demo_world ph v)"
    using x86.L3.level.fresh_ok[OF f, of demo_features] by (simp add: kernel_ok_def demo_machine_def demo_world_def lpa_new_def)
qed

lemma demo_below: "below kernel_span (free_mset demo_buddy)"
  unfolding demo_blocks below_def by (simp add: has_byte_def demo_bsz[unfolded One_nat_def] kernel_span_def)

lemma demo_om: "\<exists>w' om. om_alloc_new demo_machine (demo_world demo_buddy v) (PageAllocationSizeT 4096) fl = Inr (w', Some om)"
proof -
  have ph: "phys (demo_world demo_buddy v) = demo_buddy" "mc_api demo_machine = x86_pte" by (simp_all add: demo_world_def demo_machine_def)
  have n: "size_valid 4096" by (simp add: size_valid_def PAGE_ALIGN_def)
  have big: "\<not> (\<forall>b\<in>#free_mset demo_buddy. bsz (fst b) < 4096)" by (simp add: demo_blocks demo_bsz[unfolded One_nat_def])
  show ?thesis
    using om_alloc_cases[OF demo_machine_ok demo_kernel(2)[of demo_buddy v], unfolded ph, OF demo_inv demo_below n, of fl] big demo_kernel(1)[of demo_buddy v]
    by (cases "om_alloc_new demo_machine (demo_world demo_buddy v) (PageAllocationSizeT 4096) fl") (auto split: option.splits)
qed

text \<open>C18: An offset-mapped allocation of a sound kernel table and physical allocator either fails because no free
  physical block is large enough, changing nothing, or returns a block at least as large as asked whose every byte the
  kernel table translates from the fixed distance, over addresses that were not in use; the one panic is the assertion
  on a kernel table that refuses the matching virtual range, which a table nothing was taken from never does.\<close>

theorem offset_mapped_correct:
  assumes "machine_ok mc" and "kernel_ok mc w" and "buddy_inv (phys w) L" and "below kernel_span (free_mset (phys w))" and "size_valid n"
  shows "case om_alloc_new mc w (PageAllocationSizeT n) fl of
      Inr (w', None) \<Rightarrow> w' = w \<and> (\<forall>b\<in>#free_mset (phys w). bsz (fst b) < n)
    | Inr (w', Some om) \<Rightarrow> om_post mc L n w w' om
    | Inl e \<Rightarrow> e = AssertFailed \<and> \<not> l_fresh (mc_api mc) (lpa_alloc (kernel_table w)) \<and> (\<exists>ph m w'. palloc (phys w) (PageAllocationSizeT n) = Inr (ph, Some m)
        \<and> kernel_allocate_at mc (w\<lparr>phys := ph\<rparr>) (PageAlignedAddressT (KERNEL_PTABLE_VADDR + pma_addr m)) (pma_size m) = Inr (w', None))"
  by (rule om_alloc_cases[OF assms])

theorem offset_mapped_correct_witness:
  "\<exists>w' om. om_alloc_new demo_machine (demo_world demo_buddy ()) (PageAllocationSizeT 4096) flags_empty = Inr (w', Some om)
     \<and> om_post demo_machine {#} 4096 (demo_world demo_buddy ()) w' om"
proof -
  have ph: "phys (demo_world demo_buddy ()) = demo_buddy" by (simp add: demo_world_def)
  have n: "size_valid 4096" by (simp add: size_valid_def PAGE_ALIGN_def)
  obtain w' om where "om_alloc_new demo_machine (demo_world demo_buddy ()) (PageAllocationSizeT 4096) flags_empty = Inr (w', Some om)" using demo_om[of "()" flags_empty] by blast
  then show ?thesis using offset_mapped_correct[OF demo_machine_ok demo_kernel(2)[of demo_buddy "()"], unfolded ph, OF demo_inv demo_below n, of flags_empty] by simp
qed

end
