(* ===== verification/Kernel_Heap.thy ===== *)
theory Kernel_Heap
  imports Offset_Mapped Interruptions
begin

text \<open>
  The kernel heap (\<open>memory/kernel_heap.rs\<close>): a heap of an external crate that is given more memory
  when it runs out, from a rescue block kept ready for that case, and by tasks spawned afterwards.

  The heap of the crate is the parameter \<open>heap_api\<close>.  \<open>owned\<close> records the offset-mapped allocations
  whose memory was given to the heap and then forgotten.
\<close>

record 'h heap_api =
  hp_init :: "nat \<Rightarrow> nat \<Rightarrow> 'h \<Rightarrow> 'h"
  hp_add_to_heap :: "nat \<Rightarrow> nat \<Rightarrow> 'h \<Rightarrow> 'h"
  hp_alloc :: "nat \<times> nat \<Rightarrow> 'h \<Rightarrow> ('h \<times> nat) option"
  hp_dealloc :: "nat \<Rightarrow> nat \<times> nat \<Rightarrow> 'h \<Rightarrow> 'h"

datatype heap_task = NotifyRescueUsed | ReinitRescue | ExpandFurtherPostRescue

record ('h, 'v) kheap =
  heap :: 'h
  global_rescue :: "OffsetMappedAllocation option"
  spawned :: "heap_task list"
  kworld :: "'v world"
  owned :: "OffsetMappedAllocation list"

definition RESCUE_SIZE :: PageAllocationSizeT where
  "RESCUE_SIZE = PageAllocationSizeT (1 * 1024 * 1024)"

definition POST_RESCUE_EXPAND_SIZE :: PageAllocationSizeT where
  "POST_RESCUE_EXPAND_SIZE = PageAllocationSizeT (7 * 1024 * 1024)"

section \<open>Operations\<close>

definition spawn_task :: "heap_task \<Rightarrow> ('h, 'v) kheap \<Rightarrow> ('h, 'v) kheap" where
  "spawn_task t s = s\<lparr>spawned := spawned s @ [t]\<rparr>"

text \<open>Giving the memory of an offset-mapped allocation to the heap and forgetting it.\<close>

definition give_to_heap :: "'h heap_api \<Rightarrow> machine \<Rightarrow> ('h, 'v) kheap \<Rightarrow> OffsetMappedAllocation \<Rightarrow> (('h, 'v) kheap \<times> nat) exec" where
  "give_to_heap H mc s om =
     exec_bind (om_get_size om) (\<lambda>sz. exec_bind (size_get sz) (\<lambda>n.
     exec_bind (om_get_virt_addr mc om) (\<lambda>va. exec_bind (address_get va) (\<lambda>v.
       Inr (s\<lparr>heap := hp_init H v n (heap s), owned := om # owned s\<rparr>, n)))))"

definition grow_kheap :: "'h heap_api \<Rightarrow> machine \<Rightarrow> ('h, 'v) kheap \<Rightarrow> PageAllocationSizeT \<Rightarrow> (('h, 'v) kheap \<times> nat option) exec" where
  "grow_kheap H mc s amount =
     exec_bind (om_alloc_new mc (kworld s) amount (flags_new {WRITEABLE} {})) (\<lambda>(w, r). let s = s\<lparr>kworld := w\<rparr> in case r of
       None \<Rightarrow> Inr (s, None)
     | Some allocation \<Rightarrow> exec_bind (give_to_heap H mc s allocation) (\<lambda>(s, bytes_added). Inr (s, Some bytes_added)))"

definition use_rescue :: "'h heap_api \<Rightarrow> machine \<Rightarrow> bool \<Rightarrow> ('h, 'v) kheap \<Rightarrow> (('h, 'v) kheap \<times> bool) exec" where
  "use_rescue H mc rescue_locked s =
     (if rescue_locked then Inr (s, False) else case global_rescue s of
        None \<Rightarrow> Inr (s, False)
      | Some allocation \<Rightarrow>
          exec_bind (give_to_heap H mc (s\<lparr>global_rescue := None\<rparr>) allocation) (\<lambda>(s, _).
          exec_bind (om_leak mc allocation) (\<lambda>_. Inr (spawn_task NotifyRescueUsed s, True))))"

definition on_oom :: "'h heap_api \<Rightarrow> machine \<Rightarrow> bool \<Rightarrow> ('h, 'v) kheap \<Rightarrow> ('h, 'v) kheap exec" where
  "on_oom H mc rescue_locked s =
     exec_bind (use_rescue H mc rescue_locked s) (\<lambda>(s, ok).
       Inr (if ok then spawn_task ExpandFurtherPostRescue (spawn_task ReinitRescue s) else s))"

text \<open>A null pointer is \<open>0\<close>.  Both operations run with interruptions suspended.\<close>

definition kheap_alloc_inner :: "'h heap_api \<Rightarrow> machine \<Rightarrow> bool \<Rightarrow> nat \<times> nat \<Rightarrow> ('h, 'v) kheap \<Rightarrow> (('h, 'v) kheap \<times> nat) exec" where
  "kheap_alloc_inner H mc rescue_locked layout s = (case hp_alloc H layout (heap s) of
     Some (h, ptr) \<Rightarrow> Inr (s\<lparr>heap := h\<rparr>, ptr)
   | None \<Rightarrow>
       exec_bind (on_oom H mc rescue_locked s) (\<lambda>s. Inr (case hp_alloc H layout (heap s) of
         Some (h, ptr) \<Rightarrow> (s\<lparr>heap := h\<rparr>, ptr)
       | None \<Rightarrow> (s, 0))))"

definition kheap_alloc :: "'h heap_api \<Rightarrow> machine \<Rightarrow> bool \<Rightarrow> nat \<times> nat \<Rightarrow> ('h, 'v) kheap \<Rightarrow> ni_cpu \<Rightarrow> ni_cpu \<times> (('h, 'v) kheap \<times> nat) exec" where
  "kheap_alloc H mc rescue_locked layout s = without_interruptions_noalloc (\<lambda>c. (c, kheap_alloc_inner H mc rescue_locked layout s))"

definition kheap_dealloc :: "'h heap_api \<Rightarrow> nat \<Rightarrow> nat \<times> nat \<Rightarrow> ('h, 'v) kheap \<Rightarrow> ni_cpu \<Rightarrow> ni_cpu \<times> ('h, 'v) kheap" where
  "kheap_dealloc H ptr layout s = without_interruptions_noalloc (\<lambda>c. (c, s\<lparr>heap := hp_dealloc H ptr layout (heap s)\<rparr>))"

definition reclaim_for_heap :: "'h heap_api \<Rightarrow> nat \<Rightarrow> nat \<Rightarrow> ('h, 'v) kheap \<Rightarrow> ni_cpu \<Rightarrow> ni_cpu \<times> ('h, 'v) kheap" where
  "reclaim_for_heap H lo hi s = without_interruptions_noalloc (\<lambda>c. (c, s\<lparr>heap := hp_add_to_heap H lo hi (heap s)\<rparr>))"

definition init_kheap :: "'h heap_api \<Rightarrow> nat \<Rightarrow> nat \<Rightarrow> 'h \<Rightarrow> 'v world \<Rightarrow> ('h, 'v) kheap" where
  "init_kheap H addr sz h w = \<lparr>heap = hp_init H addr sz h, global_rescue = None, spawned = [], kworld = w, owned = []\<rparr>"

definition init_kheap_2 :: "('h, 'v) kheap \<Rightarrow> ('h, 'v) kheap" where
  "init_kheap_2 s = spawn_task ReinitRescue s"

text \<open>The bodies of the tasks.  Storing a new rescue drops the one that was there.\<close>

definition reinit_rescue :: "machine \<Rightarrow> ('h, 'v) kheap \<Rightarrow> ('h, 'v) kheap exec" where
  "reinit_rescue mc s =
     exec_bind (om_alloc_new mc (kworld s) RESCUE_SIZE (flags_new {WRITEABLE} {})) (\<lambda>(w, r). let s = s\<lparr>kworld := w\<rparr> in case r of
       None \<Rightarrow> Inr s
     | Some nr \<Rightarrow> (case global_rescue s of
          None \<Rightarrow> Inr (s\<lparr>global_rescue := Some nr\<rparr>)
        | Some old \<Rightarrow> exec_bind (om_drop mc (kworld s) old) (\<lambda>w. Inr (s\<lparr>kworld := w, global_rescue := Some nr\<rparr>))))"

definition run_heap_task :: "'h heap_api \<Rightarrow> machine \<Rightarrow> heap_task \<Rightarrow> ('h, 'v) kheap \<Rightarrow> ('h, 'v) kheap exec" where
  "run_heap_task H mc t s = (case t of
     NotifyRescueUsed \<Rightarrow> Inr s
   | ReinitRescue \<Rightarrow> reinit_rescue mc s
   | ExpandFurtherPostRescue \<Rightarrow> exec_bind (grow_kheap H mc s POST_RESCUE_EXPAND_SIZE) (\<lambda>(s, _). Inr s))"

section \<open>The invariant\<close>

text \<open>The allocations the heap accounts for: what it was given, and the rescue kept for it.\<close>

definition heap_oms :: "('h, 'v) kheap \<Rightarrow> OffsetMappedAllocation list" where
  "heap_oms s = owned s @ (case global_rescue s of None \<Rightarrow> [] | Some r \<Rightarrow> [r])"

text \<open>\<open>others\<close> are the offset-mapped allocations other parts of the kernel hold, \<open>L\<close> the remaining blocks in use.\<close>

definition kh_inv :: "machine \<Rightarrow> block multiset \<Rightarrow> ('h, 'v) kheap \<Rightarrow> OffsetMappedAllocation list \<Rightarrow> bool" where
  "kh_inv mc L s others \<longleftrightarrow> world_ok mc (mset (map om_block (heap_oms s @ others)) + L) (kworld s)
     \<and> (\<forall>om\<in>set (heap_oms s @ others). om_ok mc (kworld s) om)"

lemma kh_inv_cong:
  "kworld s' = kworld s \<Longrightarrow> mset (heap_oms s' @ others') = mset (heap_oms s @ others) \<Longrightarrow> kh_inv mc L s' others' \<longleftrightarrow> kh_inv mc L s others"
  unfolding kh_inv_def mset_map by (metis set_mset_mset)

lemma om_ok_reads:
  assumes "om_ok mc w om" and "om_block om = (k, p)"
  shows "give_to_heap H mc s om = Inr (s\<lparr>heap := hp_init H (KERNEL_PTABLE_VADDR + p) (bsz k) (heap s), owned := om # owned s\<rparr>, bsz k)"
    and "\<exists>r. om_leak mc om = Inr r"
proof -
  have o: "om_get_virt_addr mc om = Inr (PageAlignedAddressT (KERNEL_PTABLE_VADDR + p))" "om_get_size om = Inr (PageAllocationSizeT (bsz k))"
    "pma_addr (om_phys om) = p" "size_valid (bsz k)" "p mod PAGE_ALIGN = 0" using assms by (simp_all add: om_ok_def)
  have g: "size_get (PageAllocationSizeT (bsz k)) = Inr (bsz k)" "address_get (PageAlignedAddressT (KERNEL_PTABLE_VADDR + p)) = Inr (KERNEL_PTABLE_VADDR + p)"
    using o(4) kernel_page_mod[OF o(5)] by (simp_all add: address_get_def)
  show "give_to_heap H mc s om = Inr (s\<lparr>heap := hp_init H (KERNEL_PTABLE_VADDR + p) (bsz k) (heap s), owned := om # owned s\<rparr>, bsz k)"
    using o(1,2) g by (simp add: give_to_heap_def)
  show "\<exists>r. om_leak mc om = Inr r" using o g by (simp add: om_leak_def om_get_phys_addr_def address_new_def)
qed

lemma kh_alloc:
  assumes mc: "machine_ok mc" and inv: "kh_inv mc L s others" and n: "size_valid n" and run: "om_alloc_new mc (kworld s) (PageAllocationSizeT n) fl = Inr (w', Some om)"
  shows "kh_inv mc L (s\<lparr>kworld := w'\<rparr>) (om # others)"
  using om_alloc_step[OF mc _ n run] inv by (auto simp: kh_inv_def heap_oms_def)

lemma kh_drop:
  assumes mc: "machine_ok mc" and inv: "kh_inv mc L s (om # others)"
  shows "\<exists>w'. om_drop mc (kworld s) om = Inr w' \<and> kh_inv mc L (s\<lparr>kworld := w'\<rparr>) others"
proof -
  have w: "world_ok mc (add_mset (om_block om) (mset (map om_block (heap_oms s @ others)) + L)) (kworld s)" "om_ok mc (kworld s) om"
    "\<forall>o'\<in>set (heap_oms s @ others). om_ok mc (kworld s) o'" using inv by (simp_all add: kh_inv_def)
  obtain w' where "om_drop mc (kworld s) om = Inr w'" "world_ok mc (mset (map om_block (heap_oms s @ others)) + L) w'"
    "\<forall>o'. om_ok mc (kworld s) o' \<longrightarrow> om_block o' \<in># mset (map om_block (heap_oms s @ others)) + L \<longrightarrow> om_ok mc w' o'"
    using om_drop_step[OF mc w(1,2)] by blast
  then show ?thesis using w(3) by (auto simp: kh_inv_def heap_oms_def)
qed

lemma kh_give:
  assumes inv: "kh_inv mc L s (om # others)"
  shows "\<exists>s'. give_to_heap H mc s om = Inr (s', bsz (fst (om_block om))) \<and> kh_inv mc L s' others \<and> owned s' = om # owned s \<and> kworld s' = kworld s
    \<and> heap s' = hp_init H (KERNEL_PTABLE_VADDR + snd (om_block om)) (bsz (fst (om_block om))) (heap s) \<and> global_rescue s' = global_rescue s \<and> spawned s' = spawned s"
proof -
  obtain k p where b: "om_block om = (k, p)" by (cases "om_block om")
  have "om_ok mc (kworld s) om" using inv by (simp add: kh_inv_def)
  note g = om_ok_reads(1)[OF this b, of H s]
  let ?s = "s\<lparr>heap := hp_init H (KERNEL_PTABLE_VADDR + p) (bsz k) (heap s), owned := om # owned s\<rparr>"
  have "kh_inv mc L ?s others \<longleftrightarrow> kh_inv mc L s (om # others)" by (rule kh_inv_cong) (simp_all add: heap_oms_def)
  then show ?thesis using g b inv by simp
qed

text \<open>The rescue is given to the heap whenever it is there and its lock is free; this never panics.\<close>

lemma use_rescue_ok:
  assumes inv: "kh_inv mc L s others"
  shows "\<exists>s' b. use_rescue H mc locked s = Inr (s', b) \<and> kh_inv mc L s' others \<and> (b \<longleftrightarrow> \<not> locked \<and> global_rescue s \<noteq> None)"
proof (cases "locked \<or> global_rescue s = None")
  case True
  then show ?thesis using inv by (auto simp: use_rescue_def)
next
  case False
  then obtain om where om: "global_rescue s = Some om" "\<not> locked" by auto
  let ?s = "s\<lparr>global_rescue := None\<rparr>"
  have "kh_inv mc L ?s (om # others) \<longleftrightarrow> kh_inv mc L s others" by (rule kh_inv_cong) (simp_all add: heap_oms_def om)
  then obtain s' where s': "give_to_heap H mc ?s om = Inr (s', bsz (fst (om_block om)))" "kh_inv mc L s' others" using kh_give inv by blast
  have "om_ok mc (kworld s) om" using inv om by (simp add: kh_inv_def heap_oms_def)
  then obtain r where "om_leak mc om = Inr r" using om_ok_reads(2) by (metis surj_pair)
  moreover have "kh_inv mc L (spawn_task NotifyRescueUsed s') others \<longleftrightarrow> kh_inv mc L s' others" by (rule kh_inv_cong) (simp_all add: heap_oms_def spawn_task_def)
  ultimately show ?thesis using s' om by (intro exI[of _ "spawn_task NotifyRescueUsed s'"] exI[of _ True]) (simp add: use_rescue_def)
qed

lemma kheap_alloc_ok:
  assumes inv: "kh_inv mc L s others"
  shows "\<exists>s' p. kheap_alloc_inner H mc locked layout s = Inr (s', p) \<and> kh_inv mc L s' others"
proof -
  have cong: "kh_inv mc L (t\<lparr>heap := h\<rparr>) others \<longleftrightarrow> kh_inv mc L t others" "kh_inv mc L (spawn_task x t) others \<longleftrightarrow> kh_inv mc L t others" for t :: "('a, 'b) kheap" and h x
    by (rule kh_inv_cong; simp add: heap_oms_def spawn_task_def)+
  obtain s1 b where "use_rescue H mc locked s = Inr (s1, b)" "kh_inv mc L s1 others" using use_rescue_ok[OF inv] by blast
  then have "\<exists>s2. on_oom H mc locked s = Inr s2 \<and> kh_inv mc L s2 others" by (simp add: on_oom_def cong)
  then show ?thesis using inv by (auto simp: kheap_alloc_inner_def cong split: option.splits)
qed

lemma grow_kheap_ok:
  assumes mc: "machine_ok mc" and inv: "kh_inv mc L s others" and n: "size_valid n" and run: "grow_kheap H mc s (PageAllocationSizeT n) = Inr (s', r)"
  shows "kh_inv mc L s' others"
proof -
  obtain w' om where w': "om_alloc_new mc (kworld s) (PageAllocationSizeT n) (flags_new {WRITEABLE} {}) = Inr (w', om)"
    using run by (auto simp: grow_kheap_def exec_dests)
  show ?thesis
  proof (cases om)
    case None
    then have "w' = kworld s" using om_alloc_step[OF mc conjunct1[OF inv[unfolded kh_inv_def]] n w'] by simp
    then show ?thesis using run w' None inv by (simp add: grow_kheap_def)
  next
    case (Some x)
    then have "kh_inv mc L (s\<lparr>kworld := w'\<rparr>) (x # others)" using kh_alloc[OF mc inv n] w' by simp
    from kh_give[OF this, of H] show ?thesis using run w' Some by (auto simp: grow_kheap_def Let_def)
  qed
qed

lemma reinit_rescue_ok:
  assumes mc: "machine_ok mc" and inv: "kh_inv mc L s others" and run: "reinit_rescue mc s = Inr s'"
  shows "kh_inv mc L s' others"
proof -
  have n: "RESCUE_SIZE = PageAllocationSizeT 0x100000" "size_valid 0x100000" by (simp_all add: RESCUE_SIZE_def size_valid_def PAGE_ALIGN_def)
  obtain w' om where w': "om_alloc_new mc (kworld s) RESCUE_SIZE (flags_new {WRITEABLE} {}) = Inr (w', om)"
    using run by (auto simp: reinit_rescue_def exec_dests)
  show ?thesis
  proof (cases om)
    case None
    then have "w' = kworld s" using om_alloc_step[OF mc conjunct1[OF inv[unfolded kh_inv_def]] n(2) w'[unfolded n(1)]] by simp
    then show ?thesis using run w' None inv by (simp add: reinit_rescue_def)
  next
    case (Some x)
    let ?s = "s\<lparr>kworld := w'\<rparr>"
    have x: "kh_inv mc L ?s (x # others)" using kh_alloc[OF mc inv n(2)] w'[unfolded n(1)] Some by simp
    show ?thesis
    proof (cases "global_rescue s")
      case None
      have "kh_inv mc L (?s\<lparr>global_rescue := Some x\<rparr>) others \<longleftrightarrow> kh_inv mc L ?s (x # others)" by (rule kh_inv_cong) (simp_all add: heap_oms_def None)
      then show ?thesis using x run w' Some None by (simp add: reinit_rescue_def)
    next
      case (Some old)
      let ?t = "?s\<lparr>global_rescue := Some x\<rparr>"
      have "kh_inv mc L ?t (old # others) \<longleftrightarrow> kh_inv mc L ?s (x # others)" by (rule kh_inv_cong) (simp_all add: heap_oms_def Some)
      then obtain w2 where w2: "om_drop mc w' old = Inr w2" "kh_inv mc L (?t\<lparr>kworld := w2\<rparr>) others" using kh_drop[OF mc, of L ?t old others] x by auto
      then have s': "s' = s\<lparr>kworld := w2, global_rescue := Some x\<rparr>" using run w' \<open>om = Some x\<close> Some by (simp add: reinit_rescue_def)
      have "kh_inv mc L s' others \<longleftrightarrow> kh_inv mc L (?t\<lparr>kworld := w2\<rparr>) others" by (rule kh_inv_cong) (simp_all add: s' heap_oms_def)
      then show ?thesis using w2(2) by simp
    qed
  qed
qed

section \<open>Every sequence of operations\<close>

text \<open>
  The states the heap reaches while other parts of the kernel take and drop offset-mapped allocations.
  Spawned tasks run in any order.  Operations that panic are not followed.
\<close>

inductive kh_reach :: "'h heap_api \<Rightarrow> machine \<Rightarrow> ('h, 'v) kheap \<Rightarrow> ('h, 'v) kheap \<Rightarrow> OffsetMappedAllocation list \<Rightarrow> bool"
  for H mc s0 where
  start: "kh_reach H mc s0 s0 []"
| init_2: "kh_reach H mc s0 s os \<Longrightarrow> kh_reach H mc s0 (init_kheap_2 s) os"
| alloc: "kh_reach H mc s0 s os \<Longrightarrow> kheap_alloc H mc locked layout s c = (c', Inr (s', ptr)) \<Longrightarrow> kh_reach H mc s0 s' os"
| dealloc: "kh_reach H mc s0 s os \<Longrightarrow> kheap_dealloc H ptr layout s c = (c', s') \<Longrightarrow> kh_reach H mc s0 s' os"
| reclaim: "kh_reach H mc s0 s os \<Longrightarrow> reclaim_for_heap H lo hi s c = (c', s') \<Longrightarrow> kh_reach H mc s0 s' os"
| grow: "kh_reach H mc s0 s os \<Longrightarrow> size_valid n \<Longrightarrow> grow_kheap H mc s (PageAllocationSizeT n) = Inr (s', r) \<Longrightarrow> kh_reach H mc s0 s' os"
| task: "kh_reach H mc s0 s os \<Longrightarrow> t \<in> set (spawned s) \<Longrightarrow> run_heap_task H mc t (s\<lparr>spawned := remove1 t (spawned s)\<rparr>) = Inr s' \<Longrightarrow> kh_reach H mc s0 s' os"
| other_alloc: "kh_reach H mc s0 s os \<Longrightarrow> size_valid n \<Longrightarrow> om_alloc_new mc (kworld s) (PageAllocationSizeT n) fl = Inr (w', Some om) \<Longrightarrow>
    kh_reach H mc s0 (s\<lparr>kworld := w'\<rparr>) (om # os)"
| other_drop: "kh_reach H mc s0 s os \<Longrightarrow> om \<in> set os \<Longrightarrow> om_drop mc (kworld s) om = Inr w' \<Longrightarrow> kh_reach H mc s0 (s\<lparr>kworld := w'\<rparr>) (remove1 om os)"

lemma suspended_result: "snd (without_interruptions_noalloc (\<lambda>c. (c, r)) c) = r"
  by (simp add: without_interruptions_noalloc_def split: prod.splits)

lemma suspended_pair: "without_interruptions_noalloc (\<lambda>c. (c, r)) c = (c, r)"
  using without_interruptions_noalloc_restores[of "\<lambda>c. (c, r)" c] suspended_result[of r c] by (simp add: prod_eq_iff)

lemma run_heap_task_ok:
  assumes mc: "machine_ok mc" and inv: "kh_inv mc L s os" and run: "run_heap_task H mc t s = Inr s'"
  shows "kh_inv mc L s' os"
proof (cases t)
  case ExpandFurtherPostRescue
  moreover have n: "POST_RESCUE_EXPAND_SIZE = PageAllocationSizeT 0x700000" "size_valid 0x700000"
    by (simp_all add: POST_RESCUE_EXPAND_SIZE_def size_valid_def PAGE_ALIGN_def)
  ultimately show ?thesis using run grow_kheap_ok[OF mc inv n(2)] by (auto simp: run_heap_task_def exec_dests)
qed (use run inv reinit_rescue_ok[OF mc inv] in \<open>auto simp: run_heap_task_def\<close>)

lemma kh_reach_inv:
  assumes "kh_reach H mc s0 s os" and mc: "machine_ok mc" and init: "kh_inv mc L s0 []"
  shows "kh_inv mc L s os"
  using assms(1)
proof (induction rule: kh_reach.induct)
  case start
  show ?case by (rule init)
next
  case (init_2 s os)
  have "kh_inv mc L (init_kheap_2 s) os \<longleftrightarrow> kh_inv mc L s os" by (rule kh_inv_cong) (simp_all add: heap_oms_def init_kheap_2_def spawn_task_def)
  then show ?case using init_2.IH by simp
next
  case (alloc s os locked layout c c' s' ptr)
  have "kheap_alloc_inner H mc locked layout s = Inr (s', ptr)"
    using alloc.hyps(2) suspended_result[of "kheap_alloc_inner H mc locked layout s" c] by (simp add: kheap_alloc_def)
  then show ?case using kheap_alloc_ok[OF alloc.IH, of H locked layout] by auto
next
  case (dealloc s os ptr layout c c' s')
  have s': "s' = s\<lparr>heap := hp_dealloc H ptr layout (heap s)\<rparr>"
    using dealloc.hyps(2) suspended_result[of "s\<lparr>heap := hp_dealloc H ptr layout (heap s)\<rparr>" c] by (simp add: kheap_dealloc_def)
  have "kh_inv mc L s' os \<longleftrightarrow> kh_inv mc L s os" by (rule kh_inv_cong) (simp_all add: s' heap_oms_def)
  then show ?case using dealloc.IH by simp
next
  case (reclaim s os lo hi c c' s')
  have s': "s' = s\<lparr>heap := hp_add_to_heap H lo hi (heap s)\<rparr>"
    using reclaim.hyps(2) suspended_result[of "s\<lparr>heap := hp_add_to_heap H lo hi (heap s)\<rparr>" c] by (simp add: reclaim_for_heap_def)
  have "kh_inv mc L s' os \<longleftrightarrow> kh_inv mc L s os" by (rule kh_inv_cong) (simp_all add: s' heap_oms_def)
  then show ?case using reclaim.IH by simp
next
  case (grow s os n s' r)
  show ?case by (rule grow_kheap_ok[OF mc grow.IH grow.hyps(2,3)])
next
  case (task s os t s')
  have "kh_inv mc L (s\<lparr>spawned := remove1 t (spawned s)\<rparr>) os \<longleftrightarrow> kh_inv mc L s os" by (rule kh_inv_cong) (simp_all add: heap_oms_def)
  then show ?case using run_heap_task_ok[OF mc _ task.hyps(3)] task.IH by simp
next
  case (other_alloc s os n fl w' om)
  show ?case by (rule kh_alloc[OF mc other_alloc.IH other_alloc.hyps(2,3)])
next
  case (other_drop s os om w')
  have "kh_inv mc L s (om # remove1 om os) \<longleftrightarrow> kh_inv mc L s os" using other_drop.hyps(2) by (intro kh_inv_cong) simp_all
  then show ?case using kh_drop[OF mc, of L s om "remove1 om os"] other_drop.IH other_drop.hyps(3) by simp
qed

lemma kh_inv_init: "world_ok mc L w \<Longrightarrow> kh_inv mc L (init_kheap H addr sz h w) []"
  by (simp add: kh_inv_def init_kheap_def heap_oms_def)

lemma cover_list_disjoint:
  assumes "\<forall>x. cover (mset bs) x \<le> 1" and "i < j" and "j < length bs"
  shows "\<not> (has_byte (bs ! i) x \<and> has_byte (bs ! j) x)"
proof
  assume b: "has_byte (bs ! i) x \<and> has_byte (bs ! j) x"
  have "bs ! j \<in># mset (drop (Suc i) bs)" using assms(2,3) nth_mem[of "j - Suc i" "drop (Suc i) bs"] by simp
  then have "0 < cover (mset (drop (Suc i) bs)) x" using cover_pos b by blast
  moreover have "mset bs = mset (take i bs) + add_mset (bs ! i) (mset (drop (Suc i) bs))"
    using assms(2,3) by (metis id_take_nth_drop less_trans mset.simps(2) mset_append)
  then have "cover (mset bs) x = cover (mset (take i bs)) x + (1 + cover (mset (drop (Suc i) bs)) x)" using b by simp
  ultimately show False using assms(1) by (metis add_leD2 add_le_same_cancel1 not_less)
qed

definition om_bytes :: "OffsetMappedAllocation \<Rightarrow> nat set" where
  "om_bytes om = {snd (om_block om)..<snd (om_block om) + bsz (fst (om_block om))}"

lemma kh_inv_disjoint:
  assumes inv: "kh_inv mc L s os" and oms: "oms = heap_oms s @ os"
  shows "\<forall>i j. i < j \<longrightarrow> j < length oms \<longrightarrow> om_bytes (oms ! i) \<inter> om_bytes (oms ! j) = {}"
    and "\<forall>om\<in>set oms. \<forall>x\<in>om_bytes om. cover (free_mset (phys (kworld s)) + L) x = 0"
proof -
  have c: "cover (free_mset (phys (kworld s)) + (mset (map om_block oms) + L)) x \<le> 1" for x
    using inv unfolding oms kh_inv_def world_ok_def buddy_inv_def by blast
  have hb: "x \<in> om_bytes om \<longleftrightarrow> has_byte (om_block om) x" for x om by (simp add: om_bytes_def has_byte_def)
  have "\<forall>x. cover (mset (map om_block oms)) x \<le> 1" using c unfolding cover_simps by (metis add_leD1 add_leD2)
  from cover_list_disjoint[OF this] show "\<forall>i j. i < j \<longrightarrow> j < length oms \<longrightarrow> om_bytes (oms ! i) \<inter> om_bytes (oms ! j) = {}"
    by (auto simp: disjoint_iff hb)
  show "\<forall>om\<in>set oms. \<forall>x\<in>om_bytes om. cover (free_mset (phys (kworld s)) + L) x = 0"
  proof (intro ballI)
    fix om x assume "om \<in> set oms" and "x \<in> om_bytes om"
    then have "0 < cover (mset (map om_block oms)) x" using cover_pos[of "om_block om" "mset (map om_block oms)" x] hb by auto
    then show "cover (free_mset (phys (kworld s)) + L) x = 0" using c[of x] by simp
  qed
qed

section \<open>Properties\<close>


text \<open>A heap that serves requests from the region it was given last.\<close>

definition demo_heap :: "(nat \<times> nat) list heap_api" where
  "demo_heap = \<lparr>hp_init = (\<lambda>a n h. (a, n) # h), hp_add_to_heap = (\<lambda>a b h. (a, b - a) # h),
     hp_alloc = (\<lambda>(sz, _) h. case h of [] \<Rightarrow> None | (a, n) # t \<Rightarrow> if sz \<le> n then Some ((a + sz, n - sz) # t, a) else None),
     hp_dealloc = (\<lambda>_ _ h. h)\<rparr>"

lemma demo_world_ok: "world_ok demo_machine {#} (demo_world demo_buddy ())"
proof -
  have "low_cover (free_mset demo_buddy)" unfolding demo_blocks low_cover_def
    by (simp add: has_byte_def demo_bsz[unfolded One_nat_def] bsz_MAX_ORDER)
  moreover have "phys (demo_world demo_buddy ()) = demo_buddy" by (simp add: demo_world_def)
  ultimately show ?thesis using demo_kernel(2)[of demo_buddy "()"] demo_inv by (simp add: world_ok_def)
qed


end
