(* ===== verification/Wait_Locks.thy ===== *)
theory Wait_Locks
  imports Base_Locks
begin

text \<open>
  The sleeping locks of the older kernel (\<open>rust_old/src/sync/wlock.rs\<close>) over the waiting list of
  \<open>sync/waitlist.rs\<close>.  The lock words are those of \<open>Base_Locks\<close> with another layout.

  A task that waits locks the waiting list, tries the lock while it holds the list, and goes to sleep
  before the list is unlocked again.  The step relations interleave these sections and every atomic
  access to the lock word.
\<close>

section \<open>The mutex\<close>

text \<open>
  Where a task is: outside; before locking the list; with the list locked before the attempt; with the list
  locked after a failed attempt; asleep; owning the mutex; between the release and \<open>notify_one\<close>.
\<close>

datatype wm_pc = MOut | MLocking | MTrying | MDozing | MSleeping | MOwning | MNotifying

record wmutex =
  wm_flag :: bool
  wm_list :: "nat list"
  wm_lock :: "nat option"
  wm_pc :: "nat \<Rightarrow> wm_pc"

definition wm_new :: wmutex where
  "wm_new = \<lparr>wm_flag = False, wm_list = [], wm_lock = None, wm_pc = (\<lambda>_. MOut)\<rparr>"

definition wm_at :: "nat \<Rightarrow> wm_pc \<Rightarrow> wmutex \<Rightarrow> wmutex" where
  "wm_at t p s = s\<lparr>wm_pc := (wm_pc s)(t := p)\<rparr>"

definition wm_notify_one :: "wmutex \<Rightarrow> wmutex" where
  "wm_notify_one s = (case wm_list s of [] \<Rightarrow> s | u # us \<Rightarrow> wm_at u MLocking (s\<lparr>wm_list := us\<rparr>))"

inductive wm_step :: "wmutex \<Rightarrow> wmutex \<Rightarrow> bool" where
  call: "wm_pc s t = MOut \<Longrightarrow> wm_step s (wm_at t MLocking s)"
| try_now: "wm_pc s t = MOut \<Longrightarrow> mutex_try_lock (wm_flag s) = (flag, ok) \<Longrightarrow>
    wm_step s (wm_at t (if ok then MOwning else MOut) (s\<lparr>wm_flag := flag\<rparr>))"
| lock_list: "wm_pc s t = MLocking \<Longrightarrow> wm_lock s = None \<Longrightarrow> wm_step s (wm_at t MTrying (s\<lparr>wm_lock := Some t\<rparr>))"
| got: "wm_pc s t = MTrying \<Longrightarrow> mutex_try_lock (wm_flag s) = (flag, True) \<Longrightarrow>
    wm_step s (wm_at t MOwning (s\<lparr>wm_flag := flag, wm_lock := None\<rparr>))"
| missed: "wm_pc s t = MTrying \<Longrightarrow> mutex_try_lock (wm_flag s) = (flag, False) \<Longrightarrow>
    wm_step s (wm_at t MDozing (s\<lparr>wm_flag := flag\<rparr>))"
| sleep: "wm_pc s t = MDozing \<Longrightarrow>
    wm_step s (wm_at t MSleeping (s\<lparr>wm_list := wm_list s @ [t], wm_lock := None\<rparr>))"
| unlock: "wm_pc s t = MOwning \<Longrightarrow> wm_step s (wm_at t MNotifying (s\<lparr>wm_flag := mutex_unlock (wm_flag s)\<rparr>))"
| notify: "wm_pc s t = MNotifying \<Longrightarrow> wm_lock s = None \<Longrightarrow> wm_step s (wm_at t MOut (wm_notify_one s))"

inductive wm_reach :: "wmutex \<Rightarrow> bool" where
  wm_start: "wm_reach wm_new"
| wm_next: "wm_reach s \<Longrightarrow> wm_step s s' \<Longrightarrow> wm_reach s'"

definition has_pc :: "wm_pc set \<Rightarrow> wmutex \<Rightarrow> bool" where
  "has_pc P s \<longleftrightarrow> (\<exists>t. wm_pc s t \<in> P)"

text \<open>
  The sleeping tasks are those on the list; the list is locked between an attempt and its outcome; the flag
  tells whether there is an owner; and while the flag is clear, a task that sleeps or is about to is going to be woken.
\<close>

definition wm_shape :: "wmutex \<Rightarrow> bool" where
  "wm_shape s \<longleftrightarrow> distinct (wm_list s) \<and> (\<forall>t. t \<in> set (wm_list s) \<longleftrightarrow> wm_pc s t = MSleeping)
     \<and> (\<forall>t. wm_pc s t = MTrying \<longrightarrow> wm_lock s = Some t) \<and> (\<forall>t. wm_pc s t = MDozing \<longrightarrow> wm_lock s = Some t)"

definition wm_owner :: "wmutex \<Rightarrow> bool" where
  "wm_owner s \<longleftrightarrow> (wm_flag s \<longleftrightarrow> has_pc {MOwning} s) \<and> (\<forall>i j. wm_pc s i = MOwning \<longrightarrow> wm_pc s j = MOwning \<longrightarrow> i = j)"

definition wm_wakes :: "wmutex \<Rightarrow> bool" where
  "wm_wakes s \<longleftrightarrow> (\<not> wm_flag s \<longrightarrow> wm_list s \<noteq> [] \<longrightarrow> has_pc {MLocking, MTrying, MNotifying} s)
     \<and> (\<not> wm_flag s \<longrightarrow> has_pc {MDozing} s \<longrightarrow> has_pc {MNotifying} s)"

lemma wm_at_fields [simp]:
  "wm_flag (wm_at t p s) = wm_flag s" "wm_list (wm_at t p s) = wm_list s" "wm_lock (wm_at t p s) = wm_lock s"
  "wm_pc (wm_at t p s) u = (if u = t then p else wm_pc s u)"
  by (simp_all add: wm_at_def)

lemma wm_notify_cases:
  obtains "wm_list s = []" "wm_notify_one s = s" | u us where "wm_list s = u # us" "wm_notify_one s = wm_at u MLocking (s\<lparr>wm_list := us\<rparr>)"
  by (cases "wm_list s") (simp_all add: wm_notify_one_def)

lemma wm_shapeD:
  assumes "wm_shape s"
  shows "distinct (wm_list s)" and "t \<in> set (wm_list s) \<longleftrightarrow> wm_pc s t = MSleeping"
    and "wm_pc s t = MTrying \<Longrightarrow> wm_lock s = Some t" and "wm_pc s t = MDozing \<Longrightarrow> wm_lock s = Some t"
  using assms by (auto simp: wm_shape_def)

lemma wm_shape_at:
  assumes "wm_shape s" and "wm_pc s t \<noteq> MSleeping" and "p \<noteq> MSleeping" and "wm_pc s' = wm_pc s" and "wm_list s' = wm_list s"
    and "p \<in> {MTrying, MDozing} \<Longrightarrow> wm_lock s' = Some t"
    and "wm_lock s' = wm_lock s \<or> wm_lock s = None \<or> wm_lock s = Some t"
  shows "wm_shape (wm_at t p s')"
proof -
  note d = wm_shapeD[OF assms(1)]
  have "wm_lock s' = Some u" if "u \<noteq> t" "wm_pc s u = MTrying \<or> wm_pc s u = MDozing" for u using d(3,4)[of u] assms(7) that by auto
  then show ?thesis using assms d(1) unfolding wm_shape_def by (simp add: d(2))
qed

lemma wm_shape_notify:
  assumes "wm_shape s" and "wm_lock s = None"
  shows "wm_shape (wm_notify_one s)"
proof (cases s rule: wm_notify_cases)
  case (2 u us)
  note d = wm_shapeD[OF assms(1)]
  have "x \<in> set us \<longleftrightarrow> x \<noteq> u \<and> wm_pc s x = MSleeping" for x using d(1) d(2)[of x] 2(1) by auto
  then show ?thesis using d assms(2) 2 by (auto simp: wm_shape_def)
qed (use assms in simp)

lemma wm_notify_pc: "wm_shape s \<Longrightarrow> wm_pc s t \<noteq> MSleeping \<Longrightarrow> wm_pc (wm_notify_one s) t = wm_pc s t"
  by (cases s rule: wm_notify_cases) (auto simp: wm_shape_def)

lemma wm_shape_step:
  assumes "wm_step s s'" and sh: "wm_shape s"
  shows "wm_shape s'"
  using assms(1)
proof cases
  case (sleep t)
  note d = wm_shapeD[OF sh]
  have t: "wm_lock s = Some t" "t \<notin> set (wm_list s)" using d(2,4)[of t] sleep(2) by auto
  then have "wm_pc s u \<noteq> MTrying \<and> wm_pc s u \<noteq> MDozing" if "u \<noteq> t" for u using d(3,4)[of u] that by auto
  then show ?thesis using d(1) t(2) sleep by (simp add: wm_shape_def d(2))
next
  case (notify t)
  have "wm_pc (wm_notify_one s) t = MNotifying" using wm_notify_pc[OF sh, of t] notify(2) by simp
  then show ?thesis using wm_shape_at[OF wm_shape_notify[OF sh notify(3)], of t MOut "wm_notify_one s"] notify by simp
next
  case (try_now t flag ok)
  then show ?thesis using wm_shape_at[OF sh, of t MOwning "s\<lparr>wm_flag := flag\<rparr>"] wm_shape_at[OF sh, of t MOut "s\<lparr>wm_flag := flag\<rparr>"] by simp
next
  case (lock_list t)
  then show ?thesis using wm_shape_at[OF sh, of t MTrying "s\<lparr>wm_lock := Some t\<rparr>"] by simp
next
  case (got t flag)
  then show ?thesis using wm_shape_at[OF sh, of t MOwning "s\<lparr>wm_flag := flag, wm_lock := None\<rparr>"] wm_shapeD(3)[OF sh, of t] by simp
next
  case (missed t flag)
  then show ?thesis using wm_shape_at[OF sh, of t MDozing "s\<lparr>wm_flag := flag\<rparr>"] wm_shapeD(3)[OF sh, of t] by simp
next
  case (call t)
  then show ?thesis using wm_shape_at[OF sh, of t MLocking s] by simp
next
  case (unlock t)
  then show ?thesis using wm_shape_at[OF sh, of t MNotifying "s\<lparr>wm_flag := mutex_unlock (wm_flag s)\<rparr>"] by simp
qed

lemma wm_owner_at:
  assumes "wm_owner s" and "wm_pc s' = wm_pc s"
    and "if p = MOwning then wm_flag s' \<and> (\<not> wm_flag s \<or> wm_pc s t = MOwning)
         else if wm_pc s t = MOwning then \<not> wm_flag s' else wm_flag s' = wm_flag s"
  shows "wm_owner (wm_at t p s')"
  using assms by (auto simp: wm_owner_def has_pc_def split: if_splits)

lemma wm_owner_notify:
  assumes "wm_shape s" and "wm_owner s"
  shows "wm_owner (wm_notify_one s)"
proof (cases s rule: wm_notify_cases)
  case (2 u us)
  then have "wm_pc s u = MSleeping" using wm_shapeD(2)[OF assms(1), of u] by simp
  then show ?thesis unfolding 2(2) by (intro wm_owner_at[OF assms(2)]) simp_all
qed (use assms in simp)

lemmas mutex_op_defs = mutex_try_lock_def mutex_unlock_def

lemma wm_owner_step:
  assumes "wm_step s s'" and "wm_shape s" and "wm_owner s"
  shows "wm_owner s'"
  using assms(1)
proof cases
  case (notify t)
  have "wm_pc (wm_notify_one s) t = MNotifying" using wm_notify_pc[OF assms(2), of t] notify(2) by simp
  then show ?thesis using wm_owner_at[OF wm_owner_notify[OF assms(2,3)], of "wm_notify_one s" MOut t] notify by simp
next
  case (try_now t flag ok)
  then show ?thesis unfolding try_now(1) by (intro wm_owner_at[OF assms(3)]) (auto simp: mutex_op_defs split: if_splits)
next
  case (got t flag)
  then show ?thesis unfolding got(1) by (intro wm_owner_at[OF assms(3)]) (auto simp: mutex_op_defs split: if_splits)
next
  case (missed t flag)
  then show ?thesis unfolding missed(1) by (intro wm_owner_at[OF assms(3)]) (auto simp: mutex_op_defs split: if_splits)
next
  case (unlock t)
  then show ?thesis unfolding unlock(1) by (intro wm_owner_at[OF assms(3)]) (simp_all add: mutex_op_defs)
qed (simp_all add: wm_owner_at[OF assms(3)])

lemma wm_wakes_at:
  "wm_flag s \<Longrightarrow> wm_wakes (wm_at t p s)" "wm_wakes (wm_at t MNotifying s)"
  by (auto simp: wm_wakes_def has_pc_def)

lemma wm_wakes_move:
  assumes "wm_wakes s" and "wm_pc s t \<in> {MOut, MLocking}" and "p \<in> {MLocking, MTrying}" and "wm_pc s' = wm_pc s" "wm_list s' = wm_list s" "wm_flag s' = wm_flag s"
  shows "wm_wakes (wm_at t p s')"
proof -
  have "has_pc {MLocking, MTrying, MNotifying} (wm_at t p s')" using assms(3) by (auto simp: has_pc_def)
  moreover have "has_pc {MNotifying} (wm_at t p s')" if n: "has_pc {MNotifying} s"
  proof -
    obtain u where "wm_pc s u = MNotifying" using n by (auto simp: has_pc_def)
    moreover from this have "u \<noteq> t" using assms(2) by auto
    ultimately show ?thesis using assms(4) by (auto simp: has_pc_def intro!: exI[of _ u])
  qed
  moreover have "has_pc {MDozing} s" if "has_pc {MDozing} (wm_at t p s')" using that assms(3,4) by (auto simp: has_pc_def split: if_splits)
  ultimately show ?thesis using assms(1,6) by (auto simp: wm_wakes_def)
qed

lemma wm_wakes_notify:
  assumes "wm_shape s" and "wm_pc s t = MNotifying" and "wm_lock s = None"
  shows "wm_wakes (wm_at t MOut (wm_notify_one s))"
proof -
  have d: "wm_pc s u \<noteq> MDozing" for u using wm_shapeD(4)[OF assms(1), of u] assms(3) by auto
  show ?thesis
  proof (cases s rule: wm_notify_cases)
    case 1
    then show ?thesis using d by (auto simp: wm_wakes_def has_pc_def)
  next
    case (2 u us)
    then have "u \<noteq> t" using wm_shapeD(2)[OF assms(1), of u] assms(2) by auto
    then show ?thesis using d 2 by (auto simp: wm_wakes_def has_pc_def)
  qed
qed

lemma wm_wakes_step:
  assumes "wm_step s s'" and "wm_shape s" and "wm_wakes s"
  shows "wm_wakes s'"
  using assms(1)
proof cases
  case (notify t)
  then show ?thesis using wm_wakes_notify[OF assms(2)] by simp
next
  case (sleep t)
  have "has_pc {MNotifying} s" if "\<not> wm_flag s" using assms(3) sleep(2) that by (auto simp: wm_wakes_def has_pc_def)
  then obtain u where u: "\<not> wm_flag s \<longrightarrow> wm_pc s u = MNotifying" by (auto simp: has_pc_def)
  then have "\<not> wm_flag s \<longrightarrow> u \<noteq> t" using sleep(2) by auto
  then show ?thesis using u unfolding sleep(1) wm_wakes_def has_pc_def by (auto intro!: exI[of _ u])
next
  case (try_now t flag ok)
  then show ?thesis by (auto simp: mutex_op_defs intro!: wm_wakes_at split: if_splits)
next
  case (got t flag)
  then show ?thesis by (auto simp: mutex_op_defs intro!: wm_wakes_at split: if_splits)
next
  case (missed t flag)
  then show ?thesis by (auto simp: mutex_op_defs intro!: wm_wakes_at split: if_splits)
next
  case (call t)
  then show ?thesis using wm_wakes_move[OF assms(3), of t MLocking s] by simp
next
  case (lock_list t)
  then show ?thesis using wm_wakes_move[OF assms(3), of t MTrying "s\<lparr>wm_lock := Some t\<rparr>"] by simp
qed (simp add: wm_wakes_at)

lemma wm_reach_inv:
  assumes "wm_reach s"
  shows "wm_shape s \<and> wm_owner s \<and> wm_wakes s"
  using assms
proof induction
  case wm_start
  show ?case by (auto simp: wm_new_def wm_shape_def wm_owner_def wm_wakes_def has_pc_def)
next
  case (wm_next s s')
  then show ?case using wm_shape_step wm_owner_step wm_wakes_step by blast
qed

section \<open>The readers-writer lock\<close>

definition w_layout :: rw_layout where
  "w_layout = \<lparr>WRITER = push_bit 50 1, UPGRADER = push_bit 49 1, EXCLUSIVE_THRESHOLD = push_bit 48 1\<rparr>"

interpretation w_rw: rw_word w_layout
  by unfold_locales (simp_all add: w_layout_def push_bit_eq_mult unat_word_ariths)

text \<open>The ways of taking the lock, what a task holds, and the wake-ups a release still has to do.\<close>

datatype w_kind = KShared | KExclusive | KUpgradable | KUpgrade

datatype w_hold = Released | Shared | Upgradable | Exclusive

datatype w_notice = OneExclusive | AllShared

datatype w_release = UnlockShared | UnlockExclusive | Downgrade | UnlockUpgradable | DowngradeUpgradable | DowngradeToUpgradable

fun needs :: "w_kind \<Rightarrow> w_hold" where
  "needs KUpgrade = Upgradable"
| "needs _ = Released"

fun gains :: "w_kind \<Rightarrow> w_hold" where
  "gains KShared = Shared"
| "gains KUpgradable = Upgradable"
| "gains _ = Exclusive"

fun w_attempt :: "w_kind \<Rightarrow> 64 word \<Rightarrow> 64 word \<times> bool" where
  "w_attempt KShared w = shared_enter w_layout w"
| "w_attempt KExclusive w = try_lock_exclusive w_layout w"
| "w_attempt KUpgradable w = upgradable_enter w_layout w"
| "w_attempt KUpgrade w = try_upgrade w_layout w"

text \<open>The subtraction after a failed attempt that added itself.\<close>

fun retracts :: "w_kind \<Rightarrow> bool" where
  "retracts KShared = True"
| "retracts KUpgradable = True"
| "retracts _ = False"

fun w_retract :: "w_kind \<Rightarrow> 64 word \<Rightarrow> 64 word" where
  "w_retract KShared w = fst (unlock_shared w_layout w)"
| "w_retract KUpgradable w = unlock_upgradable w_layout w"
| "w_retract _ w = w"

fun release_from :: "w_release \<Rightarrow> w_hold" where
  "release_from UnlockShared = Shared"
| "release_from UnlockExclusive = Exclusive"
| "release_from Downgrade = Exclusive"
| "release_from UnlockUpgradable = Upgradable"
| "release_from DowngradeUpgradable = Upgradable"
| "release_from DowngradeToUpgradable = Exclusive"

fun release_to :: "w_release \<Rightarrow> w_hold" where
  "release_to Downgrade = Shared"
| "release_to DowngradeUpgradable = Shared"
| "release_to DowngradeToUpgradable = Upgradable"
| "release_to _ = Released"

fun release_word :: "w_release \<Rightarrow> 64 word \<Rightarrow> 64 word" where
  "release_word UnlockShared w = fst (unlock_shared w_layout w)"
| "release_word UnlockExclusive w = unlock_exclusive w_layout w"
| "release_word Downgrade w = downgrade w_layout w"
| "release_word UnlockUpgradable w = unlock_upgradable w_layout w"
| "release_word DowngradeUpgradable w = downgrade_upgradable w_layout w"
| "release_word DowngradeToUpgradable w = downgrade_to_upgradable w_layout w"

fun release_notices :: "w_release \<Rightarrow> 64 word \<Rightarrow> w_notice list" where
  "release_notices UnlockShared w = [OneExclusive, AllShared]"
| "release_notices UnlockExclusive w = [OneExclusive, AllShared]"
| "release_notices Downgrade w = [AllShared]"
| "release_notices UnlockUpgradable w = (if w = UPGRADER w_layout then [OneExclusive, AllShared] else [AllShared])"
| "release_notices DowngradeUpgradable w = []"
| "release_notices DowngradeToUpgradable w = []"

text \<open>
  Where a task is: outside every operation with what it holds; retracting a failed attempt that does not wait; and
  while it waits the places of the mutex, with the way it wants the lock.
\<close>

datatype w_pc =
    WResting w_hold
  | WRetreating w_kind
  | WLocking w_kind
  | WTrying w_kind
  | WRetracting w_kind
  | WDozing w_kind
  | WSleeping w_kind
  | WNotifying "w_notice list" w_hold

text \<open>The two waiting lists and their locks: \<open>True\<close> is the list of the readers, \<open>False\<close> the list of all others.\<close>

record wrwlock =
  w_word :: "64 word"
  w_lists :: "bool \<Rightarrow> nat list"
  w_locks :: "bool \<Rightarrow> nat option"
  w_pcs :: "w_pc list"

definition w_new :: "nat \<Rightarrow> wrwlock" where
  "w_new n = \<lparr>w_word = 0, w_lists = (\<lambda>_. []), w_locks = (\<lambda>_. None), w_pcs = replicate n (WResting Released)\<rparr>"

definition reads :: "w_kind \<Rightarrow> bool" where
  "reads k \<longleftrightarrow> k = KShared"

definition w_at :: "nat \<Rightarrow> w_pc \<Rightarrow> wrwlock \<Rightarrow> wrwlock" where
  "w_at t p s = s\<lparr>w_pcs := (w_pcs s)[t := p]\<rparr>"

definition w_set_lock :: "bool \<Rightarrow> nat option \<Rightarrow> wrwlock \<Rightarrow> wrwlock" where
  "w_set_lock b o' s = s\<lparr>w_locks := (w_locks s)(b := o')\<rparr>"

definition w_set_list :: "bool \<Rightarrow> nat list \<Rightarrow> wrwlock \<Rightarrow> wrwlock" where
  "w_set_list b ts s = s\<lparr>w_lists := (w_lists s)(b := ts)\<rparr>"

definition wake :: "nat \<Rightarrow> wrwlock \<Rightarrow> wrwlock" where
  "wake u s = (case w_pcs s ! u of WSleeping k \<Rightarrow> w_at u (WLocking k) s | _ \<Rightarrow> s)"

definition w_notify_one :: "bool \<Rightarrow> wrwlock \<Rightarrow> wrwlock" where
  "w_notify_one b s = (case w_lists s b of [] \<Rightarrow> s | u # us \<Rightarrow> wake u (w_set_list b us s))"

definition w_notify_all :: "bool \<Rightarrow> wrwlock \<Rightarrow> wrwlock" where
  "w_notify_all b s = fold wake (w_lists s b) (w_set_list b [] s)"

definition after_notices :: "w_notice list \<Rightarrow> w_hold \<Rightarrow> w_pc" where
  "after_notices ns h = (if ns = [] then WResting h else WNotifying ns h)"

definition failed_try :: "w_kind \<Rightarrow> w_pc" where
  "failed_try k = (if retracts k then WRetreating k else WResting (needs k))"

definition failed_wait :: "w_kind \<Rightarrow> w_pc" where
  "failed_wait k = (if retracts k then WRetracting k else WDozing k)"

inductive w_step :: "wrwlock \<Rightarrow> wrwlock \<Rightarrow> bool" where
  call: "t < length (w_pcs s) \<Longrightarrow> w_pcs s ! t = WResting (needs k) \<Longrightarrow> w_step s (w_at t (WLocking k) s)"
| try_now: "t < length (w_pcs s) \<Longrightarrow> w_pcs s ! t = WResting (needs k) \<Longrightarrow> w_attempt k (w_word s) = (w, ok) \<Longrightarrow>
    w_step s (w_at t (if ok then WResting (gains k) else failed_try k) (s\<lparr>w_word := w\<rparr>))"
| retreat: "t < length (w_pcs s) \<Longrightarrow> w_pcs s ! t = WRetreating k \<Longrightarrow>
    w_step s (w_at t (WResting (needs k)) (s\<lparr>w_word := w_retract k (w_word s)\<rparr>))"
| lock_list: "t < length (w_pcs s) \<Longrightarrow> w_pcs s ! t = WLocking k \<Longrightarrow> w_locks s (reads k) = None \<Longrightarrow>
    w_step s (w_at t (WTrying k) (w_set_lock (reads k) (Some t) s))"
| got: "t < length (w_pcs s) \<Longrightarrow> w_pcs s ! t = WTrying k \<Longrightarrow> w_attempt k (w_word s) = (w, True) \<Longrightarrow>
    w_step s (w_at t (WResting (gains k)) (w_set_lock (reads k) None (s\<lparr>w_word := w\<rparr>)))"
| missed: "t < length (w_pcs s) \<Longrightarrow> w_pcs s ! t = WTrying k \<Longrightarrow> w_attempt k (w_word s) = (w, False) \<Longrightarrow>
    w_step s (w_at t (failed_wait k) (s\<lparr>w_word := w\<rparr>))"
| retract: "t < length (w_pcs s) \<Longrightarrow> w_pcs s ! t = WRetracting k \<Longrightarrow>
    w_step s (w_at t (WDozing k) (s\<lparr>w_word := w_retract k (w_word s)\<rparr>))"
| sleep: "t < length (w_pcs s) \<Longrightarrow> w_pcs s ! t = WDozing k \<Longrightarrow>
    w_step s (w_at t (WSleeping k) (w_set_lock (reads k) None (w_set_list (reads k) (w_lists s (reads k) @ [t]) s)))"
| release: "t < length (w_pcs s) \<Longrightarrow> w_pcs s ! t = WResting (release_from r) \<Longrightarrow>
    w_step s (w_at t (after_notices (release_notices r (w_word s)) (release_to r)) (s\<lparr>w_word := release_word r (w_word s)\<rparr>))"
| notify_one: "t < length (w_pcs s) \<Longrightarrow> w_pcs s ! t = WNotifying (OneExclusive # ns) h \<Longrightarrow> w_locks s False = None \<Longrightarrow>
    w_step s (w_at t (after_notices ns h) (w_notify_one False s))"
| notify_all: "t < length (w_pcs s) \<Longrightarrow> w_pcs s ! t = WNotifying (AllShared # ns) h \<Longrightarrow> w_locks s True = None \<Longrightarrow>
    w_step s (w_at t (after_notices ns h) (w_notify_all True s))"

inductive w_reach :: "nat \<Rightarrow> wrwlock \<Rightarrow> bool" for n where
  w_start: "w_reach n (w_new n)"
| w_next: "w_reach n s \<Longrightarrow> w_step s s' \<Longrightarrow> w_reach n s'"

section \<open>The waiting lock refines the raw lock\<close>

fun hold_pc :: "w_hold \<Rightarrow> rw_pc" where
  "hold_pc Released = Idle"
| "hold_pc Shared = HoldsShared"
| "hold_pc Upgradable = HoldsUpgradable"
| "hold_pc Exclusive = HoldsExclusive"

fun backoff_pc :: "w_kind \<Rightarrow> rw_pc" where
  "backoff_pc KShared = SharedBackoff"
| "backoff_pc KUpgradable = UpgradableBackoff"
| "backoff_pc k = hold_pc (needs k)"

fun raw_pc :: "w_pc \<Rightarrow> rw_pc" where
  "raw_pc (WResting h) = hold_pc h"
| "raw_pc (WRetreating k) = backoff_pc k"
| "raw_pc (WRetracting k) = backoff_pc k"
| "raw_pc (WNotifying ns h) = hold_pc h"
| "raw_pc (WLocking k) = hold_pc (needs k)"
| "raw_pc (WTrying k) = hold_pc (needs k)"
| "raw_pc (WDozing k) = hold_pc (needs k)"
| "raw_pc (WSleeping k) = hold_pc (needs k)"

definition raw_state :: "wrwlock \<Rightarrow> 64 word \<times> rw_pc list" where
  "raw_state s = (w_word s, map raw_pc (w_pcs s))"

lemma w_fields [simp]:
  "w_word (w_at t p s) = w_word s" "w_lists (w_at t p s) = w_lists s" "w_locks (w_at t p s) = w_locks s" "w_pcs (w_at t p s) = (w_pcs s)[t := p]"
  "w_word (w_set_lock b l s) = w_word s" "w_lists (w_set_lock b l s) = w_lists s" "w_pcs (w_set_lock b l s) = w_pcs s"
  "w_word (w_set_list b ts s) = w_word s" "w_locks (w_set_list b ts s) = w_locks s" "w_pcs (w_set_list b ts s) = w_pcs s"
  "w_locks (w_set_lock b l s) = (w_locks s)(b := l)" "w_lists (w_set_list b ts s) = (w_lists s)(b := ts)"
  by (simp_all add: w_at_def w_set_lock_def w_set_list_def)

lemma raw_after_notices [simp]: "raw_pc (after_notices ns h) = hold_pc h"
  by (simp add: after_notices_def)

lemma map_update_same: "t < length xs \<Longrightarrow> f p = f (xs ! t) \<Longrightarrow> map f (xs[t := p]) = map f xs"
  by (simp add: map_update list_update_same_conv)

lemma raw_wake: "map raw_pc (w_pcs (wake u s)) = map raw_pc (w_pcs s)" "w_word (wake u s) = w_word s" "length (w_pcs (wake u s)) = length (w_pcs s)"
proof -
  show "map raw_pc (w_pcs (wake u s)) = map raw_pc (w_pcs s)"
    by (cases "u < length (w_pcs s)"; cases "w_pcs s ! u") (simp_all add: wake_def map_update_same list_update_beyond)
qed (auto simp: wake_def split: w_pc.split)

lemma raw_notify:
  "raw_state (w_notify_one b s) = raw_state s" "raw_state (w_notify_all b s) = raw_state s"
  "length (w_pcs (w_notify_one b s)) = length (w_pcs s)" "length (w_pcs (w_notify_all b s)) = length (w_pcs s)"
proof -
  have f: "raw_state (fold wake us s') = raw_state s' \<and> length (w_pcs (fold wake us s')) = length (w_pcs s')" for us s'
    by (induction us arbitrary: s') (simp_all add: raw_state_def raw_wake)
  show "raw_state (w_notify_one b s) = raw_state s" "length (w_pcs (w_notify_one b s)) = length (w_pcs s)"
    by (auto simp: w_notify_one_def raw_state_def raw_wake split: list.split)
  show "raw_state (w_notify_all b s) = raw_state s" "length (w_pcs (w_notify_all b s)) = length (w_pcs s)"
    using f by (simp_all add: w_notify_all_def raw_state_def)
qed

lemma raw_attempt:
  assumes "t < length (w_pcs s)" and "raw_pc (w_pcs s ! t) = hold_pc (needs k)" and "w_attempt k (w_word s) = (w, ok)"
    and "raw_pc p = (if ok then hold_pc (gains k) else backoff_pc k)"
  shows "rw_step w_layout (raw_state s) (w, map raw_pc ((w_pcs s)[t := p]))"
proof -
  let ?ts = "map raw_pc (w_pcs s)"
  have t: "t < length ?ts" "?ts ! t = hold_pc (needs k)" using assms(1,2) by simp_all
  have u: "map raw_pc ((w_pcs s)[t := p]) = ?ts[t := if ok then hold_pc (gains k) else backoff_pc k]" using assms(4) by (simp add: map_update)
  show ?thesis unfolding raw_state_def u
  proof (cases k)
    case KShared
    then show "rw_step w_layout (w_word s, ?ts) (w, ?ts[t := if ok then hold_pc (gains k) else backoff_pc k])"
      using rw_step.enter_shared[OF t(1), of w_layout "w_word s" w ok] t(2) assms(3) by (cases ok) simp_all
  next
    case KExclusive
    then show "rw_step w_layout (w_word s, ?ts) (w, ?ts[t := if ok then hold_pc (gains k) else backoff_pc k])"
      using rw_step.enter_exclusive[OF t(1), of w_layout "w_word s" w ok] t(2) assms(3) by (cases ok) simp_all
  next
    case KUpgradable
    then show "rw_step w_layout (w_word s, ?ts) (w, ?ts[t := if ok then hold_pc (gains k) else backoff_pc k])"
      using rw_step.enter_upgradable[OF t(1), of w_layout "w_word s" w ok] t(2) assms(3) by (cases ok) simp_all
  next
    case KUpgrade
    then show "rw_step w_layout (w_word s, ?ts) (w, ?ts[t := if ok then hold_pc (gains k) else backoff_pc k])"
      using rw_step.upgrade_u2w[OF t(1), of w_layout "w_word s" w ok] t(2) assms(3) by (cases ok) simp_all
  qed
qed

lemma raw_retract:
  assumes "t < length (w_pcs s)" and "raw_pc (w_pcs s ! t) = backoff_pc k" and "raw_pc p = hold_pc (needs k)"
  shows "(w_retract k (w_word s), map raw_pc ((w_pcs s)[t := p])) = raw_state s
    \<or> rw_step w_layout (raw_state s) (w_retract k (w_word s), map raw_pc ((w_pcs s)[t := p]))"
proof (cases "retracts k")
  case True
  let ?ts = "map raw_pc (w_pcs s)"
  have t: "t < length ?ts" "?ts ! t = backoff_pc k" using assms(1,2) by simp_all
  have u: "map raw_pc ((w_pcs s)[t := p]) = ?ts[t := hold_pc (needs k)]" using assms(3) by (simp add: map_update)
  show ?thesis unfolding u raw_state_def
    using True t rw_step.leave_shared[OF t(1), of w_layout "w_word s"] rw_step.leave_upgradable[OF t(1), of w_layout "w_word s"]
    by (cases k) (auto simp: prod_eq_iff)
next
  case False
  then have "backoff_pc k = hold_pc (needs k)" "w_retract k (w_word s) = w_word s" by (cases k; simp)+
  then show ?thesis using assms map_update_same[of t "w_pcs s" raw_pc p] by (simp add: raw_state_def)
qed

lemma raw_release:
  assumes "t < length (w_pcs s)" and "raw_pc (w_pcs s ! t) = hold_pc (release_from r)" and "raw_pc p = hold_pc (release_to r)"
  shows "rw_step w_layout (raw_state s) (release_word r (w_word s), map raw_pc ((w_pcs s)[t := p]))"
proof -
  let ?ts = "map raw_pc (w_pcs s)"
  have t: "t < length ?ts" "?ts ! t = hold_pc (release_from r)" using assms(1,2) by simp_all
  have u: "map raw_pc ((w_pcs s)[t := p]) = ?ts[t := hold_pc (release_to r)]" using assms(3) by (simp add: map_update)
  show ?thesis unfolding u raw_state_def using t by (cases r) (auto intro: rw_step.intros simp: prod_eq_iff)
qed

lemma w_step_raw:
  assumes "w_step s s'"
  shows "(raw_state s' = raw_state s \<or> rw_step w_layout (raw_state s) (raw_state s')) \<and> length (w_pcs s') = length (w_pcs s)"
  using assms
proof cases
  case (try_now t k w ok)
  have "raw_pc (failed_try k) = backoff_pc k" by (cases k) (simp_all add: failed_try_def)
  then show ?thesis using try_now raw_attempt[of t s k w ok "if ok then WResting (gains k) else failed_try k"] by (cases ok) (simp_all add: raw_state_def)
next
  case (got t k w)
  then show ?thesis using raw_attempt[of t s k w True "WResting (gains k)"] by (simp add: raw_state_def)
next
  case (missed t k w)
  have "raw_pc (failed_wait k) = backoff_pc k" by (cases k) (simp_all add: failed_wait_def)
  then show ?thesis using missed raw_attempt[of t s k w False "failed_wait k"] by (simp add: raw_state_def)
next
  case (retreat t k)
  then show ?thesis using raw_retract[of t s k "WResting (needs k)"] by (simp add: raw_state_def)
next
  case (retract t k)
  then show ?thesis using raw_retract[of t s k "WDozing k"] by (simp add: raw_state_def)
next
  case (release t r)
  then show ?thesis using raw_release[of t s r "after_notices (release_notices r (w_word s)) (release_to r)"] by (simp add: raw_state_def)
next
  case (notify_one t ns h)
  have "map raw_pc (w_pcs (w_notify_one False s)) ! t = hold_pc h" using raw_notify(1)[of False s] notify_one(2,3) by (simp add: raw_state_def)
  then show ?thesis using notify_one raw_notify(1,3)[of False s] map_update_same[of t "w_pcs (w_notify_one False s)" raw_pc "after_notices ns h"] by (simp add: raw_state_def)
next
  case (notify_all t ns h)
  have "map raw_pc (w_pcs (w_notify_all True s)) ! t = hold_pc h" using raw_notify(2)[of True s] notify_all(2,3) by (simp add: raw_state_def)
  then show ?thesis using notify_all raw_notify(2,4)[of True s] map_update_same[of t "w_pcs (w_notify_all True s)" raw_pc "after_notices ns h"] by (simp add: raw_state_def)
qed (simp_all add: raw_state_def map_update_same)

lemma w_reach_raw:
  assumes "w_reach n s"
  shows "rw_reach w_layout n (raw_state s) \<and> length (w_pcs s) = n"
  using assms
proof induction
  case w_start
  show ?case using rw_reach.rw_start[of w_layout n] by (simp add: raw_state_def w_new_def)
next
  case (w_next s s')
  then show ?case using w_step_raw[OF w_next.hyps(2)] rw_reach.rw_next by metis
qed

section \<open>A lost wake-up\<close>

text \<open>A task that holds nothing and does not upgrade.\<close>

fun only_wants :: "w_pc \<Rightarrow> bool" where
  "only_wants (WResting h) = (h = Released)"
| "only_wants (WNotifying _ _) = False"
| "only_wants (WRetreating k) = (k \<noteq> KUpgrade)"
| "only_wants (WLocking k) = (k \<noteq> KUpgrade)"
| "only_wants (WTrying k) = (k \<noteq> KUpgrade)"
| "only_wants (WRetracting k) = (k \<noteq> KUpgrade)"
| "only_wants (WDozing k) = (k \<noteq> KUpgrade)"
| "only_wants (WSleeping k) = (k \<noteq> KUpgrade)"

definition asleep_alone :: "nat \<Rightarrow> wrwlock \<Rightarrow> bool" where
  "asleep_alone t s \<longleftrightarrow> w_pcs s ! t = WSleeping KUpgrade \<and> (\<forall>u<length (w_pcs s). u \<noteq> t \<longrightarrow> only_wants (w_pcs s ! u))"

text \<open>Whatever happens from \<open>s\<close> on, task \<open>t\<close> sleeps in \<open>upgrade\<close> and nobody else ever gets the lock.\<close>

definition upgrade_stuck :: "nat \<Rightarrow> wrwlock \<Rightarrow> bool" where
  "upgrade_stuck t s \<longleftrightarrow> (\<forall>s'. w_step\<^sup>*\<^sup>* s s' \<longrightarrow> w_pcs s' ! t = WSleeping KUpgrade
     \<and> (\<forall>u<length (w_pcs s'). u \<noteq> t \<longrightarrow> raw_pc (w_pcs s' ! u) \<notin> {HoldsShared, HoldsUpgradable, HoldsExclusive}))"

lemma only_wants_raw: "only_wants p \<Longrightarrow> raw_pc p \<notin> {HoldsShared, HoldsUpgradable, HoldsExclusive}"
  by (cases p; cases "case p of WRetreating k \<Rightarrow> k | WLocking k \<Rightarrow> k | WTrying k \<Rightarrow> k | WRetracting k \<Rightarrow> k | WDozing k \<Rightarrow> k | WSleeping k \<Rightarrow> k | _ \<Rightarrow> KShared") simp_all

lemma asleep_alone_at:
  assumes "asleep_alone t s" and "u \<noteq> t" and "only_wants p" and "w_pcs s' = w_pcs s"
  shows "asleep_alone t (w_at u p s')"
  using assms by (cases "u < length (w_pcs s)") (auto simp: asleep_alone_def nth_list_update)

lemma no_admission:
  assumes "w_reach n s" and "n \<le> 255" and "t < n" and "asleep_alone t s" and "k \<noteq> KUpgrade" and "w_attempt k (w_word s) = (w, ok)"
  shows "\<not> ok"
proof -
  have r: "rw_reach w_layout n (w_word s, map raw_pc (w_pcs s))" "length (w_pcs s) = n" using w_reach_raw[OF assms(1)] by (simp_all add: raw_state_def)
  have "raw_pc (w_pcs s ! t) = HoldsUpgradable" using assms(4) by (simp add: asleep_alone_def)
  then have m: "HoldsUpgradable \<in> set (map raw_pc (w_pcs s))" using assms(3) r(2) by (force simp: in_set_conv_nth)
  have "\<not> (\<forall>pc\<in>set (map raw_pc (w_pcs s)). \<not> is_excluding pc)" "\<not> (\<forall>pc\<in>set (map raw_pc (w_pcs s)). pc = Idle)" using m by (force, blast)
  then show ?thesis using w_rw.attempts[OF r(1) assms(2)] assms(5,6) by (cases k) auto
qed

lemma asleep_alone_step:
  assumes "w_step s s'" and r: "w_reach n s" "n \<le> 255" "t < n" and a: "asleep_alone t s"
  shows "asleep_alone t s'"
  using assms(1)
proof cases
  case (call u k)
  then have "u \<noteq> t" "only_wants (w_pcs s ! u)" using a by (auto simp: asleep_alone_def)
  moreover from this have "k \<noteq> KUpgrade" using call(3) by (cases k) auto
  ultimately show ?thesis using asleep_alone_at[OF a] call(1) by simp
next
  case (try_now u k w ok)
  then have u: "u \<noteq> t" "only_wants (w_pcs s ! u)" using a by (auto simp: asleep_alone_def)
  then have k: "k \<noteq> KUpgrade" using try_now(3) by (cases k) auto
  then have "\<not> ok" using no_admission[OF r a, of k w ok] try_now(4) by simp
  moreover have "only_wants (failed_try k)" using k by (cases k) (simp_all add: failed_try_def)
  ultimately show ?thesis using asleep_alone_at[OF a u(1), of "failed_try k" "s\<lparr>w_word := w\<rparr>"] try_now(1) by simp
next
  case (retreat u k)
  then have u: "u \<noteq> t" "only_wants (w_pcs s ! u)" using a by (auto simp: asleep_alone_def)
  then have "needs k = Released" using retreat(3) by (cases k) auto
  then show ?thesis using asleep_alone_at[OF a u(1), of "WResting Released"] retreat(1) by simp
next
  case (lock_list u k)
  then have "u \<noteq> t" "only_wants (w_pcs s ! u)" using a by (auto simp: asleep_alone_def)
  then show ?thesis using asleep_alone_at[OF a, of u "WTrying k"] lock_list by simp
next
  case (got u k w)
  then have "u \<noteq> t" "only_wants (w_pcs s ! u)" using a by (auto simp: asleep_alone_def)
  then show ?thesis using no_admission[OF r a, of k w True] got by simp
next
  case (missed u k w)
  then have u: "u \<noteq> t" "only_wants (w_pcs s ! u)" using a by (auto simp: asleep_alone_def)
  then have "only_wants (failed_wait k)" using missed(3) by (cases k) (simp_all add: failed_wait_def)
  then show ?thesis using asleep_alone_at[OF a u(1), of "failed_wait k" "s\<lparr>w_word := w\<rparr>"] missed(1) by simp
next
  case (retract u k)
  then have "u \<noteq> t" "only_wants (w_pcs s ! u)" using a by (auto simp: asleep_alone_def)
  then show ?thesis using asleep_alone_at[OF a, of u "WDozing k"] retract by simp
next
  case (sleep u k)
  then have "u \<noteq> t" "only_wants (w_pcs s ! u)" using a by (auto simp: asleep_alone_def)
  then show ?thesis using asleep_alone_at[OF a, of u "WSleeping k"] sleep by simp
next
  case (release u x)
  then have "u \<noteq> t" "only_wants (w_pcs s ! u)" using a by (auto simp: asleep_alone_def)
  then show ?thesis using release(3) by (cases x) auto
next
  case (notify_one u ns h)
  then have "u \<noteq> t" "only_wants (w_pcs s ! u)" using a by (auto simp: asleep_alone_def)
  then show ?thesis using notify_one(3) by simp
next
  case (notify_all u ns h)
  then have "u \<noteq> t" "only_wants (w_pcs s ! u)" using a by (auto simp: asleep_alone_def)
  then show ?thesis using notify_all(3) by simp
qed

lemma asleep_alone_stuck:
  assumes "w_reach n s" and "n \<le> 255" and "t < n" and "asleep_alone t s"
  shows "upgrade_stuck t s"
proof -
  have "w_reach n s' \<and> asleep_alone t s'" if "w_step\<^sup>*\<^sup>* s s'" for s'
    using that
  proof induction
    case base
    show ?case using assms by simp
  next
    case (step y z)
    then show ?case using asleep_alone_step[OF step.hyps(2) _ assms(2,3)] w_next by blast
  qed
  then show ?thesis using only_wants_raw unfolding upgrade_stuck_def asleep_alone_def by blast
qed

section \<open>The run that loses it\<close>

definition w_state :: "64 word \<Rightarrow> nat list \<Rightarrow> nat option \<Rightarrow> w_pc list \<Rightarrow> wrwlock" where
  "w_state w ts l pcs = \<lparr>w_word = w, w_lists = (\<lambda>b. if b then [] else ts), w_locks = (\<lambda>b. if b then None else l), w_pcs = pcs\<rparr>"

lemma w_state_simps:
  "w_word (w_state w ts l pcs) = w" "w_lists (w_state w ts l pcs) False = ts" "w_lists (w_state w ts l pcs) True = []"
  "w_locks (w_state w ts l pcs) False = l" "w_locks (w_state w ts l pcs) True = None" "w_pcs (w_state w ts l pcs) = pcs"
  "w_at t p (w_state w ts l pcs) = w_state w ts l (pcs[t := p])" "w_set_lock False l' (w_state w ts l pcs) = w_state w ts l' pcs"
  "w_set_list False ts' (w_state w ts l pcs) = w_state w ts' l pcs" "w_set_list True [] (w_state w ts l pcs) = w_state w ts l pcs"
  "(w_state w ts l pcs)\<lparr>w_word := w'\<rparr> = w_state w' ts l pcs"
  by (auto simp: w_state_def w_at_def w_set_lock_def w_set_list_def)

lemma w_consts: "WRITER w_layout = 0x4000000000000" "UPGRADER w_layout = 0x2000000000000" "EXCLUSIVE_THRESHOLD w_layout = 0x1000000000000"
  by (simp_all add: w_layout_def)

lemma list_update_numeral: "(x # xs)[numeral v := y] = x # xs[pred_numeral v := y]"
  by (simp add: numeral_eq_Suc)

lemmas w_run_simps = w_state_simps w_consts word_op_defs reads_def failed_try_def failed_wait_def after_notices_def
  w_notify_one_def w_notify_all_def wake_def list_update_numeral word_le_nat_alt

text \<open>A reader and an upgradable holder; a writer goes to sleep, then the upgrade; the reader leaves and wakes the writer.\<close>

lemma w_run_asleep:
  "w_reach 3 (w_state 0x2000000000001 [2, 1] None [WResting Shared, WSleeping KUpgrade, WSleeping KExclusive])"
proof -
  let ?u = "0x2000000000001" and ?r = "WResting Shared" and ?g = "WResting Upgradable"
  have "w_reach 3 (w_state 0 [] None [WResting Released, WResting Released, WResting Released])"
    using w_start[of 3] by (simp add: w_new_def w_state_def numeral_3_eq_3)
  from w_next[OF this w_step.try_now[of 0 _ KShared 1 True]] have "w_reach 3 (w_state 1 [] None [?r, WResting Released, WResting Released])"
    by (simp add: w_run_simps)
  from w_next[OF this w_step.try_now[of 1 _ KUpgradable ?u True]] have "w_reach 3 (w_state ?u [] None [?r, ?g, WResting Released])"
    by (simp add: w_run_simps)
  from w_next[OF this w_step.call[of 2 _ KExclusive]] have "w_reach 3 (w_state ?u [] None [?r, ?g, WLocking KExclusive])"
    by (simp add: w_run_simps)
  from w_next[OF this w_step.lock_list[of 2 _ KExclusive]] have "w_reach 3 (w_state ?u [] (Some 2) [?r, ?g, WTrying KExclusive])"
    by (simp add: w_run_simps)
  from w_next[OF this w_step.missed[of 2 _ KExclusive ?u]] have "w_reach 3 (w_state ?u [] (Some 2) [?r, ?g, WDozing KExclusive])"
    by (simp add: w_run_simps)
  from w_next[OF this w_step.sleep[of 2 _ KExclusive]] have "w_reach 3 (w_state ?u [2] None [?r, ?g, WSleeping KExclusive])"
    by (simp add: w_run_simps)
  from w_next[OF this w_step.call[of 1 _ KUpgrade]] have "w_reach 3 (w_state ?u [2] None [?r, WLocking KUpgrade, WSleeping KExclusive])"
    by (simp add: w_run_simps)
  from w_next[OF this w_step.lock_list[of 1 _ KUpgrade]] have "w_reach 3 (w_state ?u [2] (Some 1) [?r, WTrying KUpgrade, WSleeping KExclusive])"
    by (simp add: w_run_simps)
  from w_next[OF this w_step.missed[of 1 _ KUpgrade ?u]] have "w_reach 3 (w_state ?u [2] (Some 1) [?r, WDozing KUpgrade, WSleeping KExclusive])"
    by (simp add: w_run_simps)
  from w_next[OF this w_step.sleep[of 1 _ KUpgrade]] show ?thesis by (simp add: w_run_simps)
qed

lemma w_run_lost:
  "w_reach 3 (w_state 0x2000000000000 [1] None [WResting Released, WSleeping KUpgrade, WLocking KExclusive])"
proof -
  let ?u = "0x2000000000000" and ?s = "WSleeping KUpgrade"
  from w_next[OF w_run_asleep w_step.release[of 0 _ UnlockShared]]
  have "w_reach 3 (w_state ?u [2, 1] None [WNotifying [OneExclusive, AllShared] Released, ?s, WSleeping KExclusive])"
    by (simp add: w_run_simps)
  from w_next[OF this w_step.notify_one[of 0 _ "[AllShared]" Released]]
  have "w_reach 3 (w_state ?u [1] None [WNotifying [AllShared] Released, ?s, WLocking KExclusive])"
    by (simp add: w_run_simps)
  from w_next[OF this w_step.notify_all[of 0 _ "[]" Released]] show ?thesis by (simp add: w_run_simps)
qed

section \<open>Properties\<close>

text \<open>C28: The sleeping mutex has one owner at a time, the flag tells whether there is one, and no wake-up is lost: whatever
  the tasks do, while the mutex is free and a task sleeps on it, another task is about to try it or to wake one.\<close>

theorem wmutex_correct:
  assumes "wm_reach s"
  shows "(wm_flag s \<longleftrightarrow> (\<exists>t. wm_pc s t = MOwning)) \<and> (\<forall>i j. wm_pc s i = MOwning \<longrightarrow> wm_pc s j = MOwning \<longrightarrow> i = j)
    \<and> (wm_flag s \<or> (\<forall>t. wm_pc s t \<noteq> MSleeping) \<or> (\<exists>t. wm_pc s t \<in> {MLocking, MTrying, MNotifying}))"
proof -
  have inv: "wm_shape s" "wm_owner s" "wm_wakes s" using wm_reach_inv[OF assms] by blast+
  have "wm_list s = [] \<longrightarrow> (\<forall>t. wm_pc s t \<noteq> MSleeping)" using wm_shapeD(2)[OF inv(1)] by (metis empty_iff list.set(1))
  then show ?thesis using inv(2,3) unfolding wm_owner_def wm_wakes_def has_pc_def by blast
qed

theorem wmutex_correct_witness:
  "\<exists>s. wm_reach s \<and> wm_flag s \<and> {j. wm_pc s j = MOwning} = {5}"
proof -
  let ?s = "wm_at 5 MOwning (wm_new\<lparr>wm_flag := True\<rparr>)"
  have "wm_step wm_new (wm_at 5 (if True then MOwning else MOut) (wm_new\<lparr>wm_flag := True\<rparr>))"
    by (rule wm_step.try_now) (simp_all add: wm_new_def mutex_try_lock_def)
  then have r: "wm_reach ?s" using wm_next[OF wm_start] by simp
  have "wm_pc ?s 5 = MOwning" "wm_flag ?s" by simp_all
  moreover have "{j. wm_pc ?s j = MOwning} = {5}" using wmutex_correct[OF r] \<open>wm_pc ?s 5 = MOwning\<close> by blast
  ultimately show ?thesis using r by blast
qed

text \<open>C14: The waiting readers-writer lock implements the raw lock: whatever its tasks do, its word and what they hold is a
  state the raw lock reaches, so for up to 255 tasks a writer excludes every other holder and there is one upgradable holder.\<close>

theorem wrwlock_refines:
  assumes "w_reach n s" and "n \<le> 255"
  shows "rw_reach w_layout n (raw_state s) \<and> rw_excl (map raw_pc (w_pcs s))"
  using w_reach_raw[OF assms(1)] w_rw.reach_inv[of n "raw_state s"] assms(2) by (simp add: raw_state_def)

theorem wrwlock_refines_witness:
  "rw_reach w_layout 3 (0x2000000000001, [HoldsShared, HoldsUpgradable, Idle]) \<and> rw_excl [HoldsShared, HoldsUpgradable, Idle]"
  using wrwlock_refines[OF w_run_asleep] by (simp add: raw_state_def w_state_simps)

text \<open>C33: The waiting readers-writer lock can lose the wake-up of an upgrade.  There is a reachable state with three tasks in
  which the task that upgrades sleeps for ever and no task ever gets the lock again, although no other task holds it: the
  last reader woke a writer that was queued on the same list.\<close>

theorem upgrade_wakeup_lost:
  "\<exists>s. w_reach 3 s \<and> w_word s = UPGRADER w_layout \<and> upgrade_stuck 1 s"
proof -
  let ?s = "w_state 0x2000000000000 [1] None [WResting Released, WSleeping KUpgrade, WLocking KExclusive]"
  have "asleep_alone 1 ?s" by (auto simp: asleep_alone_def w_state_simps less_Suc_eq)
  then have "upgrade_stuck 1 ?s" using asleep_alone_stuck[OF w_run_lost] by simp
  then show ?thesis using w_run_lost by (intro exI[of _ ?s]) (simp add: w_state_simps w_consts)
qed

end
