(* ===== verification/Vga_Console.thy ===== *)
theory Vga_Console
  imports Kernel_Prelude
begin

text \<open>
  The text console of the older kernel (\<open>rust_old/src/coredrivers/display/vga_x86.rs\<close>): colours packed into a byte, the
  25 by 80 character buffer, and the writer that wraps lines and scrolls.  Indexing outside of the buffer panics.

  The specification is a roll of paper: every line ever written, of which the screen shows the last 25.
\<close>

unbundle bit_operations_syntax

section \<open>Colours\<close>

datatype BaseColour = Black | Blue | Green | Cyan | Red | Magenta | Brown | LightGray

primrec colour_code :: "BaseColour \<Rightarrow> 8 word" where
  "colour_code Black = 0"
| "colour_code Blue = 1"
| "colour_code Green = 2"
| "colour_code Cyan = 3"
| "colour_code Red = 4"
| "colour_code Magenta = 5"
| "colour_code Brown = 6"
| "colour_code LightGray = 7"

definition FLAG_BLINK :: "8 word" where
  "FLAG_BLINK = 0x80"

definition FLAG_LIGHT :: "8 word" where
  "FLAG_LIGHT = 0x08"

datatype VGAColour = VGAColour (colour_bits: "8 word")

definition vga_colour_new :: "BaseColour \<Rightarrow> BaseColour \<Rightarrow> bool \<Rightarrow> bool \<Rightarrow> VGAColour" where
  "vga_colour_new foreground background bright blink = VGAColour
     (push_bit 4 (colour_code background) OR colour_code foreground OR (if bright then FLAG_LIGHT else 0) OR (if blink then FLAG_BLINK else 0))"

definition is_blinking :: "VGAColour \<Rightarrow> bool" where
  "is_blinking c \<longleftrightarrow> colour_bits c AND FLAG_BLINK \<noteq> 0"

definition is_bright :: "VGAColour \<Rightarrow> bool" where
  "is_bright c \<longleftrightarrow> colour_bits c AND FLAG_LIGHT \<noteq> 0"

definition base_colour_of :: "8 word \<Rightarrow> BaseColour exec" where
  "base_colour_of b = (if b = 0 then Inr Black else if b = 1 then Inr Blue else if b = 2 then Inr Green else if b = 3 then Inr Cyan
     else if b = 4 then Inr Red else if b = 5 then Inr Magenta else if b = 6 then Inr Brown else if b = 7 then Inr LightGray else Inl UnreachableCode)"

definition vga_foreground :: "VGAColour \<Rightarrow> BaseColour exec" where
  "vga_foreground c = base_colour_of (colour_bits c AND 7)"

definition vga_background :: "VGAColour \<Rightarrow> BaseColour exec" where
  "vga_background c = base_colour_of (drop_bit 4 (colour_bits c) AND 7)"

section \<open>The buffer\<close>

record VGAChar =
  ascii_code :: "8 word"
  colour :: VGAColour

definition VGA_HEIGHT :: nat where
  "VGA_HEIGHT = 25"

definition VGA_WIDTH :: nat where
  "VGA_WIDTH = 80"

type_synonym VGABuffer = "VGAChar list list"

definition put_vgachar :: "VGABuffer \<Rightarrow> nat \<Rightarrow> nat \<Rightarrow> VGAChar \<Rightarrow> VGABuffer exec" where
  "put_vgachar buf x y chr = exec_bind (vec_get buf y) (\<lambda>row. exec_bind (vec_set row x chr) (\<lambda>row. vec_set buf y row))"

definition put_byte :: "VGABuffer \<Rightarrow> nat \<Rightarrow> nat \<Rightarrow> 8 word \<Rightarrow> VGAColour \<Rightarrow> VGABuffer exec" where
  "put_byte buf x y c col = put_vgachar buf x y \<lparr>ascii_code = c, colour = col\<rparr>"

definition get_vgachar :: "VGABuffer \<Rightarrow> nat \<Rightarrow> nat \<Rightarrow> VGAChar exec" where
  "get_vgachar buf x y = exec_bind (vec_get buf y) (\<lambda>row. vec_get row x)"

section \<open>The writer\<close>

record VGAConsoleWriter =
  column_pos :: nat
  row_pos :: nat
  wcolour :: VGAColour
  buffer :: VGABuffer

definition new_with_buffer :: "VGABuffer \<Rightarrow> VGAConsoleWriter" where
  "new_with_buffer buf = \<lparr>column_pos = 0, row_pos = 0, wcolour = vga_colour_new LightGray Black False False, buffer = buf\<rparr>"

text \<open>The loops of \<open>scroll\<close>: the cells of one row, and the rows.\<close>

fun copy_cells :: "nat \<Rightarrow> nat \<Rightarrow> nat list \<Rightarrow> VGABuffer \<Rightarrow> VGABuffer exec" where
  "copy_cells oldy newy [] buf = Inr buf"
| "copy_cells oldy newy (x # xs) buf =
     exec_bind (get_vgachar buf x oldy) (\<lambda>old. exec_bind (put_vgachar buf x newy old) (copy_cells oldy newy xs))"

fun copy_rows :: "nat \<Rightarrow> nat list \<Rightarrow> VGABuffer \<Rightarrow> VGABuffer exec" where
  "copy_rows nlines [] buf = Inr buf"
| "copy_rows nlines (newy # ys) buf =
     exec_bind (uadd newy nlines) (\<lambda>oldy. exec_bind (copy_cells oldy newy [0..<VGA_WIDTH] buf) (copy_rows nlines ys))"

fun clear_cells :: "VGAColour \<Rightarrow> nat \<Rightarrow> nat list \<Rightarrow> VGABuffer \<Rightarrow> VGABuffer exec" where
  "clear_cells col y [] buf = Inr buf"
| "clear_cells col y (x # xs) buf = exec_bind (put_byte buf x y 32 col) (clear_cells col y xs)"

fun clear_rows :: "VGAColour \<Rightarrow> nat list \<Rightarrow> VGABuffer \<Rightarrow> VGABuffer exec" where
  "clear_rows col [] buf = Inr buf"
| "clear_rows col (y # ys) buf = exec_bind (clear_cells col y [0..<VGA_WIDTH] buf) (clear_rows col ys)"

definition scroll :: "nat \<Rightarrow> VGAConsoleWriter \<Rightarrow> VGAConsoleWriter exec" where
  "scroll nlines w =
     exec_bind (usub VGA_HEIGHT nlines) (\<lambda>h.
     exec_bind (copy_rows nlines [0..<h] (buffer w)) (\<lambda>buf.
     exec_bind (clear_rows (wcolour w) [h..<VGA_HEIGHT] buf) (\<lambda>buf.
       Inr (w\<lparr>buffer := buf, row_pos := (if row_pos w < nlines then 0 else row_pos w - nlines)\<rparr>))))"

definition return_to_left :: "VGAConsoleWriter \<Rightarrow> VGAConsoleWriter" where
  "return_to_left w = w\<lparr>column_pos := 0\<rparr>"

definition advance_down :: "VGAConsoleWriter \<Rightarrow> VGAConsoleWriter exec" where
  "advance_down w = exec_bind (uadd (row_pos w) 1) (\<lambda>r. let w = w\<lparr>row_pos := r\<rparr> in if r \<ge> VGA_HEIGHT then scroll 1 w else Inr w)"

definition new_line :: "VGAConsoleWriter \<Rightarrow> VGAConsoleWriter exec" where
  "new_line w = advance_down (return_to_left w)"

definition advance_right :: "VGAConsoleWriter \<Rightarrow> VGAConsoleWriter exec" where
  "advance_right w = exec_bind (uadd (column_pos w) 1) (\<lambda>c. let w = w\<lparr>column_pos := c\<rparr> in if c \<ge> VGA_WIDTH then new_line w else Inr w)"

definition set_colour :: "VGAColour \<Rightarrow> VGAConsoleWriter \<Rightarrow> VGAConsoleWriter" where
  "set_colour col w = w\<lparr>wcolour := col\<rparr>"

definition write_byte :: "8 word \<Rightarrow> VGAConsoleWriter \<Rightarrow> VGAConsoleWriter exec" where
  "write_byte b w = (if b = 10 then new_line w
     else exec_bind (put_byte (buffer w) (column_pos w) (row_pos w) b (wcolour w)) (\<lambda>buf. advance_right (w\<lparr>buffer := buf\<rparr>)))"

fun write_string :: "8 word list \<Rightarrow> VGAConsoleWriter \<Rightarrow> VGAConsoleWriter exec" where
  "write_string [] w = Inr w"
| "write_string (b # bs) w = exec_bind (write_byte b w) (write_string bs)"

section \<open>The roll of paper\<close>

text \<open>All lines so far, the line and column of the pen, and the current colour.\<close>

record vga_roll =
  roll_lines :: "VGAChar list list"
  roll_line :: nat
  roll_column :: nat
  roll_colour :: VGAColour

definition blank_line :: "VGAColour \<Rightarrow> VGAChar list" where
  "blank_line col = replicate VGA_WIDTH \<lparr>ascii_code = 32, colour = col\<rparr>"

definition roll_newline :: "vga_roll \<Rightarrow> vga_roll" where
  "roll_newline r = r\<lparr>roll_lines := (if Suc (roll_line r) < length (roll_lines r) then roll_lines r else roll_lines r @ [blank_line (roll_colour r)]),
     roll_line := Suc (roll_line r), roll_column := 0\<rparr>"

definition roll_put :: "8 word \<Rightarrow> vga_roll \<Rightarrow> vga_roll" where
  "roll_put b r = (if b = 10 then roll_newline r else
     (let ls = (roll_lines r)[roll_line r := (roll_lines r ! roll_line r)[roll_column r := \<lparr>ascii_code = b, colour = roll_colour r\<rparr>]];
          r = r\<lparr>roll_lines := ls, roll_column := Suc (roll_column r)\<rparr>
      in if roll_column r < VGA_WIDTH then r else roll_newline r))"

definition grid_ok :: "VGABuffer \<Rightarrow> bool" where
  "grid_ok buf \<longleftrightarrow> length buf = VGA_HEIGHT \<and> (\<forall>row\<in>set buf. length row = VGA_WIDTH)"

text \<open>The screen is the end of the roll, and the cursor is where the pen is.\<close>

definition displays :: "VGAConsoleWriter \<Rightarrow> vga_roll \<Rightarrow> bool" where
  "displays w r \<longleftrightarrow> grid_ok (buffer w) \<and> row_pos w < VGA_HEIGHT \<and> column_pos w < VGA_WIDTH
     \<and> (\<exists>above. roll_lines r = above @ buffer w \<and> roll_line r = length above + row_pos w)
     \<and> roll_column r = column_pos w \<and> roll_colour r = wcolour w"

section \<open>Scrolling\<close>

lemma grid_row: "grid_ok buf \<Longrightarrow> y < VGA_HEIGHT \<Longrightarrow> length (buf ! y) = VGA_WIDTH"
  by (simp add: grid_ok_def)

lemma grid_update: "grid_ok buf \<Longrightarrow> length row = VGA_WIDTH \<Longrightarrow> grid_ok (buf[y := row])"
  by (auto simp: grid_ok_def dest!: set_update_subset_insert[THEN subsetD])

lemma put_vgachar_ok:
  "grid_ok buf \<Longrightarrow> x < VGA_WIDTH \<Longrightarrow> y < VGA_HEIGHT \<Longrightarrow> put_vgachar buf x y c = Inr (buf[y := (buf ! y)[x := c]]) \<and> grid_ok (buf[y := (buf ! y)[x := c]])"
  using grid_update[of buf "(buf ! y)[x := c]" y] by (simp add: put_vgachar_def exec_simps grid_row grid_ok_def)

lemma get_vgachar_ok: "grid_ok buf \<Longrightarrow> x < VGA_WIDTH \<Longrightarrow> y < VGA_HEIGHT \<Longrightarrow> get_vgachar buf x y = Inr (buf ! y ! x)"
  by (simp add: get_vgachar_def exec_simps grid_row grid_ok_def)

lemma take_Suc_update: "j < length xs \<Longrightarrow> take (Suc j) (xs[j := v]) = take j xs @ [v]"
  by (simp add: take_Suc_conv_app_nth)

lemma copy_cells_ok:
  assumes "j \<le> VGA_WIDTH" and "grid_ok buf" and "oldy < VGA_HEIGHT" and "newy < VGA_HEIGHT" and "oldy \<noteq> newy"
  shows "copy_cells oldy newy [j..<VGA_WIDTH] buf = Inr (buf[newy := take j (buf ! newy) @ drop j (buf ! oldy)])"
  using assms
proof (induction arbitrary: buf rule: inc_induct)
  case base
  then show ?case by (simp add: grid_row)
next
  case (step j)
  let ?buf = "buf[newy := (buf ! newy)[j := buf ! oldy ! j]]"
  have p: "put_vgachar buf j newy (buf ! oldy ! j) = Inr ?buf" "grid_ok ?buf" using put_vgachar_ok step by blast+
  have len: "newy < length buf" "j < length (buf ! newy)" "j < length (buf ! oldy)" using step by (simp_all add: grid_row) (simp add: grid_ok_def)
  have "take (Suc j) (?buf ! newy) @ drop (Suc j) (?buf ! oldy) = take j (buf ! newy) @ drop j (buf ! oldy)"
    using len step.prems by (simp add: take_Suc_update Cons_nth_drop_Suc)
  then show ?case using step.IH[OF p(2)] step p(1) by (simp add: upt_conv_Cons get_vgachar_ok)
qed

lemma clear_cells_ok:
  assumes "j \<le> VGA_WIDTH" and "grid_ok buf" and "y < VGA_HEIGHT"
  shows "clear_cells col y [j..<VGA_WIDTH] buf = Inr (buf[y := take j (buf ! y) @ drop j (blank_line col)])"
  using assms
proof (induction arbitrary: buf rule: inc_induct)
  case base
  then show ?case by (simp add: grid_row blank_line_def)
next
  case (step j)
  let ?c = "\<lparr>ascii_code = 32, colour = col\<rparr>"
  let ?buf = "buf[y := (buf ! y)[j := ?c]]"
  have p: "put_byte buf j y 32 col = Inr ?buf" "grid_ok ?buf" using put_vgachar_ok step unfolding put_byte_def by blast+
  have len: "y < length buf" "j < length (buf ! y)" using step by (simp_all add: grid_row) (simp add: grid_ok_def)
  have "drop j (blank_line col) = ?c # drop (Suc j) (blank_line col)" using step.hyps(2) Cons_nth_drop_Suc[of j "blank_line col"] by (simp add: blank_line_def)
  then have "take (Suc j) (?buf ! y) @ drop (Suc j) (blank_line col) = take j (buf ! y) @ drop j (blank_line col)"
    using len by (simp add: take_Suc_update)
  then show ?case using step.IH[OF p(2)] step p(1) by (simp add: upt_conv_Cons)
qed

lemma copy_rows_ok:
  assumes "i \<le> VGA_HEIGHT - n" and "grid_ok buf" and "0 < n" and "n \<le> VGA_HEIGHT"
  shows "copy_rows n [i..<VGA_HEIGHT - n] buf = Inr (take i buf @ drop (i + n) buf @ drop (VGA_HEIGHT - n) buf)"
  using assms
proof (induction arbitrary: buf rule: inc_induct)
  case base
  then show ?case by (simp add: grid_ok_def)
next
  case (step i)
  let ?buf = "buf[i := buf ! (i + n)]"
  have b: "i < VGA_HEIGHT" "i + n < VGA_HEIGHT" "length buf = VGA_HEIGHT" using step by (simp_all add: grid_ok_def)
  have c: "copy_cells (i + n) i [0..<VGA_WIDTH] buf = Inr ?buf" using copy_cells_ok[of 0 buf "i + n" i] step b by simp
  have g: "grid_ok ?buf" using grid_update[OF step.prems(1)] grid_row[OF step.prems(1) b(2)] by simp
  have "take (Suc i) ?buf @ drop (Suc i + n) ?buf = take i buf @ drop (i + n) buf"
    using b step.prems by (simp add: take_Suc_update Cons_nth_drop_Suc)
  moreover have "uadd i n = Inr (i + n)" using b(2) by (intro uadd_ok) (simp add: VGA_HEIGHT_def usize_limit_def)
  ultimately show ?case using step.IH[OF g] step c b(3) by (simp add: upt_conv_Cons)
qed

lemma clear_rows_ok:
  assumes "i \<le> VGA_HEIGHT" and "grid_ok buf"
  shows "clear_rows col [i..<VGA_HEIGHT] buf = Inr (take i buf @ replicate (VGA_HEIGHT - i) (blank_line col))"
  using assms
proof (induction arbitrary: buf rule: inc_induct)
  case base
  then show ?case by (simp add: grid_ok_def)
next
  case (step i)
  let ?buf = "buf[i := blank_line col]"
  have c: "clear_cells col i [0..<VGA_WIDTH] buf = Inr ?buf" using clear_cells_ok[of 0 buf i col] step by simp
  have g: "grid_ok ?buf" using grid_update[OF step.prems(1)] by (simp add: blank_line_def)
  have "take (Suc i) ?buf @ replicate (VGA_HEIGHT - Suc i) (blank_line col) = take i buf @ replicate (VGA_HEIGHT - i) (blank_line col)"
    using step.hyps(2) step.prems by (simp add: take_Suc_update grid_ok_def Suc_diff_Suc flip: replicate_Suc)
  then show ?case using step.IH[OF g] step c by (simp add: upt_conv_Cons)
qed

lemma scroll_ok:
  assumes "grid_ok (buffer w)" and "0 < n" and "n \<le> VGA_HEIGHT"
  shows "scroll n w = Inr (w\<lparr>buffer := drop n (buffer w) @ replicate n (blank_line (wcolour w)), row_pos := row_pos w - n\<rparr>)"
proof -
  let ?b = "drop n (buffer w) @ drop (VGA_HEIGHT - n) (buffer w)"
  have len: "length (buffer w) = VGA_HEIGHT" using assms(1) by (simp add: grid_ok_def)
  have c: "copy_rows n [0..<VGA_HEIGHT - n] (buffer w) = Inr ?b" using copy_rows_ok[of 0 n "buffer w"] assms by simp
  have "grid_ok ?b" using assms(1,3) by (auto simp: grid_ok_def dest!: in_set_dropD)
  then have "clear_rows (wcolour w) [VGA_HEIGHT - n..<VGA_HEIGHT] ?b = Inr (drop n (buffer w) @ replicate n (blank_line (wcolour w)))"
    using clear_rows_ok[of "VGA_HEIGHT - n" ?b "wcolour w"] len assms(3) by simp
  then show ?thesis using c assms(3) by (simp add: scroll_def usub_ok)
qed

section \<open>The writer implements the roll\<close>

lemma new_line_displays:
  assumes "displays w r"
  shows "\<exists>w'. new_line w = Inr w' \<and> displays w' (roll_newline r)"
proof -
  obtain above where a: "roll_lines r = above @ buffer w" "roll_line r = length above + row_pos w" using assms by (auto simp: displays_def)
  have w: "grid_ok (buffer w)" "row_pos w < VGA_HEIGHT" "roll_colour r = wcolour w" "length (buffer w) = VGA_HEIGHT" using assms by (simp_all add: displays_def grid_ok_def)
  have u: "uadd (row_pos w) 1 = Inr (Suc (row_pos w))" using w(2) by (subst uadd_ok) (simp_all add: VGA_HEIGHT_def usize_limit_def)
  show ?thesis
  proof (cases "Suc (row_pos w) < VGA_HEIGHT")
    case True
    then have "new_line w = Inr (w\<lparr>column_pos := 0, row_pos := Suc (row_pos w)\<rparr>)" using u by (simp add: new_line_def advance_down_def return_to_left_def Let_def)
    moreover have "displays (w\<lparr>column_pos := 0, row_pos := Suc (row_pos w)\<rparr>) (roll_newline r)"
      using assms a w True by (auto simp: displays_def roll_newline_def VGA_WIDTH_def)
    ultimately show ?thesis by blast
  next
    case False
    let ?w = "w\<lparr>column_pos := 0, row_pos := Suc (row_pos w)\<rparr>"
    let ?w' = "?w\<lparr>buffer := drop 1 (buffer w) @ [blank_line (wcolour w)], row_pos := row_pos w\<rparr>"
    have "new_line w = Inr ?w'" using False u scroll_ok[of ?w 1] w(1)
      by (simp add: new_line_def advance_down_def return_to_left_def Let_def VGA_HEIGHT_def)
    moreover have "displays ?w' (roll_newline r)"
    proof -
      obtain b bs where b: "buffer w = b # bs" using w(4) by (cases "buffer w") (simp_all add: VGA_HEIGHT_def)
      have "roll_lines (roll_newline r) = (above @ [b]) @ buffer ?w'" "roll_line (roll_newline r) = length (above @ [b]) + row_pos ?w'"
        using a False b w by (simp_all add: roll_newline_def)
      moreover have "grid_ok (buffer ?w')" using w(1,4) b by (simp add: grid_ok_def blank_line_def)
      ultimately show ?thesis using w(2,3) unfolding displays_def by (auto simp: roll_newline_def VGA_WIDTH_def)
    qed
    ultimately show ?thesis by blast
  qed
qed

lemma write_byte_displays:
  assumes "displays w r"
  shows "\<exists>w'. write_byte b w = Inr w' \<and> displays w' (roll_put b r)"
proof (cases "b = 10")
  case True
  then show ?thesis using new_line_displays[OF assms] by (simp add: write_byte_def roll_put_def)
next
  case False
  obtain above where a: "roll_lines r = above @ buffer w" "roll_line r = length above + row_pos w" using assms by (auto simp: displays_def)
  have w: "grid_ok (buffer w)" "row_pos w < VGA_HEIGHT" "column_pos w < VGA_WIDTH" "roll_colour r = wcolour w" "roll_column r = column_pos w"
    "length (buffer w) = VGA_HEIGHT" using assms by (simp_all add: displays_def grid_ok_def)
  let ?c = "\<lparr>ascii_code = b, colour = wcolour w\<rparr>"
  let ?buf = "(buffer w)[row_pos w := (buffer w ! row_pos w)[column_pos w := ?c]]"
  have p: "put_byte (buffer w) (column_pos w) (row_pos w) b (wcolour w) = Inr ?buf" "grid_ok ?buf"
    using put_vgachar_ok[OF w(1,3,2)] by (simp_all add: put_byte_def)
  let ?w = "w\<lparr>buffer := ?buf, column_pos := Suc (column_pos w)\<rparr>"
  let ?r = "r\<lparr>roll_lines := above @ ?buf, roll_column := Suc (roll_column r)\<rparr>"
  have r: "roll_put b r = (if Suc (column_pos w) < VGA_WIDTH then ?r else roll_newline ?r)"
    using False a w by (simp add: roll_put_def Let_def list_update_append nth_append)
  have u: "uadd (column_pos w) 1 = Inr (Suc (column_pos w))" using w(3) by (subst uadd_ok) (simp_all add: VGA_WIDTH_def usize_limit_def)
  show ?thesis
  proof (cases "Suc (column_pos w) < VGA_WIDTH")
    case True
    have "write_byte b w = Inr ?w" using False p(1) u True by (simp add: write_byte_def advance_right_def Let_def)
    moreover have "displays ?w ?r" using True p(2) w a by (auto simp: displays_def)
    ultimately show ?thesis using r True by simp
  next
    case end_of_line: False
    have n: "new_line ?w = new_line (w\<lparr>buffer := ?buf\<rparr>)" "roll_newline ?r = roll_newline (?r\<lparr>roll_column := roll_column r\<rparr>)"
      by (simp_all add: new_line_def return_to_left_def roll_newline_def)
    have "write_byte b w = new_line ?w" using False p(1) u end_of_line by (simp add: write_byte_def advance_right_def Let_def)
    moreover have "displays (w\<lparr>buffer := ?buf\<rparr>) (?r\<lparr>roll_column := roll_column r\<rparr>)" using p(2) w a by (auto simp: displays_def)
    ultimately show ?thesis using new_line_displays[of "w\<lparr>buffer := ?buf\<rparr>" "?r\<lparr>roll_column := roll_column r\<rparr>"] r end_of_line n by simp
  qed
qed

lemma write_string_displays:
  "displays w r \<Longrightarrow> \<exists>w'. write_string bs w = Inr w' \<and> displays w' (fold roll_put bs r)"
proof (induction bs arbitrary: w r)
  case (Cons b bs)
  obtain w1 where w1: "write_byte b w = Inr w1" "displays w1 (roll_put b r)" using write_byte_displays[OF Cons.prems] by blast
  then show ?case using Cons.IH[OF w1(2)] by simp
qed simp

lemma new_displays:
  "grid_ok buf \<Longrightarrow> displays (new_with_buffer buf) \<lparr>roll_lines = buf, roll_line = 0, roll_column = 0, roll_colour = vga_colour_new LightGray Black False False\<rparr>"
  by (simp add: displays_def new_with_buffer_def VGA_HEIGHT_def VGA_WIDTH_def)

section \<open>Properties\<close>

text \<open>C30: The console implements a roll of paper of which it shows the last 25 lines.  From any state that shows the end of a roll,
  printing any bytes returns without a panic, keeps the cursor on the screen, and shows the end of the roll with the same
  bytes printed on it, lines wrapped after 80 characters.\<close>

theorem console_refines_roll:
  assumes "displays w r"
  shows "\<exists>w'. write_string bs w = Inr w' \<and> displays w' (fold roll_put bs r)"
  by (rule write_string_displays[OF assms])

definition demo_screen :: VGABuffer where
  "demo_screen = replicate VGA_HEIGHT (blank_line (VGAColour 0))"

theorem console_refines_roll_witness:
  "\<exists>w'. write_string [72, 105, 10] (new_with_buffer demo_screen) = Inr w' \<and> row_pos w' = 1 \<and> column_pos w' = 0"
proof -
  have g: "grid_ok demo_screen" by (simp add: grid_ok_def demo_screen_def blank_line_def)
  obtain w' where w': "write_string [72, 105, 10] (new_with_buffer demo_screen) = Inr w'"
    "displays w' (fold roll_put [72, 105, 10] \<lparr>roll_lines = demo_screen, roll_line = 0, roll_column = 0, roll_colour = vga_colour_new LightGray Black False False\<rparr>)"
    using console_refines_roll[OF new_displays[OF g]] by blast
  have len: "length demo_screen = 25" by (simp add: demo_screen_def VGA_HEIGHT_def)
  have "\<exists>ls. fold roll_put [72, 105, 10] \<lparr>roll_lines = demo_screen, roll_line = 0, roll_column = 0, roll_colour = vga_colour_new LightGray Black False False\<rparr>
      = \<lparr>roll_lines = ls, roll_line = 1, roll_column = 0, roll_colour = vga_colour_new LightGray Black False False\<rparr> \<and> length ls = 25"
    using len by (simp add: roll_put_def roll_newline_def Let_def VGA_WIDTH_def)
  then obtain ls where ls: "displays w' \<lparr>roll_lines = ls, roll_line = 1, roll_column = 0, roll_colour = vga_colour_new LightGray Black False False\<rparr>" "length ls = 25"
    using w'(2) by metis
  then have "row_pos w' = 1 \<and> column_pos w' = 0" by (auto simp: displays_def grid_ok_def VGA_HEIGHT_def)
  then show ?thesis using w'(1) by blast
qed

text \<open>A colour keeps everything it was made from: foreground, background, brightness and blinking are read back unchanged,
  and reading never reaches the unreachable arm.\<close>

theorem vga_colour_roundtrip:
  "vga_foreground (vga_colour_new fg bg bright blink) = Inr fg \<and> vga_background (vga_colour_new fg bg bright blink) = Inr bg
   \<and> is_bright (vga_colour_new fg bg bright blink) = bright \<and> is_blinking (vga_colour_new fg bg bright blink) = blink"
  by (cases fg; cases bg; cases bright; cases blink)
    (simp_all add: vga_foreground_def vga_background_def vga_colour_new_def is_bright_def is_blinking_def base_colour_of_def FLAG_BLINK_def FLAG_LIGHT_def)

end
