(* ===== verification/Local_Apic.thy ===== *)
theory Local_Apic
  imports Kernel_Prelude
begin

text \<open>
  The memory-mapped registers of the older kernel (\<open>rust_old/src/coredrivers/base/mmio32.rs\<close>) and its driver of the local and
  I/O interrupt controllers (\<open>rust_old/src/coredrivers/system/xapic_x86_64.rs\<close>).

  A register is read and written as memory.  Every write is also recorded in order, because a device reacts to writes; what
  a device does by itself is not part of the model.  Registers are 32 bits wide at byte addresses.
\<close>

unbundle bit_operations_syntax

section \<open>Registers\<close>

record mmio =
  mm_value :: "nat \<Rightarrow> 32 word"
  mm_writes :: "(nat \<times> 32 word) list"

definition read_volatile :: "nat \<Rightarrow> mmio \<Rightarrow> 32 word" where
  "read_volatile addr m = mm_value m addr"

definition write_volatile :: "nat \<Rightarrow> 32 word \<Rightarrow> mmio \<Rightarrow> mmio" where
  "write_volatile addr v m = m\<lparr>mm_value := (mm_value m)(addr := v), mm_writes := mm_writes m @ [(addr, v)]\<rparr>"

datatype MMIORegister32 = MMIORegister32 (reg_addr: nat)

definition register32_new :: "nat \<Rightarrow> nat \<Rightarrow> MMIORegister32 exec" where
  "register32_new base off = exec_bind (uadd base off) (\<lambda>a. Inr (MMIORegister32 a))"

definition read_raw :: "MMIORegister32 \<Rightarrow> mmio \<Rightarrow> 32 word" where
  "read_raw r m = read_volatile (reg_addr r) m"

definition write_raw :: "MMIORegister32 \<Rightarrow> 32 word \<Rightarrow> mmio \<Rightarrow> mmio" where
  "write_raw r v m = write_volatile (reg_addr r) v m"

text \<open>A 64-bit register in two halves; \<open>io_descending\<close> accesses the high half first.\<close>

record MMIORegister64 =
  addr_hi :: nat
  addr_lo :: nat
  io_descending :: bool

definition register64_new :: "bool \<Rightarrow> nat \<Rightarrow> nat \<Rightarrow> nat \<Rightarrow> MMIORegister64 exec" where
  "register64_new desc base off_lo off_hi =
     exec_bind (uadd base off_lo) (\<lambda>lo. exec_bind (uadd base off_hi) (\<lambda>hi. Inr \<lparr>addr_hi = hi, addr_lo = lo, io_descending = desc\<rparr>))"

definition read_raw64 :: "MMIORegister64 \<Rightarrow> mmio \<Rightarrow> 64 word" where
  "read_raw64 r m = push_bit 32 (ucast (read_volatile (addr_hi r) m)) OR ucast (read_volatile (addr_lo r) m)"

definition write_raw64 :: "MMIORegister64 \<Rightarrow> 64 word \<Rightarrow> mmio \<Rightarrow> mmio" where
  "write_raw64 r v m = (let hi = ucast (drop_bit 32 v AND 0xFFFFFFFF); lo = ucast (v AND 0xFFFFFFFF) in
     if io_descending r then write_volatile (addr_lo r) lo (write_volatile (addr_hi r) hi m)
     else write_volatile (addr_hi r) hi (write_volatile (addr_lo r) lo m))"

section \<open>Inter-processor interrupts\<close>

definition read_id :: "MMIORegister32 \<Rightarrow> mmio \<Rightarrow> 8 word" where
  "read_id r m = ucast (drop_bit 24 (read_raw r m AND 0xFF000000))"

datatype IPIDestination = SelfOnly | EveryoneIncSelf | EveryoneButSelf | APICId "8 word" | Logical "8 word"

fun dest_destructure :: "IPIDestination \<Rightarrow> 8 word \<times> 8 word \<times> 8 word" where
  "dest_destructure SelfOnly = (1, 0, 0)"
| "dest_destructure EveryoneIncSelf = (2, 0, 0)"
| "dest_destructure EveryoneButSelf = (3, 0, 0)"
| "dest_destructure (APICId i) = (0, 0, i)"
| "dest_destructure (Logical x) = (0, 1, x)"

datatype InterProcessorInterrupt = Fixed "8 word" | SMI | NMI | INIT | SIPI nat

fun ipi_destructure :: "InterProcessorInterrupt \<Rightarrow> (8 word \<times> 8 word) exec" where
  "ipi_destructure (Fixed v) = Inr (0, v)"
| "ipi_destructure SMI = Inr (2, 0)"
| "ipi_destructure NMI = Inr (4, 0)"
| "ipi_destructure INIT = Inr (5, 0)"
| "ipi_destructure (SIPI addr) =
     exec_bind (assert_that (addr mod 4096 = 0)) (\<lambda>_.
       if addr div 4096 < 256 then Inr (6, of_nat (addr div 4096)) else Inl UnwrapNone)"

definition ipi_value :: "8 word \<times> 8 word \<Rightarrow> 8 word \<times> 8 word \<times> 8 word \<Rightarrow> 64 word" where
  "ipi_value i d = (case i of (delivery_mode, ipi_vector) \<Rightarrow> case d of (dest_shorthand, dest_mode, dest_value) \<Rightarrow>
     ucast ipi_vector OR push_bit 8 (ucast delivery_mode) OR push_bit 11 (ucast dest_mode) OR push_bit 18 (ucast dest_shorthand) OR push_bit 56 (ucast dest_value))"

definition send_ipi_raw :: "MMIORegister64 \<Rightarrow> InterProcessorInterrupt \<Rightarrow> IPIDestination \<Rightarrow> mmio \<Rightarrow> mmio exec" where
  "send_ipi_raw icr ipi dest m = exec_bind (ipi_destructure ipi) (\<lambda>i. Inr (write_raw64 icr (ipi_value i (dest_destructure dest)) m))"

text \<open>\<open>send_ipi\<close> then polls the delivery status; \<open>polls\<close> is what the register reads at each poll.\<close>

definition ipi_pending :: "64 word \<Rightarrow> bool" where
  "ipi_pending v \<longleftrightarrow> v AND 0x1000 \<noteq> 0"

fun poll_until_sent :: "64 word list \<Rightarrow> nat option" where
  "poll_until_sent [] = None"
| "poll_until_sent (v # vs) = (if ipi_pending v then map_option Suc (poll_until_sent vs) else Some 0)"

definition send_ipi :: "MMIORegister64 \<Rightarrow> InterProcessorInterrupt \<Rightarrow> IPIDestination \<Rightarrow> 64 word list \<Rightarrow> mmio \<Rightarrow> (mmio \<times> nat option) exec" where
  "send_ipi icr ipi dest polls m = exec_bind (send_ipi_raw icr ipi dest m) (\<lambda>m. Inr (m, poll_until_sent polls))"

section \<open>Read-modify-write of fields\<close>

text \<open>Clearing some bits and setting others.\<close>

definition update_bits :: "32 word \<Rightarrow> 32 word \<Rightarrow> MMIORegister32 \<Rightarrow> mmio \<Rightarrow> mmio" where
  "update_bits clear bits r m = write_raw r ((read_raw r m AND NOT clear) OR bits) m"

definition SIV_APIC_ENABLED :: "32 word" where
  "SIV_APIC_ENABLED = 0x100"

definition set_apic_enabled :: "bool \<Rightarrow> MMIORegister32 \<Rightarrow> mmio \<Rightarrow> mmio" where
  "set_apic_enabled enable r m = (let siv = read_raw r m in
     write_raw r (if enable then siv OR SIV_APIC_ENABLED else siv AND NOT SIV_APIC_ENABLED) m)"

definition set_spurious_vector :: "8 word \<Rightarrow> MMIORegister32 \<Rightarrow> mmio \<Rightarrow> mmio" where
  "set_spurious_vector vector r m = update_bits 0xFF (ucast vector) r m"

definition lvt_set_vector :: "8 word \<Rightarrow> MMIORegister32 \<Rightarrow> mmio \<Rightarrow> mmio" where
  "lvt_set_vector vector r m = update_bits 0xFF (ucast vector) r m"

definition lvt_is_waiting :: "MMIORegister32 \<Rightarrow> mmio \<Rightarrow> bool" where
  "lvt_is_waiting r m \<longleftrightarrow> read_raw r m AND 0x100 \<noteq> 0"

definition lvt_set_masked :: "bool \<Rightarrow> MMIORegister32 \<Rightarrow> mmio \<Rightarrow> mmio" where
  "lvt_set_masked masked r m = (let entry = read_raw r m in write_raw r (if masked then entry OR 0x10000 else entry AND NOT 0x10000) m)"

definition lvt_set_delivery_mode :: "8 word \<Rightarrow> MMIORegister32 \<Rightarrow> mmio \<Rightarrow> mmio" where
  "lvt_set_delivery_mode delivery_mode r m = update_bits (push_bit 8 7) (push_bit 8 (ucast (delivery_mode AND 7))) r m"

datatype TimerMode = OneShot | Repeating | TSCDeadline

primrec timer_bits :: "TimerMode \<Rightarrow> 8 word" where
  "timer_bits OneShot = 0"
| "timer_bits Repeating = 1"
| "timer_bits TSCDeadline = 2"

definition lvt_set_timer_mode :: "TimerMode \<Rightarrow> MMIORegister32 \<Rightarrow> mmio \<Rightarrow> mmio" where
  "lvt_set_timer_mode mode r m = update_bits (push_bit 17 3) (push_bit 17 (ucast (timer_bits mode))) r m"

section \<open>The local controller\<close>

record LocalAPIC =
  local_id :: MMIORegister32
  siv :: MMIORegister32
  lvt_timer :: MMIORegister32
  lvt_cmci :: MMIORegister32
  lvt_lint0 :: MMIORegister32
  lvt_lint1 :: MMIORegister32
  lvt_error :: MMIORegister32
  lvt_perfmon :: MMIORegister32
  lvt_thermal :: MMIORegister32
  icr :: MMIORegister64
  timer_initial :: MMIORegister32
  timer_current :: MMIORegister32
  eoi :: MMIORegister32

definition local_apic_new :: "nat \<Rightarrow> LocalAPIC exec" where
  "local_apic_new base =
     exec_bind (register32_new base 0x020) (\<lambda>r1. exec_bind (register32_new base 0x0F0) (\<lambda>r2.
     exec_bind (register32_new base 0x320) (\<lambda>r3. exec_bind (register32_new base 0x2F0) (\<lambda>r4.
     exec_bind (register32_new base 0x350) (\<lambda>r5. exec_bind (register32_new base 0x360) (\<lambda>r6.
     exec_bind (register32_new base 0x370) (\<lambda>r7. exec_bind (register32_new base 0x340) (\<lambda>r8.
     exec_bind (register32_new base 0x330) (\<lambda>r9. exec_bind (register64_new True base 0x300 0x310) (\<lambda>r10.
     exec_bind (register32_new base 0x380) (\<lambda>r11. exec_bind (register32_new base 0x390) (\<lambda>r12.
     exec_bind (register32_new base 0x0B0) (\<lambda>r13.
       Inr \<lparr>local_id = r1, siv = r2, lvt_timer = r3, lvt_cmci = r4, lvt_lint0 = r5, lvt_lint1 = r6, lvt_error = r7,
         lvt_perfmon = r8, lvt_thermal = r9, icr = r10, timer_initial = r11, timer_current = r12, eoi = r13\<rparr>)))))))))))))"

definition set_initial_count :: "32 word \<Rightarrow> LocalAPIC \<Rightarrow> mmio \<Rightarrow> mmio" where
  "set_initial_count cnt apic m = write_raw (timer_initial apic) cnt m"

definition get_current_count :: "LocalAPIC \<Rightarrow> mmio \<Rightarrow> 32 word" where
  "get_current_count apic m = read_raw (timer_current apic) m"

definition signal_eoi :: "LocalAPIC \<Rightarrow> mmio \<Rightarrow> mmio" where
  "signal_eoi apic m = write_raw (eoi apic) 0 m"

text \<open>Per CPU: the controller and its id, once initialised.\<close>

record apic_cpu =
  the_apic :: "LocalAPIC option"
  the_apic_id :: "8 word option"

definition init_local_apic :: "nat \<Rightarrow> apic_cpu \<Rightarrow> mmio \<Rightarrow> (apic_cpu \<times> mmio) exec" where
  "init_local_apic root c m =
     exec_bind (local_apic_new root) (\<lambda>apic.
       Inr (c\<lparr>the_apic := Some apic, the_apic_id := Some (read_id (local_id apic) m)\<rparr>, set_apic_enabled True (siv apic) m))"

definition with_local_apic :: "(LocalAPIC \<Rightarrow> 'r) \<Rightarrow> apic_cpu \<Rightarrow> 'r exec" where
  "with_local_apic f c = exec_bind (unwrap (the_apic c)) (\<lambda>apic. Inr (f apic))"

definition is_local_apic_initialised :: "apic_cpu \<Rightarrow> bool" where
  "is_local_apic_initialised c \<longleftrightarrow> the_apic c \<noteq> None"

definition get_apic_id_for :: "apic_cpu \<Rightarrow> 8 word exec" where
  "get_apic_id_for c = unwrap (the_apic_id c)"

section \<open>The I/O controller\<close>

text \<open>Its registers are reached through a selector register and a data register.\<close>

record IOAPIC =
  regselect :: MMIORegister32
  io_data :: MMIORegister32

definition ioapic_new :: "nat \<Rightarrow> IOAPIC exec" where
  "ioapic_new base = exec_bind (register32_new base 0x00) (\<lambda>s. exec_bind (register32_new base 0x10) (\<lambda>d. Inr \<lparr>regselect = s, io_data = d\<rparr>))"

definition select_register_raw :: "8 word \<Rightarrow> IOAPIC \<Rightarrow> mmio \<Rightarrow> mmio" where
  "select_register_raw reg i m = write_raw (regselect i) (ucast reg) m"

definition ioapic_read :: "8 word \<Rightarrow> IOAPIC \<Rightarrow> mmio \<Rightarrow> mmio \<times> 32 word" where
  "ioapic_read reg i m = (let m = select_register_raw reg i m in (m, read_raw (io_data i) m))"

definition ioapic_write :: "8 word \<Rightarrow> 32 word \<Rightarrow> IOAPIC \<Rightarrow> mmio \<Rightarrow> mmio" where
  "ioapic_write reg data i m = write_raw (io_data i) data (select_register_raw reg i m)"

definition read_modify_write :: "8 word \<Rightarrow> (32 word \<Rightarrow> 32 word) \<Rightarrow> IOAPIC \<Rightarrow> mmio \<Rightarrow> mmio" where
  "read_modify_write reg mutator i m = (let m = select_register_raw reg i m in write_raw (io_data i) (mutator (read_raw (io_data i) m)) m)"

definition get_ioapic_id :: "IOAPIC \<Rightarrow> mmio \<Rightarrow> mmio \<times> 8 word" where
  "get_ioapic_id i m = (case ioapic_read 0x00 i m of (m, v) \<Rightarrow> (m, ucast (drop_bit 24 (v AND 0x0F000000))))"

definition get_max_redirection_entry :: "IOAPIC \<Rightarrow> mmio \<Rightarrow> mmio \<times> 8 word" where
  "get_max_redirection_entry i m = (case ioapic_read 0x01 i m of (m, v) \<Rightarrow> (m, ucast (drop_bit 16 (v AND 0x00FF0000))))"

section \<open>What a receiver of the command register reads\<close>

definition sent_ipi :: "32 word \<Rightarrow> InterProcessorInterrupt option" where
  "sent_ipi lo = (let v = ucast (lo AND 0xFF); mode = drop_bit 8 lo AND 7 in
     if mode = 0 then Some (Fixed v) else if mode = 2 then Some SMI else if mode = 4 then Some NMI else if mode = 5 then Some INIT
     else if mode = 6 then Some (SIPI (unat v * 4096)) else None)"

definition sent_dest :: "32 word \<Rightarrow> 32 word \<Rightarrow> IPIDestination" where
  "sent_dest hi lo = (let short = drop_bit 18 lo AND 3; x = ucast (drop_bit 24 hi) in
     if short = 1 then SelfOnly else if short = 2 then EveryoneIncSelf else if short = 3 then EveryoneButSelf
     else if bit lo 11 then Logical x else APICId x)"

text \<open>A value below \<open>2 ^ n\<close> has no higher bits.\<close>

definition fits_bits :: "nat \<Rightarrow> 8 word \<Rightarrow> bool" where
  "fits_bits n w \<longleftrightarrow> w = take_bit n w"

lemma fits_bit: "fits_bits n w \<Longrightarrow> bit w i \<Longrightarrow> i < n"
  unfolding fits_bits_def by (metis bit_take_bit_iff)

lemma byte_bit: "bit (w :: 8 word) i \<Longrightarrow> i < 8"
  using bit_imp_le_length[of w i] by simp

lemma mask_bits:
  "bit (0xFFFFFFFF :: int) n \<longleftrightarrow> n < 32" "bit (0xFF :: int) n \<longleftrightarrow> n < 8" "bit (7 :: int) n \<longleftrightarrow> n < 3" "bit (3 :: int) n \<longleftrightarrow> n < 2"
  "bit (0x100 :: int) n \<longleftrightarrow> n = 8" "bit (0x10000 :: int) n \<longleftrightarrow> n = 16" "bit (0x700 :: int) n \<longleftrightarrow> 8 \<le> n \<and> n < 11" "bit (0x60000 :: int) n \<longleftrightarrow> 17 \<le> n \<and> n < 19"
proof -
  have e: "(0xFFFFFFFF :: int) = mask 32" "(0xFF :: int) = mask 8" "(7 :: int) = mask 3" "(3 :: int) = mask 2" "(0x100 :: int) = 2 ^ 8" "(0x10000 :: int) = 2 ^ 16"
    "(0x700 :: int) = push_bit 8 (mask 3)" "(0x60000 :: int) = push_bit 17 (mask 2)" by (simp_all add: mask_eq_exp_minus_1)
  show "bit (0xFFFFFFFF :: int) n \<longleftrightarrow> n < 32" "bit (0xFF :: int) n \<longleftrightarrow> n < 8" "bit (7 :: int) n \<longleftrightarrow> n < 3" "bit (3 :: int) n \<longleftrightarrow> n < 2"
    "bit (0x100 :: int) n \<longleftrightarrow> n = 8" "bit (0x10000 :: int) n \<longleftrightarrow> n = 16" "bit (0x700 :: int) n \<longleftrightarrow> 8 \<le> n \<and> n < 11" "bit (0x60000 :: int) n \<longleftrightarrow> 17 \<le> n \<and> n < 19"
    unfolding e bit_push_bit_iff bit_mask_iff bit_exp_iff by auto
qed

lemma ipi_value_bits:
  "n < 64 \<Longrightarrow> bit (ipi_value (dm, v) (sh, m, x)) n \<longleftrightarrow>
    bit v n \<or> 8 \<le> n \<and> bit dm (n - 8) \<or> 11 \<le> n \<and> bit m (n - 11) \<or> 18 \<le> n \<and> bit sh (n - 18) \<or> 56 \<le> n \<and> bit x (n - 56)"
  by (simp add: ipi_value_def bit_simps less_imp_diff_less disj_assoc)

lemma ipi_fields:
  fixes v x :: "8 word"
  assumes "fits_bits 3 dm" and "fits_bits 1 m" and "fits_bits 2 sh"
  defines "val \<equiv> ipi_value (dm, v) (sh, m, x)"
  defines "lo \<equiv> ucast (val AND 0xFFFFFFFF) :: 32 word" and "hi \<equiv> ucast (drop_bit 32 val AND 0xFFFFFFFF) :: 32 word"
  shows "ucast (lo AND 0xFF) = v" and "drop_bit 8 lo AND 7 = ucast dm" and "drop_bit 18 lo AND 3 = ucast sh" and "bit lo 11 = bit m 0" and "ucast (drop_bit 24 hi) = x"
proof -
  note b = ipi_value_bits[of _ dm v sh m x, folded val_def]
  note f = fits_bit[OF assms(1)] fits_bit[OF assms(2)] fits_bit[OF assms(3)] byte_bit[of v] byte_bit[of x]
  have lo: "bit lo n \<longleftrightarrow> n < 32 \<and> bit val n" for n by (auto simp: lo_def bit_simps mask_bits dest: bit_imp_le_length)
  have hi: "bit hi n \<longleftrightarrow> n < 32 \<and> bit val (n + 32)" for n by (auto simp: hi_def bit_simps mask_bits add.commute dest: bit_imp_le_length)
  have low: "bit lo n \<longleftrightarrow> bit v n" if "n < 8" for n using that b[of n] by (simp add: lo)
  show "ucast (lo AND 0xFF) = v" by (rule bit_word_eqI) (simp add: bit_simps low mask_bits)
  have mode: "bit lo (n + 8) \<longleftrightarrow> bit dm n" if "n < 3" for n using that b[of "n + 8"] f(4)[of "n + 8"] by (auto simp: lo)
  show "drop_bit 8 lo AND 7 = ucast dm"
    by (rule bit_word_eqI) (use f(1) mode in \<open>auto simp: bit_simps mask_bits add.commute\<close>)
  have short: "bit lo (n + 18) \<longleftrightarrow> bit sh n" if "n < 2" for n
    using that b[of "n + 18"] f(1)[of "10 + n"] f(2)[of "7 + n"] f(4)[of "n + 18"] by (auto simp: lo)
  show "drop_bit 18 lo AND 3 = ucast sh"
    by (rule bit_word_eqI) (use f(3) short in \<open>auto simp: bit_simps mask_bits add.commute\<close>)
  show "bit lo 11 = bit m 0" using b[of 11] f(1)[of 3] f(4)[of 11] by (auto simp: lo)
  have dest: "bit hi (n + 24) \<longleftrightarrow> bit x n" if "n < 8" for n
    using that b[of "n + 56"] f(1)[of "48 + n"] f(2)[of "45 + n"] f(3)[of "38 + n"] f(4)[of "n + 56"] by (auto simp: hi add.assoc)
  show "ucast (drop_bit 24 hi) = x" by (rule bit_word_eqI) (simp add: bit_simps dest add.commute)
qed

lemma destructured_fit:
  "ipi_destructure ipi = Inr (dm, v) \<Longrightarrow> fits_bits 3 dm" "dest_destructure dest = (sh, m, x) \<Longrightarrow> fits_bits 1 m \<and> fits_bits 2 sh"
  by (cases ipi; auto simp: fits_bits_def exec_dests split: if_splits) (cases dest; auto simp: fits_bits_def)

lemma sent_ipi_fields:
  assumes "ipi_destructure ipi = Inr (dm, v)" and "ucast (lo AND 0xFF) = v" and "drop_bit 8 lo AND 7 = (ucast dm :: 32 word)"
  shows "sent_ipi lo = Some ipi"
proof (cases ipi)
  case (SIPI addr)
  then have a: "addr mod 4096 = 0" "addr div 4096 < 256" "dm = 6" "v = of_nat (addr div 4096)" using assms(1) by (auto simp: exec_dests split: if_splits)
  then have "unat v = addr div 4096" by (simp add: unat_of_nat take_bit_nat_eq_self)
  then have "unat v * 4096 = addr" using a(1) by (simp add: mod_0_imp_dvd)
  then show ?thesis using assms(2,3) a(3) SIPI by (simp add: sent_ipi_def)
qed (use assms in \<open>auto simp: sent_ipi_def\<close>)

lemma sent_dest_fields:
  assumes "dest_destructure dest = (sh, m, x)" and "drop_bit 18 lo AND 3 = (ucast sh :: 32 word)" and "bit lo 11 = bit m 0" and "ucast (drop_bit 24 hi) = x"
  shows "sent_dest hi lo = dest"
  using assms by (cases dest) (auto simp: sent_dest_def)

lemma register32_new_ok: "register32_new base off = Inr r \<Longrightarrow> reg_addr r = base + off"
  by (auto simp: register32_new_def exec_dests)

lemma register64_new_ok: "register64_new d base lo hi = Inr r \<Longrightarrow> addr_lo r = base + lo \<and> addr_hi r = base + hi \<and> io_descending r = d"
  by (auto simp: register64_new_def exec_dests)

lemma local_apic_icr:
  "local_apic_new base = Inr apic \<Longrightarrow> addr_lo (icr apic) = base + 0x300 \<and> addr_hi (icr apic) = base + 0x310 \<and> io_descending (icr apic)"
  by (auto simp: local_apic_new_def exec_dests dest!: register64_new_ok)

section \<open>Field updates\<close>

lemma read_write [simp]: "read_raw r (write_raw r v m) = v"
  by (simp add: read_raw_def write_raw_def read_volatile_def write_volatile_def)

lemma read_update_bits: "read_raw r (update_bits c b r m) = (read_raw r m AND NOT c) OR b"
  by (simp add: update_bits_def)

lemma timer_bits_bound: "bit (timer_bits mode) n \<Longrightarrow> n < 2"
proof -
  have "fits_bits 2 (timer_bits mode)" by (cases mode) (simp_all add: fits_bits_def)
  then show "bit (timer_bits mode) n \<Longrightarrow> n < 2" by (rule fits_bit)
qed

text \<open>A well-formed interrupt is sent by two writes, from which a receiver reads it back.\<close>

lemma send_ipi_raw_sends:
  assumes "local_apic_new base = Inr apic" and "ipi_destructure ipi = Inr i"
  shows "\<exists>m' hi lo. send_ipi_raw (icr apic) ipi dest m = Inr m' \<and> mm_writes m' = mm_writes m @ [(base + 0x310, hi), (base + 0x300, lo)] \<and>
    sent_ipi lo = Some ipi \<and> sent_dest hi lo = dest"
proof -
  obtain dm v where i: "i = (dm, v)" by (cases i)
  obtain sh md x where d: "dest_destructure dest = (sh, md, x)" by (cases "dest_destructure dest")
  note f = destructured_fit(1)[OF assms(2)[unfolded i]] conjunct1[OF destructured_fit(2)[OF d]] conjunct2[OF destructured_fit(2)[OF d]]
  note ff = ipi_fields[OF f, of v x]
  show ?thesis using local_apic_icr[OF assms(1)] sent_ipi_fields[OF assms(2)[unfolded i] ff(1,2)] sent_dest_fields[OF d ff(3,4,5)] assms(2) i d
    by (simp add: send_ipi_raw_def write_raw64_def write_volatile_def Let_def)
qed


lemma field_bits:
  "(bit (read_raw r (lvt_set_vector v r m)) n \<longleftrightarrow> (if n < 8 then bit v n else bit (read_raw r m) n))
   \<and> (bit (read_raw r (lvt_set_masked b r m)) n \<longleftrightarrow> (if n = 16 then b else bit (read_raw r m) n))
   \<and> (bit (read_raw r (lvt_set_delivery_mode v r m)) n \<longleftrightarrow> (if 8 \<le> n \<and> n < 11 then bit v (n - 8) else bit (read_raw r m) n))
   \<and> (bit (read_raw r (lvt_set_timer_mode mode r m)) n \<longleftrightarrow> (if 17 \<le> n \<and> n < 19 then bit (timer_bits mode) (n - 17) else bit (read_raw r m) n))
   \<and> (bit (read_raw r (set_apic_enabled b r m)) n \<longleftrightarrow> (if n = 8 then b else bit (read_raw r m) n))
   \<and> (bit (read_raw r (set_spurious_vector v r m)) n \<longleftrightarrow> (if n < 8 then bit v n else bit (read_raw r m) n))"
proof (intro conjI)
  have len: "bit (read_raw r m) n \<Longrightarrow> n < 32" using bit_imp_le_length[of "read_raw r m" n] by simp
  show "bit (read_raw r (lvt_set_vector v r m)) n \<longleftrightarrow> (if n < 8 then bit v n else bit (read_raw r m) n)"
    and "bit (read_raw r (set_spurious_vector v r m)) n \<longleftrightarrow> (if n < 8 then bit v n else bit (read_raw r m) n)"
    using byte_bit[of v n] len by (auto simp: lvt_set_vector_def set_spurious_vector_def read_update_bits bit_simps mask_bits)
  show "bit (read_raw r (lvt_set_masked b r m)) n \<longleftrightarrow> (if n = 16 then b else bit (read_raw r m) n)"
    and "bit (read_raw r (set_apic_enabled b r m)) n \<longleftrightarrow> (if n = 8 then b else bit (read_raw r m) n)"
    using len by (auto simp: lvt_set_masked_def set_apic_enabled_def SIV_APIC_ENABLED_def Let_def bit_simps mask_bits)
  show "bit (read_raw r (lvt_set_delivery_mode v r m)) n \<longleftrightarrow> (if 8 \<le> n \<and> n < 11 then bit v (n - 8) else bit (read_raw r m) n)"
    using len by (auto simp: lvt_set_delivery_mode_def read_update_bits bit_simps mask_bits)
  show "bit (read_raw r (lvt_set_timer_mode mode r m)) n \<longleftrightarrow> (if 17 \<le> n \<and> n < 19 then bit (timer_bits mode) (n - 17) else bit (read_raw r m) n)"
    using len timer_bits_bound[of mode "n - 17"] by (auto simp: lvt_set_timer_mode_def read_update_bits bit_simps mask_bits)
qed

lemma lvt_waiting_bit: "lvt_is_waiting r m \<longleftrightarrow> bit (read_raw r m) 8"
proof -
  have "(0x100 :: 32 word) = 2 ^ 8" by simp
  then show ?thesis unfolding lvt_is_waiting_def by (simp only: and_exp_eq_0_iff_not_bit not_not)
qed

section \<open>Properties\<close>

text \<open>C34: Sending an inter-processor interrupt writes the command register of the controller twice, the half with the
  destination first and the half that triggers the sending last, and a receiver reads exactly the interrupt and the
  destination from them.  It panics only for a start-up address that is not page-aligned or not below 1 MiB.\<close>

theorem send_ipi_correct:
  assumes "local_apic_new base = Inr apic"
  shows "case send_ipi_raw (icr apic) ipi dest m of
      Inl e \<Rightarrow> (\<exists>addr. ipi = SIPI addr \<and> (addr mod 4096 \<noteq> 0 \<or> 0x100000 \<le> addr))
    | Inr m' \<Rightarrow> (\<exists>hi lo. mm_writes m' = mm_writes m @ [(base + 0x310, hi), (base + 0x300, lo)] \<and> sent_ipi lo = Some ipi \<and> sent_dest hi lo = dest)"
proof (cases "ipi_destructure ipi")
  case (Inl e)
  then obtain addr where a: "ipi = SIPI addr" by (cases ipi) auto
  have "\<not> (addr mod 4096 = 0 \<and> addr < 0x100000)"
  proof
    assume "addr mod 4096 = 0 \<and> addr < 0x100000"
    then have "addr div 4096 < 256" by (simp add: less_mult_imp_div_less)
    then show False using Inl a \<open>addr mod 4096 = 0 \<and> addr < 0x100000\<close> by simp
  qed
  then show ?thesis using Inl a by (auto simp: send_ipi_raw_def)
next
  case (Inr i)
  then show ?thesis using send_ipi_raw_sends[OF assms Inr, where m = m and dest = dest] by (elim exE conjE) simp
qed

theorem send_ipi_correct_witness:
  "\<exists>apic m' hi lo. local_apic_new 0xFEE00000 = Inr apic \<and> send_ipi_raw (icr apic) (SIPI 0x8000) (APICId 3) \<lparr>mm_value = (\<lambda>_. 0), mm_writes = []\<rparr> = Inr m'
     \<and> mm_writes m' = [(0xFEE00310, hi), (0xFEE00300, lo)] \<and> sent_ipi lo = Some (SIPI 0x8000) \<and> sent_dest hi lo = APICId 3"
proof -
  obtain apic where a: "local_apic_new 0xFEE00000 = Inr apic"
    by (simp add: local_apic_new_def register32_new_def register64_new_def exec_simps usize_limit_def)
  have "\<exists>m'. send_ipi_raw (icr apic) (SIPI 0x8000) (APICId 3) \<lparr>mm_value = (\<lambda>_. 0), mm_writes = []\<rparr> = Inr m'" by (simp add: send_ipi_raw_def)
  then show ?thesis using send_ipi_correct[OF a, where ipi = "SIPI 0x8000" and dest = "APICId 3" and m = "\<lparr>mm_value = (\<lambda>_. 0), mm_writes = []\<rparr>"] a by auto
qed

text \<open>Each setting of a local vector table entry and of the spurious vector register changes exactly its own bits of the
  register and they read back as set; the waiting flag that is reported is bit 8, the lowest bit of the delivery mode.\<close>

theorem register_fields_exact:
  "(bit (read_raw r (lvt_set_vector v r m)) n \<longleftrightarrow> (if n < 8 then bit v n else bit (read_raw r m) n))
   \<and> (bit (read_raw r (lvt_set_masked b r m)) n \<longleftrightarrow> (if n = 16 then b else bit (read_raw r m) n))
   \<and> (bit (read_raw r (lvt_set_delivery_mode v r m)) n \<longleftrightarrow> (if 8 \<le> n \<and> n < 11 then bit v (n - 8) else bit (read_raw r m) n))
   \<and> (bit (read_raw r (lvt_set_timer_mode mode r m)) n \<longleftrightarrow> (if 17 \<le> n \<and> n < 19 then bit (timer_bits mode) (n - 17) else bit (read_raw r m) n))
   \<and> (bit (read_raw r (set_apic_enabled b r m)) n \<longleftrightarrow> (if n = 8 then b else bit (read_raw r m) n))
   \<and> (bit (read_raw r (set_spurious_vector v r m)) n \<longleftrightarrow> (if n < 8 then bit v n else bit (read_raw r m) n))
   \<and> (lvt_is_waiting r m \<longleftrightarrow> bit (read_raw r m) 8)"
  using field_bits[of r v m n b mode] lvt_waiting_bit by blast

end
