(* ===== verification/Keyboard.thy ===== *)
theory Keyboard
  imports Kernel_Prelude
begin

text \<open>
  The PS/2 keyboard driver (\<open>rust_old/src/coredrivers/keyboard/ps2_x86_64.rs\<close>).

  The scan code decoder is the \<open>pc_keyboard\<close> crate; it is a parameter: \<open>add_byte\<close> feeds one byte to its state and returns an
  error or, when a scan code is complete, a key event, and \<open>process_keyevent\<close> turns the event into a key.  The bytes
  written to the I/O port and the keys passed to the callback are recorded in the state.  A receive interrupt holds both
  mutexes; \<open>queue_command\<close> takes the state mutex only if it is free, so whether it was free is an argument.
\<close>

section \<open>The driver\<close>

datatype KeyboardCommand = SetLEDs "8 word"

primrec as_bytes :: "KeyboardCommand \<Rightarrow> 8 word list" where
  "as_bytes (SetLEDs o1) = [0xED, o1]"

datatype KeyboardState = Ready | AwaitingAcknowledgement KeyboardCommand | AwaitingScanCode

record ('d, 'e, 'k, 'x) key_decoder =
  add_byte :: "'d \<Rightarrow> 8 word \<Rightarrow> 'd \<times> ('x + 'e option)"
  process_keyevent :: "'d \<Rightarrow> 'e \<Rightarrow> 'd \<times> 'k option"

record ('d, 'k) PS2Keyboard =
  kb_written :: "8 word list"
  kb_status :: KeyboardState
  kb_decoder :: 'd
  kb_keys :: "'k list"
  kb_queue :: "KeyboardCommand list"

definition keyboard_new :: "'d \<Rightarrow> ('d, 'k) PS2Keyboard" where
  "keyboard_new d = \<lparr>kb_written = [], kb_status = Ready, kb_decoder = d, kb_keys = [], kb_queue = []\<rparr>"

definition send_command :: "KeyboardCommand \<Rightarrow> ('d, 'k) PS2Keyboard \<Rightarrow> ('d, 'k) PS2Keyboard" where
  "send_command cmd s = s\<lparr>kb_written := kb_written s @ as_bytes cmd, kb_status := AwaitingAcknowledgement cmd\<rparr>"

definition send_next_command_if_ready :: "('d, 'k) PS2Keyboard \<Rightarrow> ('d, 'k) PS2Keyboard" where
  "send_next_command_if_ready s = (case kb_status s of
     Ready \<Rightarrow> (case kb_queue s of [] \<Rightarrow> s | cmd # q \<Rightarrow> send_command cmd (s\<lparr>kb_queue := q\<rparr>))
   | _ \<Rightarrow> s)"

definition recv_scan_byte ::
  "('d, 'e, 'k, 'x) key_decoder \<Rightarrow> 8 word \<Rightarrow> ('d, 'k) PS2Keyboard \<Rightarrow> ('d, 'k) PS2Keyboard" where
  "recv_scan_byte D b s = (case add_byte D (kb_decoder s) b of
     (d, Inr (Some ev)) \<Rightarrow> (case process_keyevent D d ev of
         (d', Some k) \<Rightarrow> s\<lparr>kb_decoder := d', kb_keys := kb_keys s @ [k], kb_status := Ready\<rparr>
       | (d', None) \<Rightarrow> s\<lparr>kb_decoder := d', kb_status := Ready\<rparr>)
   | (d, Inr None) \<Rightarrow> s\<lparr>kb_decoder := d, kb_status := AwaitingScanCode\<rparr>
   | (d, Inl _) \<Rightarrow> s\<lparr>kb_decoder := d\<rparr>)"

definition recv_next_byte ::
  "('d, 'e, 'k, 'x) key_decoder \<Rightarrow> 8 word \<Rightarrow> ('d, 'k) PS2Keyboard \<Rightarrow> ('d, 'k) PS2Keyboard exec" where
  "recv_next_byte D b s = (case kb_status s of
     AwaitingAcknowledgement cmd \<Rightarrow>
       (if b = 0xFA \<or> b = 0xEE then Inr (send_next_command_if_ready (s\<lparr>kb_status := Ready\<rparr>))
        else if b = 0xFE then Inr (send_command cmd s)
        else if b = 0xAA \<or> b = 0xFC \<or> b = 0xFD then Inr s
        else Inl ExplicitPanic)
   | _ \<Rightarrow> Inr (recv_scan_byte D b s))"

definition queue_command :: "bool \<Rightarrow> KeyboardCommand \<Rightarrow> ('d, 'k) PS2Keyboard \<Rightarrow> ('d, 'k) PS2Keyboard" where
  "queue_command state_free cmd s =
     (let s' = s\<lparr>kb_queue := kb_queue s @ [cmd]\<rparr> in if state_free then send_next_command_if_ready s' else s')"

section \<open>Runs of the driver\<close>

text \<open>The entry points in the order in which they take the command queue's mutex.\<close>

datatype kb_event = Recv "8 word" | Queue bool KeyboardCommand

fun kb_handle :: "('d, 'e, 'k, 'x) key_decoder \<Rightarrow> kb_event \<Rightarrow> ('d, 'k) PS2Keyboard \<Rightarrow> ('d, 'k) PS2Keyboard exec" where
  "kb_handle D (Recv b) s = recv_next_byte D b s"
| "kb_handle D (Queue free cmd) s = Inr (queue_command free cmd s)"

fun kb_run :: "('d, 'e, 'k, 'x) key_decoder \<Rightarrow> kb_event list \<Rightarrow> ('d, 'k) PS2Keyboard \<Rightarrow> ('d, 'k) PS2Keyboard exec" where
  "kb_run D [] s = Inr s"
| "kb_run D (e # es) s = exec_bind (kb_handle D e s) (kb_run D es)"

fun queued :: "kb_event list \<Rightarrow> KeyboardCommand list" where
  "queued [] = []"
| "queued (Queue _ cmd # es) = cmd # queued es"
| "queued (Recv _ # es) = queued es"

text \<open>Each command is sent once, and once more for each of its resend requests.\<close>

definition transmission :: "(KeyboardCommand \<times> nat) list \<Rightarrow> 8 word list" where
  "transmission ts = concat (map (\<lambda>(cmd, n). concat (replicate (Suc n) (as_bytes cmd))) ts)"

text \<open>What has been sent of the commands queued so far.\<close>

definition kb_sent :: "KeyboardCommand list \<Rightarrow> (KeyboardCommand \<times> nat) list \<Rightarrow> ('d, 'k) PS2Keyboard \<Rightarrow> bool" where
  "kb_sent cs ts s \<longleftrightarrow> cs = map fst ts @ kb_queue s \<and> kb_written s = transmission ts \<and>
     (case kb_status s of AwaitingAcknowledgement cmd \<Rightarrow> ts \<noteq> [] \<and> fst (last ts) = cmd | _ \<Rightarrow> True)"

lemma transmission_snoc: "transmission (ts @ [(cmd, 0)]) = transmission ts @ as_bytes cmd"
  by (simp add: transmission_def)

lemma transmission_resend: "transmission (ts @ [(cmd, Suc n)]) = transmission (ts @ [(cmd, n)]) @ as_bytes cmd"
  by (simp add: transmission_def replicate_append_same[symmetric])

lemma kb_sent_next:
  assumes "kb_sent cs ts s"
  shows "\<exists>ts'. kb_sent cs ts' (send_next_command_if_ready s)"
proof (cases "kb_status s = Ready \<and> kb_queue s \<noteq> []")
  case True
  then obtain cmd q where q: "kb_queue s = cmd # q" "kb_status s = Ready" by (cases "kb_queue s") auto
  then have "kb_sent cs (ts @ [(cmd, 0)]) (send_next_command_if_ready s)"
    using assms by (simp add: kb_sent_def send_next_command_if_ready_def send_command_def transmission_snoc)
  then show ?thesis by blast
next
  case False
  then have "send_next_command_if_ready s = s"
    by (auto simp: send_next_command_if_ready_def split: KeyboardState.splits list.splits)
  then show ?thesis using assms by auto
qed

lemma kb_sent_queue:
  assumes "kb_sent cs ts s"
  shows "\<exists>ts'. kb_sent (cs @ [cmd]) ts' (queue_command free cmd s)"
proof -
  have "kb_sent (cs @ [cmd]) ts (s\<lparr>kb_queue := kb_queue s @ [cmd]\<rparr>)"
    using assms by (simp add: kb_sent_def)
  then show ?thesis using kb_sent_next by (fastforce simp: queue_command_def Let_def)
qed

lemma recv_scan_byte_frame:
  "kb_queue (recv_scan_byte D b s) = kb_queue s" "kb_written (recv_scan_byte D b s) = kb_written s"
  "\<forall>cmd. kb_status s \<noteq> AwaitingAcknowledgement cmd \<Longrightarrow> kb_status (recv_scan_byte D b s) \<noteq> AwaitingAcknowledgement cmd'"
  by (simp_all add: recv_scan_byte_def split: prod.splits sum.splits option.splits)

lemma kb_sent_scan:
  assumes "kb_sent cs ts s" and "\<forall>cmd. kb_status s \<noteq> AwaitingAcknowledgement cmd"
  shows "kb_sent cs ts (recv_scan_byte D b s)"
  using assms recv_scan_byte_frame[where D = D and b = b and s = s] by (auto simp: kb_sent_def split: KeyboardState.splits)

lemma kb_sent_resend:
  assumes "kb_sent cs ts s" and "kb_status s = AwaitingAcknowledgement cmd"
  shows "\<exists>ts'. kb_sent cs ts' (send_command cmd s)"
proof -
  obtain us n where "ts = us @ [(cmd, n)]"
    using assms by (cases ts rule: rev_cases) (auto simp: kb_sent_def)
  then have "kb_sent cs (us @ [(cmd, Suc n)]) (send_command cmd s)"
    using assms by (simp add: kb_sent_def send_command_def transmission_resend)
  then show ?thesis by blast
qed

lemma kb_sent_recv:
  assumes "kb_sent cs ts s" and "recv_next_byte D b s = Inr s'"
  shows "\<exists>ts'. kb_sent cs ts' s'"
proof (cases "kb_status s")
  case (AwaitingAcknowledgement cmd)
  have "kb_sent cs ts (s\<lparr>kb_status := Ready\<rparr>)" using assms(1) by (simp add: kb_sent_def)
  note next_sent = kb_sent_next[OF this]
  show ?thesis using assms AwaitingAcknowledgement next_sent kb_sent_resend[OF assms(1) AwaitingAcknowledgement]
    by (auto simp: recv_next_byte_def split: if_splits)
qed (use assms kb_sent_scan[OF assms(1)] in \<open>auto simp: recv_next_byte_def\<close>)

lemma kb_sent_run:
  "kb_run D es s = Inr s' \<Longrightarrow> kb_sent cs ts s \<Longrightarrow> \<exists>ts'. kb_sent (cs @ queued es) ts' s'"
proof (induction es arbitrary: s cs ts)
  case (Cons e es)
  then obtain s1 where s1: "kb_handle D e s = Inr s1" and r: "kb_run D es s1 = Inr s'" by (auto simp: exec_bind_eq_Inr)
  show ?case
  proof (cases e)
    case (Recv b)
    then obtain ts1 where "kb_sent cs ts1 s1" using kb_sent_recv[OF Cons.prems(2), of D b s1] s1 by auto
    then show ?thesis using Cons.IH[OF r] Recv by simp
  next
    case (Queue free cmd)
    then obtain ts1 where "kb_sent (cs @ [cmd]) ts1 s1" using kb_sent_queue[OF Cons.prems(2)] s1 by auto
    then show ?thesis using Cons.IH[OF r] Queue by fastforce
  qed
qed auto

lemma kb_sent_new: "kb_sent [] [] (keyboard_new d)"
  by (simp add: kb_sent_def keyboard_new_def transmission_def)

lemma recv_ack:
  assumes "kb_status s = AwaitingAcknowledgement cmd"
  shows "recv_next_byte D 0xFA s = Inr (case kb_queue s of [] \<Rightarrow> s\<lparr>kb_status := Ready\<rparr>
    | c # q \<Rightarrow> s\<lparr>kb_written := kb_written s @ as_bytes c, kb_status := AwaitingAcknowledgement c, kb_queue := q\<rparr>)"
  using assms by (simp add: recv_next_byte_def send_next_command_if_ready_def send_command_def split: list.splits)

lemma acks_drain:
  assumes "kb_status s = AwaitingAcknowledgement cmd"
  shows "kb_run D (replicate (Suc (length (kb_queue s))) (Recv 0xFA)) s =
    Inr (s\<lparr>kb_written := kb_written s @ concat (map as_bytes (kb_queue s)), kb_status := Ready, kb_queue := []\<rparr>)"
  using assms
proof (induction "kb_queue s" arbitrary: s cmd)
  case Nil
  then show ?case by (simp add: recv_ack[OF Nil(2)] split: list.splits)
next
  case (Cons c q)
  let ?s = "s\<lparr>kb_written := kb_written s @ as_bytes c, kb_status := AwaitingAcknowledgement c, kb_queue := q\<rparr>"
  have "kb_run D (replicate (Suc (length q)) (Recv 0xFA)) ?s =
    Inr (?s\<lparr>kb_written := kb_written ?s @ concat (map as_bytes q), kb_status := Ready, kb_queue := []\<rparr>)"
    using Cons(1)[of ?s c] by simp
  then show ?case using Cons(2)[symmetric] by (simp add: recv_ack[OF Cons(3)])
qed

section \<open>What the driver does\<close>

text \<open>A decoder of one-byte codes, except that E0 starts a code of two bytes.\<close>

definition demo_decoder :: "(bool, 8 word, 8 word, unit) key_decoder" where
  "demo_decoder = \<lparr>add_byte = (\<lambda>d b. if b = 0xE0 then (True, Inr None) else (False, Inr (Some b))),
                   process_keyevent = (\<lambda>d ev. (d, Some ev))\<rparr>"



text \<open>While the keyboard acknowledges, the queue empties: from any state in which a command is outstanding, one
  acknowledgement for it and one for each queued command sends every queued command, in order and once each, and leaves the
  driver ready with an empty queue.  A command queued while a scan code is incomplete is not sent when the code completes: the
  driver is then ready with the command still in the queue.\<close>

theorem keyboard_queue_drains:
  "(kb_status s = AwaitingAcknowledgement cmd \<longrightarrow>
      kb_run D (replicate (Suc (length (kb_queue s))) (Recv 0xFA)) s =
      Inr (s\<lparr>kb_written := kb_written s @ concat (map as_bytes (kb_queue s)), kb_status := Ready, kb_queue := []\<rparr>)) \<and>
   (kb_status s = AwaitingScanCode \<and> add_byte D (kb_decoder s) b = (d, Inr (Some ev)) \<longrightarrow>
      (\<exists>s'. kb_run D [Queue free c, Recv b] s = Inr s' \<and> kb_status s' = Ready \<and> kb_queue s' = kb_queue s @ [c] \<and>
            kb_written s' = kb_written s))"
  using acks_drain[of s cmd D]
  by (auto simp: queue_command_def Let_def recv_next_byte_def send_next_command_if_ready_def recv_scan_byte_def
       split: prod.splits option.splits)

end
