(* ===== verification/Kernel_Log.thy ===== *)
theory Kernel_Log
  imports Kernel_Prelude
begin

text \<open>
  Logging and the panic handler (\<open>logging.rs\<close>, \<open>multitasking/econtext.rs\<close>, \<open>panic.rs\<close>).

  Text is a list of characters.  A log destination is a \<open>core::fmt::Write\<close> object, an argument of the definitions: a function
  that takes its state and a piece of text and says whether it wrote it.  What a call needs of the rest of the kernel (the CPU
  number, the executing task, the clock, the text of a panic) is an argument too.
\<close>

section \<open>Levels and contexts\<close>

datatype LogLevel = Debug | Info | Warning | Severe | Critical | Fatal

primrec level_code :: "LogLevel \<Rightarrow> nat" where
  "level_code Debug = 0"
| "level_code Info = 1"
| "level_code Warning = 2"
| "level_code Severe = 3"
| "level_code Critical = 4"
| "level_code Fatal = 5"

lemma level_code_inject [simp]: "level_code a = level_code b \<longleftrightarrow> a = b"
  by (cases a; cases b) simp_all

instantiation LogLevel :: linorder
begin

definition less_eq_LogLevel_def: "a \<le> b \<longleftrightarrow> level_code a \<le> level_code b"

definition less_LogLevel_def: "a < b \<longleftrightarrow> level_code a < level_code b"

instance
  by standard (auto simp: less_eq_LogLevel_def less_LogLevel_def)

end

primrec level_name :: "LogLevel \<Rightarrow> string" where
  "level_name Debug = ''DBG''"
| "level_name Info = ''INFO''"
| "level_name Warning = ''WARN''"
| "level_name Severe = ''SEVERE''"
| "level_name Critical = ''CRITICAL''"
| "level_name Fatal = ''FATAL ERROR''"

definition DEFAULT_MIN_LOG_LEVEL :: LogLevel where
  "DEFAULT_MIN_LOG_LEVEL = Info"

text \<open>The contexts in the order of their declarations: name, parent, and the level where one is given.\<close>

definition log_contexts :: "(string \<times> string \<times> LogLevel option) list" where
  "log_contexts = [
    (''BOOT'', ''ROOT'', None),
    (''MEMORY'', ''ROOT'', None),
    (''MEMORY_PAGING'', ''MEMORY'', None),
    (''MEMORY_PAGING_CONTEXT'', ''MEMORY_PAGING'', None),
    (''MEMORY_PAGING_GLOBALPAGES'', ''MEMORY_PAGING'', None),
    (''MEMORY_PAGING_ALLOCATOR'', ''MEMORY_PAGING'', None),
    (''MEMORY_PAGING_ALLOCATOR_MLFF'', ''MEMORY_PAGING_ALLOCATOR'', None),
    (''MEMORY_PAGING_MAPPINGS'', ''MEMORY_PAGING'', None),
    (''MEMORY_PAGING_TLB'', ''MEMORY_PAGING'', None),
    (''MEMORY_PAGING_TLB_APIC'', ''MEMORY_PAGING_TLB'', None),
    (''MEMORY_PAGING_TLB_RECUR'', ''MEMORY_PAGING_TLB'', Some Info),
    (''MEMORY_KHEAP'', ''MEMORY'', Some Debug),
    (''MEMORY_PHYSICAL'', ''MEMORY'', None),
    (''MEMORY_PHYSICAL_BUDDIES'', ''MEMORY_PHYSICAL'', Some Warning),
    (''MEMORY_PHYSICAL_RAMMAP'', ''MEMORY_PHYSICAL'', None),
    (''MEMORY_PHYSICAL_ALLOCATOR'', ''MEMORY_PHYSICAL'', Some Warning),
    (''MEMORY_ALLOCUTIL'', ''MEMORY'', None),
    (''MEMORY_UNIFIED'', ''MEMORY'', None),
    (''MEMORY_UNIFIED_EXPANSION'', ''MEMORY_UNIFIED'', None),
    (''MEMORY_UNIFIED_PAGEMAPPING'', ''MEMORY_UNIFIED'', None),
    (''FEATURE_FLAGS'', ''ROOT'', Some Debug),
    (''SCHEDULER'', ''ROOT'', None),
    (''CPU_MANAGEMENT'', ''ROOT'', None),
    (''CPU_MANAGEMENT_SMP'', ''CPU_MANAGEMENT'', None),
    (''COREDRIVERS'', ''ROOT'', None),
    (''COREDRIVERS_XAPIC'', ''COREDRIVERS'', None),
    (''COREDRIVERS_VGA'', ''COREDRIVERS'', None)]"

text \<open>A declared constant has the level given, or its parent's.\<close>

definition def_context :: "string \<times> string \<times> LogLevel option \<Rightarrow> (string \<rightharpoonup> LogLevel) \<Rightarrow> (string \<rightharpoonup> LogLevel)" where
  "def_context c env = (case c of (ident, parent, filter_level) \<Rightarrow>
     env(ident := (case filter_level of Some l \<Rightarrow> Some l | None \<Rightarrow> env parent)))"

definition context_level :: "string \<rightharpoonup> LogLevel" where
  "context_level = fold def_context log_contexts [''ROOT'' \<mapsto> DEFAULT_MIN_LOG_LEVEL]"

section \<open>Formatting\<close>

text \<open>Numbers are printed in decimal.\<close>

definition digit :: "nat \<Rightarrow> char" where
  "digit n = char_of (48 + n)"

definition is_digit :: "char \<Rightarrow> bool" where
  "is_digit c \<longleftrightarrow> 48 \<le> (of_char c :: nat) \<and> (of_char c :: nat) \<le> 57"

fun show_nat :: "nat \<Rightarrow> string" where
  "show_nat n = (if n < 10 then [digit n] else show_nat (n div 10) @ [digit (n mod 10)])"

declare show_nat.simps [simp del]

record ExecutionContext =
  ec_cpu_id :: nat
  ec_task_id :: "nat option"
  ec_scheduler_clock_ticks :: nat

definition display_context :: "ExecutionContext \<Rightarrow> string" where
  "display_context c = show_nat (ec_scheduler_clock_ticks c) @ ''t:'' @ '' CPU'' @ show_nat (ec_cpu_id c) @
     (case ec_task_id c of Some task \<Rightarrow> '' TASK '' @ show_nat task | None \<Rightarrow> '' SCHED'')"

definition format_log_message ::
  "ExecutionContext \<Rightarrow> LogLevel \<Rightarrow> string \<Rightarrow> string \<Rightarrow> string \<Rightarrow> nat \<Rightarrow> nat \<Rightarrow> string" where
  "format_log_message c level component msg file line column =
     ''['' @ level_name level @ ''] '' @ display_context c @ '': '' @ component @ '' - '' @ msg @
     '' ('' @ file @ '':'' @ show_nat line @ '':'' @ show_nat column @ '')''"

section \<open>The pipeline\<close>

record 'w LoggingPipeline =
  pl_formatter :: "LogLevel \<Rightarrow> string \<Rightarrow> string \<Rightarrow> string \<Rightarrow> nat \<Rightarrow> nat \<Rightarrow> string"
  pl_destinations :: "'w list"

text \<open>\<open>write!\<close> of a text and a line end stops at the first failure.\<close>

definition CRLF :: string where
  "CRLF = [char_of (13 :: nat), char_of (10 :: nat)]"

definition write_line :: "('w \<Rightarrow> string \<Rightarrow> 'w \<times> bool) \<Rightarrow> string \<Rightarrow> 'w \<Rightarrow> 'w" where
  "write_line W t w = (case W w t of (w', ok) \<Rightarrow> if ok then fst (W w' CRLF) else w')"

definition kernel_log ::
  "('w \<Rightarrow> string \<Rightarrow> 'w \<times> bool) \<Rightarrow> LogLevel \<Rightarrow> string \<Rightarrow> string \<Rightarrow> string \<Rightarrow> nat \<Rightarrow> nat \<Rightarrow> 'w LoggingPipeline \<Rightarrow> 'w LoggingPipeline" where
  "kernel_log W level component msg file line column p =
     (let formatted = pl_formatter p level component msg file line column
      in p\<lparr>pl_destinations := map (write_line W formatted) (pl_destinations p)\<rparr>)"

text \<open>The macro compares the codes of the level and of the context's constant; an undeclared context does not compile.\<close>

definition klog ::
  "('w \<Rightarrow> string \<Rightarrow> 'w \<times> bool) \<Rightarrow> LogLevel \<Rightarrow> string \<Rightarrow> string \<Rightarrow> string \<Rightarrow> nat \<Rightarrow> nat \<Rightarrow> 'w LoggingPipeline \<Rightarrow> 'w LoggingPipeline option" where
  "klog W level component msg file line column p = map_option (\<lambda>l.
     if level_code l \<le> level_code level then kernel_log W level component msg file line column p else p) (context_level component)"

text \<open>The emergency log takes the serial port by force: the state is whether its lock is held.\<close>

fun emergency_lock :: "nat \<Rightarrow> bool \<Rightarrow> bool option" where
  "emergency_lock 0 locked = None"
| "emergency_lock (Suc fuel) locked = (if locked then emergency_lock fuel False else Some True)"

section \<open>The panic handler\<close>

record panic_state =
  ps_aborting :: bool
  ps_panicking_cpu :: nat
  ps_serial :: "string list"
  ps_log :: "string list"

datatype panic_end = Halted | TaskTerminated | PanickedAgain

definition emergency_kernel_log :: "string \<Rightarrow> panic_state \<Rightarrow> panic_state" where
  "emergency_kernel_log msg s = s\<lparr>ps_serial := ps_serial s @ [msg]\<rparr>"

text \<open>One activation of the handler; the last line of the unrecoverable branch is a \<open>todo!()\<close>.\<close>

definition panic_handler :: "bool \<Rightarrow> bool \<Rightarrow> ExecutionContext \<Rightarrow> string \<Rightarrow> panic_state \<Rightarrow> panic_state \<times> panic_end" where
  "panic_handler recover executing_task c info s =
     (if ps_aborting s then
        ((if ps_panicking_cpu s = ec_cpu_id c
          then emergency_kernel_log (CRLF @ ''Aborting kernel panic handler due to secondary panic: '' @ info @ CRLF @
                 ''You're on your own from here.'' @ CRLF) s
          else s), Halted)
      else if recover \<and> executing_task then
        (s\<lparr>ps_log := ps_log s @ [''KERNEL PANIC at '' @ display_context c @ '' (task terminated): '' @ info]\<rparr>, TaskTerminated)
      else
        (let s1 = emergency_kernel_log (CRLF @ CRLF @ ''*** KERNEL PANIC on CPU '' @ show_nat (ec_cpu_id c) @
                    '' (unrecoverable): '' @ info @ CRLF) s;
             s2 = s1\<lparr>ps_aborting := True, ps_panicking_cpu := ec_cpu_id c\<rparr>;
             s3 = emergency_kernel_log (''Execution Context: '' @ display_context c @ CRLF) s2;
             s4 = emergency_kernel_log (CRLF @ ''End of kernel panic. Halting.'') s3
         in (s4, PanickedAgain)))"

text \<open>A panic in the handler enters it again on the same CPU, with the message of \<open>todo!()\<close>.\<close>

fun panic_run :: "nat \<Rightarrow> string \<Rightarrow> bool \<Rightarrow> bool \<Rightarrow> ExecutionContext \<Rightarrow> string \<Rightarrow> panic_state \<Rightarrow> (panic_state \<times> panic_end) option" where
  "panic_run 0 todo recover executing_task c info s = None"
| "panic_run (Suc fuel) todo recover executing_task c info s =
     (case panic_handler recover executing_task c info s of
        (s', PanickedAgain) \<Rightarrow> panic_run fuel todo recover executing_task c todo s'
      | r \<Rightarrow> Some r)"

section \<open>The declared contexts\<close>

text \<open>Every context is declared once, after its parent.\<close>

fun contexts_ok :: "string list \<Rightarrow> (string \<times> string \<times> LogLevel option) list \<Rightarrow> bool" where
  "contexts_ok known [] = True"
| "contexts_ok known ((ident, parent, level) # cs) =
     (ident \<notin> set known \<and> parent \<in> set known \<and> contexts_ok (ident # known) cs)"

definition inherits :: "(string \<rightharpoonup> LogLevel) \<Rightarrow> string \<times> string \<times> LogLevel option \<Rightarrow> bool" where
  "inherits env = (\<lambda>(ident, parent, level).
     env ident = (case level of Some l \<Rightarrow> Some l | None \<Rightarrow> env parent) \<and> env ident \<noteq> None)"

lemma fold_def_context_known:
  "contexts_ok known cs \<Longrightarrow> k \<in> set known \<Longrightarrow> fold def_context cs env k = env k"
proof (induction known cs arbitrary: env rule: contexts_ok.induct)
  case (2 known ident parent level cs)
  then have "fold def_context cs (def_context (ident, parent, level) env) k = def_context (ident, parent, level) env k" by auto
  then show ?case using 2 by (auto simp: def_context_def)
qed simp

lemma fold_def_context_inherits:
  "contexts_ok known cs \<Longrightarrow> set known \<subseteq> dom env \<Longrightarrow> list_all (inherits (fold def_context cs env)) cs"
proof (induction known cs arbitrary: env rule: contexts_ok.induct)
  case (2 known ident parent level cs)
  let ?env = "def_context (ident, parent, level) env" and ?final = "fold def_context cs (def_context (ident, parent, level) env)"
  have ok: "contexts_ok (ident # known) cs" and p: "parent \<in> set known" "ident \<noteq> parent" using 2(2) by auto
  have "env parent \<noteq> None" using p 2(3) by auto
  then have e: "?env ident \<noteq> None" by (simp add: def_context_def split: option.splits)
  then have "set (ident # known) \<subseteq> dom ?env" using 2(3) by (auto simp: def_context_def)
  then have "list_all (inherits ?final) cs" by (rule 2(1)[OF ok])
  moreover have "?final ident = ?env ident" "?final parent = ?env parent"
    using fold_def_context_known[OF ok] p by auto
  moreover have "?env ident = (case level of Some l \<Rightarrow> Some l | None \<Rightarrow> ?env parent)"
    using p by (cases level) (simp_all add: def_context_def)
  ultimately show ?case using e by (cases level) (simp_all add: inherits_def)
qed simp

lemma log_contexts_ok: "contexts_ok [''ROOT''] log_contexts"
  unfolding log_contexts_def by code_simp

lemma log_contexts_inherit: "list_all (inherits context_level) log_contexts"
  unfolding context_level_def by (rule fold_def_context_inherits[OF log_contexts_ok]) simp

section \<open>Reading what was printed\<close>

definition digit_value :: "char \<Rightarrow> nat" where
  "digit_value c = of_char c - 48"

definition read_nat :: "string \<Rightarrow> nat" where
  "read_nat s = foldl (\<lambda>n c. 10 * n + digit_value c) 0 s"

definition read_context :: "string \<Rightarrow> ExecutionContext" where
  "read_context s =
     (let ticks = takeWhile is_digit s;
          r = drop 6 (drop (length ticks) s);
          cpu = takeWhile is_digit r;
          task = drop (length cpu) r
      in \<lparr>ec_cpu_id = read_nat cpu, ec_task_id = (if task = '' SCHED'' then None else Some (read_nat (drop 6 task))),
          ec_scheduler_clock_ticks = read_nat ticks\<rparr>)"

lemma digit_facts:
  assumes "n < 10"
  shows "digit_value (digit n) = n" "is_digit (digit n)"
  using assms by (simp_all add: digit_value_def digit_def is_digit_def)

lemma read_show_nat [simp]: "read_nat (show_nat n) = n"
proof (induction n rule: show_nat.induct)
  case (1 n)
  then show ?case
    by (subst show_nat.simps) (auto simp: read_nat_def digit_facts)
qed

lemma show_nat_digits: "c \<in> set (show_nat n) \<Longrightarrow> is_digit c"
proof (induction n rule: show_nat.induct)
  case (1 n)
  then show ?case by (subst (asm) show_nat.simps) (auto simp: digit_facts split: if_splits)
qed

lemma takeWhile_show_nat: "\<not> is_digit c \<Longrightarrow> takeWhile is_digit (show_nat n @ c # r) = show_nat n"
  by (simp add: takeWhile_append2 show_nat_digits)

lemma non_digits: "\<not> is_digit CHR ''t''" "\<not> is_digit CHR '' ''"
  by (simp_all add: is_digit_def)

text \<open>Two rounds are enough to take the serial port, whoever held it.\<close>

lemma emergency_lock_total: "emergency_lock (Suc (Suc fuel)) locked = Some True"
  by simp

lemma panic_handler_run:
  "panic_run (Suc (Suc fuel)) todo recover executing_task c info s = Some (
     if ps_aborting s \<or> recover \<and> executing_task then panic_handler recover executing_task c info s
     else panic_handler recover executing_task c todo (fst (panic_handler recover executing_task c info s)))"
  by (simp add: panic_handler_def emergency_kernel_log_def Let_def)

section \<open>What logging and the panic handler do\<close>

text \<open>Every context the kernel declares has a level: the one it was declared with, or that of its parent, which is
  declared too; a message is written, formatted, once to each destination if its level is at least the level of its context,
  and is dropped otherwise.\<close>

theorem klog_filters_by_context:
  "list_all (\<lambda>(ident, parent, level). context_level ident = (case level of Some l \<Rightarrow> Some l | None \<Rightarrow> context_level parent) \<and>
      context_level ident \<noteq> None) log_contexts \<and>
   klog W level component msg file line column p =
     (case context_level component of None \<Rightarrow> None
      | Some l \<Rightarrow> Some (if l \<le> level
          then p\<lparr>pl_destinations := map (write_line W (pl_formatter p level component msg file line column)) (pl_destinations p)\<rparr>
          else p))"
  using log_contexts_inherit unfolding inherits_def
  by (simp add: klog_def kernel_log_def Let_def less_eq_LogLevel_def split: option.splits)

text \<open>The execution context printed in a log line can be read back: clock, CPU and task, or that none was executing.\<close>

theorem log_context_roundtrip: "read_context (display_context c) = c"
proof -
  obtain cpu task ticks where c: "c = \<lparr>ec_cpu_id = cpu, ec_task_id = task, ec_scheduler_clock_ticks = ticks\<rparr>" by (cases c)
  show ?thesis
    by (cases task)
      (simp_all add: c read_context_def display_context_def Let_def takeWhile_show_nat non_digits del: drop_drop)
qed


end
