(* ===== verification/Cpu_Features.thy ===== *)
theory Cpu_Features
  imports Kernel_Prelude
begin

text \<open>
  Selection of CPU features (\<open>cpu/arch/x86_64/featureflags.rs\<close>).

  The flag types of the control registers come from the \<open>x86_64\<close> crate and the feature reports from \<open>raw_cpuid\<close>: a register is
  the set of its flags, of which the ones the kernel names are constructors, and a report is a record of the answers the
  kernel asks for, absent when the CPU does not give it.  The features compiled in are an argument.  A failed check ends in a
  panic that carries the reasons.
\<close>

section \<open>Registers, reports and configuration\<close>

datatype cpu_flag = NO_EXECUTE_ENABLE | TRANSLATION_CACHE_EXTENSION | PAGE_GLOBAL | SUPERVISOR_MODE_EXECUTION_PROTECTION
  | WRITE_PROTECT | OtherFlag nat

record control_registers =
  efer :: "cpu_flag set"
  cr0 :: "cpu_flag set"
  cr4 :: "cpu_flag set"

record feature_info =
  has_pge :: bool
  has_apic :: bool

record extended_feature_info =
  has_smep :: bool

record extended_processor_info =
  has_execute_disable :: bool
  has_tce :: bool
  has_1gib_pages :: bool

record processor_capacity_info =
  has_invlpgb :: bool

record cpuid =
  cpuid_f :: "feature_info option"
  cpuid_ef :: "extended_feature_info option"
  cpuid_epfi :: "extended_processor_info option"
  cpuid_pcfi :: "processor_capacity_info option"

record build_features =
  per_page_NXE_bit :: bool
  enable_amd64_TCE :: bool
  page_global_bit :: bool
  huge_pages_1G :: bool
  enable_amd64_invlpgb :: bool

section \<open>The checks\<close>

record msr_work =
  eferflags :: "cpu_flag set"
  cr0flags :: "cpu_flag set"
  cr4flags :: "cpu_flag set"
  failed :: bool
  fail_reasons :: "string list"

definition incompatible :: "string \<Rightarrow> msr_work \<Rightarrow> msr_work" where
  "incompatible s w = w\<lparr>failed := True, fail_reasons := fail_reasons w @ [s]\<rparr>"

definition check_cpu_feature :: "'i option \<Rightarrow> ('i \<Rightarrow> bool) \<Rightarrow> bool" where
  "check_cpu_feature info fn = (case info of None \<Rightarrow> False | Some i \<Rightarrow> fn i)"

definition feature_check ::
  "bool \<Rightarrow> bool \<Rightarrow> (msr_work \<Rightarrow> msr_work) \<Rightarrow> (msr_work \<Rightarrow> msr_work) \<Rightarrow> msr_work \<Rightarrow> msr_work" where
  "feature_check enabled check success failure w = (if enabled then if check then success w else failure w else w)"

definition feature_missing :: "string \<Rightarrow> string \<Rightarrow> msr_work \<Rightarrow> msr_work" where
  "feature_missing feature common =
     incompatible (''Compiled with feature '' @ [CHR 0x27] @ feature @ [CHR 0x27] @ '', but '' @ common @ '' support is unavailable on this CPU!'')"

definition required_missing :: "string \<Rightarrow> msr_work \<Rightarrow> msr_work" where
  "required_missing common = incompatible (common @ '' support is required but not supported on this CPU!'')"

definition check_features :: "build_features \<Rightarrow> cpuid \<Rightarrow> msr_work \<Rightarrow> msr_work" where
  "check_features B c w0 =
    (let w1 = feature_check (per_page_NXE_bit B) (check_cpu_feature (cpuid_epfi c) has_execute_disable)
                (\<lambda>w. w\<lparr>eferflags := insert NO_EXECUTE_ENABLE (eferflags w)\<rparr>) (feature_missing ''per_page_NXE_bit'' ''per-page NX'') w0;
         w2 = feature_check (enable_amd64_TCE B) (check_cpu_feature (cpuid_epfi c) has_tce)
                (\<lambda>w. w\<lparr>eferflags := insert TRANSLATION_CACHE_EXTENSION (eferflags w)\<rparr>) id w1;
         w3 = feature_check (page_global_bit B) (check_cpu_feature (cpuid_f c) has_pge)
                (\<lambda>w. w\<lparr>cr4flags := insert PAGE_GLOBAL (cr4flags w)\<rparr>) (feature_missing ''page_global_bit'' ''Global Page Mappings'') w2;
         w4 = feature_check True (check_cpu_feature (cpuid_ef c) has_smep)
                (\<lambda>w. w\<lparr>cr4flags := insert SUPERVISOR_MODE_EXECUTION_PROTECTION (cr4flags w)\<rparr>) id w3;
         w5 = feature_check True True (\<lambda>w. w\<lparr>cr0flags := insert WRITE_PROTECT (cr0flags w)\<rparr>) (required_missing ''Ring 0 Write-Protect'') w4;
         w6 = feature_check (huge_pages_1G B) (check_cpu_feature (cpuid_epfi c) has_1gib_pages)
                id (feature_missing ''1G_huge_pages'' ''1GiB Huge Page'') w5;
         w7 = feature_check True (check_cpu_feature (cpuid_f c) has_apic) id (required_missing ''APIC'') w6
     in feature_check (enable_amd64_invlpgb B) (check_cpu_feature (cpuid_pcfi c) has_invlpgb) id id w7)"

text \<open>The flags stored for the other CPUs are set once; setting them again is ignored.\<close>

type_synonym stored_flags = "(cpu_flag set \<times> cpu_flag set) option"

definition init_msr ::
  "build_features \<Rightarrow> cpuid \<Rightarrow> stored_flags \<Rightarrow> control_registers \<Rightarrow> string list + (stored_flags \<times> control_registers)" where
  "init_msr B c st r =
    (let w = check_features B c \<lparr>eferflags = efer r, cr0flags = cr0 r, cr4flags = cr4 r, failed = False, fail_reasons = []\<rparr>
     in if failed w then Inl (fail_reasons w)
        else Inr (case st of None \<Rightarrow> Some (eferflags w, cr4flags w) | Some fs \<Rightarrow> Some fs,
                  r\<lparr>efer := eferflags w, cr0 := cr0flags w, cr4 := cr4flags w\<rparr>))"

definition init_msr_ap :: "stored_flags \<Rightarrow> control_registers \<Rightarrow> control_registers exec" where
  "init_msr_ap st r = exec_bind (unwrap st) (\<lambda>(e, c4). Inr (r\<lparr>efer := e, cr4 := c4\<rparr>))"

section \<open>What is switched on\<close>

text \<open>The features a build insists on, and the flags a build wants of what the CPU has.\<close>

definition demands :: "build_features \<Rightarrow> cpuid \<Rightarrow> (bool \<times> bool) list" where
  "demands B c =
    [(per_page_NXE_bit B, check_cpu_feature (cpuid_epfi c) has_execute_disable),
     (page_global_bit B, check_cpu_feature (cpuid_f c) has_pge),
     (huge_pages_1G B, check_cpu_feature (cpuid_epfi c) has_1gib_pages),
     (True, check_cpu_feature (cpuid_f c) has_apic)]"

definition unmet :: "build_features \<Rightarrow> cpuid \<Rightarrow> nat" where
  "unmet B c = length (filter (\<lambda>(wanted, present). wanted \<and> \<not> present) (demands B c))"

fun wanted :: "build_features \<Rightarrow> cpuid \<Rightarrow> cpu_flag \<Rightarrow> bool" where
  "wanted B c NO_EXECUTE_ENABLE = (per_page_NXE_bit B \<and> check_cpu_feature (cpuid_epfi c) has_execute_disable)"
| "wanted B c TRANSLATION_CACHE_EXTENSION = (enable_amd64_TCE B \<and> check_cpu_feature (cpuid_epfi c) has_tce)"
| "wanted B c PAGE_GLOBAL = (page_global_bit B \<and> check_cpu_feature (cpuid_f c) has_pge)"
| "wanted B c SUPERVISOR_MODE_EXECUTION_PROTECTION = check_cpu_feature (cpuid_ef c) has_smep"
| "wanted B c WRITE_PROTECT = True"
| "wanted B c (OtherFlag _) = False"

definition enabled_in :: "build_features \<Rightarrow> cpuid \<Rightarrow> cpu_flag set \<Rightarrow> cpu_flag set" where
  "enabled_in B c register = {f \<in> register. wanted B c f}"

text \<open>One check changes a register only by its flag, and fails only when the feature is wanted and missing.\<close>

named_theorems feature_simps "effect of one feature check"

lemma incompatible_fields [feature_simps]:
  "eferflags (incompatible s w) = eferflags w" "cr0flags (incompatible s w) = cr0flags w" "cr4flags (incompatible s w) = cr4flags w"
  "failed (incompatible s w)" "fail_reasons (incompatible s w) = fail_reasons w @ [s]"
  by (simp_all add: incompatible_def)

lemma feature_check_flags [feature_simps]:
  "(\<And>w. eferflags (F w) = eferflags w) \<Longrightarrow> eferflags (feature_check e k (\<lambda>w. w\<lparr>eferflags := insert X (eferflags w)\<rparr>) F w) =
     (if e \<and> k then {X} else {}) \<union> eferflags w"
  "(\<And>w. cr4flags (F w) = cr4flags w) \<Longrightarrow> cr4flags (feature_check e k (\<lambda>w. w\<lparr>cr4flags := insert X (cr4flags w)\<rparr>) F w) =
     (if e \<and> k then {X} else {}) \<union> cr4flags w"
  "(\<And>w. cr0flags (F w) = cr0flags w) \<Longrightarrow> cr0flags (feature_check e k (\<lambda>w. w\<lparr>cr0flags := insert X (cr0flags w)\<rparr>) F w) =
     (if e \<and> k then {X} else {}) \<union> cr0flags w"
  by (auto simp: feature_check_def)

lemma feature_check_other [feature_simps]:
  "(\<And>w. eferflags (S w) = eferflags w) \<Longrightarrow> (\<And>w. eferflags (F w) = eferflags w) \<Longrightarrow> eferflags (feature_check e k S F w) = eferflags w"
  "(\<And>w. cr4flags (S w) = cr4flags w) \<Longrightarrow> (\<And>w. cr4flags (F w) = cr4flags w) \<Longrightarrow> cr4flags (feature_check e k S F w) = cr4flags w"
  "(\<And>w. cr0flags (S w) = cr0flags w) \<Longrightarrow> (\<And>w. cr0flags (F w) = cr0flags w) \<Longrightarrow> cr0flags (feature_check e k S F w) = cr0flags w"
  by (simp_all add: feature_check_def)

lemma feature_check_failed [feature_simps]:
  "(\<And>w. failed (S w) = failed w) \<Longrightarrow> failed (feature_check e k S (incompatible s) w) \<longleftrightarrow> failed w \<or> e \<and> \<not> k"
  "(\<And>w. failed (S w) = failed w) \<Longrightarrow> failed (feature_check e k S id w) = failed w"
  "(\<And>w. fail_reasons (S w) = fail_reasons w) \<Longrightarrow>
     length (fail_reasons (feature_check e k S (incompatible s) w)) = length (fail_reasons w) + of_bool (e \<and> \<not> k)"
  "(\<And>w. fail_reasons (S w) = fail_reasons w) \<Longrightarrow> fail_reasons (feature_check e k S id w) = fail_reasons w"
  by (simp_all add: feature_check_def feature_simps)

lemma unmet_sum:
  "unmet B c = of_bool (per_page_NXE_bit B \<and> \<not> check_cpu_feature (cpuid_epfi c) has_execute_disable) +
     of_bool (page_global_bit B \<and> \<not> check_cpu_feature (cpuid_f c) has_pge) +
     of_bool (huge_pages_1G B \<and> \<not> check_cpu_feature (cpuid_epfi c) has_1gib_pages) +
     of_bool (\<not> check_cpu_feature (cpuid_f c) has_apic)"
  by (simp add: unmet_def demands_def)

lemma enabled_in_insert [feature_simps]:
  "enabled_in B c {} = {}" "enabled_in B c (insert X S) = (if wanted B c X then {X} else {}) \<union> enabled_in B c S"
  by (auto simp: enabled_in_def)

lemma check_features_flags:
  "eferflags (check_features B c w) = eferflags w \<union> enabled_in B c {NO_EXECUTE_ENABLE, TRANSLATION_CACHE_EXTENSION}"
  "cr4flags (check_features B c w) = cr4flags w \<union> enabled_in B c {PAGE_GLOBAL, SUPERVISOR_MODE_EXECUTION_PROTECTION}"
  "cr0flags (check_features B c w) = cr0flags w \<union> enabled_in B c {WRITE_PROTECT}"
  unfolding check_features_def feature_missing_def required_missing_def Let_def
  by (simp_all add: feature_simps Un_ac)

lemma check_features_failed:
  "length (fail_reasons (check_features B c w)) = length (fail_reasons w) + unmet B c"
  "failed (check_features B c w) \<longleftrightarrow> failed w \<or> unmet B c \<noteq> 0"
  unfolding check_features_def feature_missing_def required_missing_def Let_def unmet_sum
  by (simp_all add: feature_simps)

text \<open>C37: The boot CPU starts exactly when it has every feature the build insists on, and otherwise panics with one reason for
  each that is missing.  Then each control register gains exactly the flags the build wants and the CPU has, so no flag of a
  missing feature is ever written, and a CPU started later gets the same EFER and CR4; its CR0 stays as it was, so write
  protection is on only if it was on already.\<close>

theorem cpu_features_exact:
  "(case init_msr B c None r of
      Inl reasons \<Rightarrow> length reasons = unmet B c \<and> 0 < unmet B c
    | Inr (st, r') \<Rightarrow> unmet B c = 0 \<and>
        efer r' = efer r \<union> enabled_in B c {NO_EXECUTE_ENABLE, TRANSLATION_CACHE_EXTENSION} \<and>
        cr4 r' = cr4 r \<union> enabled_in B c {PAGE_GLOBAL, SUPERVISOR_MODE_EXECUTION_PROTECTION} \<and>
        cr0 r' = cr0 r \<union> {WRITE_PROTECT} \<and>
        init_msr_ap st a = Inr (a\<lparr>efer := efer r', cr4 := cr4 r'\<rparr>))"
  by (simp add: init_msr_def Let_def check_features_flags check_features_failed init_msr_ap_def feature_simps)

end
