(* ===== verification/Cpu_Local.thy ===== *)
theory Cpu_Local
  imports Kernel_Prelude
begin

text \<open>
  CPU-local values (\<open>multitasking/cpulocal.rs\<close>).

  A \<open>CpuLocal\<close> is a vector of optional pointers behind a readers-writer lock, one for each CPU number.  Boxes on the heap are
  numbered in the order of their creation; \<open>cl_home\<close> records for which CPU number each was made.  Everything done under one
  lock acquisition is one step; tasks interleave between the acquisitions.
\<close>

section \<open>The operations\<close>

record cpu_local =
  cl_pointers :: "nat option list"
  cl_home :: "nat list"

definition cpu_local_new :: cpu_local where
  "cpu_local_new = \<lparr>cl_pointers = [], cl_home = []\<rparr>"

text \<open>The loop pushes null pointers until the index is inside.\<close>

function push_empty :: "nat \<Rightarrow> nat option list \<Rightarrow> nat option list" where
  "push_empty i ps = (if length ps \<le> i then push_empty i (ps @ [None]) else ps)"
  by pat_completeness auto
termination by (relation "measure (\<lambda>(i, ps). Suc i - length ps)") auto

declare push_empty.simps [simp del]

definition initialise_empty :: "nat \<Rightarrow> cpu_local \<Rightarrow> cpu_local" where
  "initialise_empty i s = s\<lparr>cl_pointers := push_empty i (cl_pointers s)\<rparr>"

text \<open>A new default value in a box, stored in the vector.\<close>

definition store_default :: "nat \<Rightarrow> cpu_local \<Rightarrow> (cpu_local \<times> nat) exec" where
  "store_default i s = exec_bind (vec_set (cl_pointers s) i (Some (length (cl_home s))))
     (\<lambda>ps. Inr (\<lparr>cl_pointers = ps, cl_home = cl_home s @ [i]\<rparr>, length (cl_home s)))"

text \<open>One call that nothing interrupts.\<close>

definition get_for_inner :: "nat \<Rightarrow> cpu_local \<Rightarrow> (cpu_local \<times> nat) exec" where
  "get_for_inner i s =
     (let s1 = (if length (cl_pointers s) \<le> i then initialise_empty i s else s)
      in exec_bind (vec_get (cl_pointers s1) i) (\<lambda>item. case item of Some p \<Rightarrow> Inr (s1, p) | None \<Rightarrow> store_default i s1))"

fun taken :: "nat option list \<Rightarrow> nat list" where
  "taken [] = []"
| "taken (None # ps) = taken ps"
| "taken (Some p # ps) = p # taken ps"

text \<open>Dropping the cell frees what the vector points to.\<close>

definition cpu_local_drop :: "cpu_local \<Rightarrow> cpu_local \<times> nat list" where
  "cpu_local_drop s = (s\<lparr>cl_pointers := map (\<lambda>_. None) (cl_pointers s)\<rparr>, taken (cl_pointers s))"

section \<open>Interleaved calls\<close>

datatype cl_pc = Outside | Growing nat | Rereading nat | Storing nat | Got nat nat

definition found :: "nat \<Rightarrow> nat option \<Rightarrow> cl_pc" where
  "found i item = (case item of Some p \<Rightarrow> Got i p | None \<Rightarrow> Storing i)"

inductive cl_step :: "cpu_local \<times> (nat \<Rightarrow> cl_pc) \<Rightarrow> cpu_local \<times> (nat \<Rightarrow> cl_pc) \<Rightarrow> bool" where
  first_short: "pc t = Outside \<Longrightarrow> length (cl_pointers s) \<le> i \<Longrightarrow> cl_step (s, pc) (s, pc(t := Growing i))"
| first_read: "pc t = Outside \<Longrightarrow> i < length (cl_pointers s) \<Longrightarrow> cl_step (s, pc) (s, pc(t := found i (cl_pointers s ! i)))"
| grow: "pc t = Growing i \<Longrightarrow> cl_step (s, pc) (initialise_empty i s, pc(t := Rereading i))"
| reread: "pc t = Rereading i \<Longrightarrow> vec_get (cl_pointers s) i = Inr item \<Longrightarrow> cl_step (s, pc) (s, pc(t := found i item))"
| store: "pc t = Storing i \<Longrightarrow> store_default i s = Inr (s', p) \<Longrightarrow> cl_step (s, pc) (s', pc(t := Got i p))"
| finish: "pc t = Got i p \<Longrightarrow> cl_step (s, pc) (s, pc(t := Outside))"

inductive cl_reach :: "cpu_local \<times> (nat \<Rightarrow> cl_pc) \<Rightarrow> bool" where
  cl_start: "cl_reach (cpu_local_new, \<lambda>_. Outside)"
| cl_next: "cl_reach x \<Longrightarrow> cl_step x y \<Longrightarrow> cl_reach y"

text \<open>Every pointer leads to a box made for its own CPU number, and the vector is long enough where a task indexes it.\<close>

definition cl_ok :: "cpu_local \<Rightarrow> bool" where
  "cl_ok s \<longleftrightarrow> (\<forall>i p. i < length (cl_pointers s) \<longrightarrow> cl_pointers s ! i = Some p \<longrightarrow> p < length (cl_home s) \<and> cl_home s ! p = i)"

fun pc_ok :: "cpu_local \<Rightarrow> cl_pc \<Rightarrow> bool" where
  "pc_ok s (Rereading i) = (i < length (cl_pointers s))"
| "pc_ok s (Storing i) = (i < length (cl_pointers s))"
| "pc_ok s (Got i p) = (i < length (cl_pointers s) \<and> cl_pointers s ! i \<noteq> None \<and> p < length (cl_home s) \<and> cl_home s ! p = i)"
| "pc_ok s _ = True"

text \<open>The vector and the heap only grow.\<close>

definition cl_extends :: "cpu_local \<Rightarrow> cpu_local \<Rightarrow> bool" where
  "cl_extends s s' \<longleftrightarrow> length (cl_pointers s) \<le> length (cl_pointers s') \<and>
     (\<forall>i < length (cl_pointers s). cl_pointers s ! i \<noteq> None \<longrightarrow> cl_pointers s' ! i \<noteq> None) \<and>
     (\<exists>hs. cl_home s' = cl_home s @ hs)"

lemma push_empty_eq: "push_empty i ps = ps @ replicate (Suc i - length ps) None"
proof (induction i ps rule: push_empty.induct)
  case (1 i ps)
  then show ?case by (subst push_empty.simps) (auto simp: Suc_diff_le replicate_app_Cons_same)
qed

lemma initialise_empty_ok:
  assumes "cl_ok s"
  shows "cl_ok (initialise_empty i s)" "cl_extends s (initialise_empty i s)" "i < length (cl_pointers (initialise_empty i s))"
  using assms by (auto simp: cl_ok_def cl_extends_def initialise_empty_def push_empty_eq nth_append)

lemma store_default_ok:
  assumes "cl_ok s" and "i < length (cl_pointers s)"
  obtains s' p where "store_default i s = Inr (s', p)" "cl_ok s'" "cl_extends s s'" "pc_ok s' (Got i p)" "cl_pointers s' ! i = Some p"
proof
  let ?s = "\<lparr>cl_pointers = (cl_pointers s)[i := Some (length (cl_home s))], cl_home = cl_home s @ [i]\<rparr>"
  show "store_default i s = Inr (?s, length (cl_home s))" using assms(2) by (simp add: store_default_def vec_set_ok)
  show "cl_ok ?s" using assms by (auto simp: cl_ok_def nth_list_update nth_append)
  show "cl_extends s ?s" using assms(2) by (auto simp: cl_extends_def nth_list_update)
  show "pc_ok ?s (Got i (length (cl_home s)))" "cl_pointers ?s ! i = Some (length (cl_home s))" using assms(2) by auto
qed

lemma pc_ok_extends: "cl_extends s s' \<Longrightarrow> pc_ok s k \<Longrightarrow> pc_ok s' k"
  by (cases k) (auto simp: cl_extends_def nth_append)

lemma pc_ok_found: "cl_ok s \<Longrightarrow> i < length (cl_pointers s) \<Longrightarrow> pc_ok s (found i (cl_pointers s ! i))"
  by (auto simp: found_def cl_ok_def split: option.split)

lemma cl_extends_refl: "cl_extends s s"
  by (simp add: cl_extends_def)

lemma cl_step_ok:
  assumes "cl_step (s, pc) (s', pc')" and "cl_ok s" and "\<forall>t. pc_ok s (pc t)"
  shows "cl_ok s' \<and> (\<forall>t. pc_ok s' (pc' t)) \<and> cl_extends s s'"
  using assms(1)
proof (cases rule: cl_step.cases)
  case (grow t i)
  then show ?thesis using initialise_empty_ok[OF assms(2), of i] assms(3) pc_ok_extends by auto
next
  case (store t i p)
  then have i: "i < length (cl_pointers s)" using assms(3) by (metis pc_ok.simps(2))
  obtain s1 p1 where "store_default i s = Inr (s1, p1)" "cl_ok s1" "cl_extends s s1" "pc_ok s1 (Got i p1)"
    by (rule store_default_ok[OF assms(2) i])
  then show ?thesis using store assms(3) pc_ok_extends[of s s1] by auto
next
  case (reread t i item)
  then show ?thesis using assms(2,3) pc_ok_found[of s i] cl_extends_refl by (auto simp: vec_get_eq_Inr)
qed (use assms(2,3) pc_ok_found[of s] cl_extends_refl in auto)

lemma cl_reach_ok: "cl_reach x \<Longrightarrow> cl_ok (fst x) \<and> (\<forall>t. pc_ok (fst x) (snd x t))"
proof (induction rule: cl_reach.induct)
  case (cl_next x y)
  then show ?case using cl_step_ok[of "fst x" "snd x" "fst y" "snd y"] by simp
qed (simp add: cl_ok_def cpu_local_new_def)

text \<open>A call that nothing interrupts finds what an earlier one stored.\<close>

lemma get_for_inner_ok:
  assumes "cl_ok s"
  obtains s' p where "get_for_inner i s = Inr (s', p)" "cl_ok s'" "cl_extends s s'" "i < length (cl_pointers s')" "cl_pointers s' ! i = Some p"
proof -
  let ?s1 = "if length (cl_pointers s) \<le> i then initialise_empty i s else s"
  have s1: "cl_ok ?s1" "cl_extends s ?s1" and i: "i < length (cl_pointers ?s1)"
    using initialise_empty_ok[OF assms, of i] assms cl_extends_refl by auto
  show ?thesis
  proof (cases "cl_pointers ?s1 ! i")
    case None
    obtain s2 p where s2: "store_default i ?s1 = Inr (s2, p)" "cl_ok s2" "cl_extends ?s1 s2" "pc_ok s2 (Got i p)" "cl_pointers s2 ! i = Some p"
      by (rule store_default_ok[OF s1(1) i])
    have "get_for_inner i s = Inr (s2, p)" using None i s2(1) by (simp add: get_for_inner_def Let_def vec_get_ok)
    moreover have "cl_extends s s2" using s1(2) s2(3) unfolding cl_extends_def by fastforce
    ultimately show ?thesis using that s2 by auto
  next
    case (Some p)
    then have "get_for_inner i s = Inr (?s1, p)" using i by (simp add: get_for_inner_def Let_def vec_get_ok)
    then show ?thesis using that s1 i Some by blast
  qed
qed

lemma get_for_inner_again: "i < length (cl_pointers s) \<Longrightarrow> cl_pointers s ! i = Some p \<Longrightarrow> get_for_inner i s = Inr (s, p)"
  by (simp add: get_for_inner_def vec_get_ok)

text \<open>What dropping frees is distinct.\<close>

lemma taken_mem: "p \<in> set (taken ps) \<Longrightarrow> Some p \<in> set ps"
  by (induction ps rule: taken.induct) auto

lemma pointers_distinct: "cl_ok s \<Longrightarrow> distinct (taken (cl_pointers s))"
proof -
  assume ok: "cl_ok s"
  have "distinct (taken ps)" if "\<forall>i p. i < length ps \<longrightarrow> ps ! i = Some p \<longrightarrow> f p = i + k" for ps :: "nat option list" and f k
    using that
  proof (induction ps arbitrary: k)
    case (Cons a ps)
    have rest: "\<forall>i p. i < length ps \<longrightarrow> ps ! i = Some p \<longrightarrow> f p = i + Suc k" using Cons.prems by (metis Suc_less_eq add_Suc add_Suc_right length_Cons nth_Cons_Suc)
    have "p \<notin> set (taken ps)" if "a = Some p" for p
    proof
      assume "p \<in> set (taken ps)"
      then have "Some p \<in> set ps" by (rule taken_mem)
      then obtain i where "i < length ps" "ps ! i = Some p" by (metis in_set_conv_nth)
      then have "f p = i + Suc k" using rest by blast
      moreover have "f p = k" using Cons.prems[rule_format, of 0 p] that by simp
      ultimately show False by simp
    qed
    then show ?case using Cons.IH[OF rest] by (cases a) simp_all
  qed simp
  from this[of "cl_pointers s" "\<lambda>p. cl_home s ! p" 0] show ?thesis using ok by (simp add: cl_ok_def)
qed

text \<open>Two tasks that both see a null pointer each store a value.\<close>

lemma cl_race: "cl_reach (\<lparr>cl_pointers = [Some 1], cl_home = [0, 0]\<rparr>, (\<lambda>_. Outside)(0 := Got 0 0, 1 := Got 0 1))"
proof -
  let ?o = "\<lambda>_ :: nat. Outside" and ?s0 = "\<lparr>cl_pointers = [None], cl_home = []\<rparr>"
  have "cl_reach (cpu_local_new, ?o(0 := Growing 0))"
    by (rule cl_next[OF cl_start cl_step.first_short]) (simp_all add: cpu_local_new_def)
  then have "cl_reach (initialise_empty 0 cpu_local_new, (?o(0 := Growing 0))(0 := Rereading 0))"
    by (rule cl_next[OF _ cl_step.grow]) simp
  then have "cl_reach (?s0, ?o(0 := Rereading 0))"
    by (simp add: initialise_empty_def push_empty_eq cpu_local_new_def)
  then have "cl_reach (?s0, (?o(0 := Rereading 0))(0 := found 0 None))"
    by (rule cl_next[OF _ cl_step.reread]) (simp_all add: vec_get_def)
  then have "cl_reach (?s0, ?o(0 := Storing 0))" by (simp add: found_def)
  then have "cl_reach (?s0, (?o(0 := Storing 0))(1 := found 0 (cl_pointers ?s0 ! 0)))"
    by (rule cl_next[OF _ cl_step.first_read]) simp_all
  then have "cl_reach (?s0, ?o(0 := Storing 0, 1 := Storing 0))" by (simp add: found_def)
  then have "cl_reach (\<lparr>cl_pointers = [Some 0], cl_home = [0]\<rparr>, (?o(0 := Storing 0, 1 := Storing 0))(0 := Got 0 0))"
    by (rule cl_next[OF _ cl_step.store]) (simp_all add: store_default_def vec_set_def)
  then have "cl_reach (\<lparr>cl_pointers = [Some 1], cl_home = [0, 0]\<rparr>, ((?o(0 := Storing 0, 1 := Storing 0))(0 := Got 0 0))(1 := Got 0 1))"
    by (rule cl_next[OF _ cl_step.store]) (simp_all add: store_default_def vec_set_def)
  then show ?thesis by simp
qed

section \<open>What users of a CPU-local value see\<close>

text \<open>C38: However calls interleave, no access is out of bounds, a task is only ever given a live value made for the CPU number
  it asked for, so two CPU numbers never share one, and dropping the cell frees no value twice.  A call that nothing
  interrupts returns the same value again when repeated.  Tasks of one CPU can race for the first value, though: there is a
  reachable state in which two tasks were given different values for the same number, one of which the vector has lost.\<close>

theorem cpu_local_values:
  "(\<forall>s pc t. cl_reach (s, pc) \<longrightarrow> pc_ok s (pc t) \<and> cl_ok s \<and> distinct (snd (cpu_local_drop s)) \<and>
      (\<exists>s' p. get_for_inner i s = Inr (s', p) \<and> get_for_inner i s' = Inr (s', p) \<and> cl_home s' ! p = i)) \<and>
   (\<exists>s pc. cl_reach (s, pc) \<and> pc 0 = Got 0 0 \<and> pc 1 = Got 0 1 \<and> snd (cpu_local_drop s) = [1])"
proof (intro conjI allI impI)
  fix s pc t
  assume "cl_reach (s, pc)"
  then have ok: "cl_ok s" and pcs: "\<forall>t. pc_ok s (pc t)" using cl_reach_ok by fastforce+
  then show "pc_ok s (pc t)" "cl_ok s" by blast+
  show "distinct (snd (cpu_local_drop s))" using pointers_distinct[OF ok] by (simp add: cpu_local_drop_def)
  obtain s' p where s': "get_for_inner i s = Inr (s', p)" "cl_ok s'" "cl_extends s s'" "i < length (cl_pointers s')" "cl_pointers s' ! i = Some p"
    by (rule get_for_inner_ok[OF ok])
  then show "\<exists>s' p. get_for_inner i s = Inr (s', p) \<and> get_for_inner i s' = Inr (s', p) \<and> cl_home s' ! p = i"
    using get_for_inner_again[OF s'(4,5)] by (auto simp: cl_ok_def)
next
  show "\<exists>s pc. cl_reach (s, pc) \<and> pc 0 = Got 0 0 \<and> pc 1 = Got 0 1 \<and> snd (cpu_local_drop s) = [1]"
    by (intro exI conjI, rule cl_race) (simp_all add: cpu_local_drop_def)
qed

theorem cpu_local_values_witness:
  "\<exists>s' p. get_for_inner 3 cpu_local_new = Inr (s', p) \<and> get_for_inner 3 s' = Inr (s', p) \<and> cl_home s' ! p = 3"
  using cpu_local_values[of 3] cl_start by blast

end
