(* ===== verification/Processor_Start.thy ===== *)
theory Processor_Start
  imports Local_Apic
begin

text \<open>
  Interrupt set-up and the start of the secondary processors of the older kernel
  (\<open>rust_old/src/lowlevel/x86_64/interrupts.rs\<close>, \<open>rust_old/src/lowlevel/x86_64/smp.rs\<close> and \<open>_start_processors_task\<close> of
  \<open>rust_old/src/lib.rs\<close>), on top of the interrupt controller.

  What another processor does is an argument: the bootstrap stack that could be allocated, the values of the counter
  \<open>processors_started\<close> that the starting processor reads, and how often it has to poll.  The allocator of bootstrap stacks and the
  ACPI parser are not part of the model.  A polling loop that runs out of observed values has not returned (\<open>None\<close>).
\<close>

section \<open>Interrupt vectors and handlers\<close>

definition APIC_TIMER_VECTOR :: "8 word" where
  "APIC_TIMER_VECTOR = 0x20"

definition KERNEL_PANIC_VECTOR :: "8 word" where
  "KERNEL_PANIC_VECTOR = 0x21"

definition SPURIOUS_INTERRUPT_VECTOR :: "8 word" where
  "SPURIOUS_INTERRUPT_VECTOR = 0xFF"

datatype handler = page_fault_handler | gp_fault_handler | double_fault_handler | timer_handler | spurious_interrupt_handler
  | kernel_panic_interrupt

text \<open>The entries of the descriptor table; page faults, protection faults and double faults have the vectors 14, 13 and 8.\<close>

definition init_idt :: "8 word \<rightharpoonup> handler" where
  "init_idt = [14 \<mapsto> page_fault_handler, 13 \<mapsto> gp_fault_handler, 8 \<mapsto> double_fault_handler,
     APIC_TIMER_VECTOR \<mapsto> timer_handler, SPURIOUS_INTERRUPT_VECTOR \<mapsto> spurious_interrupt_handler,
     KERNEL_PANIC_VECTOR \<mapsto> kernel_panic_interrupt]"

text \<open>The timer handler runs the scheduler tick and then signals the end of the interrupt.\<close>

definition handle_interrupt :: "handler \<Rightarrow> ('s \<Rightarrow> 's) \<Rightarrow> apic_cpu \<Rightarrow> 's \<Rightarrow> mmio \<Rightarrow> ('s \<times> mmio) exec" where
  "handle_interrupt h scheduler_tick c s m = (case h of
     timer_handler \<Rightarrow> exec_bind (with_local_apic (\<lambda>apic. signal_eoi apic m) c) (\<lambda>m. Inr (scheduler_tick s, m))
   | spurious_interrupt_handler \<Rightarrow> Inr (s, m)
   | _ \<Rightarrow> Inl ExplicitPanic)"

definition init_xapic :: "apic_cpu \<Rightarrow> mmio \<Rightarrow> mmio exec" where
  "init_xapic c m = with_local_apic (\<lambda>apic.
     let m = set_spurious_vector SPURIOUS_INTERRUPT_VECTOR (siv apic) m;
         m = lvt_set_vector APIC_TIMER_VECTOR (lvt_timer apic) m;
         m = lvt_set_timer_mode Repeating (lvt_timer apic) m;
         m = lvt_set_masked False (lvt_timer apic) m
     in set_initial_count 500000 apic m) c"

section \<open>Starting one processor\<close>

text \<open>The address of the next stack, and the stack allocation waiting for its owner, if any.\<close>

record smp_state =
  next_processor_stack :: nat
  bootstrap_stack :: "nat option"

text \<open>What the starting processor observes.\<close>

record observed =
  kboot_stack :: "nat option"
  init_polls :: "64 word list"
  sipi_polls :: "nat \<Rightarrow> 64 word list"
  prev_started :: nat
  started_after :: "nat \<Rightarrow> nat"
  stack_taken :: bool

definition send_and_wait ::
  "MMIORegister64 \<Rightarrow> InterProcessorInterrupt \<Rightarrow> IPIDestination \<Rightarrow> 64 word list \<Rightarrow> mmio \<Rightarrow> mmio option exec" where
  "send_and_wait r ipi dest polls m = exec_bind (send_ipi r ipi dest polls m) (\<lambda>(m, polled). Inr (map_option (\<lambda>_. m) polled))"

text \<open>The start-up interrupt is sent up to three times; \<open>num_sent\<close> counts them and is at most three, so the loop ends.\<close>

function sipi_loop :: "MMIORegister64 \<Rightarrow> nat \<Rightarrow> 8 word \<Rightarrow> observed \<Rightarrow> nat \<Rightarrow> mmio \<Rightarrow> (mmio \<times> bool) option exec" where
  "sipi_loop r trampoline target e num_sent m =
     exec_bind (send_and_wait r (SIPI trampoline) (APICId target) (sipi_polls e num_sent) m) (\<lambda>sent. case sent of
       None \<Rightarrow> Inr None
     | Some m' \<Rightarrow>
         if prev_started e < started_after e num_sent then Inr (Some (m', True))
         else if 3 \<le> num_sent + 1 then Inr (Some (m', False))
         else sipi_loop r trampoline target e (num_sent + 1) m')"
  by pat_completeness auto
termination by (relation "measure (\<lambda>(r, tr, t, e, n, m). 3 - n)") auto

declare sipi_loop.simps [simp del]

text \<open>The started processor takes the address first and then the allocation.\<close>

definition take_next_processor_stack :: "smp_state \<Rightarrow> smp_state \<times> nat" where
  "take_next_processor_stack s = (s\<lparr>next_processor_stack := 0\<rparr>, next_processor_stack s)"

definition get_bootstrap_stack :: "smp_state \<Rightarrow> smp_state \<times> nat option" where
  "get_bootstrap_stack s = (s\<lparr>bootstrap_stack := None\<rparr>, bootstrap_stack s)"

text \<open>After a success the starting processor waits until both cells are clear, which only the started processor does.\<close>

definition start_processor_xapic ::
  "LocalAPIC \<Rightarrow> nat \<Rightarrow> 8 word \<Rightarrow> observed \<Rightarrow> smp_state \<Rightarrow> mmio \<Rightarrow> (smp_state \<times> mmio \<times> bool) option exec" where
  "start_processor_xapic apic trampoline target e s m = (case kboot_stack e of
     None \<Rightarrow> Inr (Some (s, m, False))
   | Some bottom \<Rightarrow>
       let s1 = s\<lparr>next_processor_stack := bottom, bootstrap_stack := Some bottom\<rparr>
       in exec_bind (send_and_wait (icr apic) INIT (APICId target) (init_polls e) m) (\<lambda>sent. case sent of
            None \<Rightarrow> Inr None
          | Some m1 \<Rightarrow> exec_bind (sipi_loop (icr apic) trampoline target e 0 m1) (\<lambda>r. case r of
              None \<Rightarrow> Inr None
            | Some (m2, False) \<Rightarrow> Inr (Some (s1, m2, False))
            | Some (m2, True) \<Rightarrow> Inr (if stack_taken e
                then Some (fst (get_bootstrap_stack (fst (take_next_processor_stack s1))), m2, True) else None))))"

definition emit_panic :: "apic_cpu \<Rightarrow> mmio \<Rightarrow> mmio exec" where
  "emit_panic c m = exec_bind (unwrap (the_apic c)) (\<lambda>apic. send_ipi_raw (icr apic) (Fixed KERNEL_PANIC_VECTOR) EveryoneButSelf m)"

section \<open>Starting all processors\<close>

datatype ProcessorState = Disabled | WaitingForSipi | Running

record processor_entry =
  local_apic_id :: nat
  pr_state :: ProcessorState

record start_counts =
  num_started :: nat
  num_skipped :: nat
  num_failed :: nat

text \<open>The task tries the processors in turn; \<open>start\<close> is the outcome of \<open>start_processor_xapic\<close> for an id.\<close>

definition start_one :: "(8 word \<Rightarrow> 's \<Rightarrow> 's \<times> bool) \<Rightarrow> processor_entry \<Rightarrow> start_counts \<times> 's \<Rightarrow> start_counts \<times> 's" where
  "start_one start p cs = (case cs of (c, s) \<Rightarrow>
     if 256 \<le> local_apic_id p then (c\<lparr>num_skipped := num_skipped c + 1\<rparr>, s)
     else if pr_state p = Disabled then (c\<lparr>num_skipped := num_skipped c + 1\<rparr>, s)
     else (case start (of_nat (local_apic_id p)) s of
         (s', True) \<Rightarrow> (c\<lparr>num_started := num_started c + 1\<rparr>, s')
       | (s', False) \<Rightarrow> (c\<lparr>num_failed := num_failed c + 1\<rparr>, s')))"

definition start_processors :: "(8 word \<Rightarrow> 's \<Rightarrow> 's \<times> bool) \<Rightarrow> processor_entry list \<Rightarrow> 's \<Rightarrow> start_counts \<times> 's" where
  "start_processors start ps s = fold (start_one start) ps (\<lparr>num_started = 0, num_skipped = 0, num_failed = 0\<rparr>, s)"

section \<open>What is sent\<close>

text \<open>The interrupts that a receiver reads from a list of register writes of a controller at \<open>base\<close>.\<close>

fun received :: "nat \<Rightarrow> (nat \<times> 32 word) list \<Rightarrow> (InterProcessorInterrupt \<times> IPIDestination) list" where
  "received base ((a, hi) # (b, lo) # ws) =
     (if a = base + 0x310 \<and> b = base + 0x300
      then (case sent_ipi lo of Some ipi \<Rightarrow> [(ipi, sent_dest hi lo)] | None \<Rightarrow> []) @ received base ws
      else received base ((b, lo) # ws))"
| "received base _ = []"

text \<open>The writes from \<open>m\<close> to \<open>m'\<close> sent exactly these interrupts.\<close>

definition sends :: "nat \<Rightarrow> mmio \<Rightarrow> mmio \<Rightarrow> (InterProcessorInterrupt \<times> IPIDestination) list \<Rightarrow> bool" where
  "sends base m m' ipis \<longleftrightarrow> (\<exists>ws. mm_writes m' = mm_writes m @ ws \<and> (\<forall>vs. received base (ws @ vs) = ipis @ received base vs))"

lemma sends_trans: "sends base m m1 xs \<Longrightarrow> sends base m1 m2 ys \<Longrightarrow> sends base m m2 (xs @ ys)"
  unfolding sends_def by (metis append_assoc)

lemma send_and_wait_sends:
  assumes "local_apic_new base = Inr apic" and "ipi_destructure ipi = Inr i" and "send_and_wait (icr apic) ipi dest polls m = Inr (Some m')"
  shows "sends base m m' [(ipi, dest)]"
proof -
  obtain m1 hi lo where s: "send_ipi_raw (icr apic) ipi dest m = Inr m1" "mm_writes m1 = mm_writes m @ [(base + 0x310, hi), (base + 0x300, lo)]"
    "sent_ipi lo = Some ipi" "sent_dest hi lo = dest"
    using send_ipi_raw_sends[OF assms(1,2), where m = m and dest = dest] by blast
  then have "m' = m1" using assms(3) by (auto simp: send_and_wait_def send_ipi_def)
  then show ?thesis using s by (simp add: sends_def)
qed

lemma send_and_wait_total:
  assumes "local_apic_new base = Inr apic" and "ipi_destructure ipi = Inr i"
  shows "\<exists>r. send_and_wait (icr apic) ipi dest polls m = Inr r"
  using send_ipi_raw_sends[OF assms, where m = m and dest = dest] by (auto simp: send_and_wait_def send_ipi_def)

text \<open>The round in which the counter rises, among those left.\<close>

definition rounds :: "observed \<Rightarrow> nat \<Rightarrow> nat" where
  "rounds e n = (if prev_started e < started_after e n \<or> 2 \<le> n then 1
     else if prev_started e < started_after e (n + 1) \<or> 1 \<le> n then 2 else 3)"

lemma sipi_loop_sends:
  assumes "local_apic_new base = Inr apic" and "ipi_destructure (SIPI tr) = Inr i"
  shows "sipi_loop (icr apic) tr target e n m = Inr (Some (m', ok)) \<Longrightarrow> n \<le> 2 \<Longrightarrow>
     sends base m m' (replicate (rounds e n) (SIPI tr, APICId target)) \<and> (ok \<longleftrightarrow> (\<exists>k. n \<le> k \<and> k \<le> 2 \<and> prev_started e < started_after e k))"
proof (induction "2 - n" arbitrary: n m)
  case 0
  then have n: "n = 2" by simp
  obtain m1 where m1: "send_and_wait (icr apic) (SIPI tr) (APICId target) (sipi_polls e n) m = Inr (Some m1)"
    and r: "m' = m1" "ok = (prev_started e < started_after e n)"
    using 0(2) by (subst (asm) sipi_loop.simps) (auto simp: exec_bind_eq_Inr n split: option.splits if_splits)
  show ?case using send_and_wait_sends[OF assms m1] r n by (auto simp: rounds_def dest: order_antisym)
next
  case (Suc d)
  obtain m1 where m1: "send_and_wait (icr apic) (SIPI tr) (APICId target) (sipi_polls e n) m = Inr (Some m1)"
    and r: "if prev_started e < started_after e n then m' = m1 \<and> ok
      else sipi_loop (icr apic) tr target e (n + 1) m1 = Inr (Some (m', ok))"
    using Suc(2,3) by (subst (asm) (2) sipi_loop.simps) (auto simp: exec_bind_eq_Inr split: option.splits if_splits)
  note s1 = send_and_wait_sends[OF assms m1]
  show ?case
  proof (cases "prev_started e < started_after e n")
    case True
    then show ?thesis using r s1 Suc(4) by (auto simp: rounds_def)
  next
    case False
    then have IH: "sends base m1 m' (replicate (rounds e (n + 1)) (SIPI tr, APICId target)) \<and>
        (ok \<longleftrightarrow> (\<exists>k. n + 1 \<le> k \<and> k \<le> 2 \<and> prev_started e < started_after e k))"
      using r Suc(1)[of "n + 1" m1] Suc(2) by simp
    have "rounds e n = Suc (rounds e (n + 1))" using False Suc(2) by (auto simp: rounds_def)
    then have "sends base m m' (replicate (rounds e n) (SIPI tr, APICId target))" using sends_trans[OF s1, of m'] IH by simp
    moreover have "(\<exists>k. n + 1 \<le> k \<and> k \<le> 2 \<and> prev_started e < started_after e k) \<longleftrightarrow> (\<exists>k. n \<le> k \<and> k \<le> 2 \<and> prev_started e < started_after e k)"
      using False by (metis Suc_eq_plus1 Suc_le_eq le_neq_implies_less less_imp_le)
    ultimately show ?thesis using IH by blast
  qed
qed

text \<open>The counts of the processors tried so far.\<close>

definition skips :: "processor_entry \<Rightarrow> bool" where
  "skips p \<longleftrightarrow> 256 \<le> local_apic_id p \<or> pr_state p = Disabled"

lemma start_processors_counts:
  "fold (start_one start) ps (c, s) = (c', s') \<Longrightarrow>
    num_skipped c' = num_skipped c + length (filter skips ps) \<and>
    num_started c' + num_failed c' = num_started c + num_failed c + length (filter (Not \<circ> skips) ps)"
proof (induction ps arbitrary: c s)
  case (Cons p ps)
  obtain c1 s1 where c1: "start_one start p (c, s) = (c1, s1)" by fastforce
  have "num_skipped c1 = num_skipped c + (if skips p then 1 else 0)"
    "num_started c1 + num_failed c1 = num_started c + num_failed c + (if skips p then 0 else 1)"
    using c1 by (auto simp: start_one_def skips_def split: if_splits prod.splits bool.splits)
  then show ?case using Cons.IH[of c1 s1] Cons.prems c1 by auto
qed simp

section \<open>The timer\<close>

lemma local_apic_timer:
  "local_apic_new base = Inr apic \<Longrightarrow> reg_addr (siv apic) = base + 0x0F0 \<and> reg_addr (lvt_timer apic) = base + 0x320 \<and>
     reg_addr (timer_initial apic) = base + 0x380 \<and> reg_addr (eoi apic) = base + 0x0B0"
  by (auto simp: local_apic_new_def exec_dests dest!: register32_new_ok)

text \<open>Each setting writes one register, and leaves the others as they are.\<close>

definition writes_only :: "MMIORegister32 \<Rightarrow> mmio \<Rightarrow> mmio \<Rightarrow> bool" where
  "writes_only r m m' \<longleftrightarrow> (\<exists>v. mm_writes m' = mm_writes m @ [(reg_addr r, v)]) \<and>
     (\<forall>r'. reg_addr r' \<noteq> reg_addr r \<longrightarrow> read_raw r' m' = read_raw r' m)"

lemma setting_writes_only:
  "writes_only r m (set_spurious_vector x r m)" "writes_only r m (lvt_set_vector x r m)" "writes_only r m (lvt_set_timer_mode mode r m)"
  "writes_only r m (lvt_set_masked b r m)" "writes_only (timer_initial apic) m (set_initial_count n apic m)"
  by (simp_all add: writes_only_def set_spurious_vector_def lvt_set_vector_def lvt_set_timer_mode_def lvt_set_masked_def
        set_initial_count_def update_bits_def Let_def write_raw_def write_volatile_def read_raw_def read_volatile_def)

lemma init_xapic_bits:
  assumes apic: "local_apic_new base = Inr apic" and c: "the_apic c = Some apic" and m': "init_xapic c m = Inr m'"
  shows "bit (read_raw (lvt_timer apic) m') n \<longleftrightarrow>
       (if n < 8 then bit APIC_TIMER_VECTOR n else if 16 \<le> n \<and> n < 19 then n = 17 else bit (read_raw (lvt_timer apic) m) n)"
    and "bit (read_raw (siv apic) m') n \<longleftrightarrow> (if n < 8 then bit SPURIOUS_INTERRUPT_VECTOR n else bit (read_raw (siv apic) m) n)"
    and "\<exists>ws. mm_writes m' = mm_writes m @ ws @ [(base + 0x380, 500000)]"
proof -
  let ?t = "lvt_timer apic"
  define m1 where "m1 = set_spurious_vector SPURIOUS_INTERRUPT_VECTOR (siv apic) m"
  define m2 where "m2 = lvt_set_vector APIC_TIMER_VECTOR ?t m1"
  define m3 where "m3 = lvt_set_timer_mode Repeating ?t m2"
  define m4 where "m4 = lvt_set_masked False ?t m3"
  have eq: "m' = set_initial_count 500000 apic m4"
    using m' c by (simp add: init_xapic_def with_local_apic_def Let_def m1_def m2_def m3_def m4_def)
  have w1: "writes_only (siv apic) m m1" and w2: "writes_only ?t m1 m2" and w3: "writes_only ?t m2 m3" and w4: "writes_only ?t m3 m4"
    and w5: "writes_only (timer_initial apic) m4 m'"
    unfolding m1_def m2_def m3_def m4_def eq by (rule setting_writes_only)+
  note addrs = local_apic_timer[OF apic]
  have t: "read_raw ?t m' = read_raw ?t m4" "read_raw ?t m1 = read_raw ?t m" using w5 w1 addrs by (auto simp: writes_only_def)
  have one: "bit (timer_bits Repeating) (n - 17) \<longleftrightarrow> n \<le> 17" if "17 \<le> n" using that by (simp add: bit_1_iff)
  show "bit (read_raw ?t m') n \<longleftrightarrow>
       (if n < 8 then bit APIC_TIMER_VECTOR n else if 16 \<le> n \<and> n < 19 then n = 17 else bit (read_raw ?t m) n)"
    unfolding t(1) m4_def m3_def m2_def using one by (simp add: field_bits t(2))
  have "read_raw (siv apic) m' = read_raw (siv apic) m1" using w2 w3 w4 w5 addrs by (simp add: writes_only_def)
  then show "bit (read_raw (siv apic) m') n \<longleftrightarrow> (if n < 8 then bit SPURIOUS_INTERRUPT_VECTOR n else bit (read_raw (siv apic) m) n)"
    by (simp add: m1_def field_bits)
  have "mm_writes m' = mm_writes m4 @ [(base + 0x380, 500000)]"
    using addrs by (simp add: eq set_initial_count_def write_raw_def write_volatile_def)
  moreover obtain ws where "mm_writes m4 = mm_writes m @ ws" using w1 w2 w3 w4 by (force simp: writes_only_def)
  ultimately show "\<exists>ws. mm_writes m' = mm_writes m @ ws @ [(base + 0x380, 500000)]" by simp
qed

section \<open>Properties\<close>

lemma sipi_loop_total:
  assumes "local_apic_new base = Inr apic" and "ipi_destructure (SIPI tr) = Inr i"
  shows "\<exists>r. sipi_loop (icr apic) tr target e n m = Inr r"
proof (induction "3 - n" arbitrary: n m rule: less_induct)
  case less
  obtain x where x: "send_and_wait (icr apic) (SIPI tr) (APICId target) (sipi_polls e n) m = Inr x"
    using send_and_wait_total[OF assms] by blast
  have "\<exists>r. sipi_loop (icr apic) tr target e (n + 1) m1 = Inr r" if "n + 1 < 3" for m1 using less[of "n + 1" m1] that by simp
  then show ?case using x by (subst sipi_loop.simps) (auto split: option.split)
qed

text \<open>C39: Starting a processor, when its polling ends, sends it one INIT and then one start-up interrupt with the given
  trampoline address for each round up to the first in which the counter of started processors has risen, three at most;
  nothing is sent to anyone else.  It succeeds exactly when the counter rose in one of the three rounds, and never panics for a
  page-aligned trampoline below 1 MiB.\<close>

theorem start_processor_protocol:
  assumes "local_apic_new base = Inr apic" and "tr mod 4096 = 0" and "tr < 0x100000"
  shows "(\<exists>r. start_processor_xapic apic tr target e s m = Inr r) \<and>
    (\<forall>s' m' ok. start_processor_xapic apic tr target e s m = Inr (Some (s', m', ok)) \<longrightarrow>
       (case kboot_stack e of None \<Rightarrow> m' = m \<and> s' = s \<and> \<not> ok
        | Some bottom \<Rightarrow> sends base m m' ((INIT, APICId target) # replicate (rounds e 0) (SIPI tr, APICId target)) \<and>
          (ok \<longleftrightarrow> (\<exists>k. k \<le> 2 \<and> prev_started e < started_after e k)) \<and>
          bootstrap_stack s' = (if ok then None else Some bottom)))"
proof (cases "kboot_stack e")
  case (Some bottom)
  have "tr div 4096 < 256" using assms(3) by (simp add: less_mult_imp_div_less)
  then obtain i where tr: "ipi_destructure (SIPI tr) = Inr i" using assms(2) by simp
  have init: "ipi_destructure INIT = Inr (5, 0)" by simp
  obtain x where x: "send_and_wait (icr apic) INIT (APICId target) (init_polls e) m = Inr x"
    using send_and_wait_total[OF assms(1) init] by blast
  show ?thesis
  proof (cases x)
    case None
    then show ?thesis using Some x by (simp add: start_processor_xapic_def)
  next
    case x1: (Some m1)
    obtain y where y: "sipi_loop (icr apic) tr target e 0 m1 = Inr y" using sipi_loop_total[OF assms(1) tr] by blast
    show ?thesis
    proof (cases y)
      case None
      then show ?thesis using Some x x1 y by (simp add: start_processor_xapic_def)
    next
      case y1: (Some z)
      obtain m2 ok where z: "z = (m2, ok)" by (cases z)
      note l = sipi_loop_sends[OF assms(1) tr y[unfolded y1 z]]
      have "sends base m m2 ((INIT, APICId target) # replicate (rounds e 0) (SIPI tr, APICId target))"
        using sends_trans[OF send_and_wait_sends[OF assms(1) init x[unfolded x1]], of m2] l by simp
      then show ?thesis using Some x x1 y y1 z l
        by (cases ok) (auto simp: start_processor_xapic_def get_bootstrap_stack_def)
    qed
  qed
qed (auto simp: start_processor_xapic_def)

definition demo_observed :: observed where
  "demo_observed = \<lparr>kboot_stack = Some 0x40000, init_polls = [0x1000, 0], sipi_polls = (\<lambda>_. [0]), prev_started = 1,
     started_after = (\<lambda>k. if k = 0 then 1 else 2), stack_taken = True\<rparr>"

theorem start_processor_protocol_witness:
  "\<exists>apic s' m'. local_apic_new 0xFEE00000 = Inr apic \<and>
     start_processor_xapic apic 0x8000 3 demo_observed \<lparr>next_processor_stack = 0, bootstrap_stack = None\<rparr> \<lparr>mm_value = (\<lambda>_. 0), mm_writes = []\<rparr> =
       Inr (Some (s', m', True)) \<and>
     sends 0xFEE00000 \<lparr>mm_value = (\<lambda>_. 0), mm_writes = []\<rparr> m' [(INIT, APICId 3), (SIPI 0x8000, APICId 3), (SIPI 0x8000, APICId 3)]"
proof -
  let ?s = "\<lparr>next_processor_stack = 0, bootstrap_stack = None\<rparr>" and ?m = "\<lparr>mm_value = (\<lambda>_. 0), mm_writes = []\<rparr>"
  obtain apic where a: "local_apic_new 0xFEE00000 = Inr apic"
    by (simp add: local_apic_new_def register32_new_def register64_new_def exec_simps usize_limit_def)
  have "\<exists>s' m'. start_processor_xapic apic 0x8000 3 demo_observed ?s ?m = Inr (Some (s', m', True))"
    by (simp add: start_processor_xapic_def demo_observed_def send_and_wait_def send_ipi_def send_ipi_raw_def ipi_pending_def
          sipi_loop.simps[where num_sent = 0] sipi_loop.simps[where num_sent = "Suc 0"])
  then show ?thesis
    using start_processor_protocol[OF a, where tr = "0x8000" and target = 3 and e = demo_observed and s = ?s and m = ?m] a
    by (auto simp: demo_observed_def rounds_def numeral_2_eq_2)
qed

text \<open>C40: Setting up the interrupt controller leaves the timer entry with the timer vector, periodic and unmasked, and its other
  bits as they were, sets the spurious vector and starts the timer with the last write of all, so it never counts while half
  configured.  A timer interrupt then runs the scheduler tick once and signals the end of the interrupt once, and a spurious
  interrupt signals nothing; every other handler panics.\<close>

theorem timer_interrupts_set_up:
  assumes "local_apic_new base = Inr apic" and "the_apic c = Some apic"
  shows "(\<exists>m'. init_xapic c m = Inr m' \<and>
      (bit (read_raw (lvt_timer apic) m') n \<longleftrightarrow>
         (if n < 8 then bit APIC_TIMER_VECTOR n else if 16 \<le> n \<and> n < 19 then n = 17 else bit (read_raw (lvt_timer apic) m) n)) \<and>
      (bit (read_raw (siv apic) m') n \<longleftrightarrow> (if n < 8 then bit SPURIOUS_INTERRUPT_VECTOR n else bit (read_raw (siv apic) m) n)) \<and>
      (\<exists>ws. mm_writes m' = mm_writes m @ ws @ [(base + 0x380, 500000)])) \<and>
    (\<forall>v h. init_idt v = Some h \<longrightarrow> (case handle_interrupt h tick c s m of
       Inr (s', m') \<Rightarrow> if v = APIC_TIMER_VECTOR then s' = tick s \<and> mm_writes m' = mm_writes m @ [(base + 0x0B0, 0)]
                        else v = SPURIOUS_INTERRUPT_VECTOR \<and> s' = s \<and> m' = m
     | Inl _ \<Rightarrow> v \<notin> {APIC_TIMER_VECTOR, SPURIOUS_INTERRUPT_VECTOR}))"
proof (intro conjI allI impI)
  obtain m' where m': "init_xapic c m = Inr m'" using assms(2) by (simp add: init_xapic_def with_local_apic_def)
  then show "\<exists>m'. init_xapic c m = Inr m' \<and>
      (bit (read_raw (lvt_timer apic) m') n \<longleftrightarrow>
         (if n < 8 then bit APIC_TIMER_VECTOR n else if 16 \<le> n \<and> n < 19 then n = 17 else bit (read_raw (lvt_timer apic) m) n)) \<and>
      (bit (read_raw (siv apic) m') n \<longleftrightarrow> (if n < 8 then bit SPURIOUS_INTERRUPT_VECTOR n else bit (read_raw (siv apic) m) n)) \<and>
      (\<exists>ws. mm_writes m' = mm_writes m @ ws @ [(base + 0x380, 500000)])"
    using init_xapic_bits[OF assms m'] by blast
next
  fix v h
  assume h: "init_idt v = Some h"
  have "\<forall>v. h = timer_handler \<longrightarrow> init_idt v = Some h \<longrightarrow> v = APIC_TIMER_VECTOR" "\<forall>v. h = spurious_interrupt_handler \<longrightarrow> init_idt v = Some h \<longrightarrow> v = SPURIOUS_INTERRUPT_VECTOR"
    by (simp_all add: init_idt_def)
  moreover have "init_idt APIC_TIMER_VECTOR = Some timer_handler" "init_idt SPURIOUS_INTERRUPT_VECTOR = Some spurious_interrupt_handler"
    by (simp_all add: init_idt_def APIC_TIMER_VECTOR_def KERNEL_PANIC_VECTOR_def SPURIOUS_INTERRUPT_VECTOR_def)
  ultimately show "case handle_interrupt h tick c s m of
       Inr (s', m') \<Rightarrow> if v = APIC_TIMER_VECTOR then s' = tick s \<and> mm_writes m' = mm_writes m @ [(base + 0x0B0, 0)]
                        else v = SPURIOUS_INTERRUPT_VECTOR \<and> s' = s \<and> m' = m
     | Inl _ \<Rightarrow> v \<notin> {APIC_TIMER_VECTOR, SPURIOUS_INTERRUPT_VECTOR}"
    using h assms(2) local_apic_timer[OF assms(1)]
    by (cases h) (auto simp: handle_interrupt_def with_local_apic_def signal_eoi_def write_raw_def write_volatile_def)
qed

theorem timer_interrupts_set_up_witness:
  "\<exists>apic m'. local_apic_new 0xFEE00000 = Inr apic \<and>
     init_xapic \<lparr>the_apic = Some apic, the_apic_id = Some 0\<rparr> \<lparr>mm_value = (\<lambda>_. 0x10000), mm_writes = []\<rparr> = Inr m' \<and>
     bit (read_raw (lvt_timer apic) m') 17"
proof -
  obtain apic where a: "local_apic_new 0xFEE00000 = Inr apic"
    by (simp add: local_apic_new_def register32_new_def register64_new_def exec_simps usize_limit_def)
  show ?thesis
    using timer_interrupts_set_up[OF a, where c = "\<lparr>the_apic = Some apic, the_apic_id = Some 0\<rparr>" and n = 17 and
        m = "\<lparr>mm_value = (\<lambda>_. 0x10000), mm_writes = []\<rparr>" and tick = id and s = "()"] a
    by auto
qed

text \<open>The boot processor tries every listed processor once: those whose id does not fit in a byte or that are disabled are
  counted as skipped, and each other one is counted as started or as failed.\<close>

theorem processors_all_tried:
  "case start_processors start ps s of (c, s') \<Rightarrow>
     num_skipped c = length (filter (\<lambda>p. 256 \<le> local_apic_id p \<or> pr_state p = Disabled) ps) \<and>
     num_started c + num_skipped c + num_failed c = length ps"
proof -
  obtain c s' where c: "start_processors start ps s = (c, s')" by fastforce
  have "length (filter skips ps) + length (filter (Not \<circ> skips) ps) = length ps"
    using sum_length_filter_compl[of skips ps] by (simp add: comp_def)
  then show ?thesis using start_processors_counts[OF c[unfolded start_processors_def]] c
    by (simp add: skips_def[abs_def])
qed

end
