(* ===== verification/Page_Absent.thy ===== *)
theory Page_Absent
  imports Page_Mapping
begin

text \<open>
  What marking an allocation absent does to the tables (\<open>set_absent\<close> of \<open>memory/paging/api.rs\<close>), by the same
  induction over the levels as for mapping.  \<open>mlff_view\<close> is what the entries say about a byte: the address they translate it
  to, and the data of an absent page.
\<close>

definition entry_says :: "nat \<Rightarrow> nat \<Rightarrow> (nat + (nat \<times> PageFlags)) option \<Rightarrow> nat option \<times> nat option" where
  "entry_says ps r e = (case e of None \<Rightarrow> (None, None) | Some (Inl d) \<Rightarrow> (None, Some d)
     | Some (Inr (p, fl)) \<Rightarrow> (if p mod ps = 0 then Some (p + r) else None, None))"

definition mlff_view :: "('t, 's) mlff_type \<Rightarrow> 't entry_view \<Rightarrow> ('s \<Rightarrow> nat \<Rightarrow> nat option \<times> nat option)
    \<Rightarrow> ('t, 's) MLFFAllocator \<Rightarrow> nat \<Rightarrow> nat option \<times> nat option" where
  "mlff_view M entry sview a x = (let i = x div mlff_PAGE_SIZE M; r = x mod mlff_PAGE_SIZE M in
     if i < 512 then (case suballocators a ! i of
         Some st \<Rightarrow> sview st r
       | None \<Rightarrow> entry_says (mlff_PAGE_SIZE M) r (entry (mlff_table a) i))
     else (None, None))"

lemma view_leaf: "(\<And>st r. fst (sview st r) = sleaf st r) \<Longrightarrow> fst (mlff_view M entry sview a x) = mlff_leaf M entry sleaf a x"
  by (auto simp: mlff_view_def mlff_leaf_def entry_says_def Let_def split: option.splits sum.splits)

locale page_marker = page_frame_allocator A ok occ fresh live fits
  for A :: "'a pfa" and ok occ fresh live fits +
  fixes W :: "'a pfa_walk" and view :: "'a \<Rightarrow> nat \<Rightarrow> nat option \<times> nat option"
  assumes set_missing_ok: "ok a \<Longrightarrow> live a al \<Longrightarrow> 0 < d \<Longrightarrow> d < 2 ^ 63 \<Longrightarrow>
    \<exists>a'. pw_set_missing W a al off d = Inr a' \<and> ok a' \<and> occ a' = occ a \<and> live a' = live a
      \<and> (\<forall>x. view a' x = (if x \<in> covers al then (None, Some d) else view a x))"

locale first_fit_mark = first_fit_map M tok entry sok socc sfresh slive sfits SW sleaf
  for M :: "('t, 's) mlff_type" and tok :: "'t \<Rightarrow> bool" and entry :: "'t entry_view" and sok socc sfresh slive sfits SW sleaf +
  fixes sview :: "'s \<Rightarrow> nat \<Rightarrow> nat option \<times> nat option"
  assumes sub_mark: "SUBTABLES M \<Longrightarrow> page_marker (mt_sub M) sok socc sfresh slive sfits SW sview"
begin

abbreviation aview where "aview \<equiv> mlff_view M entry sview"

text \<open>The first loop marks the entries of whole pages.\<close>

definition mark_entries :: "nat \<Rightarrow> nat \<Rightarrow> PAllocItem list \<Rightarrow> 't \<Rightarrow> 't exec" where
  "mark_entries d = foreach_entries (\<lambda>i off t. pt_set_absent (mt_table M) t i d) (\<lambda>i off t. Inr t)"

lemma mark_entries_ok:
  assumes "tok t" and "\<And>i off. Page i off \<in> set xs \<Longrightarrow> i < 512" and "0 < d" and "d < 2 ^ 63"
  shows "\<exists>t'. mark_entries d po xs t = Inr t' \<and> tok t' \<and>
     (\<forall>j. entry t' j = (if \<exists>off. Page j off \<in> set xs then Some (Inl d) else entry t j))"
  using assms(1,2)
proof (induction xs arbitrary: t)
  case (Cons x xs)
  have "\<exists>t1. mark_entries d po (x # xs) t = mark_entries d po xs t1 \<and> tok t1 \<and>
      (\<forall>j. entry t1 j = (if \<exists>off. x = Page j off then Some (Inl d) else entry t j))"
  proof (cases x)
    case (Page i off)
    then show ?thesis using table.set_absent_ok[OF Cons.prems(1) _ assms(3,4), of i] Cons.prems(2)[of i off] by (auto simp: mark_entries_def)
  qed (auto simp: mark_entries_def Cons.prems(1))
  then obtain t1 where t1: "mark_entries d po (x # xs) t = mark_entries d po xs t1" "tok t1"
    "\<forall>j. entry t1 j = (if \<exists>off. x = Page j off then Some (Inl d) else entry t j)" by blast
  show ?case using Cons.IH[OF t1(2)] Cons.prems(2) t1(1,3) by force
qed (simp add: mark_entries_def)

text \<open>The second loop marks the parts inside sub-tables.\<close>

definition sub_marked :: "nat \<Rightarrow> PAllocItem list \<Rightarrow> nat \<Rightarrow> 's option \<Rightarrow> 's option \<Rightarrow> bool" where
  "sub_marked d xs j s s' \<longleftrightarrow> (case s of None \<Rightarrow> s' = None | Some st \<Rightarrow> \<exists>st'. s' = Some st' \<and> (sok st \<longrightarrow> sok st') \<and> socc st' = socc st \<and> slive st' = slive st \<and>
     (\<forall>y. sview st' y = (if touched j xs y then (None, Some d) else sview st y)))"

lemma sub_marked_refl: "(\<And>off al. SubTable j off al \<notin> set xs) \<Longrightarrow> sub_marked d xs j s s"
  by (auto simp: sub_marked_def touched_def split: option.splits)

lemma sub_marked_trans: "sub_marked d [x] j s s1 \<Longrightarrow> sub_marked d xs j s1 s2 \<Longrightarrow> sub_marked d (x # xs) j s s2"
  by (cases s) (auto simp: sub_marked_def touched_cons[of j x xs])

definition mark_subs :: "nat \<Rightarrow> nat \<Rightarrow> PAllocItem list \<Rightarrow> ('t, 's) MLFFAllocator \<Rightarrow> ('t, 's) MLFFAllocator exec" where
  "mark_subs d = foreach_subs M (\<lambda>st al off. pw_set_missing SW st al off d)"

lemma mark_subs_cons: "mark_subs d po (x # xs) a = exec_bind (mark_subs d po [x] a) (mark_subs d po xs)"
  by (cases x) (simp_all add: mark_subs_def exec_bind_assoc)

definition sub_there :: "('t, 's) MLFFAllocator \<Rightarrow> PAllocItem \<Rightarrow> bool" where
  "sub_there a x \<longleftrightarrow> (case x of Page i off \<Rightarrow> True | SubTable i off al \<Rightarrow> SUBTABLES M \<and> i < 512 \<and>
     (\<exists>st. suballocators a ! i = Some st \<and> sok st \<and> slive st al))"

lemma mark_sub_ok:
  assumes "length (suballocators a) = 512" and "sub_there a x" and "0 < d" and "d < 2 ^ 63"
  shows "\<exists>a'. mark_subs d po [x] a = Inr a' \<and> a' = a\<lparr>suballocators := suballocators a'\<rparr> \<and> length (suballocators a') = 512 \<and>
     (\<forall>j<512. sub_marked d [x] j (suballocators a ! j) (suballocators a' ! j))"
proof (cases x)
  case (Page i off)
  then show ?thesis using assms(1) by (auto simp: mark_subs_def intro: sub_marked_refl)
next
  case (SubTable i off al)
  then obtain st where st: "SUBTABLES M" "i < 512" "suballocators a ! i = Some st" "sok st" "slive st al"
    using assms(2) by (auto simp: sub_there_def)
  obtain st' where st': "pw_set_missing SW st al (po + off) d = Inr st'" "sok st'" "socc st' = socc st" "slive st' = slive st"
    "\<forall>y. sview st' y = (if y \<in> covers al then (None, Some d) else sview st y)"
    using page_marker.set_missing_ok[OF sub_mark[OF st(1)] st(4,5) assms(3,4)] by blast
  let ?a = "a\<lparr>suballocators := (suballocators a)[i := Some st']\<rparr>"
  have "mark_subs d po [x] a = Inr ?a"
    using SubTable st st' assms(1) by (simp add: mark_subs_def get_suballocator_mut_def vec_get_ok put_sub_def vec_set_ok)
  moreover have "sub_marked d [x] j (suballocators a ! j) (suballocators ?a ! j)" if "j < 512" for j
    using SubTable st(2,3) st'(2-5) assms(1) that by (auto simp: sub_marked_def touched_def nth_list_update split: option.splits)
  ultimately show ?thesis using assms(1) by (intro exI[of _ ?a]) simp
qed

lemma mark_subs_ok:
  assumes "length (suballocators a) = 512" and "\<And>x. x \<in> set xs \<Longrightarrow> sub_there a x" and "0 < d" and "d < 2 ^ 63"
  shows "\<exists>a'. mark_subs d po xs a = Inr a' \<and> a' = a\<lparr>suballocators := suballocators a'\<rparr> \<and> length (suballocators a') = 512 \<and>
     (\<forall>j<512. sub_marked d xs j (suballocators a ! j) (suballocators a' ! j))"
  using assms(1,2)
proof (induction xs arbitrary: a)
  case Nil
  then show ?case by (auto simp: mark_subs_def intro: sub_marked_refl)
next
  case (Cons x xs)
  obtain a1 where a1: "mark_subs d po [x] a = Inr a1" "a1 = a\<lparr>suballocators := suballocators a1\<rparr>" "length (suballocators a1) = 512"
    "\<And>j. j < 512 \<Longrightarrow> sub_marked d [x] j (suballocators a ! j) (suballocators a1 ! j)"
    using mark_sub_ok[OF Cons.prems(1) _ assms(3,4), of x po] Cons.prems(2)[of x] by auto
  have "sub_there a1 y" if "y \<in> set xs" for y
    using Cons.prems(2)[of y] that a1(4)[of "index y"] by (cases y) (auto simp: sub_there_def sub_marked_def)
  then obtain a2 where a2: "mark_subs d po xs a1 = Inr a2" "a2 = a1\<lparr>suballocators := suballocators a2\<rparr>" "length (suballocators a2) = 512"
    "\<forall>j<512. sub_marked d xs j (suballocators a1 ! j) (suballocators a2 ! j)"
    using Cons.IH[OF a1(3)] by blast
  have "a2 = a\<lparr>suballocators := suballocators a2\<rparr>" using a1(2) a2(2) by (cases a; cases a1; cases a2) simp
  moreover have "sub_marked d (x # xs) j (suballocators a ! j) (suballocators a2 ! j)" if "j < 512" for j
    using sub_marked_trans[OF a1(4)[OF that]] a2(4) that by blast
  ultimately show ?case using a1(1) a2(1,3) by (subst mark_subs_cons) (intro exI[of _ a2], simp)
qed

text \<open>The state after both loops.\<close>

definition marked_state :: "nat \<Rightarrow> PAllocItem list \<Rightarrow> ('t, 's) MLFFAllocator \<Rightarrow> ('t, 's) MLFFAllocator \<Rightarrow> bool" where
  "marked_state d xs a a' \<longleftrightarrow> shape a' \<and> (\<forall>j. avail a' j = avail a j) \<and>
     (\<forall>j. entry (mlff_table a') j = (if \<exists>off. Page j off \<in> set xs then Some (Inl d) else entry (mlff_table a) j)) \<and>
     (\<forall>j<512. sub_marked d xs j (suballocators a ! j) (suballocators a' ! j))"

lemma set_missing_run:
  assumes "aok a" and "\<And>x. x \<in> set xs \<Longrightarrow> it_live a x" and "0 < d" and "d < 2 ^ 63"
  shows "\<exists>a'. set_missing_inner M SW a (PartialPageAllocation xs PS) po d = Inr a' \<and> marked_state d xs a a'"
proof -
  have sh: "shape a" "tok (mlff_table a)" "length (suballocators a) = 512" using assms(1) by (auto simp: mlff_ok_def mlff_shape_def)
  have "i < 512" if "Page i off \<in> set xs" for i off using live_cases[OF assms(1) assms(2)[OF that]] by simp
  then obtain t where t: "mark_entries d po xs (mlff_table a) = Inr t" "tok t"
    "\<forall>j. entry t j = (if \<exists>off. Page j off \<in> set xs then Some (Inl d) else entry (mlff_table a) j)"
    using mark_entries_ok[OF sh(2) _ assms(3,4), of xs po] by blast
  let ?a = "a\<lparr>mlff_table := t\<rparr>"
  have "sub_there ?a x" if "x \<in> set xs" for x
    using live_cases[OF assms(1) assms(2)[OF that]] by (cases x) (auto simp: sub_there_def)
  then obtain a' where a': "mark_subs d po xs ?a = Inr a'" "a' = ?a\<lparr>suballocators := suballocators a'\<rparr>" "length (suballocators a') = 512"
    "\<forall>j<512. sub_marked d xs j (suballocators a ! j) (suballocators a' ! j)"
    using mark_subs_ok[of ?a xs d po] sh(3) assms(3,4) by auto
  have "set_missing_inner M SW a (PartialPageAllocation xs PS) po d = Inr a'"
    using t(1) a'(1) by (simp add: set_missing_inner_def ppa_foreach_def mark_entries_def mark_subs_def)
  moreover have "mlff_table a' = t" "shape a'" "avail a' j = avail a j" for j
    using sh(1) t(2) a'(2,3) by (cases a; cases a'; simp add: avail_def mlff_shape_def)+
  ultimately show ?thesis using t(3) a'(4) by (simp add: marked_state_def)
qed

lemma marked_equiv:
  assumes "aok a" and "\<And>x. x \<in> set xs \<Longrightarrow> it_live a x" and "marked_state d xs a a'"
  shows "slots_equiv a a'"
  unfolding slots_equiv_def
proof (intro allI impI conjI)
  fix j :: nat assume j: "j < 512"
  have m: "entry (mlff_table a') j = (if \<exists>off. Page j off \<in> set xs then Some (Inl d) else entry (mlff_table a) j)"
    "sub_marked d xs j (suballocators a ! j) (suballocators a' ! j)" using assms(3) j by (auto simp: marked_state_def)
  have pg: "suballocators a ! j = None \<and> entry (mlff_table a) j \<noteq> None" if "Page j off \<in> set xs" for off
    using live_cases[OF assms(1) assms(2)[OF that]] by simp
  show "avail a' j = avail a j" using assms(3) by (simp add: marked_state_def)
  show "case suballocators a ! j of
       None \<Rightarrow> suballocators a' ! j = None \<and> (entry (mlff_table a') j = None \<longleftrightarrow> entry (mlff_table a) j = None)
     | Some st \<Rightarrow> \<exists>st'. suballocators a' ! j = Some st' \<and> (sok st \<longrightarrow> sok st') \<and> socc st' = socc st \<and> slive st' = slive st \<and>
         ((\<exists>p. entry (mlff_table a) j = Some (Inr p)) \<longrightarrow> (\<exists>p. entry (mlff_table a') j = Some (Inr p)))"
    using m pg by (cases "suballocators a ! j") (auto simp: sub_marked_def)
qed

lemma marked_view:
  assumes "aok a" and "alive a (PartialPageAllocation xs PS)" and "marked_state d xs a a'"
  shows "aview a' x = (if x \<in> covers (PartialPageAllocation xs PS) then (None, Some d) else aview a x)"
proof (cases "x div PS < 512")
  case False
  then have "x \<notin> covers (PartialPageAllocation xs PS)" using alive_occ[OF assms(1,2)] occ_iff[OF assms(1), of x] by blast
  then show ?thesis using False by (simp add: mlff_view_def)
next
  case i: True
  note cv = covers_slot[OF assms(1,2) i]
  have lv: "\<And>y. y \<in> set xs \<Longrightarrow> it_live a y" using assms(2) by (simp add: mlff_live_def)
  have m: "entry (mlff_table a') (x div PS) = (if \<exists>off. Page (x div PS) off \<in> set xs then Some (Inl d) else entry (mlff_table a) (x div PS))"
    "sub_marked d xs (x div PS) (suballocators a ! (x div PS)) (suballocators a' ! (x div PS))" using assms(3) i by (auto simp: marked_state_def)
  show ?thesis
  proof (cases "suballocators a ! (x div PS)")
    case (Some st)
    have "\<not> (\<exists>off. Page (x div PS) off \<in> set xs)" using live_cases[OF assms(1) lv] Some by fastforce
    then have "x \<in> covers (PartialPageAllocation xs PS) \<longleftrightarrow> touched (x div PS) xs (x mod PS)" using cv by blast
    then show ?thesis using m(2) Some i by (auto simp: mlff_view_def sub_marked_def)
  next
    case None
    have "\<not> touched (x div PS) xs (x mod PS)" using live_cases[OF assms(1) lv] None unfolding touched_def by fastforce
    then have c: "x \<in> covers (PartialPageAllocation xs PS) \<longleftrightarrow> (\<exists>off. Page (x div PS) off \<in> set xs)" using cv by blast
    have "suballocators a' ! (x div PS) = None" using m(2) None by (simp add: sub_marked_def)
    then show ?thesis using m(1) c None i by (auto simp: mlff_view_def entry_says_def)
  qed
qed

lemma set_missing_correct:
  assumes "aok a" and "alive a al" and "0 < d" and "d < 2 ^ 63"
  shows "\<exists>a'. set_missing_inner M SW a al po d = Inr a' \<and> aok a' \<and> aocc a' = aocc a \<and> alive a' = alive a \<and>
     (\<forall>x. aview a' x = (if x \<in> covers al then (None, Some d) else aview a x))"
proof -
  obtain xs where al: "al = PartialPageAllocation xs PS" using assms(2) by (cases al) (auto simp: mlff_live_def)
  have lv: "it_live a x" if "x \<in> set xs" for x using assms(2) al that by (simp add: mlff_live_def)
  obtain a' where a': "set_missing_inner M SW a al po d = Inr a'" "marked_state d xs a a'"
    using set_missing_run[OF assms(1) lv assms(3,4)] al by blast
  have "aok a' \<and> aocc a' = aocc a \<and> alive a' = alive a"
    using slots_equiv_keeps[OF marked_equiv[OF assms(1) lv a'(2)] assms(1)] a'(2) by (simp add: marked_state_def)
  then show ?thesis using a'(1) marked_view[OF assms(1) assms(2)[unfolded al] a'(2)] al by blast
qed

end

sublocale first_fit_mark < marker: page_marker "mlff_ops M" "mlff_ok M tok entry sok" "mlff_occ M entry socc"
  "mlff_fresh tok entry" "mlff_live M entry slive" "mlff_fits M sfits" "mlff_walk M SW" "mlff_view M entry sview"
  by (intro page_marker.intro page_marker_axioms.intro level.page_frame_allocator_axioms)
    (simp add: mlff_walk_def set_missing_correct)

section \<open>The four levels\<close>

abbreviation l1_view where "l1_view api ft \<equiv> mlff_view (X64Level1 api ft) (x64_entry api) (\<lambda>_ _. (None, None))"
abbreviation l2_view where "l2_view api ft \<equiv> mlff_view (X64Level2 api ft) (x64_entry api) (l1_view api ft)"
abbreviation l3_view where "l3_view api ft \<equiv> mlff_view (X64Level3 api ft) (x64_entry api) (l2_view api ft)"
abbreviation l4_view where "l4_view api ft \<equiv> mlff_view (X64Level4 api ft) (x64_entry api) (l3_view api ft)"

sublocale pte_crate < A1: first_fit_mark "X64Level1 api ft" x64_ok "x64_entry api" "\<lambda>_. True" "\<lambda>_. {}" "\<lambda>_. True" "\<lambda>_ _. False" "\<lambda>_ _. True"
  no_walk "\<lambda>_ _. None" "\<lambda>_ _. (None, None)" for ft
  by (intro first_fit_mark.intro first_fit_mark_axioms.intro M1.first_fit_map_axioms) simp

sublocale pte_crate < A2: first_fit_mark "X64Level2 api ft" x64_ok "x64_entry api" "l1_ok api ft" "l1_occ api ft" "l_fresh api" "l1_live api ft" "l1_fits api ft"
  "walk1 api ft" "l1_leaf api ft" "l1_view api ft" for ft
  by (intro first_fit_mark.intro first_fit_mark_axioms.intro M2.first_fit_map_axioms) (simp add: walk1_def A1.marker.page_marker_axioms)

sublocale pte_crate < A3: first_fit_mark "X64Level3 api ft" x64_ok "x64_entry api" "l2_ok api ft" "l2_occ api ft" "l_fresh api" "l2_live api ft" "l2_fits api ft"
  "walk2 api ft" "l2_leaf api ft" "l2_view api ft" for ft
  by (intro first_fit_mark.intro first_fit_mark_axioms.intro M3.first_fit_map_axioms) (simp add: walk2_def A2.marker.page_marker_axioms)

sublocale pte_crate < A4: first_fit_mark "X64Level4 api ft" x64_ok "x64_entry api" "l3_ok api ft" "l3_occ api ft" "l_fresh api" "l3_live api ft" "l3_fits api ft"
  "walk3 api ft" "l3_leaf api ft" "l3_view api ft" for ft
  by (intro first_fit_mark.intro first_fit_mark_axioms.intro M4.first_fit_map_axioms) (simp add: walk3_def A3.marker.page_marker_axioms)

context pte_crate
begin

lemmas top_set_missing = A4.set_missing_correct

end

definition top_view :: "pte_api \<Rightarrow> features \<Rightarrow> level4 \<Rightarrow> nat \<Rightarrow> nat option \<times> nat option" where
  "top_view api ft = l4_view api ft"

lemma top_view_leaf: "fst (top_view api ft a x) = top_leaf api ft a x"
  unfolding top_view_def top_leaf_def by (intro view_leaf) simp

lemma context_set_absent:
  assumes "pte_crate api" and "top_ok api ft (lpa_alloc lpa)" and "top_live api ft (lpa_alloc lpa) (pa_allocation pa)"
    and "0 < d" and "d < 2 ^ 63" and "auto_flush (context_type api ft V) lpa pa = Inr fs"
  shows "\<exists>a'. guard_set_absent (context_type api ft V) lpa pa d = Inr (lpa\<lparr>lpa_alloc := a'\<rparr>, fs)
    \<and> top_ok api ft a' \<and> top_occ api ft a' = top_occ api ft (lpa_alloc lpa) \<and> top_live api ft a' = top_live api ft (lpa_alloc lpa)
    \<and> (\<forall>x. top_view api ft a' x = (if x \<in> covers (pa_allocation pa) then (None, Some d) else top_view api ft (lpa_alloc lpa) x))"
  using pte_crate.top_set_missing[OF assms(1), of ft "lpa_alloc lpa" "pa_allocation pa" d 0] assms(2-6)
  by (auto simp: top_defs top_view_def guard_set_absent_def context_type_def walk4_def mlff_walk_def)

end
