(* ===== verification/Page_Split.thy ===== *)
theory Page_Split
  imports Page_Absent
begin

text \<open>
  Splitting an allocation in two (\<open>split_allocation\<close> and \<open>_split_alloc_inner\<close> of \<open>memory/paging/api.rs\<close>,
  \<open>split_page\<close> of \<open>memory/paging/allocators/firstfit.rs\<close>).  The two parts are allocations of their own that
  lie side by side where the whole lay, and the tables say the same about every byte as before, also where a
  huge page had to be replaced by a table of smaller ones.  The locale \<open>page_splitter\<close> is that contract for one
  level, and \<open>first_fit_split\<close> carries it from a level to the one above.
\<close>

section \<open>The contract\<close>

text \<open>What the tables say about a byte in use: it translates to a physical address, or is absent.\<close>

definition settled :: "nat option \<times> nat option \<Rightarrow> bool" where
  "settled v \<longleftrightarrow> (case v of (Some q, _) \<Rightarrow> q < phys_limit | (None, d) \<Rightarrow> d \<noteq> None)"

text \<open>The pages of an allocation have sizes the machine has pages of.\<close>

fun paged :: "(nat \<Rightarrow> bool) \<Rightarrow> PartialPageAllocation \<Rightarrow> bool" and paged_item :: "(nat \<Rightarrow> bool) \<Rightarrow> nat \<Rightarrow> PAllocItem \<Rightarrow> bool" where
  "paged h (PartialPageAllocation xs ps) \<longleftrightarrow> (\<forall>x\<in>set xs. paged_item h ps x)"
| "paged_item h ps (Page i off) \<longleftrightarrow> h ps"
| "paged_item h ps (SubTable i off al) \<longleftrightarrow> paged h al"

lemma paged_offset_mut [simp]: "paged_item h ps (offset_mut f x) = paged_item h ps x"
  by (cases x) simp_all

definition halves :: "(nat \<Rightarrow> bool) \<Rightarrow> ('a \<Rightarrow> bool) \<Rightarrow> ('a \<Rightarrow> nat set) \<Rightarrow> ('a \<Rightarrow> PartialPageAllocation \<Rightarrow> bool) \<Rightarrow> ('a \<Rightarrow> nat \<Rightarrow> nat option \<times> nat option)
    \<Rightarrow> 'a \<Rightarrow> 'a \<Rightarrow> PartialPageAllocation \<Rightarrow> nat \<Rightarrow> PartialPageAllocation \<Rightarrow> PartialPageAllocation \<Rightarrow> bool" where
  "halves h ok occ live view a a' al mid l r \<longleftrightarrow> ok a' \<and> occ a' = occ a \<and> view a' = view a \<and> live a' l \<and> live a' r
     \<and> paged h l \<and> paged h r
     \<and> start_addr l = start_addr al \<and> alloc_size l = mid
     \<and> start_addr r = start_addr al + mid \<and> alloc_size r = alloc_size al - mid
     \<and> (\<forall>al'. live a al' \<longrightarrow> covers al' \<inter> covers al = {} \<longrightarrow> live a' al')"

text \<open>An entry whose page of \<open>sp\<close> bytes can be replaced by entries for its parts.\<close>

definition divisible_entry :: "nat \<Rightarrow> nat + (nat \<times> PageFlags) \<Rightarrow> bool" where
  "divisible_entry sp e \<longleftrightarrow> (case e of Inl d \<Rightarrow> 0 < d \<and> d < 2 ^ 63 | Inr (p, fl) \<Rightarrow> p mod sp = 0 \<and> p + sp \<le> phys_limit)"

definition fill_entry :: "'a pfa \<Rightarrow> nat + (nat \<times> PageFlags) \<Rightarrow> nat \<Rightarrow> 'a \<Rightarrow> 'a exec" where
  "fill_entry A e j st = (case e of
       Inr (addr, fl) \<Rightarrow> pf_set_huge_addr A st j (addr + j * pf_page_size A) fl
     | Inl d \<Rightarrow> pf_set_absent A st j d)"

definition filled :: "(nat \<Rightarrow> bool) \<Rightarrow> 'a pfa \<Rightarrow> ('a \<Rightarrow> bool) \<Rightarrow> ('a \<Rightarrow> nat set) \<Rightarrow> ('a \<Rightarrow> PartialPageAllocation \<Rightarrow> bool) \<Rightarrow> ('a \<Rightarrow> nat \<Rightarrow> nat option \<times> nat option)
    \<Rightarrow> nat + (nat \<times> PageFlags) \<Rightarrow> 'a \<Rightarrow> PartialPageAllocation \<Rightarrow> bool" where
  "filled h A ok occ live view e a al \<longleftrightarrow> paged h al \<and> ok a \<and> occ a = {..<pf_span A} \<and> live a al \<and> start_addr al = 0 \<and> alloc_size al = pf_span A
     \<and> (\<forall>x<pf_span A. view a x = entry_says (pf_span A) x (Some e))"

text \<open>\<open>big\<close> says that the level has entries for pages of its own, not only for tables.\<close>

locale page_splitter = page_marker A ok occ fresh live fits W view
  for A :: "'a pfa" and ok occ fresh live fits W view +
  fixes big :: bool and h :: "nat \<Rightarrow> bool"
  assumes split_ok: "ok a \<Longrightarrow> live a al \<Longrightarrow> paged h al \<Longrightarrow> boxes_ok b \<Longrightarrow> 0 < mid \<Longrightarrow> mid < alloc_size al \<Longrightarrow> 4096 dvd mid \<Longrightarrow>
    (\<forall>x\<in>covers al. settled (view a x)) \<Longrightarrow>
    \<exists>a' l r. pw_split_alloc W b a al mid = Inr (a', l, r) \<and> halves h ok occ live view a a' al mid l r"
    and size_ok: "ok a \<Longrightarrow> live a al \<Longrightarrow> 4096 dvd alloc_size al"
    and fill_ok: "big \<Longrightarrow> fresh a \<Longrightarrow> boxes_ok b \<Longrightarrow> divisible_entry (pf_span A) e \<Longrightarrow>
    \<exists>a1 al a2. pf_allocate A b a (pf_span A) ALLOCATION_DEFAULT = Inr (a1, Some al)
      \<and> fill_sub (fill_entry A e) 0 (pf_npages A) a1 = Inr a2 \<and> filled h A ok occ live view e a2 al"

text \<open>A table whose entries can be read back.\<close>

locale readable_table = page_table T tok entry
  for T :: "'t ipagetable" and tok entry +
  assumes get_entry_ok: "tok t \<Longrightarrow> i < 512 \<Longrightarrow> entry t i = Some e \<Longrightarrow> pt_get_entry T t i = Inr e"
    and absent_data: "tok t \<Longrightarrow> entry t i = Some (Inl d) \<Longrightarrow> 0 < d \<and> d < 2 ^ 63"

locale first_fit_split = first_fit_mark M tok entry sok socc sfresh slive sfits SW sleaf sview
  for M :: "('t, 's) mlff_type" and tok :: "'t \<Rightarrow> bool" and entry :: "'t entry_view" and sok socc sfresh slive sfits SW sleaf sview +
  fixes sbig :: bool and h :: "nat \<Rightarrow> bool"
  assumes readable: "readable_table (mt_table M) tok entry"
    and sub_split: "SUBTABLES M \<Longrightarrow> page_splitter (mt_sub M) sok socc sfresh slive sfits SW sview sbig h"
    and sub_big: "SUBTABLES M \<Longrightarrow> HUGEPAGES M \<Longrightarrow> sbig"
    and sizes: "h (mlff_PAGE_SIZE M) \<longleftrightarrow> HUGEPAGES M" "HUGEPAGES M \<Longrightarrow> SUBTABLES M \<or> mlff_PAGE_SIZE M = 4096"
begin

section \<open>What a slot says\<close>

definition slot_says :: "'s slot \<Rightarrow> nat \<Rightarrow> nat option \<times> nat option" where
  "slot_says s r = (case s of (Some st, e, v) \<Rightarrow> sview st r | (None, e, v) \<Rightarrow> entry_says PS r e)"

lemma aview_slot: "aview a x = (if x div PS < 512 then slot_says (aslot a (x div PS)) (x mod PS) else (None, None))"
  by (auto simp: mlff_view_def slot_says_def slot_def Let_def split: option.splits)

text \<open>Replacing what one slot holds by something that takes the same room and says the same.\<close>

definition same :: "('t, 's) MLFFAllocator \<Rightarrow> ('t, 's) MLFFAllocator \<Rightarrow> bool" where
  "same a a' \<longleftrightarrow> aok a' \<and> aocc a' = aocc a \<and> aview a' = aview a"

lemma same_trans: "same a a1 \<Longrightarrow> same a1 a2 \<Longrightarrow> same a a2"
  by (simp add: same_def)

lemma slot_replace:
  assumes "aok a" and "i < 512" and "upd i a a'" and "sl_ok (aslot a' i)" and "sl_occ i (aslot a' i) = sl_occ i (aslot a i)"
    and "\<And>r. r < PS \<Longrightarrow> slot_says (aslot a' i) r = slot_says (aslot a i) r"
  shows "same a a'"
proof -
  have "aocc a' = (aocc a - {i * PS..<(i + 1) * PS}) \<union> (aocc a \<inter> {i * PS..<(i + 1) * PS})"
    using upd_occ[OF assms(1,3,2,4)] occ_slot[OF assms(1,2)] assms(5) by simp
  then have "aocc a' = aocc a" by blast
  moreover have "aview a' x = aview a x" for x
    using assms(3,6) page_size_pos(1) by (cases "x div PS = i") (auto simp: aview_slot upd_def)
  ultimately show ?thesis using upd_ok[OF assms(1,3,4)] by (auto simp: same_def)
qed

section \<open>Filling a new table\<close>

lemma refresh_subs: "refresh_availability M a i = Inr a' \<Longrightarrow> suballocators a' = suballocators a"
  by (auto simp: refresh_availability_def set_availability_def Let_def exec_dests)

lemma one_subs: "HUGEPAGES M \<Longrightarrow> alloc_one M b s i a = Inr (a', x) \<Longrightarrow> suballocators a' = suballocators a"
  by (auto simp: alloc_one_def exec_dests dest!: refresh_subs)

lemma contiguous_subs:
  "HUGEPAGES M \<Longrightarrow> alloc_contiguous M b s i n a acc = Inr (a', xs) \<Longrightarrow> suballocators a' = suballocators a"
proof (induction n arbitrary: i a acc)
  case (Suc n)
  then obtain a1 x where "alloc_one M b s i a = Inr (a1, x)" "alloc_contiguous M b s (i + 1) n a1 (acc @ [x]) = Inr (a', xs)"
    by (auto simp: exec_dests)
  then show ?case using Suc.IH[OF Suc.prems(1)] one_subs[OF Suc.prems(1)] by simp
qed simp

lemma search_subs:
  "HUGEPAGES M \<Longrightarrow> 0 < n \<Longrightarrow> search_offsets M b strategy strat n 0 offs a = Inr (a', r) \<Longrightarrow> suballocators a' = suballocators a"
proof (induction offs arbitrary: a)
  case (Cons off offs)
  have "suballocators a1 = suballocators a" if "try_offset M b strategy strat n 0 off a = Inr (a1, r1)" for a1 r1
    using that Cons.prems(1,2) by (auto simp: try_offset_def exec_dests split: if_splits dest!: contiguous_subs[OF Cons.prems(1)])
  then show ?case using Cons by (fastforce simp: exec_dests split: option.splits)
qed simp

lemma allocate_subs:
  assumes "HUGEPAGES M" and "mlff_allocate M b a (512 * PS) strat = Inr (a', r)"
  shows "suballocators a' = suballocators a"
proof -
  have "part_page M (512 * PS) = 0" "0 < whole_pages M (512 * PS)"
    using page_size_pos(1) by (auto simp: part_page_def whole_pages_def div_greater_zero_iff)
  then show ?thesis using assms by (auto simp: mlff_allocate_def Let_def exec_dests dest!: search_subs)
qed

lemma alloc_whole:
  assumes "HUGEPAGES M" and "afresh a" and "boxes_ok b"
  shows "\<exists>a1 al. mlff_allocate M b a (512 * PS) ALLOCATION_DEFAULT = Inr (a1, Some al) \<and> aok a1 \<and> aocc a1 = {..<512 * PS} \<and> alive a1 al
    \<and> start_addr al = 0 \<and> alloc_size al = 512 * PS \<and> (\<forall>i<512. suballocators a1 ! i = None \<and> entry (mlff_table a1) i \<noteq> None)"
proof -
  have f: "aok a" "aocc a = {}" using level.fresh_ok[OF assms(2)] by auto
  have sz: "0 < 512 * PS" "4096 dvd 512 * PS" using page_size_pos by auto
  obtain a1 al where a1: "mlff_allocate M b a (512 * PS) ALLOCATION_DEFAULT = Inr (a1, Some al)" "alloc_size al = 512 * PS"
    "grown aok aocc alive a a1 (Some al)"
    using allocate_correct[OF f(1) assms(3) sz default_fits[OF sz]] fresh_avail[OF assms(2)] by (auto simp: alloc_result_def)
  have g: "aok a1" "alive a1 al" "aocc a1 = covers al" using a1(3) f(2) by (auto simp: grown_def)
  have cv: "covers al = {start_addr al..<start_addr al + 512 * PS}"
    using alive_occ[OF g(1,2)] wf_alloc_span(1)[of al] a1(2) by auto
  then have "start_addr al + 512 * PS - 1 \<in> aocc a1" using g(3) sz(1) by auto
  then have "start_addr al + 512 * PS - 1 < 512 * PS"
    using level.occ_span[OF g(1)] by (auto simp: pf_span_def npages_eq)
  then have s0: "start_addr al = 0" using sz(1) by simp
  have oc: "aocc a1 = {..<512 * PS}" using g(3) cv s0 by (simp add: lessThan_atLeast0)
  have "suballocators a1 ! i = None \<and> entry (mlff_table a1) i \<noteq> None" if i: "i < 512" for i
  proof -
    have n: "suballocators a1 ! i = None"
      using allocate_subs[OF assms(1) a1(1)] assms(2) i by (auto simp: mlff_fresh_def slot_def)
    have "i * PS \<in> aocc a1" unfolding oc using i page_size_pos(1) by simp
    then have "sl_occ i (aslot a1 i) \<noteq> {}" using occ_iff[OF g(1), of "i * PS"] page_size_pos(1) by auto
    then show ?thesis using n by (auto simp: slot_def)
  qed
  then show ?thesis using a1(1,2) g(1,2) s0 oc by blast
qed

lemma fill_one:
  assumes "tok (mlff_table a)" and "j < 512" and "divisible_entry (512 * PS) e"
  shows "\<exists>t e'. fill_entry (mlff_ops M) e j a = Inr (a\<lparr>mlff_table := t\<rparr>) \<and> tok t \<and> entry t = (entry (mlff_table a))(j \<mapsto> e')
    \<and> (\<forall>r. entry_says PS r (Some e') = entry_says (512 * PS) (j * PS + r) (Some e))"
proof (cases e)
  case (Inl d)
  then show ?thesis using table.set_absent_ok[OF assms(1,2), of d] assms(3)
    by (fastforce simp: fill_entry_def mlff_ops_def divisible_entry_def entry_says_def)
next
  case (Inr pf)
  obtain p fl where e: "e = Inr (p, fl)" using Inr by (cases pf) auto
  have p: "512 * PS dvd p" "p + 512 * PS \<le> phys_limit" using assms(3) e by (auto simp: divisible_entry_def mod_eq_0_iff_dvd)
  have d: "PS dvd p + j * PS" using p(1) by (meson dvd_add dvd_mult_right dvd_triv_right)
  have "table_addr_ok (p + j * PS)"
  proof -
    have "4096 dvd p + j * PS" using d page_size_pos(2) by (rule dvd_trans[rotated])
    moreover have "j * PS < 512 * PS" using assms(2) page_size_pos(1) by simp
    then have "p + j * PS < phys_limit" using p(2) by linarith
    ultimately show ?thesis by (simp add: table_addr_ok_def mod_eq_0_iff_dvd)
  qed
  from table.set_huge_ok[OF assms(1,2) this, of fl] obtain t fl' where
    t: "pt_set_huge_addr (mt_table M) (mlff_table a) j (p + j * PS) fl = Inr t" "tok t" "entry t = (entry (mlff_table a))(j \<mapsto> Inr (p + j * PS, fl'))" by blast
  have "entry_says PS r (Some (Inr (p + j * PS, fl'))) = entry_says (512 * PS) (j * PS + r) (Some e)" for r
    using d p(1) by (simp add: e entry_says_def mod_eq_0_iff_dvd add.assoc)
  then show ?thesis using t by (intro exI[of _ t] exI[of _ "Inr (p + j * PS, fl')"]) (simp add: e fill_entry_def mlff_ops_def)
qed

lemma fill_all:
  assumes "tok (mlff_table a)" and "i + n \<le> 512" and "divisible_entry (512 * PS) e"
  shows "\<exists>t. fill_sub (fill_entry (mlff_ops M) e) i n a = Inr (a\<lparr>mlff_table := t\<rparr>) \<and> tok t
    \<and> (\<forall>j. if i \<le> j \<and> j < i + n then \<exists>e'. entry t j = Some e' \<and> (\<forall>r. entry_says PS r (Some e') = entry_says (512 * PS) (j * PS + r) (Some e))
        else entry t j = entry (mlff_table a) j)"
  using assms(1,2)
proof (induction n arbitrary: i a)
  case 0
  then show ?case by (intro exI[of _ "mlff_table a"]) auto
next
  case (Suc n)
  obtain t e' where t: "fill_entry (mlff_ops M) e i a = Inr (a\<lparr>mlff_table := t\<rparr>)" "tok t" "entry t = (entry (mlff_table a))(i \<mapsto> e')"
    "\<forall>r. entry_says PS r (Some e') = entry_says (512 * PS) (i * PS + r) (Some e)"
    using fill_one[OF Suc.prems(1) _ assms(3), of i] Suc.prems(2) by auto
  obtain t' where t': "fill_sub (fill_entry (mlff_ops M) e) (i + 1) n (a\<lparr>mlff_table := t\<rparr>) = Inr (a\<lparr>mlff_table := t'\<rparr>)" "tok t'"
    "\<forall>j. if i + 1 \<le> j \<and> j < i + 1 + n then \<exists>e'. entry t' j = Some e' \<and> (\<forall>r. entry_says PS r (Some e') = entry_says (512 * PS) (j * PS + r) (Some e))
        else entry t' j = entry t j"
    using Suc.IH[of "a\<lparr>mlff_table := t\<rparr>" "i + 1"] t(2) Suc.prems(2) by auto
  have "if i \<le> j \<and> j < i + Suc n then \<exists>e'. entry t' j = Some e' \<and> (\<forall>r. entry_says PS r (Some e') = entry_says (512 * PS) (j * PS + r) (Some e))
        else entry t' j = entry (mlff_table a) j" for j
    using t'(3)[rule_format, of j] t(3,4) by (cases "j = i"; cases "i < j \<and> j < i + Suc n") auto
  then show ?case using t(1) t'(1,2) by (intro exI[of _ t']) simp
qed

lemma fill_correct:
  assumes "HUGEPAGES M" and "afresh a" and "boxes_ok b" and "divisible_entry (512 * PS) e"
  shows "\<exists>a1 al a2. mlff_allocate M b a (512 * PS) ALLOCATION_DEFAULT = Inr (a1, Some al)
    \<and> fill_sub (fill_entry (mlff_ops M) e) 0 512 a1 = Inr a2 \<and> filled h (mlff_ops M) aok aocc alive aview e a2 al"
proof -
  obtain a1 al where a1: "mlff_allocate M b a (512 * PS) ALLOCATION_DEFAULT = Inr (a1, Some al)" "aok a1" "aocc a1 = {..<512 * PS}" "alive a1 al"
    "start_addr al = 0" "alloc_size al = 512 * PS" "\<forall>i<512. suballocators a1 ! i = None \<and> entry (mlff_table a1) i \<noteq> None"
    using alloc_whole[OF assms(1-3)] by blast
  have sh: "shape a1" "tok (mlff_table a1)" using a1(2) by (auto simp: mlff_ok_def mlff_shape_def)
  obtain t where t: "fill_sub (fill_entry (mlff_ops M) e) 0 512 a1 = Inr (a1\<lparr>mlff_table := t\<rparr>)" "tok t"
    "\<forall>j. if j < 512 then \<exists>e'. entry t j = Some e' \<and> (\<forall>r. entry_says PS r (Some e') = entry_says (512 * PS) (j * PS + r) (Some e))
        else entry t j = entry (mlff_table a1) j"
    using fill_all[OF sh(2) _ assms(4), of 0 512] by auto
  let ?a = "a1\<lparr>mlff_table := t\<rparr>"
  have e: "\<exists>e'. entry t j = Some e' \<and> (\<forall>r. entry_says PS r (Some e') = entry_says (512 * PS) (j * PS + r) (Some e))" if "j < 512" for j
    using t(3) that by metis
  have "slots_equiv a1 ?a" using a1(7) e unfolding slots_equiv_def by fastforce
  then have k: "aok ?a" "aocc ?a = aocc a1" "alive ?a = alive a1"
    using slots_equiv_keeps[OF _ a1(2), of ?a] sh(1) t(2) by (auto simp: mlff_shape_def)
  have "aview ?a x = entry_says (512 * PS) x (Some e)" if x: "x < 512 * PS" for x
  proof -
    have i: "x div PS < 512" using x by (simp add: less_mult_imp_div_less)
    obtain e' where e': "entry t (x div PS) = Some e'" "\<forall>r. entry_says PS r (Some e') = entry_says (512 * PS) (x div PS * PS + r) (Some e)"
      using e[OF i] by blast
    have "aview ?a x = entry_says PS (x mod PS) (Some e')"
      using i a1(7) e'(1) by (simp add: aview_slot slot_says_def slot_def)
    then show ?thesis using e'(2) by simp
  qed
  moreover have "paged h al"
  proof -
    obtain xs where al: "al = PartialPageAllocation xs PS" using a1(4) by (cases al) (auto simp: mlff_live_def)
    have "paged_item h PS x" if "x \<in> set xs" for x
    proof -
      have "it_live a1 x" using a1(4) al that by (simp add: mlff_live_def)
      then show ?thesis using live_cases[OF a1(2), of x] a1(7) sizes(1) assms(1) by (cases x) auto
    qed
    then show ?thesis by (simp add: al)
  qed
  ultimately show ?thesis using a1 t(1) k by (auto simp: filled_def pf_span_def npages_eq)
qed

section \<open>Splitting a page\<close>

lemma page_entry:
  assumes "aok a" and "it_live a (Page i off)" and "\<And>r. r < PS \<Longrightarrow> settled (slot_says (aslot a i) r)"
  shows "\<exists>e. i < 512 \<and> aslot a i = (None, Some e, 3) \<and> pt_get_entry (mt_table M) (mlff_table a) i = Inr e \<and> divisible_entry PS e"
proof -
  have i: "i < 512" "suballocators a ! i = None" "entry (mlff_table a) i \<noteq> None" using live_cases[OF assms(1,2)] by auto
  obtain e where e: "entry (mlff_table a) i = Some e" using i(3) by auto
  have tok: "tok (mlff_table a)" using assms(1) by (simp add: mlff_ok_def mlff_shape_def)
  have "sl_ok (aslot a i)" using assms(1) i(1) by (simp add: mlff_ok_def)
  then have s: "aslot a i = (None, Some e, 3)" using i(2) e by (simp add: slot_def)
  have "divisible_entry PS e"
  proof (cases e)
    case (Inl d)
    then show ?thesis using readable_table.absent_data[OF readable tok] e by (auto simp: divisible_entry_def)
  next
    case (Inr pf)
    obtain p fl where p: "e = Inr (p, fl)" using Inr by (cases pf) auto
    have st: "settled (entry_says PS (PS - 1) (Some e))" using assms(3)[of "PS - 1"] s page_size_pos(1) by (simp add: slot_says_def)
    then have "p mod PS = 0 \<and> p + (PS - 1) < phys_limit" by (auto simp: p entry_says_def settled_def split: if_splits)
    then show ?thesis using page_size_pos(1) by (auto simp: p divisible_entry_def)
  qed
  then show ?thesis using s i(1) readable_table.get_entry_ok[OF readable tok i(1) e] by blast
qed

text \<open>Hanging a sub-allocator into a slot, with its flags.\<close>

lemma install_sub:
  assumes "aok a" and "i < 512" and "SUBTABLES M" and "sok st"
  shows "\<exists>a' p v. exec_bind (point_to_subtable M (mlff_table a) i st) (\<lambda>t.
      exec_bind (vec_set (suballocators a) i (Some st)) (\<lambda>subs.
      exec_bind (refresh_availability M (a\<lparr>mlff_table := t, suballocators := subs\<rparr>) i) (\<lambda>a.
      exec_bind (pt_add_subtable_flags (mt_table M) False (mlff_table a) i fl) (\<lambda>t. Inr (a\<lparr>mlff_table := t\<rparr>, R))))) = Inr (a', R)
    \<and> upd i a a' \<and> aslot a' i = (Some st, Some (Inr p), v) \<and> v \<noteq> 0"
proof -
  have sh: "shape a" "tok (mlff_table a)" "length (suballocators a) = 512" using assms(1) by (auto simp: mlff_ok_def mlff_shape_def)
  obtain t p where t: "point_to_subtable M (mlff_table a) i st = Inr t" "tok t" "entry t = (entry (mlff_table a))(i \<mapsto> Inr p)"
    using point_to_subtable_ok[OF assms(3,4) sh(2) assms(2)] by blast
  let ?a = "a\<lparr>mlff_table := t, suballocators := (suballocators a)[i := Some st]\<rparr>"
  have a: "shape ?a" "suballocators ?a ! i = Some st" "entry (mlff_table ?a) i = Some (Inr p)" "upd i a ?a"
    using sh t assms(2) by (auto simp: mlff_shape_def upd_def slot_def)
  obtain a1 v where a1: "refresh_availability M ?a i = Inr a1" "upd i ?a a1" "aslot a1 i = (Some st, Some (Inr p), v)" "v \<noteq> 0"
    using refresh_ok[OF a(1) assms(2)] a(2,3) assms(3,4) by auto
  have tk: "tok (mlff_table a1)" "entry (mlff_table a1) i = Some (Inr p)" using a1(2,3) by (auto simp: upd_def mlff_shape_def slot_def)
  obtain t1 fl' where t1: "pt_add_subtable_flags (mt_table M) False (mlff_table a1) i fl = Inr t1" "tok t1"
    "entry t1 = (entry (mlff_table a1))(i \<mapsto> Inr (fst p, fl'))"
    using table.add_flags_ok[OF tk(1) assms(2), of "fst p" "snd p" False fl] tk(2) by auto
  have "upd i a1 (a1\<lparr>mlff_table := t1\<rparr>)" using a1(2) t1(2,3) by (auto simp: upd_def mlff_shape_def slot_def)
  then have "upd i a (a1\<lparr>mlff_table := t1\<rparr>)" using upd_trans a(4) a1(2) by blast
  moreover have "aslot (a1\<lparr>mlff_table := t1\<rparr>) i = (Some st, Some (Inr (fst p, fl')), v)" using a1(3) t1(3) by (simp add: slot_def)
  ultimately show ?thesis using t(1) a1(1,4) t1(1) sh(3) assms(2) by (auto simp: vec_set_ok)
qed

lemma split_page_ok:
  assumes "aok a" and "it_live a (Page i off)" and "boxes_ok b" and "SUBTABLES M" and "HUGEPAGES M"
    and "\<And>r. r < PS \<Longrightarrow> settled (slot_says (aslot a i) r)"
  shows "\<exists>a' al. mlff_split_page M b a i = Inr (a', Some al) \<and> same a a' \<and> upd i a a' \<and> it_live a' (SubTable i off al)
    \<and> paged h al \<and> start_addr al = 0 \<and> alloc_size al = PS"
proof -
  obtain e where e: "i < 512" "aslot a i = (None, Some e, 3)" "pt_get_entry (mt_table M) (mlff_table a) i = Inr e" "divisible_entry PS e"
    using page_entry[OF assms(1,2,6)] by blast
  have sh: "length (suballocators a) = 512" "length (availability_bitmap a) = 128"
    using assms(1) by (auto simp: mlff_ok_def mlff_shape_def)
  obtain st where st: "pf_new (mt_sub M) (b [i]) = Inr st" "sfresh st"
    using page_frame_allocator.new_ok[OF sub[OF assms(4)]] assms(3) by (auto simp: boxes_ok_def)
  obtain st1 al st2 where st2: "pf_allocate (mt_sub M) (\<lambda>p. b (i # p)) st PS ALLOCATION_DEFAULT = Inr (st1, Some al)"
    "fill_sub (fill_entry (mt_sub M) e) 0 (pf_npages (mt_sub M)) st1 = Inr st2" "filled h (mt_sub M) sok socc slive sview e st2 al"
    using page_splitter.fill_ok[OF sub_split[OF assms(4)] sub_big[OF assms(4,5)] st(2) boxes_ok_sub[OF assms(3)], of e i] sub_span[OF assms(4)] e(4) by auto
  have f: "sok st2" "socc st2 = {..<PS}" "slive st2 al" "start_addr al = 0" "alloc_size al = PS" "\<And>r. r < PS \<Longrightarrow> sview st2 r = entry_says PS r (Some e)"
    "paged h al"
    using st2(3) sub_span[OF assms(4)] by (auto simp: filled_def)
  obtain a' p v where a': "exec_bind (point_to_subtable M (mlff_table a) i st2) (\<lambda>t.
      exec_bind (vec_set (suballocators a) i (Some st2)) (\<lambda>subs.
      exec_bind (refresh_availability M (a\<lparr>mlff_table := t, suballocators := subs\<rparr>) i) (\<lambda>a.
      exec_bind (pt_add_subtable_flags (mt_table M) False (mlff_table a) i (case e of Inl _ \<Rightarrow> flags_empty | Inr (_, fl) \<Rightarrow> fl)) (\<lambda>t. Inr (a\<lparr>mlff_table := t\<rparr>, Some al))))) = Inr (a', Some al)"
    "upd i a a'" "aslot a' i = (Some st2, Some (Inr p), v)" "v \<noteq> 0"
    using install_sub[OF assms(1) e(1) assms(4) f(1), of "case e of Inl _ \<Rightarrow> flags_empty | Inr (_, fl) \<Rightarrow> fl" "Some al"]
    by (elim exE conjE) (rule that)
  have "(case e of Inr (addr, flags) \<Rightarrow>
            exec_bind (fill_sub (\<lambda>j st. pf_set_huge_addr (mt_sub M) st j (addr + j * pf_page_size (mt_sub M)) flags) 0 (pf_npages (mt_sub M)) st1) (\<lambda>st. Inr (st, flags))
        | Inl data \<Rightarrow> exec_bind (fill_sub (\<lambda>j st. pf_set_absent (mt_sub M) st j data) 0 (pf_npages (mt_sub M)) st1) (\<lambda>st. Inr (st, flags_empty)))
      = Inr (st2, case e of Inl _ \<Rightarrow> flags_empty | Inr (_, fl) \<Rightarrow> fl)"
    using st2(2) unfolding fill_entry_def[abs_def] by (cases e) auto
  then have "mlff_split_page M b a i = Inr (a', Some al)"
    using assms(4,5) sh e(1-3) st(1) st2(1) a'(1) by (simp add: mlff_split_page_def get_availability_ok vec_get_ok slot_def)
  moreover have "same a a'"
  proof (rule slot_replace[OF assms(1) e(1) a'(2)])
    show "sl_ok (aslot a' i)" using a'(3,4) assms(4) f(1) by simp
    show "sl_occ i (aslot a' i) = sl_occ i (aslot a i)"
      unfolding a'(3) e(2) by (simp add: f(2) lessThan_atLeast0 image_add_atLeastLessThan')
    show "slot_says (aslot a' i) r = slot_says (aslot a i) r" if "r < PS" for r
      unfolding a'(3) e(2) using f(6)[OF that] by (simp add: slot_says_def)
  qed
  moreover have "it_live a' (SubTable i off al)" using e(1) a'(3) f(3) by (simp add: item_live_def)
  ultimately show ?thesis using a'(2) f(4,5,7) by blast
qed

section \<open>Splitting an item\<close>

definition ihalves :: "('t, 's) MLFFAllocator \<Rightarrow> ('t, 's) MLFFAllocator \<Rightarrow> PAllocItem \<Rightarrow> nat \<Rightarrow> PAllocItem \<Rightarrow> PAllocItem \<Rightarrow> bool" where
  "ihalves a a' x mid l r \<longleftrightarrow> same a a' \<and> it_live a' l \<and> it_live a' r \<and> paged_item h PS l \<and> paged_item h PS r
     \<and> item_start PS l = item_start PS x \<and> item_offset l = item_offset x \<and> item_size PS l = mid - item_offset x
     \<and> item_start PS r = item_start PS x + (mid - item_offset x) \<and> item_offset r = mid
     \<and> item_size PS r = item_offset x + item_size PS x - mid
     \<and> (\<forall>y. it_live a y \<longrightarrow> item_covers PS y \<inter> item_covers PS x = {} \<longrightarrow> it_live a' y)"

lemma split_sub_ok:
  assumes "aok a" and "it_live a (SubTable i off al)" and "boxes_ok b" and "paged h al" and "off < mid" and "mid < off + alloc_size al" and "4096 dvd mid - off"
    and "\<And>x. x \<in> item_covers PS (SubTable i off al) \<Longrightarrow> settled (aview a x)"
  shows "\<exists>a' l r. split_sub M SW b i off al mid a = Inr (a', l, r) \<and> ihalves a a' (SubTable i off al) mid l r"
proof -
  obtain st p where st: "i < 512" "SUBTABLES M" "suballocators a ! i = Some st" "sok st" "slive st al" "entry (mlff_table a) i = Some (Inr p)"
    using live_cases[OF assms(1,2)] by auto
  have sh: "shape a" "length (suballocators a) = 512" "sl_ok (aslot a i)" using assms(1) st(1) by (auto simp: mlff_ok_def mlff_shape_def)
  have c: "covers al \<subseteq> {..<PS}"
    using page_frame_allocator.live_ok[OF sub[OF st(2)] st(4,5)] page_frame_allocator.occ_span[OF sub[OF st(2)] st(4)] sub_span[OF st(2)] by auto
  have "settled (sview st y)" if "y \<in> covers al" for y
  proof -
    have y: "y < PS" using c that by auto
    then have "aview a (y + i * PS) = sview st y" using st(1,3) by (simp add: aview_slot slot_says_def slot_def)
    then show ?thesis using assms(8)[of "y + i * PS"] that by simp
  qed
  then obtain st' l r where h: "pw_split_alloc SW (\<lambda>p. b (i # p)) st al (mid - off) = Inr (st', l, r)" "halves h sok socc slive sview st st' al (mid - off) l r"
    using page_splitter.split_ok[OF sub_split[OF st(2)] st(4,5) assms(4) boxes_ok_sub[OF assms(3), of i], of "mid - off"] assms(5-7) by fastforce
  obtain a' where a': "put_sub i st' a = Inr a'" "upd i a a'" "aslot a' i = (Some st', Some (Inr p), avail a i)"
    using put_sub_ok[OF sh(1) st(1), of st'] st(6) by auto
  have s: "aslot a i = (Some st, Some (Inr p), avail a i)" using st(3,6) by (simp add: slot_def)
  have h': "sok st'" "socc st' = socc st" "sview st' = sview st" "slive st' l" "slive st' r" "start_addr l = start_addr al" "alloc_size l = mid - off"
    "start_addr r = start_addr al + (mid - off)" "alloc_size r = alloc_size al - (mid - off)"
    "\<And>al'. slive st al' \<Longrightarrow> covers al' \<inter> covers al = {} \<Longrightarrow> slive st' al'" "paged h l" "paged h r" using h(2) by (auto simp: halves_def)
  have "same a a'"
    by (rule slot_replace[OF assms(1) st(1) a'(2)]) (use sh(3) s a'(3) h'(1-3) in \<open>auto simp: slot_says_def\<close>)
  moreover have "it_live a' y" if y: "it_live a y" "item_covers PS y \<inter> item_covers PS (SubTable i off al) = {}" for y
  proof (rule it_live_upd[OF a'(2) y(1)])
    assume "index y = i" "slot_live slive (aslot a i) y"
    then show "slot_live slive (aslot a' i) y" unfolding s a'(3)
      using y(2) sub_frame[OF st(2,4) _ st(5)] h'(10) by (cases y) auto
  qed
  moreover have "split_sub M SW b i off al mid a = Inr (a', SubTable i off l, SubTable i (off + (mid - off)) r)"
    using st(1-3) sh(2) h(1) a'(1) assms(5) by (simp add: split_sub_def get_suballocator_mut_def vec_get_ok)
  ultimately show ?thesis using st(1) a'(3) h'(4-9,11,12) assms(5,6) by (auto simp: ihalves_def item_live_def)
qed

lemma split_item_ok:
  assumes "aok a" and "it_live a x" and "boxes_ok b" and "paged_item h PS x" and "item_offset x < mid" and "mid < item_offset x + item_size PS x"
    and "4096 dvd mid - item_offset x" and "\<And>y. y \<in> item_covers PS x \<Longrightarrow> settled (aview a y)"
  shows "\<exists>a' l r. split_item M SW b x mid a = Inr (a', l, r) \<and> ihalves a a' x mid l r"
proof (cases x)
  case (SubTable i off al)
  then show ?thesis using split_sub_ok[OF assms(1) _ assms(3), of i off al mid] assms by (simp add: split_item_def)
next
  case (Page i off)
  have i: "i < 512" "suballocators a ! i = None" using live_cases[OF assms(1,2)] Page by auto
  have m: "off < mid" "mid < off + PS" "4096 dvd mid - off" using assms(5-7) Page by auto
  then have "PS \<noteq> 4096" by (metis dvd_imp_le less_diff_conv2 linorder_not_less nless_le zero_less_diff add.commute)
  then have M: "SUBTABLES M" "HUGEPAGES M" using assms(4) sizes Page by auto
  have "settled (slot_says (aslot a i) r)" if r: "r < PS" for r
  proof -
    have "(r + i * PS) div PS = i" "(r + i * PS) mod PS = r" using r by auto
    then have "aview a (r + i * PS) = slot_says (aslot a i) r" using i(1) by (simp add: aview_slot)
    moreover have "r + i * PS \<in> item_covers PS x" using r Page by auto
    ultimately show ?thesis using assms(8) by metis
  qed
  then obtain a1 al where a1: "mlff_split_page M b a i = Inr (a1, Some al)" "same a a1" "upd i a a1" "it_live a1 (SubTable i off al)"
    "paged h al" "start_addr al = 0" "alloc_size al = PS"
    using split_page_ok[OF assms(1) _ assms(3) M] assms(2) Page by blast
  have ok1: "aok a1" using a1(2) by (simp add: same_def)
  have c: "item_covers PS (SubTable i off al) = item_covers PS x"
    using wf_alloc_span(1)[of al] live_item[OF ok1 a1(4)] a1(6,7) Page by (simp add: image_add_atLeastLessThan')
  obtain a' l r where a': "split_sub M SW b i off al mid a1 = Inr (a', l, r)" "ihalves a1 a' (SubTable i off al) mid l r"
    using split_sub_ok[OF ok1 a1(4) assms(3) a1(5) m(1) _ m(3)] m(2) a1(2,7) c assms(8) by (auto simp: same_def)
  have "it_live a1 y" if y: "it_live a y" "item_covers PS y \<inter> item_covers PS x = {}" for y
  proof (rule it_live_upd[OF a1(3) y(1)])
    assume "index y = i" "slot_live slive (aslot a i) y"
    then have "y = Page i (item_offset y)" using i(2) by (cases y) (auto simp: slot_def)
    then show "slot_live slive (aslot a1 i) y" using y(2) Page page_size_pos(1) by (metis Int_absorb item_covers.simps(1) atLeastLessThan_empty_iff less_add_same_cancel1 mult_Suc Suc_eq_plus1 add.commute)
  qed
  then have "ihalves a a' x mid l r"
    using a'(2) a1(2,6,7) c Page unfolding ihalves_def by (auto intro: same_trans)
  then show ?thesis using a1(1) a'(1) Page by (auto simp: split_item_def)
qed

section \<open>Splitting an allocation\<close>

abbreviation covered where "covered xs \<equiv> (\<Union>x\<in>set xs. item_covers PS x)"

lemma live_covers:
  assumes "aok a" and "it_live a x"
  shows "item_covers PS x = {item_start PS x..<item_start PS x + item_size PS x}" "0 < item_size PS x"
  using wf_alloc_span(2)[of PS x] live_item[OF assms] page_size_pos(1) by auto

lemma adjacent_covered:
  assumes "aok a" and "\<And>x. x \<in> set xs \<Longrightarrow> it_live a x" and "adjacent PS pos off xs"
  shows "covered xs = {pos..<pos + sum_list (map (item_size PS) xs)}" "\<forall>x\<in>set xs. off \<le> item_offset x"
  using adjacent_covers[OF assms(3)] adjacent_sorted[OF assms(3)] live_covers[OF assms(1,2)] by auto

lemma split_after:
  "(\<And>x. x \<in> set xs \<Longrightarrow> mid \<le> item_offset x) \<Longrightarrow> split_entries M SW b mid xs lhs rhs a = Inr (a, lhs, rhs @ xs)"
proof (induction xs arbitrary: rhs)
  case (Cons x xs)
  then have "\<not> item_offset x < mid" by (simp add: not_less)
  then show ?case using Cons by simp
qed simp

text \<open>The two lists that an adjacent list of live items is split into.\<close>

definition list_halves :: "('t, 's) MLFFAllocator \<Rightarrow> ('t, 's) MLFFAllocator \<Rightarrow> nat \<Rightarrow> nat \<Rightarrow> PAllocItem list \<Rightarrow> nat \<Rightarrow> PAllocItem list \<Rightarrow> PAllocItem list \<Rightarrow> bool" where
  "list_halves a a' pos off xs mid L R \<longleftrightarrow> same a a' \<and> (\<forall>x\<in>set L \<union> set R. it_live a' x \<and> paged_item h PS x)
     \<and> adjacent PS pos off L \<and> adjacent PS (pos + (mid - off)) mid R
     \<and> sum_list (map (item_size PS) L) = mid - off \<and> sum_list (map (item_size PS) R) = off + sum_list (map (item_size PS) xs) - mid
     \<and> (\<forall>y. it_live a y \<longrightarrow> item_covers PS y \<inter> covered xs = {} \<longrightarrow> it_live a' y)"

lemma split_pivot:
  assumes "aok a" and "\<And>y. y \<in> set (x # xs) \<Longrightarrow> it_live a y \<and> paged_item h PS y" and "adjacent PS pos off (x # xs)" and "boxes_ok b"
    and "off < mid" and "mid < off + item_size PS x" and "4096 dvd mid - off" and "\<And>y. y \<in> item_covers PS x \<Longrightarrow> settled (aview a y)"
  shows "\<exists>a' l r. split_item M SW b x mid a = Inr (a', l, r) \<and> list_halves a a' pos off (x # xs) mid [l] (r # xs)"
proof -
  have x: "it_live a x" "paged_item h PS x" "item_offset x = off" "item_start PS x = pos" using assms(2)[of x] assms(3) by auto
  obtain a' l r where a': "split_item M SW b x mid a = Inr (a', l, r)" "ihalves a a' x mid l r"
    using split_item_ok[OF assms(1) x(1) assms(4) x(2)] assms(5-8) x(3) by blast
  have rest: "covered xs = {pos + item_size PS x..<pos + item_size PS x + sum_list (map (item_size PS) xs)}"
    using adjacent_covered(1)[OF assms(1), of xs "pos + item_size PS x" "off + item_size PS x"] assms(2,3) by auto
  have "item_covers PS y \<inter> item_covers PS x = {}" if "y \<in> set xs" for y
  proof -
    have "item_covers PS y \<subseteq> covered xs" using that by auto
    then show ?thesis unfolding rest live_covers(1)[OF assms(1) x(1)] x(4) by auto
  qed
  then have "it_live a' y" if "y \<in> set xs" for y using a'(2) that assms(2)[of y] by (auto simp: ihalves_def)
  moreover have "pos + (mid - off) + (off + item_size PS x - mid) = pos + item_size PS x" "mid + (off + item_size PS x - mid) = off + item_size PS x"
    using assms(5,6) by simp_all
  ultimately have "list_halves a a' pos off (x # xs) mid [l] (r # xs)"
    using a'(2) x assms(2,3,6) by (auto simp: list_halves_def ihalves_def)
  then show ?thesis using a'(1) by blast
qed

lemma split_entries_ok:
  assumes "aok a" and "\<And>x. x \<in> set xs \<Longrightarrow> it_live a x \<and> paged_item h PS x" and "adjacent PS pos off xs" and "boxes_ok b"
    and "off < mid" and "mid < off + sum_list (map (item_size PS) xs)" and "\<And>x. x \<in> set xs \<Longrightarrow> 4096 dvd item_offset x" and "4096 dvd mid"
    and "\<And>y. y \<in> covered xs \<Longrightarrow> settled (aview a y)"
  shows "\<exists>a' L R. split_entries M SW b mid xs lhs rhs a = Inr (a', lhs @ L, rhs @ R) \<and> list_halves a a' pos off xs mid L R"
  using assms(2,3,5,6,7,9)
proof (induction xs arbitrary: pos off lhs)
  case (Cons x xs)
  have x: "it_live a x" "item_offset x = off" "item_start PS x = pos" using Cons.prems(1)[of x] Cons.prems(2) by auto
  have cx: "item_covers PS x = {pos..<pos + item_size PS x}" "0 < item_size PS x" using live_covers[OF assms(1) x(1)] x(3) by auto
  have adj: "adjacent PS (pos + item_size PS x) (off + item_size PS x) xs" using Cons.prems(2) by simp
  have lv: "it_live a y" if "y \<in> set xs" for y using Cons.prems(1)[of y] that by auto
  note rest = adjacent_covered[OF assms(1) lv adj]
  have d: "4096 dvd mid - off" using assms(8) Cons.prems(5)[of x] x(2) by (simp add: dvd_diff_nat)
  consider "mid < off + item_size PS x" | "mid = off + item_size PS x" | "off + item_size PS x < mid" by linarith
  then show ?case
  proof cases
    case 1
    have p: "case xs of [] \<Rightarrow> True | ni # _ \<Rightarrow> item_offset ni > mid" using 1 adj by (cases xs) auto
    obtain a' l r where a': "split_item M SW b x mid a = Inr (a', l, r)" "list_halves a a' pos off (x # xs) mid [l] (r # xs)"
      using split_pivot[OF assms(1) Cons.prems(1,2) assms(4) Cons.prems(3) 1 d] Cons.prems(6) by auto
    have "split_entries M SW b mid xs (lhs @ [l]) (rhs @ [r]) a' = Inr (a', lhs @ [l], (rhs @ [r]) @ xs)"
      by (rule split_after) (use rest(2) 1 in force)
    then show ?thesis using a' p x(2) Cons.prems(3) by (intro exI[of _ a'] exI[of _ "[l]"] exI[of _ "r # xs"]) simp
  next
    case 2
    have ne: "xs \<noteq> []" using 2 Cons.prems(4) by auto
    then have p: "\<not> (case xs of [] \<Rightarrow> True | ni # _ \<Rightarrow> item_offset ni > mid)" using 2 adj by (cases xs) auto
    have "split_entries M SW b mid xs (lhs @ [x]) rhs a = Inr (a, lhs @ [x], rhs @ xs)"
      by (rule split_after) (use rest(2) 2 in force)
    moreover have "list_halves a a pos off (x # xs) mid [x] xs"
      using 2 adj x Cons.prems(1) assms(1) by (auto simp: list_halves_def same_def)
    ultimately show ?thesis using p x(2) Cons.prems(3) by (intro exI[of _ a] exI[of _ "[x]"] exI[of _ xs]) simp
  next
    case 3
    then have p: "\<not> (case xs of [] \<Rightarrow> True | ni # _ \<Rightarrow> item_offset ni > mid)"
      using Cons.prems(4) adj by (cases xs) auto
    obtain a' L R where a': "split_entries M SW b mid xs (lhs @ [x]) rhs a = Inr (a', (lhs @ [x]) @ L, rhs @ R)"
      "list_halves a a' (pos + item_size PS x) (off + item_size PS x) xs mid L R"
      using Cons.IH[OF _ adj 3, of "lhs @ [x]"] Cons.prems(1,4,5,6) by auto
    have "item_covers PS x \<inter> covered xs = {}" using rest(1) cx(1) by simp
    then have "it_live a' x" using a'(2) x(1) by (auto simp: list_halves_def)
    moreover have "pos + item_size PS x + (mid - (off + item_size PS x)) = pos + (mid - off)" using 3 by simp
    ultimately have "list_halves a a' pos off (x # xs) mid (x # L) R"
      using a'(2) x Cons.prems(1) 3 by (auto simp: list_halves_def Int_Un_distrib add.assoc)
    then show ?thesis using a'(1) p x(2) Cons.prems(3) by (intro exI[of _ a'] exI[of _ "x # L"] exI[of _ R]) simp
  qed
qed simp

lemma item_pages: "aok a \<Longrightarrow> it_live a x \<Longrightarrow> 4096 dvd item_size PS x"
  using live_cases[of a x] page_splitter.size_ok[OF sub_split] page_size_pos(2) by (cases x) auto

lemma adjacent_pages:
  "adjacent PS pos off xs \<Longrightarrow> 4096 dvd off \<Longrightarrow> (\<And>x. x \<in> set xs \<Longrightarrow> 4096 dvd item_size PS x) \<Longrightarrow>
    (\<forall>x\<in>set xs. 4096 dvd item_offset x) \<and> 4096 dvd sum_list (map (item_size PS) xs)"
proof (induction xs arbitrary: pos off)
  case (Cons x xs)
  then show ?case using Cons.IH[of "pos + item_size PS x" "off + item_size PS x"] by auto
qed simp

lemma live_entries:
  assumes "aok a" and "alive a al"
  shows "\<exists>xs. al = PartialPageAllocation xs PS \<and> adjacent PS (start_addr al) 0 xs \<and> (\<forall>x\<in>set xs. it_live a x)
    \<and> (\<forall>x\<in>set xs. 4096 dvd item_offset x) \<and> 4096 dvd alloc_size al"
proof -
  obtain xs where al: "al = PartialPageAllocation xs PS" using assms(2) by (cases al) (auto simp: mlff_live_def)
  have "wf_alloc al" "\<forall>x\<in>set xs. it_live a x" using assms(2) al by (auto simp: mlff_live_def)
  moreover from this have "adjacent PS (start_addr al) 0 xs" by (simp add: al start_addr_eq)
  ultimately show ?thesis using adjacent_pages[of "start_addr al" 0 xs] item_pages[OF assms(1)] al by auto
qed

lemma live_of_items:
  assumes "aok a" and "\<And>x. x \<in> set xs \<Longrightarrow> it_live a x" and "adjacent PS pos 0 xs" and "0 < sum_list (map (item_size PS) xs)"
  shows "alive a (PartialPageAllocation xs PS)" "start_addr (PartialPageAllocation xs PS) = pos"
proof -
  have ne: "xs \<noteq> []" using assms(4) by auto
  then show "start_addr (PartialPageAllocation xs PS) = pos" using assms(3) by (cases xs) (simp_all add: start_addr_eq)
  show "alive a (PartialPageAllocation xs PS)"
    using ne assms(2,3) live_item[OF assms(1)] page_size_pos(1) by (cases xs) (auto simp: mlff_live_def)
qed

lemma split_correct:
  assumes "aok a" and "alive a al" and "paged h al" and "boxes_ok b" and "0 < mid" and "mid < alloc_size al" and "4096 dvd mid"
    and "\<forall>x\<in>covers al. settled (aview a x)"
  shows "\<exists>a' l r. split_alloc_inner M SW b a al mid = Inr (a', l, r) \<and> halves h aok aocc alive aview a a' al mid l r"
proof -
  obtain xs where al: "al = PartialPageAllocation xs PS" "adjacent PS (start_addr al) 0 xs" "\<forall>x\<in>set xs. it_live a x" "\<forall>x\<in>set xs. 4096 dvd item_offset x"
    using live_entries[OF assms(1,2)] by blast
  obtain a' L R where a': "split_entries M SW b mid xs [] [] a = Inr (a', L, R)" "list_halves a a' (start_addr al) 0 xs mid L R"
    using split_entries_ok[OF assms(1) _ al(2) assms(4,5), of "[]" "[]"] al assms(3,6,7,8) by auto
  let ?R = "map (offset_mut (\<lambda>n. n - mid)) R"
  have lh: "same a a'" "\<And>x. x \<in> set L \<union> set R \<Longrightarrow> it_live a' x \<and> paged_item h PS x" "adjacent PS (start_addr al) 0 L" "adjacent PS (start_addr al + mid) mid R"
    "sum_list (map (item_size PS) L) = mid" "sum_list (map (item_size PS) R) = alloc_size al - mid"
    "\<And>y. it_live a y \<Longrightarrow> item_covers PS y \<inter> covered xs = {} \<Longrightarrow> it_live a' y"
    using a'(2) al(1) by (auto simp: list_halves_def)
  have ok': "aok a'" using lh(1) by (simp add: same_def)
  have rb: "rebase R = ?R" using lh(4,6) assms(6) by (cases R) (auto simp: rebase_def)
  have sz: "sum_list (map (item_size PS) ?R) = alloc_size al - mid" using lh(6) by (simp add: comp_def)
  have l: "alive a' (PartialPageAllocation L PS)" "start_addr (PartialPageAllocation L PS) = start_addr al"
    using live_of_items[OF ok' _ lh(3)] lh(2,5) assms(5) by auto
  have adj: "adjacent PS (start_addr al + mid) 0 ?R" using adjacent_unshift[of PS "start_addr al + mid" 0 mid R] lh(4) by simp
  have "it_live a' x" if "x \<in> set ?R" for x using that lh(2) by (auto simp: it_live_offset)
  then have r: "alive a' (PartialPageAllocation ?R PS)" "start_addr (PartialPageAllocation ?R PS) = start_addr al + mid"
    using live_of_items[OF ok' _ adj] sz assms(6) by auto
  have "alive a' al'" if "alive a al'" "covers al' \<inter> covers al = {}" for al'
    using that lh(7) al(1) by (cases al') (fastforce simp: mlff_live_def)
  then have "halves h aok aocc alive aview a a' al mid (PartialPageAllocation L PS) (PartialPageAllocation ?R PS)"
    using lh(1,2,5) l r sz by (auto simp: halves_def same_def)
  then show ?thesis using a'(1) al(1) rb by (auto simp: split_alloc_inner_def)
qed

end

sublocale first_fit_split < splitter: page_splitter "mlff_ops M" "mlff_ok M tok entry sok" "mlff_occ M entry socc"
  "mlff_fresh tok entry" "mlff_live M entry slive" "mlff_fits M sfits" "mlff_walk M SW" "mlff_view M entry sview" "HUGEPAGES M" h
proof (intro page_splitter.intro page_splitter_axioms.intro marker.page_marker_axioms)
  have sp: "pf_span (mlff_ops M) = 512 * mlff_PAGE_SIZE M" by (simp add: pf_span_def npages_eq)
  show "\<exists>a1 al a2. pf_allocate (mlff_ops M) b a (pf_span (mlff_ops M)) ALLOCATION_DEFAULT = Inr (a1, Some al)
      \<and> fill_sub (fill_entry (mlff_ops M) e) 0 (pf_npages (mlff_ops M)) a1 = Inr a2
      \<and> filled h (mlff_ops M) (mlff_ok M tok entry sok) (mlff_occ M entry socc) (mlff_live M entry slive) (mlff_view M entry sview) e a2 al"
    if "HUGEPAGES M" "mlff_fresh tok entry a" "boxes_ok b" "divisible_entry (pf_span (mlff_ops M)) e" for a b e
    using fill_correct[OF that(1-3)] that(4) unfolding sp by (simp add: npages_eq)
qed (auto simp: mlff_walk_def split_correct dest: live_entries)

section \<open>The four levels\<close>

definition page_sizes :: "features \<Rightarrow> nat \<Rightarrow> bool" where
  "page_sizes ft ps \<longleftrightarrow> ps = 4096 \<or> ps = 0x200000 \<or> (ps = 0x40000000 \<and> one_gb_huge_pages ft)"

sublocale pte_crate < x64r: readable_table "x64_page_table api ft level" x64_ok "x64_entry api" for ft level
proof (intro readable_table.intro readable_table_axioms.intro x64.page_table_axioms)
  show "pt_get_entry (x64_page_table api ft level) t i = Inr e" if "x64_ok t" "i < 512" "x64_entry api t i = Some e" for t i e
    using that present_bit by (auto simp: x64_page_table_def x64_get_entry_def x64_entry_def x64_ok_def vec_get_ok decode_def split: if_splits)
  show "0 < d \<and> d < 2 ^ 63" if a: "x64_ok t" "x64_entry api t i = Some (Inl d)" for t i d
  proof -
    obtain e :: "64 word" where e: "e \<noteq> 0" "\<not> bit e 0" "d = unat (drop_bit 1 e)"
      using a(2) by (auto simp: x64_entry_def decode_def split: if_splits)
    have "0 < d"
    proof (rule ccontr)
      assume "\<not> 0 < d"
      then have "unat (drop_bit 1 e) = 0" using e(3) by simp
      then have z: "drop_bit 1 e = 0" by (simp only: unsigned_eq_0_iff)
      have "\<not> bit e n" for n using e(2) z bit_drop_bit_eq[of 1 e] by (cases n) (auto simp: fun_eq_iff)
      then show False using e(1) by (simp add: bit_eq_iff)
    qed
    moreover have "d = unat e div 2" unfolding e(3) unat_drop_bit_eq by (simp add: drop_bit_eq_div)
    moreover have "unat e < 2 ^ 64" using unsigned_less[of e] by simp
    ultimately show ?thesis by simp
  qed
qed

lemma level_pages:
  "page_sizes ft (mlff_PAGE_SIZE (X64Level1 api ft)) \<longleftrightarrow> HUGEPAGES (X64Level1 api ft)" "page_sizes ft (mlff_PAGE_SIZE (X64Level2 api ft)) \<longleftrightarrow> HUGEPAGES (X64Level2 api ft)"
  "page_sizes ft (mlff_PAGE_SIZE (X64Level3 api ft)) \<longleftrightarrow> HUGEPAGES (X64Level3 api ft)" "page_sizes ft (mlff_PAGE_SIZE (X64Level4 api ft)) \<longleftrightarrow> HUGEPAGES (X64Level4 api ft)"
  by (simp_all add: page_sizes_def X64Level1_def X64Level2_def X64Level3_def X64Level4_def mlff_PAGE_SIZE_def mlff_ops_def mlff_NPAGES_def x64_page_table_def)

lemma huge_levels [simp]: "HUGEPAGES (X64Level2 api ft)" "HUGEPAGES (X64Level3 api ft) \<longleftrightarrow> one_gb_huge_pages ft" "\<not> HUGEPAGES (X64Level4 api ft)"
  by (simp_all add: X64Level2_def X64Level3_def X64Level4_def)

sublocale pte_crate < S1: first_fit_split "X64Level1 api ft" x64_ok "x64_entry api" "\<lambda>_. True" "\<lambda>_. {}" "\<lambda>_. True" "\<lambda>_ _. False" "\<lambda>_ _. True"
  no_walk "\<lambda>_ _. None" "\<lambda>_ _. (None, None)" False "page_sizes ft" for ft
  by (intro first_fit_split.intro first_fit_split_axioms.intro A1.first_fit_mark_axioms level_pages) (simp_all add: x64r.readable_table_axioms)

sublocale pte_crate < S2: first_fit_split "X64Level2 api ft" x64_ok "x64_entry api" "l1_ok api ft" "l1_occ api ft" "l_fresh api" "l1_live api ft" "l1_fits api ft"
  "walk1 api ft" "l1_leaf api ft" "l1_view api ft" "HUGEPAGES (X64Level1 api ft)" "page_sizes ft" for ft
  by (intro first_fit_split.intro first_fit_split_axioms.intro A2.first_fit_mark_axioms level_pages)
    (simp_all add: x64r.readable_table_axioms walk1_def S1.splitter.page_splitter_axioms[simplified level_tables])

sublocale pte_crate < S3: first_fit_split "X64Level3 api ft" x64_ok "x64_entry api" "l2_ok api ft" "l2_occ api ft" "l_fresh api" "l2_live api ft" "l2_fits api ft"
  "walk2 api ft" "l2_leaf api ft" "l2_view api ft" "HUGEPAGES (X64Level2 api ft)" "page_sizes ft" for ft
  by (intro first_fit_split.intro first_fit_split_axioms.intro A3.first_fit_mark_axioms level_pages)
    (simp_all add: x64r.readable_table_axioms walk2_def S2.splitter.page_splitter_axioms[simplified huge_levels])

sublocale pte_crate < S4: first_fit_split "X64Level4 api ft" x64_ok "x64_entry api" "l3_ok api ft" "l3_occ api ft" "l_fresh api" "l3_live api ft" "l3_fits api ft"
  "walk3 api ft" "l3_leaf api ft" "l3_view api ft" "HUGEPAGES (X64Level3 api ft)" "page_sizes ft" for ft
  by (intro first_fit_split.intro first_fit_split_axioms.intro A4.first_fit_mark_axioms level_pages)
    (simp_all add: x64r.readable_table_axioms walk3_def S3.splitter.page_splitter_axioms[simplified huge_levels])

section \<open>Allocations consist of pages of these sizes\<close>

definition pages_only :: "(nat \<Rightarrow> bool) \<Rightarrow> 'a pfa \<Rightarrow> bool" where
  "pages_only h A \<longleftrightarrow> (\<forall>b a sz strat a' al. pf_allocate A b a sz strat = Inr (a', Some al) \<longrightarrow> paged h al)
     \<and> (\<forall>b a addr sz a' al. pf_allocate_at A b a addr sz = Inr (a', Some al) \<longrightarrow> paged h al)"

lemma in_subtable_paged:
  assumes "in_subtable M b i f a = Inr (a', Some al)" and "\<And>b st st' al. f b st = Inr (st', Some al) \<Longrightarrow> paged h al"
  shows "paged h al"
  using assms by (auto simp: in_subtable_def exec_dests)

lemma push_remainders_paged:
  "(\<And>x. x \<in> set items \<Longrightarrow> paged_item h ps x) \<Longrightarrow> (\<And>x n. Some (x, n) \<in> set rs \<Longrightarrow> paged_item h ps x) \<Longrightarrow>
    x \<in> set (push_remainders items rs) \<Longrightarrow> paged_item h ps x"
proof (induction items rs rule: push_remainders.induct)
  case (3 items rem_alloc offset_by rs)
  then show ?case by (cases "offset_by = 0") fastforce+
qed auto

lemma build_paged:
  assumes "\<And>x. x \<in> set items \<Longrightarrow> paged_item h (mlff_PAGE_SIZE M) x" and "\<And>x n. Some (x, n) \<in> set rs \<Longrightarrow> paged_item h (mlff_PAGE_SIZE M) x"
  shows "paged h (build_allocation M items rs)"
  using push_remainders_paged[of items h "mlff_PAGE_SIZE M" rs, OF assms] by (simp add: build_allocation_def)

locale paged_level =
  fixes M :: "('t, 's) mlff_type" and h :: "nat \<Rightarrow> bool"
  assumes sub_paged: "SUBTABLES M \<Longrightarrow> pages_only h (mt_sub M)" and huge_paged: "HUGEPAGES M \<Longrightarrow> h (mlff_PAGE_SIZE M)"
begin

lemma one_paged: "alloc_one M b s i a = Inr (a', x) \<Longrightarrow> paged_item h (mlff_PAGE_SIZE M) x"
  using huge_paged sub_paged by (auto simp: alloc_one_def exec_dests pages_only_def split: if_splits option.splits dest!: in_subtable_paged[where h = h])

lemma contiguous_paged:
  "alloc_contiguous M b s i n a acc = Inr (a', xs) \<Longrightarrow> (\<forall>x\<in>set acc. paged_item h (mlff_PAGE_SIZE M) x) \<Longrightarrow> (\<forall>x\<in>set xs. paged_item h (mlff_PAGE_SIZE M) x)"
proof (induction n arbitrary: i a acc)
  case (Suc n)
  then obtain a1 x where "alloc_one M b s i a = Inr (a1, x)" "alloc_contiguous M b s (i + 1) n a1 (acc @ [x]) = Inr (a', xs)"
    by (auto simp: exec_dests)
  then show ?case using Suc.IH[of "i + 1" a1 "acc @ [x]"] one_paged Suc.prems(2) by auto
qed simp

lemma contiguous_items: "alloc_contiguous M b s i n a [] = Inr (a', xs) \<Longrightarrow> x \<in> set xs \<Longrightarrow> paged_item h (mlff_PAGE_SIZE M) x"
  using contiguous_paged by fastforce

lemma rem_paged: "alloc_rem M b i inner sz a = Inr (a', Some al) \<Longrightarrow> paged h al"
  using sub_paged by (auto simp: alloc_rem_def Let_def exec_dests pages_only_def split: if_splits option.splits dest!: in_subtable_paged[where h = h])

lemma inside_paged: "alloc_inside M b i sz strat a = Inr (a', Some al) \<Longrightarrow> paged h al"
  using sub_paged by (auto simp: alloc_inside_def Let_def exec_dests pages_only_def split: if_splits option.splits dest!: in_subtable_paged[where h = h])

lemma try_paged: "try_offset M b strategy strat n r off a = Inr (a', Some al) \<Longrightarrow> paged h al"
  by (auto simp: try_offset_def exec_dests split: if_splits option.splits intro!: build_paged dest!: inside_paged rem_paged dest: contiguous_items)

lemma search_paged: "search_offsets M b strategy strat n r offs a = Inr (a', Some al) \<Longrightarrow> paged h al"
  by (induction offs arbitrary: a) (auto simp: exec_dests split: option.splits dest: try_paged)

lemma rem_if_paged: "alloc_rem_if M b w i inner sz a = Inr (a', Some (Some al)) \<Longrightarrow> paged h al"
  by (auto simp: alloc_rem_if_def exec_dests split: if_splits dest: rem_paged)

lemma at_parts_paged:
  assumes "allocate_at_parts M b a k at srs sz = Inr (a', Some al)"
  shows "paged h al"
  using assms by (auto simp: allocate_at_parts_def Let_def exec_dests split: if_splits option.splits
      intro!: build_paged dest!: map_option_eq_Some[THEN iffD1, OF sym]) (erule rem_if_paged | erule contiguous_items; assumption)+

lemma level_paged: "pages_only h (mlff_ops M)"
  by (auto simp: pages_only_def mlff_ops_def mlff_allocate_def mlff_allocate_at_def Let_def exec_dests split: if_splits dest: search_paged at_parts_paged)

end

interpretation P1: paged_level "X64Level1 api ft" "page_sizes ft" for api ft
  by unfold_locales (simp_all add: page_sizes_def)

interpretation P2: paged_level "X64Level2 api ft" "page_sizes ft" for api ft
  by unfold_locales (simp_all add: page_sizes_def P1.level_paged)

interpretation P3: paged_level "X64Level3 api ft" "page_sizes ft" for api ft
  by unfold_locales (simp_all add: page_sizes_def P2.level_paged)

interpretation P4: paged_level "X64Level4 api ft" "page_sizes ft" for api ft
  by unfold_locales (simp_all add: page_sizes_def P3.level_paged)

end
