(* ===== verification/Page_Unmap.thy ===== *)
theory Page_Unmap
  imports Page_Split
begin

text \<open>
  What freeing an allocation does to the tables (\<open>deallocate\<close> of \<open>memory/paging/allocators/firstfit.rs\<close>, called by
  \<open>dealloc\<close> of \<open>memory/paging/api.rs\<close>), by the same induction over the levels: the bytes of the allocation are no longer
  translated, every other byte is translated as before, and nothing outside the memory in use is ever translated.
\<close>

section \<open>The contract\<close>

locale page_unmapper = page_marker A ok occ fresh live fits W view
  for A :: "'a pfa" and ok occ fresh live fits W view +
  assumes unused: "ok a \<Longrightarrow> x \<notin> occ a \<Longrightarrow> view a x = (None, None)"
    and free_view: "ok a \<Longrightarrow> live a al \<Longrightarrow> pf_deallocate A a al = Inr a' \<Longrightarrow> x \<notin> covers al \<Longrightarrow> view a' x = view a x"
begin

lemma unmap_ok:
  assumes "ok a" and "live a al"
  shows "\<exists>a'. pf_deallocate A a al = Inr a' \<and> ok a' \<and> occ a' = occ a - covers al
    \<and> (\<forall>al'. live a al' \<longrightarrow> covers al' \<inter> covers al = {} \<longrightarrow> live a' al')
    \<and> (\<forall>x. view a' x = (if x \<in> covers al then (None, None) else view a x))"
proof -
  obtain a' where a': "pf_deallocate A a al = Inr a'" "ok a'" "occ a' = occ a - covers al" "\<forall>al'. live a al' \<longrightarrow> covers al' \<inter> covers al = {} \<longrightarrow> live a' al'"
    using deallocate_ok[OF assms] by blast
  then show ?thesis using unused[OF a'(2)] free_view[OF assms a'(1)] by auto
qed

end

locale first_fit_unmap = first_fit_split M tok entry sok socc sfresh slive sfits SW sleaf sview sbig h
  for M :: "('t, 's) mlff_type" and tok :: "'t \<Rightarrow> bool" and entry :: "'t entry_view" and sok socc sfresh slive sfits SW sleaf sview sbig h +
  assumes sub_unmap: "SUBTABLES M \<Longrightarrow> page_unmapper (mt_sub M) sok socc sfresh slive sfits SW sview"
begin

lemma unused_view:
  assumes "aok a" and "x \<notin> aocc a"
  shows "aview a x = (None, None)"
proof (cases "x div PS < 512")
  case True
  let ?i = "x div PS" and ?r = "x mod PS"
  have x: "x = ?r + ?i * PS" "x \<in> {?i * PS..<(?i + 1) * PS}" using page_size_pos(1) by (simp_all add: dividend_less_div_times)
  have no: "x \<notin> sl_occ ?i (aslot a ?i)" using occ_slot[OF assms(1) True] assms(2) by blast
  have ok: "sl_ok (aslot a ?i)" using assms(1) True by (simp add: mlff_ok_def)
  obtain s e v where s: "aslot a ?i = (s, e, v)" by (cases "aslot a ?i")
  have "slot_says (s, e, v) ?r = (None, None)"
  proof (cases s)
    case None
    then show ?thesis using no x(2) s by (auto simp: slot_says_def entry_says_def split: if_splits)
  next
    case (Some st)
    then have "?r \<notin> socc st" using no x(1) s by (metis (no_types, lifting) image_eqI slot_occ.simps(2))
    then show ?thesis using page_unmapper.unused[OF sub_unmap] ok s Some by (auto simp: slot_says_def)
  qed
  then show ?thesis using True s by (simp add: aview_slot)
qed (simp add: aview_slot)

lemma free_item_view:
  assumes "aok a" and "it_live a y" and "mlff_deallocate_items M [y] a = Inr a'" and "x \<notin> item_covers PS y"
  shows "aview a' x = aview a x"
proof (cases y)
  case (Page i off)
  then have u: "upd i a a'" using dealloc_page_run[OF assms(1)] assms(2,3) by force
  have "x div PS \<noteq> i" using assms(4) Page page_size_pos(1) by (auto simp: dividend_less_div_times)
  then show ?thesis using u by (auto simp: aview_slot upd_def)
next
  case (SubTable i off al)
  obtain st st' e v where s: "SUBTABLES M" "i < 512" "upd i a a'" "aslot a i = (Some st, Some (Inr e), v)"
    "pf_deallocate (mt_sub M) st al = Inr st'" "sok st" "sok st'" "slive st al"
    and new: "aslot a' i = (None, None, 0) \<and> socc st' = {} \<or> (\<exists>v. aslot a' i = (Some st', Some (Inr e), v) \<and> v \<noteq> 0)"
    using dealloc_sub_run[OF assms(1)] assms(2,3) SubTable by force
  show ?thesis
  proof (cases "x div PS = i")
    case True
    have x: "x = x mod PS + i * PS" using True by (metis mod_div_mult_eq)
    have "x mod PS \<notin> covers al"
      using assms(4) x unfolding SubTable sub_alloc_span(2)[OF s(1,6,8)] by blast
    then have v: "sview st' (x mod PS) = sview st (x mod PS)" using page_unmapper.free_view[OF sub_unmap] s by blast
    have "slot_says (aslot a' i) (x mod PS) = slot_says (aslot a i) (x mod PS)"
      using new
    proof
      assume n: "aslot a' i = (None, None, 0) \<and> socc st' = {}"
      then have "sview st' (x mod PS) = (None, None)" using page_unmapper.unused[OF sub_unmap] s(1,7) by blast
      then show ?thesis using n v s(4) by (simp add: slot_says_def entry_says_def)
    qed (use v s(4) in \<open>auto simp: slot_says_def\<close>)
    then show ?thesis using True by (simp add: aview_slot)
  qed (use s(3) in \<open>auto simp: aview_slot upd_def\<close>)
qed

lemma free_items_view:
  assumes "aok a" and "\<And>y. y \<in> set ys \<Longrightarrow> it_live a y" and "adjacent PS pos off ys" and "mlff_deallocate_items M ys a = Inr a'"
    and "\<And>y. y \<in> set ys \<Longrightarrow> x \<notin> item_covers PS y"
  shows "aview a' x = aview a x"
  using assms
proof (induction ys arbitrary: a pos off)
  case (Cons y ys)
  have adj: "adjacent PS (pos + item_size PS y) (off + item_size PS y) ys" "item_start PS y = pos" using Cons.prems(3) by auto
  obtain a1 where a1: "mlff_deallocate_items M [y] a = Inr a1" "ishrunk a a1 (item_covers PS y)"
    using dealloc_item_ok[OF Cons.prems(1)] Cons.prems(2)[of y] by auto
  have run: "mlff_deallocate_items M ys a1 = Inr a'" using Cons.prems(4) a1(1) by (subst (asm) dealloc_cons) simp
  have y: "item_covers PS y = {pos..<pos + item_size PS y}" using live_covers(1)[OF Cons.prems(1), of y] Cons.prems(2) adj(2) by simp
  have ys: "covered ys = {pos + item_size PS y..<pos + item_size PS y + sum_list (map (item_size PS) ys)}"
    using adjacent_covered(1)[OF Cons.prems(1) _ adj(1)] Cons.prems(2) by simp
  have "it_live a1 z" if "z \<in> set ys" for z
  proof -
    have "item_covers PS z \<subseteq> covered ys" using that by blast
    then have "item_covers PS z \<inter> item_covers PS y = {}" unfolding ys y by auto
    then show ?thesis using a1(2) Cons.prems(2)[of z] that by (simp add: ishrunk_def)
  qed
  then have "aview a' x = aview a1 x"
    using Cons.IH[of a1] a1(2) adj(1) run Cons.prems(5) by (simp add: ishrunk_def)
  then show ?case using free_item_view[OF Cons.prems(1) _ a1(1)] Cons.prems(2,5) by simp
qed simp

lemma free_view_correct:
  assumes "aok a" and "alive a al" and "mlff_deallocate M a al = Inr a'" and "x \<notin> covers al"
  shows "aview a' x = aview a x"
proof -
  obtain xs where al: "al = PartialPageAllocation xs PS" using assms(2) by (cases al) (auto simp: mlff_live_def)
  then have "\<And>x. x \<in> set xs \<Longrightarrow> it_live a x" "adjacent PS (item_start PS (hd xs)) 0 xs" using assms(2) by (auto simp: mlff_live_def)
  then show ?thesis using free_items_view[OF assms(1)] assms(3,4) al by (force simp: mlff_deallocate_def)
qed

end

sublocale first_fit_unmap < unmapper: page_unmapper "mlff_ops M" "mlff_ok M tok entry sok" "mlff_occ M entry socc"
  "mlff_fresh tok entry" "mlff_live M entry slive" "mlff_fits M sfits" "mlff_walk M SW" "mlff_view M entry sview"
  by (intro page_unmapper.intro page_unmapper_axioms.intro marker.page_marker_axioms)
    (simp_all add: unused_view free_view_correct)

section \<open>The four levels\<close>

sublocale pte_crate < U1: first_fit_unmap "X64Level1 api ft" x64_ok "x64_entry api" "\<lambda>_. True" "\<lambda>_. {}" "\<lambda>_. True" "\<lambda>_ _. False" "\<lambda>_ _. True"
  no_walk "\<lambda>_ _. None" "\<lambda>_ _. (None, None)" False "page_sizes ft" for ft
  by (intro first_fit_unmap.intro first_fit_unmap_axioms.intro S1.first_fit_split_axioms) simp

sublocale pte_crate < U2: first_fit_unmap "X64Level2 api ft" x64_ok "x64_entry api" "l1_ok api ft" "l1_occ api ft" "l_fresh api" "l1_live api ft" "l1_fits api ft"
  "walk1 api ft" "l1_leaf api ft" "l1_view api ft" "HUGEPAGES (X64Level1 api ft)" "page_sizes ft" for ft
  by (intro first_fit_unmap.intro first_fit_unmap_axioms.intro S2.first_fit_split_axioms) (simp add: walk1_def U1.unmapper.page_unmapper_axioms)

sublocale pte_crate < U3: first_fit_unmap "X64Level3 api ft" x64_ok "x64_entry api" "l2_ok api ft" "l2_occ api ft" "l_fresh api" "l2_live api ft" "l2_fits api ft"
  "walk2 api ft" "l2_leaf api ft" "l2_view api ft" "HUGEPAGES (X64Level2 api ft)" "page_sizes ft" for ft
  by (intro first_fit_unmap.intro first_fit_unmap_axioms.intro S3.first_fit_split_axioms) (simp add: walk2_def U2.unmapper.page_unmapper_axioms)

sublocale pte_crate < U4: first_fit_unmap "X64Level4 api ft" x64_ok "x64_entry api" "l3_ok api ft" "l3_occ api ft" "l_fresh api" "l3_live api ft" "l3_fits api ft"
  "walk3 api ft" "l3_leaf api ft" "l3_view api ft" "HUGEPAGES (X64Level3 api ft)" "page_sizes ft" for ft
  by (intro first_fit_unmap.intro first_fit_unmap_axioms.intro S4.first_fit_split_axioms) (simp add: walk3_def U3.unmapper.page_unmapper_axioms)

context pte_crate
begin

lemmas top_split = S4.split_correct
lemmas top_unmap = U4.unmapper.unmap_ok

end

section \<open>Properties\<close>

lemma context_split:
  assumes "pte_crate api" and "boxes_ok b" and "top_ok api ft (lpa_alloc lpa)" and "top_live api ft (lpa_alloc lpa) (pa_allocation pa)"
    and "paged (page_sizes ft) (pa_allocation pa)" and "size_valid n" and "n < alloc_size (pa_allocation pa)"
    and "\<forall>x\<in>covers (pa_allocation pa). settled (top_view api ft (lpa_alloc lpa) x)"
  shows "\<exists>a l r. split_allocation (context_type api ft V) b lpa pa (PageAllocationSizeT n) = Inr (lpa\<lparr>lpa_alloc := a\<rparr>, pa\<lparr>pa_allocation := l\<rparr>, pa\<lparr>pa_allocation := r\<rparr>)
    \<and> halves (page_sizes ft) (top_ok api ft) (top_occ api ft) (top_live api ft) (top_view api ft) (lpa_alloc lpa) a (pa_allocation pa) n l r"
proof -
  have n: "0 < n" "4096 dvd n" "size_get (PageAllocationSizeT n) = Inr n" using assms(6) by (simp_all add: size_valid_def size_get_def PAGE_ALIGN_def mod_eq_0_iff_dvd)
  obtain a l r where "split_alloc_inner (X64Level4 api ft) (walk3 api ft) b (lpa_alloc lpa) (pa_allocation pa) n = Inr (a, l, r)"
    "halves (page_sizes ft) (top_ok api ft) (top_occ api ft) (top_live api ft) (top_view api ft) (lpa_alloc lpa) a (pa_allocation pa) n l r"
    using pte_crate.top_split[OF assms(1) assms(3-5)[unfolded top_defs] assms(2) n(1) assms(7) n(2) assms(8)[unfolded top_view_def], folded top_defs top_view_def]
    by (elim exE conjE) (rule that)
  then show ?thesis using n(3) by (intro exI[of _ a] exI[of _ l] exI[of _ r]) (simp add: split_allocation_def context_type_def walk4_def mlff_walk_def)
qed

lemma context_drop:
  assumes "pte_crate api" and "top_ok api ft (lpa_alloc lpa)" and "top_live api ft (lpa_alloc lpa) (pa_allocation pa)" and "auto_flush (context_type api ft V) lpa pa = Inr fs"
  shows "\<exists>a. guard_dealloc (context_type api ft V) lpa pa = Inr (lpa\<lparr>lpa_alloc := a\<rparr>, fs)
    \<and> top_ok api ft a \<and> top_occ api ft a = top_occ api ft (lpa_alloc lpa) - covers (pa_allocation pa)
    \<and> (\<forall>al'. top_live api ft (lpa_alloc lpa) al' \<longrightarrow> covers al' \<inter> covers (pa_allocation pa) = {} \<longrightarrow> top_live api ft a al')
    \<and> (\<forall>x. top_view api ft a x = (if x \<in> covers (pa_allocation pa) then (None, None) else top_view api ft (lpa_alloc lpa) x))"
proof -
  obtain a where "pf_deallocate (TopLevelPageAllocator api ft) (lpa_alloc lpa) (pa_allocation pa) = Inr a" "top_ok api ft a"
    "top_occ api ft a = top_occ api ft (lpa_alloc lpa) - covers (pa_allocation pa)"
    "\<forall>al'. top_live api ft (lpa_alloc lpa) al' \<longrightarrow> covers al' \<inter> covers (pa_allocation pa) = {} \<longrightarrow> top_live api ft a al'"
    "\<forall>x. top_view api ft a x = (if x \<in> covers (pa_allocation pa) then (None, None) else top_view api ft (lpa_alloc lpa) x)"
    using pte_crate.top_unmap[OF assms(1) assms(2,3)[unfolded top_defs], folded top_defs top_view_def] by (elim exE conjE) (rule that)
  then show ?thesis using assms(4) by (intro exI[of _ a]) (simp add: guard_dealloc_def context_type_def)
qed

text \<open>C7: Splitting an allocation of a paging context whose every byte is mapped or marked absent, at a page boundary inside
  it, never panics.  The two parts lie side by side and make up the whole, huge pages are replaced by tables of smaller pages as
  needed, and no byte of the address space changes its translation or its mark; every other allocation stays valid.\<close>

theorem split_keeps_mapping:
  assumes "pte_crate api" and "boxes_ok b" and "top_ok api ft (lpa_alloc lpa)" and "top_live api ft (lpa_alloc lpa) (pa_allocation pa)"
    and "paged (page_sizes ft) (pa_allocation pa)" and "size_valid n" and "n < alloc_size (pa_allocation pa)"
    and "\<forall>x\<in>covers (pa_allocation pa). settled (top_view api ft (lpa_alloc lpa) x)"
  shows "\<exists>a l r. split_allocation (context_type api ft V) b lpa pa (PageAllocationSizeT n) = Inr (lpa\<lparr>lpa_alloc := a\<rparr>, pa\<lparr>pa_allocation := l\<rparr>, pa\<lparr>pa_allocation := r\<rparr>)
    \<and> top_ok api ft a \<and> top_occ api ft a = top_occ api ft (lpa_alloc lpa) \<and> top_view api ft a = top_view api ft (lpa_alloc lpa)
    \<and> top_live api ft a l \<and> start_addr l = start_addr (pa_allocation pa) \<and> alloc_size l = n
    \<and> top_live api ft a r \<and> start_addr r = start_addr (pa_allocation pa) + n \<and> alloc_size r = alloc_size (pa_allocation pa) - n
    \<and> (\<forall>al'. top_live api ft (lpa_alloc lpa) al' \<longrightarrow> covers al' \<inter> covers (pa_allocation pa) = {} \<longrightarrow> top_live api ft a al')"
  using context_split[OF assms, of V] unfolding halves_def by blast

lemma demo_mapped:
  "\<exists>a al. top_ok x86_pte demo_features a \<and> top_live x86_pte demo_features a al \<and> start_addr al = 0x1000 \<and> alloc_size al = 0x500000
    \<and> paged (page_sizes demo_features) al \<and> (\<forall>x\<in>covers al. top_view x86_pte demo_features a x = (None, Some 7))"
proof -
  let ?A = "mlff_ops (X64Level4 x86_pte demo_features)" and ?a = "mlff_new (X64Level4 x86_pte demo_features) KERNEL_PTABLE_VADDR"
  have f: "l_fresh x86_pte ?a" using x86.L4.level.new_ok[OF demo_box(1), of demo_features] by simp
  have "page_request ?A 0x1000 0x500000" by (simp add: page_request_def pf_span_def)
  then obtain a al where a: "pf_allocate_at ?A (\<lambda>_. KERNEL_PTABLE_VADDR) ?a 0x1000 0x500000 = Inr (a, Some al)"
    "grown (l4_ok x86_pte demo_features) (l4_occ x86_pte demo_features) (l4_live x86_pte demo_features) ?a a (Some al)" "start_addr al = 0x1000" "alloc_size al = 0x500000"
    using x86.L4.level.allocate_at_ok[where ft = demo_features and a = ?a and addr = "0x1000" and sz = "0x500000", OF _ demo_box(2)]
      x86.L4.level.fresh_ok[OF f] f by fastforce
  have "paged (page_sizes demo_features) al" using P4.level_paged[of demo_features x86_pte] a(1) by (auto simp: pages_only_def)
  moreover obtain a' where "l4_ok x86_pte demo_features a'" "l4_live x86_pte demo_features a' = l4_live x86_pte demo_features a"
    "\<forall>x. l4_view x86_pte demo_features a' x = (if x \<in> covers al then (None, Some 7) else l4_view x86_pte demo_features a x)"
    using x86.top_set_missing[of demo_features a al 7 0] a(2) by (auto simp: grown_def)
  moreover have "l4_live x86_pte demo_features a al" using a(2) by (simp add: grown_def)
  ultimately show ?thesis using a(3,4) by (intro exI[of _ a'] exI[of _ al]) (simp add: top_defs top_view_def)
qed

theorem split_keeps_mapping_witness:
  "\<exists>lpa pa a l r. split_allocation (context_type x86_pte demo_features x86_virt) (\<lambda>_. KERNEL_PTABLE_VADDR) lpa pa (PageAllocationSizeT 0x300000)
       = Inr (lpa\<lparr>lpa_alloc := a\<rparr>, pa\<lparr>pa_allocation := l\<rparr>, pa\<lparr>pa_allocation := r\<rparr>)
     \<and> start_addr (pa_allocation pa) = 0x1000 \<and> start_addr r = 0x301000 \<and> alloc_size r = 0x200000
     \<and> top_view x86_pte demo_features a = top_view x86_pte demo_features (lpa_alloc lpa)"
proof -
  obtain a al where a: "top_ok x86_pte demo_features a" "top_live x86_pte demo_features a al" "start_addr al = 0x1000" "alloc_size al = 0x500000"
    "paged (page_sizes demo_features) al" "\<forall>x\<in>covers al. top_view x86_pte demo_features a x = (None, Some 7)" using demo_mapped by blast
  let ?lpa = "lpa_new a \<lparr>meta_offset = 0, default_options = options_default\<rparr>"
  let ?pa = "pa_new ?lpa al"
  have h: "lpa_alloc ?lpa = a" "pa_allocation ?pa = al" by (simp_all add: lpa_new_def pa_new_def)
  have s: "size_valid 0x300000" "0x300000 < alloc_size al" "\<forall>x\<in>covers al. settled (top_view x86_pte demo_features a x)"
    using a(4,6) by (simp_all add: size_valid_def PAGE_ALIGN_def settled_def)
  show ?thesis
    using split_keeps_mapping[OF x86.pte_crate_axioms demo_box(2), of demo_features ?lpa ?pa "0x300000" x86_virt, unfolded h, OF a(1,2,5) s] a(3,4)
    by (intro exI[of _ ?lpa] exI[of _ ?pa]) (auto simp: h)
qed



end
