(* ===== verification/Kernel_Image.thy ===== *)
theory Kernel_Image
  imports Page_Unmap Offset_Mapped
begin

text \<open>
  The kernel's own memory in its global page tables (\<open>memory/paging/global_pages.rs\<close>).  \<open>_map_kernel\<close> maps the whole image
  into a new table, splits the allocation around the data section, keeps one side and drops the other.  The bounds of the
  image and of its data section are symbols of the linker script, the fields of \<open>kernel_image\<close>.  Log output is left out.
\<close>

section \<open>Definitions\<close>

record kernel_image =
  kernel_phys_start :: nat
  kernel_phys_end :: nat
  kdata_phys_start :: nat
  kdata_phys_end :: nat

definition get_kernel_bounds :: "kernel_image \<Rightarrow> nat \<times> nat" where
  "get_kernel_bounds img = (kernel_phys_start img, kernel_phys_end img)"

definition get_kernel_data_bounds :: "kernel_image \<Rightarrow> nat \<times> nat" where
  "get_kernel_data_bounds img = (kdata_phys_start img, kdata_phys_end img)"

definition get_vmem_offset :: "'a LPAInternal \<Rightarrow> PageAlignedAddressT exec" where
  "get_vmem_offset lpa = address_new (meta_offset (lpa_meta lpa))"

definition size_new_rounded :: "nat \<Rightarrow> PageAllocationSizeT exec" where
  "size_new_rounded x = exec_bind (size_new_rounded_with_excess x) (\<lambda>(v, _). Inr v)"

definition map_kernel :: "machine \<Rightarrow> kernel_image \<Rightarrow> level3 LPAInternal \<Rightarrow> nat \<Rightarrow> bool \<Rightarrow> level3 LPAInternal exec" where
  "map_kernel mc img kernel_ptable extra_offset map_data = (let T = kernel_type mc; b = mc_boxes mc; (kstart, kend) = get_kernel_bounds img; (kdstart, kdend) = get_kernel_data_bounds img in
     exec_bind (usub kend kstart) (\<lambda>n.
     exec_bind (size_new_rounded n) (\<lambda>ksize.
     exec_bind (get_vmem_offset kernel_ptable) (\<lambda>off.
     exec_bind (address_get off) (\<lambda>off.
     exec_bind (uadd off kstart) (\<lambda>x.
     exec_bind (uadd x extra_offset) (\<lambda>x.
     exec_bind (address_new x) (\<lambda>kvstart.
     exec_bind (lpa_allocate_at T b kernel_ptable kvstart ksize) (\<lambda>(lpa, r).
     exec_bind (unwrap r) (\<lambda>allocation.
     exec_bind (pa_set_base_addr T lpa allocation kstart (flags_new {WRITEABLE, EXECUTABLE} {PINNED})) (\<lambda>(lpa, _).
     exec_bind (usub kdend kdstart) (\<lambda>n.
     exec_bind (size_new n) (\<lambda>data_size.
     exec_bind (usub kdstart kstart) (\<lambda>n.
     exec_bind (size_new n) (\<lambda>data_start_offset.
     exec_bind (split_allocation T b lpa allocation data_start_offset) (\<lambda>(lpa, before_data, allocation).
     exec_bind (pa_size before_data) (\<lambda>s.
     exec_bind (assert_that (s = data_start_offset)) (\<lambda>_.
     exec_bind (split_allocation T b lpa allocation data_size) (\<lambda>(lpa, kernel_data, after_data).
     exec_bind (pa_size kernel_data) (\<lambda>s.
     exec_bind (assert_that (s = data_size)) (\<lambda>_.
     if map_data then
       exec_bind (guard_dealloc T lpa before_data) (\<lambda>(lpa, _).
       exec_bind (guard_dealloc T lpa after_data) (\<lambda>(lpa, _). Inr lpa))
     else
       exec_bind (guard_dealloc T lpa kernel_data) (\<lambda>(lpa, _). Inr lpa))))))))))))))))))))))"

definition KERNEL_STATIC_PT_VADDR :: nat where
  "KERNEL_STATIC_PT_VADDR = 0xFF8000000000"

definition KERNEL_PTABLE :: "machine \<Rightarrow> kernel_image \<Rightarrow> nat \<Rightarrow> level3 LPAInternal exec" where
  "KERNEL_PTABLE mc img p = map_kernel mc img (global_page_table_new (mc_api mc) (mc_features mc) (mc_virt mc) p KERNEL_PTABLE_VADDR) 0 True"

definition KERNEL_STATIC_PT :: "machine \<Rightarrow> kernel_image \<Rightarrow> nat \<Rightarrow> level3 LPAInternal exec" where
  "KERNEL_STATIC_PT mc img p =
     map_kernel mc img (global_page_table_new (mc_api mc) (mc_features mc) (mc_virt mc) p KERNEL_STATIC_PT_VADDR) 0x7F80000000 False"

section \<open>Steps on a table that is not active\<close>

context pte_crate
begin

lemmas table_split_law = S3.split_correct
lemmas table_drop_law = U3.unmapper.unmap_ok
lemmas table_unused_law = U3.unused_view
lemmas table_fresh_law = L3.level.fresh_ok
lemmas table_new_law = L3.level.new_ok

end

lemma l3_leaf_view: "l3_leaf api ft a x = fst (l3_view api ft a x)"
  by (rule view_leaf[symmetric]) (auto intro!: view_leaf)

text \<open>The table is sound, \<open>X\<close> is in use, bytes are translated by \<open>f\<close>, and the allocations \<open>als\<close> are held.\<close>

definition table_holds :: "machine \<Rightarrow> level3 \<Rightarrow> nat set \<Rightarrow> (nat \<Rightarrow> nat option) \<Rightarrow> PartialPageAllocation list \<Rightarrow> bool" where
  "table_holds mc a X f als \<longleftrightarrow> l3_ok (mc_api mc) (mc_features mc) a \<and> l3_occ (mc_api mc) (mc_features mc) a = X
     \<and> l3_leaf (mc_api mc) (mc_features mc) a = f
     \<and> (\<forall>al\<in>set als. l3_live (mc_api mc) (mc_features mc) a al \<and> paged (page_sizes (mc_features mc)) al)"

lemma held_covers:
  assumes "machine_ok mc" and "table_holds mc a X f als" and "al \<in> set als"
  shows "covers al = {start_addr al..<start_addr al + alloc_size al}" "wf_alloc al"
proof -
  have "pte_crate (mc_api mc)" using assms(1) by (simp add: machine_ok_def)
  then show "wf_alloc al" using pte_crate.kernel_laws(2) assms(2,3) by (fastforce simp: table_holds_def)
  then show "covers al = {start_addr al..<start_addr al + alloc_size al}" using wf_alloc_span(1) by simp
qed

lemma table_split:
  assumes mc: "machine_ok mc" and st: "table_holds mc a X f (al # als)" and mid: "size_valid mid" "mid < alloc_size al"
    and tr: "\<forall>x\<in>covers al. \<exists>q. f x = Some q \<and> q < phys_limit" and apart: "\<forall>al'\<in>set als. covers al' \<inter> covers al = {}"
  shows "\<exists>a' l r. split_alloc_inner (X64Level3 (mc_api mc) (mc_features mc)) (walk2 (mc_api mc) (mc_features mc)) (mc_boxes mc) a al mid = Inr (a', l, r)
    \<and> table_holds mc a' X f (l # r # als) \<and> start_addr l = start_addr al \<and> alloc_size l = mid
    \<and> start_addr r = start_addr al + mid \<and> alloc_size r = alloc_size al - mid"
proof -
  let ?api = "mc_api mc" and ?ft = "mc_features mc"
  have c: "pte_crate ?api" "boxes_ok (mc_boxes mc)" using mc by (simp_all add: machine_ok_def)
  have s: "l3_ok ?api ?ft a" "l3_live ?api ?ft a al" "paged (page_sizes ?ft) al" using st by (simp_all add: table_holds_def)
  have "settled (l3_view ?api ?ft a x)" if x: "x \<in> covers al" for x
  proof -
    obtain q where q: "f x = Some q" "q < phys_limit" using x tr by blast
    have leaf: "l3_leaf ?api ?ft a = f" using st by (simp add: table_holds_def)
    have "fst (l3_view ?api ?ft a x) = Some q" unfolding l3_leaf_view[symmetric] leaf q(1) by (rule refl)
    then show ?thesis by (cases "l3_view ?api ?ft a x") (simp add: settled_def q(2))
  qed
  then have says: "\<forall>x\<in>covers al. settled (l3_view ?api ?ft a x)" by blast
  have m: "0 < mid" "4096 dvd mid" using mid(1) by (simp_all add: size_valid_def PAGE_ALIGN_def mod_eq_0_iff_dvd)
  obtain a' l r where a': "split_alloc_inner (X64Level3 ?api ?ft) (walk2 ?api ?ft) (mc_boxes mc) a al mid = Inr (a', l, r)"
    "halves (page_sizes ?ft) (l3_ok ?api ?ft) (l3_occ ?api ?ft) (l3_live ?api ?ft) (l3_view ?api ?ft) a a' al mid l r"
    using pte_crate.table_split_law[OF c(1) s c(2) m(1) mid(2) m(2) says] by (elim exE conjE) (rule that)
  have h: "l3_ok ?api ?ft a'" "l3_occ ?api ?ft a' = l3_occ ?api ?ft a" "l3_view ?api ?ft a' = l3_view ?api ?ft a" "l3_live ?api ?ft a' l" "l3_live ?api ?ft a' r"
    "paged (page_sizes ?ft) l" "paged (page_sizes ?ft) r" "\<And>al'. l3_live ?api ?ft a al' \<Longrightarrow> covers al' \<inter> covers al = {} \<Longrightarrow> l3_live ?api ?ft a' al'"
    using a'(2) by (simp_all add: halves_def)
  have "l3_leaf ?api ?ft a' = l3_leaf ?api ?ft a" unfolding fun_eq_iff l3_leaf_view h(3) by simp
  then have "table_holds mc a' X f (l # r # als)" using h st apart by (simp add: table_holds_def)
  then show ?thesis using a' by (simp add: halves_def)
qed

lemma table_drop:
  assumes mc: "machine_ok mc" and st: "table_holds mc a X f (al # als)" and apart: "\<forall>al'\<in>set als. covers al' \<inter> covers al = {}"
  shows "\<exists>a'. mlff_deallocate (X64Level3 (mc_api mc) (mc_features mc)) a al = Inr a'
    \<and> table_holds mc a' (X - covers al) (\<lambda>x. if x \<in> covers al then None else f x) als"
proof -
  have c: "pte_crate (mc_api mc)" using mc by (simp add: machine_ok_def)
  have s: "l3_ok (mc_api mc) (mc_features mc) a" "l3_live (mc_api mc) (mc_features mc) a al" using st by (simp_all add: table_holds_def)
  obtain a' where a': "mlff_deallocate (X64Level3 (mc_api mc) (mc_features mc)) a al = Inr a'" "l3_ok (mc_api mc) (mc_features mc) a'"
    "l3_occ (mc_api mc) (mc_features mc) a' = l3_occ (mc_api mc) (mc_features mc) a - covers al"
    "\<forall>al'. l3_live (mc_api mc) (mc_features mc) a al' \<longrightarrow> covers al' \<inter> covers al = {} \<longrightarrow> l3_live (mc_api mc) (mc_features mc) a' al'"
    "\<forall>x. l3_view (mc_api mc) (mc_features mc) a' x = (if x \<in> covers al then (None, None) else l3_view (mc_api mc) (mc_features mc) a x)"
    using pte_crate.table_drop_law[OF c s] unfolding mlff_ops_sel by (elim exE conjE) (rule that)
  have "l3_leaf (mc_api mc) (mc_features mc) a' = (\<lambda>x. if x \<in> covers al then None else l3_leaf (mc_api mc) (mc_features mc) a x)"
    unfolding fun_eq_iff l3_leaf_view using a'(5) by simp
  moreover have "l3_leaf (mc_api mc) (mc_features mc) a = f" using st by (simp add: table_holds_def)
  ultimately have leaf: "l3_leaf (mc_api mc) (mc_features mc) a' = (\<lambda>x. if x \<in> covers al then None else f x)" by (simp only:)
  have "table_holds mc a' (X - covers al) (\<lambda>x. if x \<in> covers al then None else f x) als"
    unfolding table_holds_def leaf using a'(2-4) st apart by (auto simp: table_holds_def)
  then show ?thesis using a'(1) by blast
qed

lemma table_claim:
  assumes mc: "machine_ok mc" and fresh: "l_fresh (mc_api mc) a" and x: "x mod PAGE_ALIGN = 0" and n: "size_valid n" and fit: "x + n \<le> kernel_span"
  shows "\<exists>a' al f. mlff_allocate_at (X64Level3 (mc_api mc) (mc_features mc)) (mc_boxes mc) a x n = Inr (a', Some al)
    \<and> table_holds mc a' {x..<x + n} f [al] \<and> start_addr al = x \<and> alloc_size al = n \<and> (\<forall>y. y \<notin> {x..<x + n} \<longrightarrow> f y = None)"
proof -
  let ?api = "mc_api mc" and ?ft = "mc_features mc" and ?A = "mlff_ops (X64Level3 (mc_api mc) (mc_features mc))"
  have c: "pte_crate ?api" "boxes_ok (mc_boxes mc)" using mc by (simp_all add: machine_ok_def)
  have a: "l3_ok ?api ?ft a" "l3_occ ?api ?ft a = {}" using pte_crate.table_fresh_law[OF c(1) fresh] by auto
  have "page_request ?A x n" using x n fit
    by (simp add: page_request_def pf_span_def kernel_span_def size_valid_def PAGE_ALIGN_def mod_eq_0_iff_dvd)
  from pte_crate.kernel_laws(1)[OF c(1) a(1) c(2) this] fresh obtain a' al where
    a': "mlff_allocate_at (X64Level3 ?api ?ft) (mc_boxes mc) a x n = Inr (a', Some al)"
       "grown (l3_ok ?api ?ft) (l3_occ ?api ?ft) (l3_live ?api ?ft) a a' (Some al)" "start_addr al = x" "alloc_size al = n" by auto
  have pg: "paged (page_sizes ?ft) al" using P3.level_paged[of ?ft ?api] a'(1) by (auto simp: pages_only_def)
  have g: "l3_ok ?api ?ft a'" "l3_live ?api ?ft a' al" "l3_occ ?api ?ft a' = covers al" using a'(2) a(2) by (simp_all add: grown_def)
  let ?f = "l3_leaf ?api ?ft a'"
  have st: "table_holds mc a' (covers al) ?f [al]" using g pg by (simp add: table_holds_def)
  have cov: "covers al = {x..<x + n}" using held_covers(1)[OF mc st, of al] a'(3,4) by simp
  have "?f y = None" if "y \<notin> {x..<x + n}" for y using pte_crate.table_unused_law[OF c(1) g(1)] g(3) that unfolding l3_leaf_view cov by simp
  then show ?thesis using a' st cov by auto
qed

lemma table_map:
  assumes mc: "machine_ok mc" and st: "table_holds mc a X f (al # als)" and al: "base mod 0x40000000 = start_addr al mod 0x40000000" and lim: "base + alloc_size al \<le> phys_limit"
  shows "\<exists>a'. set_addr_inner (X64Level3 (mc_api mc) (mc_features mc)) (walk2 (mc_api mc) (mc_features mc)) a al 0 base fl = Inr a'
    \<and> table_holds mc a' X (\<lambda>x. if x \<in> covers al then Some (base + (x - start_addr al)) else f x) (al # als)"
proof -
  let ?api = "mc_api mc" and ?ft = "mc_features mc"
  have c: "pte_crate ?api" using mc by (simp add: machine_ok_def)
  have s: "l3_ok ?api ?ft a" "l3_live ?api ?ft a al" using st by (simp_all add: table_holds_def)
  have "aligned_to (base + 0) al" using pte_crate.kernel_laws(4)[OF c s, of base] al by simp
  then show ?thesis using pte_crate.kernel_laws(3)[OF c s _ _, of base 0 fl] lim st by (auto simp: table_holds_def fun_eq_iff)
qed

section \<open>Mapping the image\<close>

lemma truncate_canonical:
  assumes "virt_crate V" and "canonical y"
  shows "va_new_truncate V y = y"
proof -
  have t: "va_new_truncate V y = (let z = y mod 0x1000000000000 in if z < 0x800000000000 then z else z + 0xFFFF000000000000)"
    using virt_crate.truncate[OF assms(1), of y] by (simp add: Let_def)
  show ?thesis
  proof (cases "y < 0x800000000000")
    case False
    then have y: "0xFFFF800000000000 \<le> y" "y < 0x10000000000000000" using assms(2) by (simp_all add: canonical_def)
    define z where "z = y - 0xFFFF000000000000"
    have z: "y = z + 0xFFFF * 0x1000000000000" "z < 0x1000000000000" "\<not> z < 0x800000000000" using y by (simp_all add: z_def)
    then have "y mod 0x1000000000000 = z" by (metis mod_mult_self1 mod_less)
    then show ?thesis using t z by simp
  qed (use t in simp)
qed

text \<open>The address space a table of the upper half covers.\<close>

definition table_base :: "nat \<Rightarrow> bool" where
  "table_base off \<longleftrightarrow> off mod PAGE_ALIGN = 0 \<and> 0xFFFF800000000000 \<le> off \<and> off + kernel_span \<le> usize_limit"

definition whole_size :: "nat \<Rightarrow> nat" where
  "whole_size n = (if n mod PAGE_ALIGN = 0 then n else n + (PAGE_ALIGN - n mod PAGE_ALIGN))"

lemma whole_size_rounds:
  assumes "0 < n" and "whole_size n < usize_limit"
  shows "size_new_rounded n = Inr (PageAllocationSizeT (whole_size n))" and "size_valid (whole_size n)" and "n \<le> whole_size n"
proof -
  show le: "n \<le> whole_size n" unfolding whole_size_def by (rule if_split[THEN iffD2]) (simp only: le_refl le_add1 simp_thms)
  have m: "whole_size n mod PAGE_ALIGN = 0" using round_up_mod[OF PAGE_ALIGN_pos, of n] by (simp add: whole_size_def)
  show "size_valid (whole_size n)" using le assms(1) m by (simp add: size_valid_def)
  show "size_new_rounded n = Inr (PageAllocationSizeT (whole_size n))"
    using assms m by (auto simp: size_new_rounded_def size_new_rounded_with_excess_def size_new_def uadd_def whole_size_def)
qed

definition image_size :: "kernel_image \<Rightarrow> nat" where
  "image_size img = whole_size (kernel_phys_end img - kernel_phys_start img)"

text \<open>What the linker script promises about its symbols: the sections follow each other and begin on pages.\<close>

definition image_ok :: "kernel_image \<Rightarrow> bool" where
  "image_ok img \<longleftrightarrow> kernel_phys_start img mod PAGE_ALIGN = 0 \<and> kdata_phys_start img mod PAGE_ALIGN = 0 \<and> kdata_phys_end img mod PAGE_ALIGN = 0
     \<and> kernel_phys_start img < kdata_phys_start img \<and> kdata_phys_start img < kdata_phys_end img \<and> kdata_phys_end img < kernel_phys_end img
     \<and> kernel_phys_start img + image_size img \<le> kernel_span"

definition kept_bytes :: "kernel_image \<Rightarrow> bool \<Rightarrow> nat set" where
  "kept_bytes img map_data = (if map_data then {kdata_phys_start img..<kdata_phys_end img}
     else {kernel_phys_start img..<kdata_phys_start img} \<union> {kdata_phys_end img..<kernel_phys_start img + image_size img})"

lemma image_size_ok:
  assumes "image_ok img"
  shows "size_new_rounded (kernel_phys_end img - kernel_phys_start img) = Inr (PageAllocationSizeT (image_size img))"
    and "size_valid (image_size img)" and "kernel_phys_end img \<le> kernel_phys_start img + image_size img"
proof -
  let ?n = "kernel_phys_end img - kernel_phys_start img"
  have n: "0 < ?n" using assms by (simp add: image_ok_def)
  have "whole_size ?n < usize_limit" using assms by (simp add: image_ok_def image_size_def kernel_span_def usize_limit_def)
  note whole_size_rounds[OF n this]
  then show "size_new_rounded ?n = Inr (PageAllocationSizeT (image_size img))" "size_valid (image_size img)" "kernel_phys_end img \<le> kernel_phys_start img + image_size img"
    by (simp_all add: image_size_def)
qed

lemma pa_new_sel [simp]: "pa_allocation (pa_new lpa al) = al" "baseaddr_offset (pa_new lpa al) = 0" "pa_metadata (pa_new lpa al) = lpa_meta lpa"
  "(pa_new lpa al)\<lparr>pa_allocation := l\<rparr> = pa_new lpa l" "pa_new (lpa\<lparr>lpa_alloc := a\<rparr>) al = pa_new lpa al"
  by (simp_all add: pa_new_def)

lemma idle_flush [simp]: "active_count lpa = 0 \<Longrightarrow> auto_flush T lpa pa = Inr []"
  by (simp add: auto_flush_def write_when_active_def)

lemma claim_image:
  assumes mc: "machine_ok mc" and fresh: "l_fresh (mc_api mc) (lpa_alloc lpa)" and off: "table_base (meta_offset (lpa_meta lpa))"
    and x: "x mod PAGE_ALIGN = 0" and n: "size_valid n" and fit: "x + n \<le> kernel_span"
  shows "\<exists>a al f. lpa_allocate_at (kernel_type mc) (mc_boxes mc) lpa (PageAlignedAddressT (meta_offset (lpa_meta lpa) + x)) (PageAllocationSizeT n) = Inr (lpa\<lparr>lpa_alloc := a\<rparr>, Some (pa_new lpa al))
    \<and> table_holds mc a {x..<x + n} f [al] \<and> start_addr al = x \<and> alloc_size al = n \<and> (\<forall>y. y \<notin> {x..<x + n} \<longrightarrow> f y = None)"
proof -
  let ?o = "meta_offset (lpa_meta lpa)"
  obtain a al f where a: "mlff_allocate_at (X64Level3 (mc_api mc) (mc_features mc)) (mc_boxes mc) (lpa_alloc lpa) x n = Inr (a, Some al)"
    "table_holds mc a {x..<x + n} f [al]" "start_addr al = x" "alloc_size al = n" "\<forall>y. y \<notin> {x..<x + n} \<longrightarrow> f y = None"
    using table_claim[OF mc fresh x n fit] by blast
  have lt: "?o + x < usize_limit" "0xFFFF800000000000 \<le> ?o + x" using off fit n by (simp_all add: table_base_def size_valid_def)
  then have "canonical (?o + x)" by (simp add: canonical_def usize_limit_def)
  then have t: "va_new_truncate (mc_virt mc) (?o + x) = ?o + x" using truncate_canonical mc by (simp add: machine_ok_def)
  have m: "(?o + x) mod PAGE_ALIGN = 0" using off x by (metis add_0 mod_add_left_eq table_base_def)
  have "pa_start (kernel_type mc) (pa_new lpa al) = Inr (PageAlignedAddressT (?o + x))"
    using lt(1) t m a(3) by (simp add: pa_start_def pa_new_def uadd_def kernel_type_def address_new_def ac_simps)
  then show ?thesis using a n m by (intro exI[of _ a] exI[of _ al] exI[of _ f]) (simp add: lpa_allocate_at_def address_get_def kernel_type_def)
qed

text \<open>The same steps as the calls of a table that is not active make them.\<close>

lemma idle_map:
  assumes "machine_ok mc" and "active_count lpa = 0" and "table_holds mc a X f (al # als)"
    and "base mod 0x40000000 = start_addr al mod 0x40000000" and "base + alloc_size al \<le> phys_limit"
  shows "\<exists>a'. pa_set_base_addr (kernel_type mc) (lpa\<lparr>lpa_alloc := a\<rparr>) (pa_new lpa al) base fl = Inr (lpa\<lparr>lpa_alloc := a'\<rparr>, [])
    \<and> table_holds mc a' X (\<lambda>x. if x \<in> covers al then Some (base + (x - start_addr al)) else f x) (al # als)"
proof -
  let ?lpa = "lpa\<lparr>lpa_alloc := a\<rparr>"
  obtain a' where a': "set_addr_inner (X64Level3 (mc_api mc) (mc_features mc)) (walk2 (mc_api mc) (mc_features mc)) a al 0 base
       (if is_global_page (write_when_active ?lpa) then flags_or_m fl {MF_GLOBAL} else fl) = Inr a'"
     "table_holds mc a' X (\<lambda>x. if x \<in> covers al then Some (base + (x - start_addr al)) else f x) (al # als)"
    using table_map[OF assms(1,3-5)] by blast
  then show ?thesis using assms(2)
    by (intro exI[of _ a'] conjI) (simp_all add: pa_set_base_addr_def guard_set_base_addr_def usub_def kernel_type_def walk3_def mlff_walk_def Let_def)
qed

lemma idle_split:
  assumes "machine_ok mc" and "table_holds mc a X f (al # als)" and "size_valid mid" and "mid < alloc_size al"
    and "\<forall>x\<in>covers al. \<exists>q. f x = Some q \<and> q < phys_limit" and "\<forall>al'\<in>set als. covers al' \<inter> covers al = {}"
  shows "\<exists>a' l r. split_allocation (kernel_type mc) (mc_boxes mc) (lpa\<lparr>lpa_alloc := a\<rparr>) (pa_new lpa al) (PageAllocationSizeT mid) =
       Inr (lpa\<lparr>lpa_alloc := a'\<rparr>, pa_new lpa l, pa_new lpa r)
    \<and> table_holds mc a' X f (l # r # als) \<and> start_addr l = start_addr al \<and> alloc_size l = mid
    \<and> start_addr r = start_addr al + mid \<and> alloc_size r = alloc_size al - mid"
proof -
  have "size_get (PageAllocationSizeT mid) = Inr mid" using assms(3) by (simp add: size_get_def size_valid_def)
  moreover obtain a' l r where "split_alloc_inner (X64Level3 (mc_api mc) (mc_features mc)) (walk2 (mc_api mc) (mc_features mc)) (mc_boxes mc) a al mid = Inr (a', l, r)"
    "table_holds mc a' X f (l # r # als)" "start_addr l = start_addr al" "alloc_size l = mid" "start_addr r = start_addr al + mid" "alloc_size r = alloc_size al - mid"
    using table_split[OF assms] by (elim exE conjE) (rule that)
  ultimately show ?thesis by (intro exI[of _ a'] exI[of _ l] exI[of _ r]) (simp add: split_allocation_def kernel_type_def walk3_def mlff_walk_def)
qed

lemma idle_drop:
  assumes "machine_ok mc" and "active_count lpa = 0" and "table_holds mc a X f (al # als)" and "\<forall>al'\<in>set als. covers al' \<inter> covers al = {}"
  shows "\<exists>a'. guard_dealloc (kernel_type mc) (lpa\<lparr>lpa_alloc := a\<rparr>) (pa_new lpa al) = Inr (lpa\<lparr>lpa_alloc := a'\<rparr>, [])
    \<and> table_holds mc a' (X - covers al) (\<lambda>x. if x \<in> covers al then None else f x) als"
proof -
  obtain a' where "mlff_deallocate (X64Level3 (mc_api mc) (mc_features mc)) a al = Inr a'"
    "table_holds mc a' (X - covers al) (\<lambda>x. if x \<in> covers al then None else f x) als" using table_drop[OF assms(1,3,4)] by blast
  then show ?thesis using assms(2) by (intro exI[of _ a'] conjI) (simp_all add: guard_dealloc_def kernel_type_def)
qed

lemma new_size: "alloc_size al = n \<Longrightarrow> size_valid n \<Longrightarrow> pa_size (pa_new lpa al) = Inr (PageAllocationSizeT n)"
  by (simp add: pa_size_def size_new_checked_def size_valid_def size_new_def)

text \<open>The image mapped and cut into its three parts.\<close>

lemma image_parts:
  assumes mc: "machine_ok mc" and fresh: "l_fresh (mc_api mc) (lpa_alloc lpa)" and idle: "active_count lpa = 0" and off: "table_base (meta_offset (lpa_meta lpa))"
    and img: "image_ok img" and ex: "extra mod 0x40000000 = 0" and fit: "extra + kernel_phys_start img + image_size img \<le> kernel_span"
    and parts: "ks = kernel_phys_start img" "ds = kdata_phys_start img" "de = kdata_phys_end img"
  shows "\<exists>a b d r. map_kernel mc img lpa extra md =
      (let lpa' = lpa\<lparr>lpa_alloc := a\<rparr> in if md then
         exec_bind (guard_dealloc (kernel_type mc) lpa' (pa_new lpa b)) (\<lambda>(lpa', _).
         exec_bind (guard_dealloc (kernel_type mc) lpa' (pa_new lpa r)) (\<lambda>(lpa', _). Inr lpa'))
       else exec_bind (guard_dealloc (kernel_type mc) lpa' (pa_new lpa d)) (\<lambda>(lpa', _). Inr lpa'))
    \<and> table_holds mc a {extra + ks..<extra + ks + image_size img} (\<lambda>x. if x \<in> {extra + ks..<extra + ks + image_size img} then Some (x - extra) else None) [d, r, b]
    \<and> covers b = {extra + ks..<extra + ds} \<and> covers d = {extra + ds..<extra + de} \<and> covers r = {extra + de..<extra + ks + image_size img}"
proof -
  let ?n = "image_size img" and ?x = "extra + ks" and ?o = "meta_offset (lpa_meta lpa)" and ?T = "kernel_type mc"
  let ?f = "\<lambda>x. if x \<in> {extra + ks..<extra + ks + image_size img} then Some (x - extra) else None"
  have i: "ks mod PAGE_ALIGN = 0" "ds mod PAGE_ALIGN = 0" "de mod PAGE_ALIGN = 0" "ks < ds" "ds < de" "de < kernel_phys_end img" "ks + ?n \<le> kernel_span"
    using img by (simp_all add: image_ok_def parts)
  note n = image_size_ok[OF img, folded parts]
  have "PAGE_ALIGN dvd extra" using ex dvd_trans[of 4096 "0x40000000" extra] by (simp add: PAGE_ALIGN_def mod_eq_0_iff_dvd)
  then have x: "?x mod PAGE_ALIGN = 0" "?x + ?n \<le> kernel_span" using i(1) fit by (simp_all add: parts mod_eq_0_iff_dvd)
  have cg: "ks mod 0x40000000 = ?x mod 0x40000000" using ex by (metis add_0 mod_add_left_eq)
  have sizes: "size_valid (ds - ks)" "size_valid (de - ds)" using i by (simp_all add: size_valid_def mod_eq_0_iff_dvd)
  obtain a1 al f where a1: "lpa_allocate_at ?T (mc_boxes mc) lpa (PageAlignedAddressT (?o + ?x)) (PageAllocationSizeT ?n) = Inr (lpa\<lparr>lpa_alloc := a1\<rparr>, Some (pa_new lpa al))"
    "table_holds mc a1 {?x..<?x + ?n} f [al]" "start_addr al = ?x" "alloc_size al = ?n" "\<forall>y. y \<notin> {?x..<?x + ?n} \<longrightarrow> f y = None"
    using claim_image[OF mc fresh off x(1) n(2) x(2)] by (elim exE conjE) (rule that)
  have al: "covers al = {?x..<?x + ?n}" using held_covers(1)[OF mc a1(2), of al] a1(3,4) by simp
  have "ks + alloc_size al \<le> phys_limit" using a1(4) i(7) by (simp add: kernel_span_def phys_limit_def)
  from idle_map[OF mc idle a1(2) cg[folded a1(3)] this, of "flags_new {WRITEABLE, EXECUTABLE} {PINNED}"] obtain a2 where a2:
    "pa_set_base_addr ?T (lpa\<lparr>lpa_alloc := a1\<rparr>) (pa_new lpa al) ks (flags_new {WRITEABLE, EXECUTABLE} {PINNED}) = Inr (lpa\<lparr>lpa_alloc := a2\<rparr>, [])"
    "table_holds mc a2 {?x..<?x + ?n} (\<lambda>x. if x \<in> covers al then Some (ks + (x - start_addr al)) else f x) [al]"
    by (elim exE conjE) (rule that)
  have "(\<lambda>x. if x \<in> covers al then Some (ks + (x - start_addr al)) else f x) = ?f" using a1(3,5) unfolding al by (auto simp: fun_eq_iff)
  then have st: "table_holds mc a2 {?x..<?x + ?n} ?f [al]" using a2(2) by simp
  have tr: "\<exists>q. ?f y = Some q \<and> q < phys_limit" if "y \<in> {?x..<?x + ?n}" for y
    using that i(7) by (auto simp: kernel_span_def phys_limit_def)
  have "ds - ks < alloc_size al" "\<forall>x\<in>covers al. \<exists>q. ?f x = Some q \<and> q < phys_limit" "\<forall>al'\<in>set []. covers al' \<inter> covers al = {}"
    using a1(4) i(4-6) n(3) tr al by auto
  from idle_split[OF mc st sizes(1) this, of lpa] obtain a3 b c where a3:
    "split_allocation ?T (mc_boxes mc) (lpa\<lparr>lpa_alloc := a2\<rparr>) (pa_new lpa al) (PageAllocationSizeT (ds - ks)) = Inr (lpa\<lparr>lpa_alloc := a3\<rparr>, pa_new lpa b, pa_new lpa c)"
    "table_holds mc a3 {?x..<?x + ?n} ?f [b, c]" "start_addr b = ?x" "alloc_size b = ds - ks" "start_addr c = ?x + (ds - ks)" "alloc_size c = ?n - (ds - ks)"
    unfolding a1(3,4) by (elim exE conjE) (rule that)
  have bc: "covers b = {extra + ks..<extra + ds}" "covers c = {extra + ds..<extra + ks + ?n}"
    using held_covers(1)[OF mc a3(2), of b] held_covers(1)[OF mc a3(2), of c] a3(3-6) i(4-6) n(3) by auto
  have st': "table_holds mc a3 {?x..<?x + ?n} ?f [c, b]" using a3(2) by (auto simp: table_holds_def)
  have "de - ds < alloc_size c" "\<forall>x\<in>covers c. \<exists>q. ?f x = Some q \<and> q < phys_limit" "\<forall>al'\<in>set [b]. covers al' \<inter> covers c = {}"
    using a3(6) i(4-6) n(3) tr bc by auto
  from idle_split[OF mc st' sizes(2) this, of lpa] obtain a4 d r where a4:
    "split_allocation ?T (mc_boxes mc) (lpa\<lparr>lpa_alloc := a3\<rparr>) (pa_new lpa c) (PageAllocationSizeT (de - ds)) = Inr (lpa\<lparr>lpa_alloc := a4\<rparr>, pa_new lpa d, pa_new lpa r)"
    "table_holds mc a4 {?x..<?x + ?n} ?f [d, r, b]" "start_addr d = start_addr c" "alloc_size d = de - ds" "start_addr r = start_addr c + (de - ds)" "alloc_size r = alloc_size c - (de - ds)"
    by (elim exE conjE) (rule that)
  have dr: "covers d = {extra + ds..<extra + de}" "covers r = {extra + de..<extra + ks + ?n}"
    using held_covers(1)[OF mc a4(2), of d] held_covers(1)[OF mc a4(2), of r] a4(3-6) a3(5,6) i(4-6) n(3) by auto
  have o: "get_vmem_offset lpa = Inr (PageAlignedAddressT ?o)" "address_get (PageAlignedAddressT ?o) = Inr ?o" "uadd ?o ks = Inr (?o + ks)" "uadd (?o + ks) extra = Inr (?o + ?x)"
    using off x(2) n(2) by (simp_all add: table_base_def get_vmem_offset_def address_new_def address_get_def uadd_def size_valid_def)
  have "(?o + ?x) mod PAGE_ALIGN = 0" using off x(1) by (metis add_0 mod_add_left_eq table_base_def)
  then have k: "address_new (?o + ?x) = Inr (PageAlignedAddressT (?o + ?x))" by (simp add: address_new_def)
  have u: "usub (kernel_phys_end img) ks = Inr (kernel_phys_end img - ks)" "usub de ds = Inr (de - ds)" "usub ds ks = Inr (ds - ks)" using i(4-6) by (simp_all add: usub_def)
  have z: "size_new (de - ds) = Inr (PageAllocationSizeT (de - ds))" "size_new (ds - ks) = Inr (PageAllocationSizeT (ds - ks))" using sizes by (simp_all add: size_new_def size_valid_def)
  have g: "get_kernel_bounds img = (ks, kernel_phys_end img)" "get_kernel_data_bounds img = (ds, de)" by (simp_all add: get_kernel_bounds_def get_kernel_data_bounds_def parts)
  note run = o k u z n(1) a1(1) a2(1) a3(1) a4(1) new_size[OF a3(4) sizes(1)] new_size[OF a4(4) sizes(2)]
  have "map_kernel mc img lpa extra md = (let lpa' = lpa\<lparr>lpa_alloc := a4\<rparr> in if md then
         exec_bind (guard_dealloc ?T lpa' (pa_new lpa b)) (\<lambda>(lpa', _). exec_bind (guard_dealloc ?T lpa' (pa_new lpa r)) (\<lambda>(lpa', _). Inr lpa'))
       else exec_bind (guard_dealloc ?T lpa' (pa_new lpa d)) (\<lambda>(lpa', _). Inr lpa'))"
    by (simp add: map_kernel_def g Let_def run unwrap_def)
  then show ?thesis using a4(2) bc(1) dr by blast
qed

lemma map_kernel_ok:
  assumes mc: "machine_ok mc" and fresh: "l_fresh (mc_api mc) (lpa_alloc lpa)" and idle: "active_count lpa = 0" and off: "table_base (meta_offset (lpa_meta lpa))"
    and img: "image_ok img" and ex: "extra mod 0x40000000 = 0" and fit: "extra + kernel_phys_start img + image_size img \<le> kernel_span"
  shows "\<exists>a als. map_kernel mc img lpa extra md = Inr (lpa\<lparr>lpa_alloc := a\<rparr>)
    \<and> table_holds mc a ((+) extra ` kept_bytes img md) (\<lambda>x. if x \<in> (+) extra ` kept_bytes img md then Some (x - extra) else None) als"
proof -
  let ?ks = "kernel_phys_start img" and ?ds = "kdata_phys_start img" and ?de = "kdata_phys_end img" and ?T = "kernel_type mc"
  let ?X = "{extra + ?ks..<extra + ?ks + image_size img}"
  let ?f = "\<lambda>x. if x \<in> ?X then Some (x - extra) else None"
  obtain a b d r where a: "map_kernel mc img lpa extra md = (let lpa' = lpa\<lparr>lpa_alloc := a\<rparr> in if md then
         exec_bind (guard_dealloc ?T lpa' (pa_new lpa b)) (\<lambda>(lpa', _). exec_bind (guard_dealloc ?T lpa' (pa_new lpa r)) (\<lambda>(lpa', _). Inr lpa'))
       else exec_bind (guard_dealloc ?T lpa' (pa_new lpa d)) (\<lambda>(lpa', _). Inr lpa'))"
    "table_holds mc a ?X ?f [d, r, b]" and c: "covers b = {extra + ?ks..<extra + ?ds}" "covers d = {extra + ?ds..<extra + ?de}" "covers r = {extra + ?de..<extra + ?ks + image_size img}"
    using image_parts[OF assms refl refl refl, of md] by (elim exE conjE) (rule that)
  have i: "?ks < ?ds" "?ds < ?de" "?de < ?ks + image_size img" using img image_size_ok(3)[OF img] by (simp_all add: image_ok_def)
  have apart: "\<forall>al\<in>set [r, d]. covers al \<inter> covers b = {}" "\<forall>al\<in>set [d]. covers al \<inter> covers r = {}" "\<forall>al\<in>set [r, b]. covers al \<inter> covers d = {}"
    using i c by auto
  show ?thesis
  proof (cases md)
    case True
    have st: "table_holds mc a ?X ?f [b, r, d]" using a(2) by (auto simp: table_holds_def)
    obtain a1 where a1: "guard_dealloc ?T (lpa\<lparr>lpa_alloc := a\<rparr>) (pa_new lpa b) = Inr (lpa\<lparr>lpa_alloc := a1\<rparr>, [])"
      "table_holds mc a1 (?X - covers b) (\<lambda>x. if x \<in> covers b then None else ?f x) [r, d]" using idle_drop[OF mc idle st apart(1)] by (elim exE conjE) (rule that)
    obtain a2 where a2: "guard_dealloc ?T (lpa\<lparr>lpa_alloc := a1\<rparr>) (pa_new lpa r) = Inr (lpa\<lparr>lpa_alloc := a2\<rparr>, [])"
      "table_holds mc a2 (?X - covers b - covers r) (\<lambda>x. if x \<in> covers r then None else if x \<in> covers b then None else ?f x) [d]" using idle_drop[OF mc idle a1(2) apart(2)] by (elim exE conjE) (rule that)
    have e: "(+) extra ` kept_bytes img md = {extra + ?ds..<extra + ?de}" using True by (simp add: kept_bytes_def add.commute)
    have "?X - covers b - covers r = (+) extra ` kept_bytes img md"
      "(\<lambda>x. if x \<in> covers r then None else if x \<in> covers b then None else ?f x) = (\<lambda>x. if x \<in> (+) extra ` kept_bytes img md then Some (x - extra) else None)"
      unfolding e c using i by (auto simp: fun_eq_iff)
    then show ?thesis using a(1) a1(1) a2 True by (intro exI[of _ a2] exI[of _ "[d]"]) simp
  next
    case False
    obtain a1 where a1: "guard_dealloc ?T (lpa\<lparr>lpa_alloc := a\<rparr>) (pa_new lpa d) = Inr (lpa\<lparr>lpa_alloc := a1\<rparr>, [])"
      "table_holds mc a1 (?X - covers d) (\<lambda>x. if x \<in> covers d then None else ?f x) [r, b]" using idle_drop[OF mc idle a(2) apart(3)] by (elim exE conjE) (rule that)
    have e: "(+) extra ` kept_bytes img md = {extra + ?ks..<extra + ?ds} \<union> {extra + ?de..<extra + ?ks + image_size img}" using False by (simp add: kept_bytes_def image_Un ac_simps)
    have "?X - covers d = (+) extra ` kept_bytes img md"
      "(\<lambda>x. if x \<in> covers d then None else ?f x) = (\<lambda>x. if x \<in> (+) extra ` kept_bytes img md then Some (x - extra) else None)"
      unfolding e c using i by (auto simp: fun_eq_iff)
    then show ?thesis using a(1) a1 False by (intro exI[of _ a1] exI[of _ "[r, b]"]) simp
  qed
qed

section \<open>The kernel's two tables\<close>

text \<open>What a table of the upper half translates a virtual address to.\<close>

definition table_translate :: "machine \<Rightarrow> level3 LPAInternal \<Rightarrow> nat \<Rightarrow> nat option" where
  "table_translate mc lpa v = (let off = meta_offset (lpa_meta lpa) in
     if off \<le> v then l3_leaf (mc_api mc) (mc_features mc) (lpa_alloc lpa) (v - off) else None)"

lemma kernel_translate_table: "kernel_translate mc w v = table_translate mc (kernel_table w) v"
  by (simp add: kernel_translate_def table_translate_def)

lemma new_table:
  assumes "machine_ok mc" and "box_ok p"
  shows "l_fresh (mc_api mc) (lpa_alloc (global_page_table_new (mc_api mc) (mc_features mc) (mc_virt mc) p x))"
    and "active_count (global_page_table_new (mc_api mc) (mc_features mc) (mc_virt mc) p x) = 0"
    and "meta_offset (lpa_meta (global_page_table_new (mc_api mc) (mc_features mc) (mc_virt mc) p x)) = va_new_truncate (mc_virt mc) x"
  using assms pte_crate.table_new_law[of "mc_api mc" p "mc_features mc"] by (simp_all add: global_page_table_new_def lpa_new_def machine_ok_def)

text \<open>\<open>c\<close> is the distance between the virtual and the physical addresses of the part that is kept.\<close>

lemma mapped_table:
  assumes mc: "machine_ok mc" and p: "box_ok p" and img: "image_ok img" and base: "va_new_truncate (mc_virt mc) x = c - extra" "extra \<le> c" "table_base (c - extra)"
    and ex: "extra mod 0x40000000 = 0" and fit: "extra + kernel_phys_start img + image_size img \<le> kernel_span"
  shows "\<exists>t. map_kernel mc img (global_page_table_new (mc_api mc) (mc_features mc) (mc_virt mc) p x) extra md = Inr t
    \<and> l3_ok (mc_api mc) (mc_features mc) (lpa_alloc t) \<and> meta_offset (lpa_meta t) = c - extra \<and> active_count t = 0 \<and> l3_occ (mc_api mc) (mc_features mc) (lpa_alloc t) = (+) extra ` kept_bytes img md
    \<and> (\<forall>v. table_translate mc t v = (if v \<in> (+) c ` kept_bytes img md then Some (v - c) else None))"
proof -
  let ?lpa = "global_page_table_new (mc_api mc) (mc_features mc) (mc_virt mc) p x"
  note lpa = new_table[OF mc p, of x]
  obtain a als where a: "map_kernel mc img ?lpa extra md = Inr (?lpa\<lparr>lpa_alloc := a\<rparr>)"
    "table_holds mc a ((+) extra ` kept_bytes img md) (\<lambda>x. if x \<in> (+) extra ` kept_bytes img md then Some (x - extra) else None) als"
    using map_kernel_ok[OF mc lpa(1,2) _ img ex fit, of md] base(3) unfolding lpa(3) base(1) by blast
  have m: "meta_offset (lpa_meta (?lpa\<lparr>lpa_alloc := a\<rparr>)) = c - extra" using lpa(3) base(1) by simp
  have "table_translate mc (?lpa\<lparr>lpa_alloc := a\<rparr>) v = (if v \<in> (+) c ` kept_bytes img md then Some (v - c) else None)" for v
  proof -
    have "c - extra \<le> v \<and> v - (c - extra) \<in> (+) extra ` kept_bytes img md \<longleftrightarrow> v \<in> (+) c ` kept_bytes img md" using base(2)
      by (auto simp: image_iff) (erule bexI[rotated], linarith)
    then show ?thesis using a(2) base(2) unfolding table_translate_def m Let_def table_holds_def by auto
  qed
  then show ?thesis using a m lpa(2) by (intro exI[of _ "?lpa\<lparr>lpa_alloc := a\<rparr>"]) (simp add: table_holds_def)
qed

definition higher_half_offset :: nat where
  "higher_half_offset = 0xFFFFFFFF80000000"

lemma kernel_bases:
  assumes "machine_ok mc"
  shows "va_new_truncate (mc_virt mc) KERNEL_PTABLE_VADDR = KERNEL_PTABLE_VADDR" "table_base KERNEL_PTABLE_VADDR"
    and "va_new_truncate (mc_virt mc) KERNEL_STATIC_PT_VADDR = higher_half_offset - 0x7F80000000" "table_base (higher_half_offset - 0x7F80000000)"
proof -
  have v: "virt_crate (mc_virt mc)" using assms by (simp add: machine_ok_def)
  show "va_new_truncate (mc_virt mc) KERNEL_PTABLE_VADDR = KERNEL_PTABLE_VADDR" using truncate_canonical[OF v] by (simp add: canonical_def KERNEL_PTABLE_VADDR_def)
  show "va_new_truncate (mc_virt mc) KERNEL_STATIC_PT_VADDR = higher_half_offset - 0x7F80000000"
    using virt_crate.truncate[OF v, of KERNEL_STATIC_PT_VADDR] by (simp add: KERNEL_STATIC_PT_VADDR_def higher_half_offset_def Let_def)
qed (simp_all add: table_base_def KERNEL_PTABLE_VADDR_def PAGE_ALIGN_def kernel_span_def usize_limit_def higher_half_offset_def)

lemma KERNEL_PTABLE_ok:
  assumes mc: "machine_ok mc" and p: "box_ok p" and img: "image_ok img"
  shows "\<exists>t. KERNEL_PTABLE mc img p = Inr t \<and> l3_ok (mc_api mc) (mc_features mc) (lpa_alloc t) \<and> meta_offset (lpa_meta t) = KERNEL_PTABLE_VADDR
    \<and> active_count t = 0 \<and> l3_occ (mc_api mc) (mc_features mc) (lpa_alloc t) = kept_bytes img True
    \<and> (\<forall>v. table_translate mc t v = (if v \<in> (+) KERNEL_PTABLE_VADDR ` kept_bytes img True then Some (v - KERNEL_PTABLE_VADDR) else None))"
  using mapped_table[OF mc p img, of KERNEL_PTABLE_VADDR KERNEL_PTABLE_VADDR 0 True] kernel_bases[OF mc] img
  by (simp add: KERNEL_PTABLE_def image_ok_def)

lemma KERNEL_STATIC_PT_ok:
  assumes mc: "machine_ok mc" and p: "box_ok p" and img: "image_ok img" and fit: "kernel_phys_start img + image_size img \<le> 0x80000000"
  shows "\<exists>t. KERNEL_STATIC_PT mc img p = Inr t \<and> l3_ok (mc_api mc) (mc_features mc) (lpa_alloc t) \<and> meta_offset (lpa_meta t) = higher_half_offset - 0x7F80000000
    \<and> (\<forall>v. table_translate mc t v = (if v \<in> (+) higher_half_offset ` kept_bytes img False then Some (v - higher_half_offset) else None))"
proof -
  have "0x7F80000000 \<le> higher_half_offset" "(0x7F80000000 :: nat) mod 0x40000000 = 0" "0x7F80000000 + kernel_phys_start img + image_size img \<le> kernel_span"
    using fit by (simp_all add: higher_half_offset_def kernel_span_def)
  from mapped_table[OF mc p img kernel_bases(3)[OF mc] this(1) kernel_bases(4)[OF mc] this(2,3), of False]
  show ?thesis unfolding KERNEL_STATIC_PT_def by blast
qed

definition demo_image :: kernel_image where
  "demo_image = \<lparr>kernel_phys_start = 0x200000, kernel_phys_end = 0x900123, kdata_phys_start = 0x206000, kdata_phys_end = 0x618000\<rparr>"

lemma demo_image_ok: "image_ok demo_image" "image_size demo_image = 0x701000"
  by (simp_all add: demo_image_def image_ok_def image_size_def whole_size_def PAGE_ALIGN_def kernel_span_def)

section \<open>Properties\<close>

text \<open>C9: For an image whose sections follow each other page by page below 2 GiB, both tables of the kernel are set up
  without a panic.  Afterwards the kernel table translates exactly the bytes of the data section, at the distance the linker script links
  the data at, and the static table translates exactly the remaining pages of the image, at the distance the code is linked at.\<close>

theorem kernel_tables_correct:
  assumes "machine_ok mc" and "box_ok p" and "box_ok q" and "image_ok img" and "kernel_phys_start img + image_size img \<le> 0x80000000"
  shows "\<exists>t s. KERNEL_PTABLE mc img p = Inr t \<and> KERNEL_STATIC_PT mc img q = Inr s
    \<and> (\<forall>v. table_translate mc t v = (if v \<in> (+) 0xFFFF800000000000 ` kept_bytes img True then Some (v - 0xFFFF800000000000) else None))
    \<and> (\<forall>v. table_translate mc s v = (if v \<in> (+) 0xFFFFFFFF80000000 ` kept_bytes img False then Some (v - 0xFFFFFFFF80000000) else None))"
proof -
  obtain t where t: "KERNEL_PTABLE mc img p = Inr t" "\<forall>v. table_translate mc t v = (if v \<in> (+) KERNEL_PTABLE_VADDR ` kept_bytes img True then Some (v - KERNEL_PTABLE_VADDR) else None)"
    using KERNEL_PTABLE_ok[OF assms(1,2,4)] by (elim exE conjE) (rule that)
  obtain s where s: "KERNEL_STATIC_PT mc img q = Inr s" "\<forall>v. table_translate mc s v = (if v \<in> (+) higher_half_offset ` kept_bytes img False then Some (v - higher_half_offset) else None)"
    using KERNEL_STATIC_PT_ok[OF assms(1,3-5)] by (elim exE conjE) (rule that)
  show ?thesis using t s[unfolded higher_half_offset_def] unfolding KERNEL_PTABLE_VADDR_def by blast
qed

theorem kernel_tables_correct_witness:
  "\<exists>t s. KERNEL_PTABLE demo_machine demo_image KERNEL_PTABLE_VADDR = Inr t \<and> KERNEL_STATIC_PT demo_machine demo_image KERNEL_PTABLE_VADDR = Inr s
    \<and> table_translate demo_machine t 0xFFFF800000206000 = Some 0x206000 \<and> table_translate demo_machine t 0xFFFF800000205FFF = None
    \<and> table_translate demo_machine s 0xFFFFFFFF80205FFF = Some 0x205FFF \<and> table_translate demo_machine s 0xFFFFFFFF80206000 = None"
proof -
  have "kernel_phys_start demo_image + image_size demo_image \<le> 0x80000000" by (simp add: demo_image_ok(2)) (simp add: demo_image_def)
  from kernel_tables_correct[OF demo_machine_ok demo_box(1) demo_box(1) demo_image_ok(1) this] obtain t s where
    t: "KERNEL_PTABLE demo_machine demo_image KERNEL_PTABLE_VADDR = Inr t" "KERNEL_STATIC_PT demo_machine demo_image KERNEL_PTABLE_VADDR = Inr s"
    "\<forall>v. table_translate demo_machine t v = (if v \<in> (+) 0xFFFF800000000000 ` kept_bytes demo_image True then Some (v - 0xFFFF800000000000) else None)"
    "\<forall>v. table_translate demo_machine s v = (if v \<in> (+) 0xFFFFFFFF80000000 ` kept_bytes demo_image False then Some (v - 0xFFFFFFFF80000000) else None)"
    by (elim exE conjE) (rule that)
  have k: "kept_bytes demo_image True = {0x206000..<0x618000}" "kept_bytes demo_image False = {0x200000..<0x206000} \<union> {0x618000..<0x901000}"
    by (simp_all add: kept_bytes_def demo_image_ok(2)) (simp_all add: demo_image_def)
  show ?thesis using t unfolding k by (intro exI[of _ t] exI[of _ s]) (simp add: image_Un)
qed

end
