(* ===== verification/User_Context.thy ===== *)
theory User_Context
  imports Page_Absent Kernel_Heap
begin

text \<open>
  Paging contexts of user programs and how contexts become active, and the bootstrap stack
  (\<open>memory/alloc_util.rs\<close>, \<open>memory/stack.rs\<close>, \<open>PagingContext::activate\<close> and the activity counter of
  \<open>memory/paging/api.rs\<close>).
\<close>

section \<open>A new user context\<close>

definition NULL_GUARD_SIZE :: nat where
  "NULL_GUARD_SIZE = 1 * 1024 * 1024"

text \<open>The null guard is allocated, marked with the id of its absent-page entry, and leaked.\<close>

definition new_user_paging_context ::
  "pte_api \<Rightarrow> features \<Rightarrow> virt_api \<Rightarrow> nat \<Rightarrow> boxes \<Rightarrow> (nat \<times> PageFlags) list \<Rightarrow> nat \<times> PageFlags \<Rightarrow> nat \<Rightarrow> level4 LPAInternal exec" where
  "new_user_paging_context api ft V p b globals kernel_static null_guard_id =
     exec_bind (paging_context_new api ft p globals kernel_static) (\<lambda>ctx.
     exec_bind (address_new 0) (\<lambda>addr. exec_bind (size_new NULL_GUARD_SIZE) (\<lambda>sz.
     exec_bind (lpa_allocate_at (context_type api ft V) b ctx addr sz) (\<lambda>(ctx, r).
     exec_bind (unwrap r) (\<lambda>nullguard.
     exec_bind (guard_set_absent (context_type api ft V) ctx nullguard null_guard_id) (\<lambda>(ctx, _). Inr ctx))))))"

context first_fit
begin

text \<open>A request inside the first slot succeeds when that slot is free.\<close>

lemma allocate_first_slot:
  assumes "aok a" and "boxes_ok b" and "SUBTABLES M" and "avail a 0 = 0" and "0 < sz" and "4096 dvd sz" and "sz < PS"
  shows "\<exists>a' al. mlff_allocate_at M b a 0 sz = Inr (a', Some al) \<and> grown aok aocc alive a a' (Some al) \<and> start_addr al = 0 \<and> alloc_size al = sz"
proof -
  have w: "whole_pages M sz = 0" "part_page M sz = sz" using assms(3,7) by (simp_all add: whole_pages_def part_page_def)
  have req: "page_request (mt_sub M) 0 sz" using assms(3,5-7) sub_span by (auto simp: page_request_def)
  obtain a1 r where r: "alloc_rem_if M b True 0 0 sz a = Inr (a1, r)" "rem_outcome True 0 0 sz a a1 r"
    using rem_outcome_ex[OF assms(1,2), of True 0 sz 0] req by blast
  then obtain rem where "r = Some rem" using assms(4) by (cases r) (auto simp: rem_outcome_def)
  moreover have "range_clear a 0 0 = Inr True" using range_clear_ok[OF ok_bitmap[OF assms(1)], of 0 0] by simp
  ultimately have "\<exists>a' al. allocate_at_parts M b a 0 0 0 sz = Inr (a', Some al)"
    using r(1) w assms(5) by (simp add: allocate_at_parts_def alloc_rem_if_def[of M b False] Let_def)
  moreover have "mlff_allocate_at M b a 0 sz = allocate_at_parts M b a 0 0 0 sz"
    using assms(3) crop_addr_id[of 0] by (simp add: mlff_allocate_at_def Let_def)
  ultimately obtain a' al where run: "mlff_allocate_at M b a 0 sz = Inr (a', Some al)" by auto
  have "0 + sz \<le> 512 * PS" using assms(7) by simp
  then show ?thesis using allocate_at_correct[OF assms(1,2,5,6), of 0] run by (auto simp: alloc_result_def)
qed

end

context pte_crate
begin

lemmas context_first_slot = L4.allocate_first_slot

end

section \<open>Activating contexts\<close>

text \<open>
  Activating a table on a CPU counts it as active, takes its lock, loads it and then releases the lock; later the CPU loads
  another table and only then the count goes down.  A writer takes the lock and decides whether to flush by the count.  The
  steps are those of one table; \<open>pc\<close> gives for each CPU and writer where it is.
\<close>

datatype table_pc = Elsewhere | Counted | Loading | Loaded | Replaced | Writing bool

record 'a table_state =
  ts_table :: "'a LPAInternal"
  ts_owner :: "nat option"
  ts_pc :: "nat \<Rightarrow> table_pc"

definition at_pc :: "nat \<Rightarrow> table_pc \<Rightarrow> 'a table_state \<Rightarrow> 'a table_state" where
  "at_pc t k s = s\<lparr>ts_pc := (ts_pc s)(t := k)\<rparr>"

text \<open>\<open>n\<close> bounds the participants, so that the 16-bit counter cannot overflow.\<close>

inductive table_step :: "nat \<Rightarrow> 'a table_state \<Rightarrow> 'a table_state \<Rightarrow> bool" for n where
  begin_count: "t < n \<Longrightarrow> ts_pc s t = Elsewhere \<Longrightarrow> table_step n s (at_pc t Counted (s\<lparr>ts_table := begin_active (ts_table s)\<rparr>))"
| begin_lock: "t < n \<Longrightarrow> ts_pc s t = Counted \<Longrightarrow> ts_owner s = None \<Longrightarrow> table_step n s (at_pc t Loading (s\<lparr>ts_owner := Some t\<rparr>))"
| loaded: "t < n \<Longrightarrow> ts_pc s t = Loading \<Longrightarrow> table_step n s (at_pc t Loaded (s\<lparr>ts_owner := None\<rparr>))"
| replaced: "t < n \<Longrightarrow> ts_pc s t = Loaded \<Longrightarrow> table_step n s (at_pc t Replaced s)"
| end_count: "t < n \<Longrightarrow> ts_pc s t = Replaced \<Longrightarrow> table_step n s (at_pc t Elsewhere (s\<lparr>ts_table := end_active (ts_table s)\<rparr>))"
| write_lock: "t < n \<Longrightarrow> ts_pc s t = Elsewhere \<Longrightarrow> ts_owner s = None \<Longrightarrow>
    table_step n s (at_pc t (Writing (auto_flush_tlb (write_when_active (ts_table s)))) (s\<lparr>ts_owner := Some t\<rparr>))"
| store: "t < n \<Longrightarrow> ts_pc s t = Writing f \<Longrightarrow> table_step n s (s\<lparr>ts_table := (ts_table s)\<lparr>lpa_alloc := a\<rparr>\<rparr>)"
| write_done: "t < n \<Longrightarrow> ts_pc s t = Writing f \<Longrightarrow> table_step n s (at_pc t Elsewhere (s\<lparr>ts_owner := None\<rparr>))"

inductive table_reach :: "nat \<Rightarrow> 'a table_state \<Rightarrow> bool" for n where
  table_start: "active_count l = 0 \<Longrightarrow> table_reach n \<lparr>ts_table = l, ts_owner = None, ts_pc = (\<lambda>_. Elsewhere)\<rparr>"
| table_next: "table_reach n s \<Longrightarrow> table_step n s s' \<Longrightarrow> table_reach n s'"

definition counts :: "table_pc \<Rightarrow> bool" where
  "counts k \<longleftrightarrow> k \<in> {Counted, Loading, Loaded, Replaced}"

definition holds :: "table_pc \<Rightarrow> bool" where
  "holds k \<longleftrightarrow> k = Loading \<or> (\<exists>f. k = Writing f)"

definition counted :: "nat \<Rightarrow> 'a table_state \<Rightarrow> nat set" where
  "counted n s = {t. t < n \<and> counts (ts_pc s t)}"

text \<open>The counter is exact, the lock has one holder, and a writer that does not flush is alone.\<close>

definition table_inv :: "nat \<Rightarrow> 'a table_state \<Rightarrow> bool" where
  "table_inv n s \<longleftrightarrow> active_count (ts_table s) = of_nat (card (counted n s)) \<and>
     (\<forall>t. holds (ts_pc s t) \<longleftrightarrow> ts_owner s = Some t) \<and> (\<forall>t\<ge>n. ts_pc s t = Elsewhere) \<and>
     (\<forall>t. ts_pc s t = Writing False \<longrightarrow> (\<forall>u. ts_pc s u \<notin> {Loading, Loaded}))"

lemma counted_simps [simp]:
  "counts Counted" "counts Loading" "counts Loaded" "counts Replaced" "\<not> counts Elsewhere" "\<not> counts (Writing f)"
  "holds Loading" "holds (Writing f)" "\<not> holds Counted" "\<not> holds Loaded" "\<not> holds Replaced" "\<not> holds Elsewhere"
  by (simp_all add: counts_def holds_def)

lemma counted_finite [simp]: "finite (counted n s)" "card (counted n s) \<le> n"
proof -
  have "counted n s \<subseteq> {..<n}" by (auto simp: counted_def)
  then show "finite (counted n s)" "card (counted n s) \<le> n" by (auto intro: finite_subset dest: card_mono[rotated])
qed

lemma counted_cong: "(\<And>u. counts (ts_pc s' u) = counts (ts_pc s u)) \<Longrightarrow> counted n s' = counted n s"
  by (simp add: counted_def)

lemma at_pc_sel [simp]: "ts_pc (at_pc t k s) u = (if u = t then k else ts_pc s u)" "ts_table (at_pc t k s) = ts_table s" "ts_owner (at_pc t k s) = ts_owner s"
  by (simp_all add: at_pc_def)

lemma table_inv_at:
  assumes inv: "table_inv n s" and t: "t < n" and c: "active_count l = of_nat (card (counted n (at_pc t k s)))"
    and own: "\<And>u. u \<noteq> t \<Longrightarrow> holds (ts_pc s u) \<longleftrightarrow> ow = Some u" "holds k \<longleftrightarrow> ow = Some t"
    and wr: "\<And>u. k = Writing False \<Longrightarrow> ts_pc s u \<notin> {Loading, Loaded}" "\<And>u. k \<in> {Loading, Loaded} \<Longrightarrow> u \<noteq> t \<Longrightarrow> ts_pc s u \<noteq> Writing False"
  shows "table_inv n (at_pc t k (s\<lparr>ts_table := l, ts_owner := ow\<rparr>))"
proof -
  have cs: "counted n (at_pc t k (s\<lparr>ts_table := l, ts_owner := ow\<rparr>)) = counted n (at_pc t k s)" by (rule counted_cong) (simp add: at_pc_def)
  have "ts_pc s u = Elsewhere" if "n \<le> u" for u using inv that by (simp add: table_inv_def)
  moreover have "ts_pc s v \<notin> {Loading, Loaded}" if "ts_pc s u = Writing False" for u v using inv that unfolding table_inv_def by blast
  ultimately show ?thesis unfolding table_inv_def cs using t c own wr by (auto simp: at_pc_def)
qed

text \<open>Moving between points that count alike leaves the counter right.\<close>

lemma counted_same: "counts k = counts (ts_pc s t) \<Longrightarrow> counted n (at_pc t k s) = counted n s"
  by (rule counted_cong) simp

lemma unflushed_none_counted:
  assumes "table_inv n s" and "n < 2 ^ 16" and "\<not> auto_flush_tlb (write_when_active (ts_table s))"
  shows "ts_pc s u \<notin> {Loading, Loaded}"
proof -
  have z: "of_nat (card (counted n s)) = (0 :: 16 word)" using assms(1,3) by (simp add: write_when_active_def table_inv_def word_gt_0)
  have "card (counted n s) < 2 ^ 16" using counted_finite(2)[of n s] assms(2) by linarith
  moreover have "2 ^ 16 dvd card (counted n s)" using z by (simp add: word_of_nat_eq_0_iff)
  ultimately have "card (counted n s) = 0" by (meson nat_dvd_not_less neq0_conv)
  then have "counted n s = {}" by simp
  then show ?thesis using assms(1) by (cases "u < n") (auto simp: counted_def table_inv_def)
qed

lemma table_inv_step:
  assumes "table_step n s s'" and inv: "table_inv n s" and n: "n < 2 ^ 16"
  shows "table_inv n s'"
proof -
  have c: "active_count (ts_table s) = of_nat (card (counted n s))" and h: "holds (ts_pc s t) \<longleftrightarrow> ts_owner s = Some t"
    and w: "ts_pc s t = Writing False \<Longrightarrow> ts_pc s u \<notin> {Loading, Loaded}" for t u
    using inv by (auto simp: table_inv_def)
  note at = table_inv_at[OF inv]
  show ?thesis using assms(1)
  proof (cases rule: table_step.cases)
    case (begin_count t)
    have "counted n (at_pc t Counted s) = insert t (counted n s)" "t \<notin> counted n s" using begin_count by (auto simp: counted_def)
    then have "active_count (begin_active (ts_table s)) = of_nat (card (counted n (at_pc t Counted s)))" using c by (simp add: begin_active_def)
    from at[OF begin_count(2) this, of "ts_owner s"] show ?thesis using begin_count h h[of t] by simp
  next
    case (begin_lock t)
    have "active_count (ts_table s) = of_nat (card (counted n (at_pc t Loading s)))" using begin_lock c by (simp add: counted_same)
    moreover have "\<not> holds (ts_pc s u)" for u using h[of u] begin_lock by simp
    ultimately show ?thesis using at[OF begin_lock(2), of "ts_table s" Loading "Some t"] begin_lock(1) by (fastforce simp: holds_def)
  next
    case (loaded t)
    have "active_count (ts_table s) = of_nat (card (counted n (at_pc t Loaded s)))" using loaded c by (simp add: counted_same)
    moreover have "ts_owner s = Some t" using h[of t] loaded by simp
    moreover from this have "\<not> holds (ts_pc s u)" if "u \<noteq> t" for u using h[of u] that by simp
    ultimately show ?thesis using at[OF loaded(2), of "ts_table s" Loaded None] loaded(1) by (fastforce simp: holds_def)
  next
    case (replaced t)
    have "active_count (ts_table s) = of_nat (card (counted n (at_pc t Replaced s)))" using replaced c by (simp add: counted_same)
    from at[OF replaced(2) this, of "ts_owner s"] show ?thesis using replaced h h[of t] by simp
  next
    case (end_count t)
    have e: "counted n s = insert t (counted n (at_pc t Elsewhere s))" "t \<notin> counted n (at_pc t Elsewhere s)" using end_count by (auto simp: counted_def)
    then have "active_count (end_active (ts_table s)) = of_nat (card (counted n (at_pc t Elsewhere s)))" using c by (simp add: end_active_def)
    from at[OF end_count(2) this, of "ts_owner s"] show ?thesis using end_count h h[of t] by simp
  next
    case (write_lock t)
    let ?k = "Writing (auto_flush_tlb (write_when_active (ts_table s)))"
    have "active_count (ts_table s) = of_nat (card (counted n (at_pc t ?k s)))" using write_lock c by (simp add: counted_same)
    moreover have "\<not> holds (ts_pc s u)" for u using h[of u] write_lock by simp
    ultimately show ?thesis using at[OF write_lock(2), of "ts_table s" ?k "Some t"] unflushed_none_counted[OF inv n] write_lock(1) by simp
  next
    case (store t f a)
    have "counted n s' = counted n s" using store(1) by (intro counted_cong) simp
    then show ?thesis using inv store(1) by (simp add: table_inv_def)
  next
    case (write_done t f)
    have "active_count (ts_table s) = of_nat (card (counted n (at_pc t Elsewhere s)))" using write_done c by (simp add: counted_same)
    moreover have "ts_owner s = Some t" using h[of t] write_done by simp
    moreover from this have "\<not> holds (ts_pc s u)" if "u \<noteq> t" for u using h[of u] that by simp
    ultimately show ?thesis using at[OF write_done(2), of "ts_table s" Elsewhere None] write_done(1) by simp
  qed
qed

lemma table_reach_inv: "table_reach n s \<Longrightarrow> n < 2 ^ 16 \<Longrightarrow> table_inv n s"
proof (induction rule: table_reach.induct)
  case (table_start l)
  then show ?case by (simp add: table_inv_def counted_def)
next
  case (table_next s s')
  then show ?case using table_inv_step by blast
qed

section \<open>The bootstrap stack\<close>

record HeapReclaimableAllocatedStack =
  hs_start :: nat
  hs_end :: nat

text \<open>The flag says whether the stack was claimed; the linker symbols name its ends the other way round.\<close>

definition claim_bsp_boostrap_stack :: "nat \<Rightarrow> nat \<Rightarrow> bool \<Rightarrow> (bool \<times> HeapReclaimableAllocatedStack) exec" where
  "claim_bsp_boostrap_stack kstack_top kstack_bottom claimed =
     (if claimed then Inl ExplicitPanic else Inr (True, \<lparr>hs_start = kstack_bottom, hs_end = kstack_top\<rparr>))"

definition hs_bottom_vaddr :: "HeapReclaimableAllocatedStack \<Rightarrow> nat" where
  "hs_bottom_vaddr st = hs_end st"

definition hs_expand :: "nat \<Rightarrow> HeapReclaimableAllocatedStack \<Rightarrow> HeapReclaimableAllocatedStack \<times> bool" where
  "hs_expand amount st = (st, False)"

definition hs_drop :: "'h heap_api \<Rightarrow> HeapReclaimableAllocatedStack \<Rightarrow> ('h, 'v) kheap \<Rightarrow> ni_cpu \<Rightarrow> ni_cpu \<times> ('h, 'v) kheap" where
  "hs_drop H st s c = reclaim_for_heap H (hs_start st) (hs_end st) s c"

text \<open>A second claim panics, whoever makes it.\<close>

lemma claim_once: "claim_bsp_boostrap_stack t b claimed = Inr (claimed', st) \<Longrightarrow> panics (claim_bsp_boostrap_stack t' b' claimed')"
  by (auto simp: claim_bsp_boostrap_stack_def split: if_splits)

text \<open>A new user paging context is always created: exactly the first MiB and the slots of the global tables are in use, and
  every address of the first MiB translates to nothing and carries the id of the null-guard entry, so an access through a null
  pointer faults.\<close>

lemma new_user_context_ok:
  assumes crates: "pte_crate api" "virt_crate V" and boxes: "box_ok p" "boxes_ok b" and globals: "table_addr_ok g1" "table_addr_ok g2" "table_addr_ok ks"
    and id: "0 < i" "i < 2 ^ 63"
  shows "\<exists>ctx. new_user_paging_context api ft V p b [(g1, f1), (g2, f2)] (ks, f3) i = Inr ctx \<and> top_ok api ft (lpa_alloc ctx)
    \<and> top_occ api ft (lpa_alloc ctx) = {0..<0x100000} \<union> {2 ^ 47..<2 ^ 47 + 2 ^ 40} \<union> {2 ^ 48 - 2 ^ 39..<2 ^ 48}
    \<and> (\<forall>x. x < 0x100000 \<longrightarrow> top_leaf api ft (lpa_alloc ctx) x = None \<and> snd (top_view api ft (lpa_alloc ctx) x) = Some i)"
proof -
  let ?T = "context_type api ft V"
  obtain ctx where ctx: "paging_context_new api ft p [(g1, f1), (g2, f2)] (ks, f3) = Inr ctx" "l4_ok api ft (lpa_alloc ctx)"
    "top_occ api ft (lpa_alloc ctx) = {2 ^ 47..<2 ^ 47 + 2 ^ 40} \<union> {2 ^ 48 - 2 ^ 39..<2 ^ 48}" "active_count ctx = 0"
    "meta_offset (lpa_meta ctx) = 0" "avail (lpa_alloc ctx) 0 = 0"
    using paging_context_new_ok[OF crates(1) boxes(1) globals, of ft f1 f2 f3] by (auto simp: top_defs)
  obtain a al where a: "mlff_allocate_at (X64Level4 api ft) b (lpa_alloc ctx) 0 0x100000 = Inr (a, Some al)"
    "grown (l4_ok api ft) (l4_occ api ft) (l4_live api ft) (lpa_alloc ctx) a (Some al)" "start_addr al = 0" "alloc_size al = 0x100000"
    using pte_crate.context_first_slot[OF crates(1) ctx(2) boxes(2) _ ctx(6), of "0x100000"] by auto
  have cov: "covers al = {0..<0x100000}"
  proof -
    have "wf_alloc al" using a(2) by (simp add: grown_def mlff_live_def)
    then show ?thesis using wf_alloc_span(1)[of al] a(3,4) by simp
  qed
  let ?ctx = "ctx\<lparr>lpa_alloc := a\<rparr>" and ?pa = "pa_new ctx al"
  have st: "pa_start ?T ?pa = Inr (PageAlignedAddressT 0)"
    using virt_crate.truncate[OF crates(2), of 0] ctx(5) a(3)
    by (simp add: pa_start_def pa_new_def uadd_def usize_limit_def context_type_def address_new_def)
  have at: "lpa_allocate_at ?T b ctx (PageAlignedAddressT 0) (PageAllocationSizeT 0x100000) = Inr (?ctx, Some ?pa)"
    using a(1) ctx(5) st by (simp add: lpa_allocate_at_def address_get_def size_get_def context_type_def TopLevelPageAllocator_def PAGE_ALIGN_def)
  have af: "auto_flush ?T ?ctx ?pa = Inr []" using ctx(4) by (simp add: auto_flush_def write_when_active_def)
  obtain a' where a': "guard_set_absent ?T ?ctx ?pa i = Inr (?ctx\<lparr>lpa_alloc := a'\<rparr>, [])" "top_ok api ft a'" "top_occ api ft a' = top_occ api ft a"
    "\<forall>x. top_view api ft a' x = (if x \<in> covers al then (None, Some i) else top_view api ft a x)"
    using context_set_absent[OF crates(1), of ft ?ctx ?pa i V "[]"] a(2) id af by (auto simp: grown_def top_defs pa_new_def)
  have "new_user_paging_context api ft V p b [(g1, f1), (g2, f2)] (ks, f3) i = Inr (ctx\<lparr>lpa_alloc := a'\<rparr>)"
    using ctx(1) at a'(1) by (simp add: new_user_paging_context_def address_new_def size_new_def NULL_GUARD_SIZE_def PAGE_ALIGN_def)
  moreover have "top_occ api ft a' = {0..<0x100000} \<union> {2 ^ 47..<2 ^ 47 + 2 ^ 40} \<union> {2 ^ 48 - 2 ^ 39..<2 ^ 48}"
  proof -
    have "l4_occ api ft a = l4_occ api ft (lpa_alloc ctx) \<union> {0..<0x100000}" using a(2) cov by (simp add: grown_def)
    then show ?thesis using a'(3) ctx(3) unfolding top_occ_def by (simp only: Un_ac)
  qed
  moreover have "top_leaf api ft a' x = None \<and> snd (top_view api ft a' x) = Some i" if "x < 0x100000" for x
    using a'(4) that top_view_leaf[of api ft a' x] by (simp add: cov)
  ultimately show ?thesis using a'(2) by (intro exI[of _ "ctx\<lparr>lpa_alloc := a'\<rparr>"]) simp
qed

section \<open>Properties\<close>

text \<open>C19: Whatever CPUs and writers do, with fewer than 65536 of them, the activity counter of a page table is the number of
  CPUs that have counted themselves in, and a writer that does not flush the TLB has the table to itself: no CPU has it loaded
  for as long as it writes.\<close>

theorem unflushed_writes_unseen:
  assumes "table_reach n s" and "n < 2 ^ 16"
  shows "active_count (ts_table s) = of_nat (card {t. t < n \<and> ts_pc s t \<in> {Counted, Loading, Loaded, Replaced}})
    \<and> (ts_pc s t = Writing False \<longrightarrow> ts_pc s u \<notin> {Loading, Loaded})"
  using table_reach_inv[OF assms] by (auto simp: table_inv_def counted_def counts_def)

theorem unflushed_writes_unseen_witness:
  "\<exists>s :: unit table_state. table_reach 2 s \<and> ts_pc s 0 = Writing False \<and> ts_pc s 1 = Counted \<and> ts_pc s 1 \<notin> {Loading, Loaded}"
proof -
  let ?l = "lpa_new () \<lparr>meta_offset = 0, default_options = options_default\<rparr>"
  let ?s = "\<lparr>ts_table = ?l, ts_owner = None, ts_pc = (\<lambda>_. Elsewhere)\<rparr>"
  let ?s1 = "at_pc 0 (Writing (auto_flush_tlb (write_when_active ?l))) (?s\<lparr>ts_owner := Some 0\<rparr>)"
  have "table_reach 2 ?s" by (rule table_start) (simp add: lpa_new_def)
  then have "table_reach 2 ?s1" by (rule table_next) (use table_step.write_lock[of 0 2 ?s] in simp)
  then have r: "table_reach 2 (at_pc 1 Counted (?s1\<lparr>ts_table := begin_active (ts_table ?s1)\<rparr>))"
    by (rule table_next) (rule table_step.begin_count, simp_all)
  then show ?thesis
    using unflushed_writes_unseen[OF r, of 0 1] by (intro exI[where x = "at_pc 1 Counted (?s1\<lparr>ts_table := begin_active (ts_table ?s1)\<rparr>)"]) (simp add: lpa_new_def write_when_active_def)
qed

end
