(* ===== verification/Boot.thy ===== *)
theory Boot
  imports Kernel_Image User_Context Physical_Init
begin

text \<open>
  The part of \<open>_kstart\<close> (\<open>lib.rs\<close>) that sets up memory: the physical allocator is given the boot loader's memory map, and the
  first paging context is created, which forces the lazily initialised global tables of \<open>memory/paging/global_pages.rs\<close>.
\<close>

section \<open>The global tables\<close>

definition MMIO_PTABLE_VADDR :: nat where
  "MMIO_PTABLE_VADDR = (GLOBAL_PAGES_START_IDX + 1) * TOPLEVEL_PAGE_SIZE"

record global_tables =
  kernel_pt :: "level3 LPAInternal"
  mmio_pt :: "level3 LPAInternal"
  static_pt :: "level3 LPAInternal"

text \<open>Where the boxes of the page tables are put is up to the heap.\<close>

record table_places =
  kernel_place :: nat
  mmio_place :: nat
  static_place :: nat
  context_place :: nat

definition MMIO_PTABLE :: "machine \<Rightarrow> nat \<Rightarrow> level3 LPAInternal" where
  "MMIO_PTABLE mc p = global_page_table_new (mc_api mc) (mc_features mc) (mc_virt mc) p MMIO_PTABLE_VADDR"

text \<open>The address that goes into the top-level tables; taking it marks the table as active for good.\<close>

definition table_physaddr :: "machine \<Rightarrow> level3 LPAInternal \<Rightarrow> (level3 LPAInternal \<times> nat) exec" where
  "table_physaddr mc t = exec_bind (lpa_get_phys_addr (kernel_type mc) t) (\<lambda>x. Inr (begin_active t, x))"

definition global_tables_init :: "machine \<Rightarrow> kernel_image \<Rightarrow> table_places \<Rightarrow> (global_tables \<times> (nat \<times> PageFlags) list \<times> nat \<times> PageFlags) exec" where
  "global_tables_init mc img pl =
     exec_bind (KERNEL_PTABLE mc img (kernel_place pl)) (\<lambda>kt.
     exec_bind (table_physaddr mc kt) (\<lambda>(kt, ka).
     exec_bind (table_physaddr mc (MMIO_PTABLE mc (mmio_place pl))) (\<lambda>(mt, ma).
     exec_bind (KERNEL_STATIC_PT mc img (static_place pl)) (\<lambda>st.
     exec_bind (table_physaddr mc st) (\<lambda>(st, sa).
       Inr (\<lparr>kernel_pt = kt, mmio_pt = mt, static_pt = st\<rparr>, [(ka, flags_new {WRITEABLE} {}), (ma, flags_new {WRITEABLE} {})], sa, flags_new {WRITEABLE, EXECUTABLE} {}))))))"

section \<open>Setting up memory\<close>

definition boot_memory :: "machine \<Rightarrow> kernel_image \<Rightarrow> table_places \<Rightarrow> nat \<Rightarrow> memory_map_entry list option \<Rightarrow> buddy
    \<Rightarrow> (buddy \<times> global_tables \<times> level4 LPAInternal) exec" where
  "boot_memory mc img pl null_guard_id mmap a =
     exec_bind (unwrap mmap) (\<lambda>memmap.
     exec_bind (init_pmem (snd (get_kernel_bounds img)) memmap a) (\<lambda>(a, _, _).
     exec_bind (global_tables_init mc img pl) (\<lambda>(g, globals, kernel_static).
     exec_bind (new_user_paging_context (mc_api mc) (mc_features mc) (mc_virt mc) (context_place pl) (mc_boxes mc) globals kernel_static null_guard_id) (\<lambda>ctx.
       Inr (a, g, ctx)))))"

definition places_ok :: "table_places \<Rightarrow> bool" where
  "places_ok pl \<longleftrightarrow> box_ok (kernel_place pl) \<and> box_ok (mmio_place pl) \<and> box_ok (static_place pl) \<and> box_ok (context_place pl)"

context pte_crate
begin

lemmas table_ptr_law = L3.level.ptr_ok

end

lemma table_physaddr_ok:
  assumes "machine_ok mc" and "l3_ok (mc_api mc) (mc_features mc) (lpa_alloc t)"
  shows "\<exists>x. table_physaddr mc t = Inr (begin_active t, x) \<and> table_addr_ok x"
proof -
  have "pte_crate (mc_api mc)" using assms(1) by (simp add: machine_ok_def)
  from pte_crate.table_ptr_law[OF this assms(2)] obtain p where "pf_ptr (mlff_ops (X64Level3 (mc_api mc) (mc_features mc))) (lpa_alloc t) = Inr p" "box_ok p" by blast
  then show ?thesis using box_ok_phys[of p] by (simp add: table_physaddr_def lpa_get_phys_addr_def kernel_type_def)
qed

lemma table_translate_active [simp]: "table_translate mc (begin_active t) v = table_translate mc t v"
  by (simp add: table_translate_def begin_active_def Let_def)

lemma global_tables_ok:
  assumes mc: "machine_ok mc" and pl: "places_ok pl" and img: "image_ok img" and fit: "kernel_phys_start img + image_size img \<le> 0x80000000"
  shows "\<exists>g ka ma sa. global_tables_init mc img pl = Inr (g, [(ka, flags_new {WRITEABLE} {}), (ma, flags_new {WRITEABLE} {})], sa, flags_new {WRITEABLE, EXECUTABLE} {})
    \<and> table_addr_ok ka \<and> table_addr_ok ma \<and> table_addr_ok sa
    \<and> l3_ok (mc_api mc) (mc_features mc) (lpa_alloc (kernel_pt g)) \<and> meta_offset (lpa_meta (kernel_pt g)) = KERNEL_PTABLE_VADDR \<and> active_count (kernel_pt g) > 0
    \<and> l3_occ (mc_api mc) (mc_features mc) (lpa_alloc (kernel_pt g)) = kept_bytes img True
    \<and> (\<forall>v. table_translate mc (kernel_pt g) v = (if v \<in> (+) KERNEL_PTABLE_VADDR ` kept_bytes img True then Some (v - KERNEL_PTABLE_VADDR) else None))
    \<and> (\<forall>v. table_translate mc (static_pt g) v = (if v \<in> (+) higher_half_offset ` kept_bytes img False then Some (v - higher_half_offset) else None))"
proof -
  have b: "box_ok (kernel_place pl)" "box_ok (mmio_place pl)" "box_ok (static_place pl)" using pl by (simp_all add: places_ok_def)
  obtain t where t: "KERNEL_PTABLE mc img (kernel_place pl) = Inr t" "l3_ok (mc_api mc) (mc_features mc) (lpa_alloc t)" "meta_offset (lpa_meta t) = KERNEL_PTABLE_VADDR" "active_count t = 0"
    "l3_occ (mc_api mc) (mc_features mc) (lpa_alloc t) = kept_bytes img True"
    "\<forall>v. table_translate mc t v = (if v \<in> (+) KERNEL_PTABLE_VADDR ` kept_bytes img True then Some (v - KERNEL_PTABLE_VADDR) else None)"
    using KERNEL_PTABLE_ok[OF mc b(1) img] by (elim exE conjE) (rule that)
  obtain s where s: "KERNEL_STATIC_PT mc img (static_place pl) = Inr s" "l3_ok (mc_api mc) (mc_features mc) (lpa_alloc s)"
    "\<forall>v. table_translate mc s v = (if v \<in> (+) higher_half_offset ` kept_bytes img False then Some (v - higher_half_offset) else None)"
    using KERNEL_STATIC_PT_ok[OF mc b(3) img fit] by (elim exE conjE) (rule that)
  let ?m = "MMIO_PTABLE mc (mmio_place pl)"
  have "pte_crate (mc_api mc)" using mc by (simp add: machine_ok_def)
  then have m: "l3_ok (mc_api mc) (mc_features mc) (lpa_alloc ?m)" using pte_crate.table_fresh_law new_table(1)[OF mc b(2)] unfolding MMIO_PTABLE_def by blast
  obtain ka ma sa where x: "table_physaddr mc t = Inr (begin_active t, ka)" "table_addr_ok ka" "table_physaddr mc ?m = Inr (begin_active ?m, ma)" "table_addr_ok ma"
    "table_physaddr mc s = Inr (begin_active s, sa)" "table_addr_ok sa" using table_physaddr_ok[OF mc t(2)] table_physaddr_ok[OF mc m] table_physaddr_ok[OF mc s(2)] by blast
  let ?g = "\<lparr>kernel_pt = begin_active t, mmio_pt = begin_active ?m, static_pt = begin_active s\<rparr>"
  have run: "global_tables_init mc img pl = Inr (?g, [(ka, flags_new {WRITEABLE} {}), (ma, flags_new {WRITEABLE} {})], sa, flags_new {WRITEABLE, EXECUTABLE} {})"
    using t(1) s(1) x by (simp add: global_tables_init_def)
  have "l3_ok (mc_api mc) (mc_features mc) (lpa_alloc (kernel_pt ?g))" "meta_offset (lpa_meta (kernel_pt ?g)) = KERNEL_PTABLE_VADDR" "active_count (kernel_pt ?g) > 0"
    "l3_occ (mc_api mc) (mc_features mc) (lpa_alloc (kernel_pt ?g)) = kept_bytes img True" using t(2-5) by (simp_all add: begin_active_def)
  then show ?thesis using run x(2,4,6) t(6) s(3)
    by (intro exI[of _ ?g]) (simp only: prod.inject sum.inject simp_thms list.inject global_tables.simps table_translate_active ex_simps, blast)
qed

section \<open>What the boot establishes\<close>

lemma usable_offer:
  assumes "usable_count (offers kend es) x \<noteq> 0" and "map_ok es"
  shows "kend \<le> x" and "x < bsz MAX_ORDER"
proof -
  obtain s e where u: "(s, e) \<in> set (offers kend es)" "usable s e x" using assms(1) by (auto simp: usable_count_def filter_empty_conv)
  have "x div bsz 1 * bsz 1 \<le> x" "x < bsz 1 + x div bsz 1 * bsz 1" using dividend_less_div_times[OF bsz_pos] by simp_all
  then have "s \<le> x" "x < e" using u(2) unfolding usable_def by linarith+
  moreover have "kend \<le> s" "e \<le> bsz MAX_ORDER" using u(1) assms(2) by (auto simp: offers_def offer_def map_ok_def less_imp_le split: if_splits)
  ultimately show "kend \<le> x" "x < bsz MAX_ORDER" by simp_all
qed

lemma boot_pmem_ok:
  assumes "map_ok mmap" and "\<And>x. range_count (offers kend mmap) x \<le> 1" and "total_use mmap < usize_limit" and "0 < kend"
  shows "\<exists>ph n m. init_pmem kend mmap empty_buddy = Inr (ph, n, m) \<and> buddy_inv ph {#} \<and> low_cover (free_mset ph)
    \<and> (\<forall>x. cover (free_mset ph) x = usable_count (offers kend mmap) x)"
proof -
  have e: "free_mset empty_buddy = {#}" by simp
  obtain ph N where a: "init_entries kend mmap empty_buddy 0 = Inr (ph, 0 + total_use mmap)" "buddy_inv ph {#}" "free_mset ph = free_mset empty_buddy + N"
      "\<forall>x. cover N x = usable_count (offers kend mmap) x" "amount_free ph = amount_free empty_buddy + bytes N"
    using init_entries_ok[OF buddy_inv_empty assms(1), of kend 0] assms(2,3) e by auto
  have "low_cover (free_mset ph)" using a(3,4) usable_offer[OF _ assms(1)] assms(4) e by (fastforce simp: low_cover_def)
  moreover have "init_pmem kend mmap empty_buddy = Inr (ph, total_use mmap, bytes N)" using a(1,5) by (simp add: init_pmem_def usub_def)
  ultimately show ?thesis using a(2-4) e by auto
qed

lemma boot_memory_ok:
  assumes mc: "machine_ok mc" and pl: "places_ok pl" and img: "image_ok img" and fit: "kernel_phys_start img + image_size img \<le> 0x80000000"
    and mm: "map_ok mmap" "\<And>x. range_count (offers (kernel_phys_end img) mmap) x \<le> 1" "total_use mmap < usize_limit" and i: "0 < i" "i < 2 ^ 63"
  shows "\<exists>ph g ctx. boot_memory mc img pl i (Some mmap) empty_buddy = Inr (ph, g, ctx)
    \<and> (\<forall>w. phys w = ph \<longrightarrow> kernel_table w = kernel_pt g \<longrightarrow> world_ok mc {#} w)
    \<and> (\<forall>x. cover (free_mset ph) x = usable_count (offers (kernel_phys_end img) mmap) x) \<and> (\<forall>x. cover (free_mset ph) x \<noteq> 0 \<longrightarrow> kernel_phys_end img \<le> x)
    \<and> (\<forall>v. table_translate mc (kernel_pt g) v = (if v \<in> (+) KERNEL_PTABLE_VADDR ` kept_bytes img True then Some (v - KERNEL_PTABLE_VADDR) else None))
    \<and> (\<forall>v. table_translate mc (static_pt g) v = (if v \<in> (+) higher_half_offset ` kept_bytes img False then Some (v - higher_half_offset) else None))
    \<and> top_ok (mc_api mc) (mc_features mc) (lpa_alloc ctx) \<and> top_occ (mc_api mc) (mc_features mc) (lpa_alloc ctx) = {0..<0x100000} \<union> {2 ^ 47..<2 ^ 47 + 2 ^ 40} \<union> {2 ^ 48 - 2 ^ 39..<2 ^ 48}
    \<and> (\<forall>x. x < 0x100000 \<longrightarrow> top_leaf (mc_api mc) (mc_features mc) (lpa_alloc ctx) x = None \<and> snd (top_view (mc_api mc) (mc_features mc) (lpa_alloc ctx) x) = Some i)"
proof -
  have c: "pte_crate (mc_api mc)" "virt_crate (mc_virt mc)" "boxes_ok (mc_boxes mc)" "box_ok (context_place pl)" using mc pl by (simp_all add: machine_ok_def places_ok_def)
  have "0 < kernel_phys_end img" using img by (simp add: image_ok_def)
  from boot_pmem_ok[OF mm this] obtain ph n m where ph: "init_pmem (kernel_phys_end img) mmap empty_buddy = Inr (ph, n, m)" "buddy_inv ph {#}" "low_cover (free_mset ph)"
    "\<forall>x. cover (free_mset ph) x = usable_count (offers (kernel_phys_end img) mmap) x" by (elim exE conjE) (rule that)
  obtain g ka ma sa where g: "global_tables_init mc img pl = Inr (g, [(ka, flags_new {WRITEABLE} {}), (ma, flags_new {WRITEABLE} {})], sa, flags_new {WRITEABLE, EXECUTABLE} {})"
    "table_addr_ok ka" "table_addr_ok ma" "table_addr_ok sa" "l3_ok (mc_api mc) (mc_features mc) (lpa_alloc (kernel_pt g))" "meta_offset (lpa_meta (kernel_pt g)) = KERNEL_PTABLE_VADDR"
    "\<forall>v. table_translate mc (kernel_pt g) v = (if v \<in> (+) KERNEL_PTABLE_VADDR ` kept_bytes img True then Some (v - KERNEL_PTABLE_VADDR) else None)"
    "\<forall>v. table_translate mc (static_pt g) v = (if v \<in> (+) higher_half_offset ` kept_bytes img False then Some (v - higher_half_offset) else None)"
    using global_tables_ok[OF mc pl img fit] by (elim exE conjE) (rule that)
  obtain ctx where ctx: "new_user_paging_context (mc_api mc) (mc_features mc) (mc_virt mc) (context_place pl) (mc_boxes mc)
       [(ka, flags_new {WRITEABLE} {}), (ma, flags_new {WRITEABLE} {})] (sa, flags_new {WRITEABLE, EXECUTABLE} {}) i = Inr ctx"
    "top_ok (mc_api mc) (mc_features mc) (lpa_alloc ctx)" "top_occ (mc_api mc) (mc_features mc) (lpa_alloc ctx) = {0..<0x100000} \<union> {2 ^ 47..<2 ^ 47 + 2 ^ 40} \<union> {2 ^ 48 - 2 ^ 39..<2 ^ 48}"
    "\<forall>x. x < 0x100000 \<longrightarrow> top_leaf (mc_api mc) (mc_features mc) (lpa_alloc ctx) x = None \<and> snd (top_view (mc_api mc) (mc_features mc) (lpa_alloc ctx) x) = Some i"
    using new_user_context_ok[OF c(1,2,4,3) g(2-4) i, of "mc_features mc" "flags_new {WRITEABLE} {}" "flags_new {WRITEABLE} {}" "flags_new {WRITEABLE, EXECUTABLE} {}"] by (elim exE conjE) (rule that)
  have "boot_memory mc img pl i (Some mmap) empty_buddy = Inr (ph, g, ctx)" using ph(1) g(1) ctx(1) by (simp add: boot_memory_def get_kernel_bounds_def unwrap_def)
  moreover have "world_ok mc {#} w" if "phys w = ph" "kernel_table w = kernel_pt g" for w :: "'b world"
    using that ph(2,3) g(5,6) by (simp add: world_ok_def kernel_ok_def)
  moreover have "kernel_phys_end img \<le> x" if "cover (free_mset ph) x \<noteq> 0" for x using usable_offer(1)[OF _ mm(1)] ph(4) that by metis
  ultimately show ?thesis using ph(4) g(7,8) ctx(2-4) by blast
qed

end
