(* ===== verification/Spec2Isabelle.thy ===== *)
theory Spec2Isabelle
  imports Physical_Init Guarded_Locks Descriptor_Table Scheduler Page_Mapping Promises Work_Queue Kernel_Heap Wait_Locks Vga_Console Local_Apic
    Keyboard Kernel_Log Cpu_Features Cpu_Local Processor_Start Boot
begin

text \<open>
  A verification development for COOKIE, the x86-64 kernel in \<open>src/kernel\<close>.  The current kernel is in \<open>rust/src\<close>; drivers and
  locks that were not moved there yet are in \<open>rust_old/src\<close>.  File names below are relative to these directories.

  \<^bold>\<open>The program.\<close>  The boot loader hands over a memory map (\<open>coredrivers/parser/multiboot.rs\<close>), which is fed to the physical allocator
  (\<open>memory/physical.rs\<close>).  Page tables (\<open>memory/paging\<close>) are managed by a first-fit allocator with one instance for each of the four levels;
  three global tables show the kernel's data, its devices and its image in every paging context.  Unified allocations (\<open>memory/unified.rs\<close>)
  join physical and virtual memory, and the heap (\<open>memory/kernel_heap.rs\<close>) grows through them.  Tasks are run by a scheduler on each CPU
  (\<open>multitasking\<close>); they are synchronised by spin locks, which may suspend interruptions, and by waiting lists, with promises, queues
  and sleeping locks on top of them (\<open>sync\<close>).  Descriptors (\<open>descriptors.rs\<close>) are reference-counted slots found by an id.

  \<^bold>\<open>Conventions.\<close>  A routine returns \<open>panic + 'a\<close>, so each panic, failed assertion, index out of range and arithmetic overflow of a
  build with debug assertions is the value \<open>Inl\<close> (\<open>Kernel_Prelude\<close>).  A method with a mutable receiver returns the updated record.  An
  atomic variable is a word of its width.  Code that runs concurrently is an inductive step relation, with one step for each atomic
  access or for each section under a lock; \<open>..._reach\<close> is what its runs reach.  Other crates are records of functions with a locale of their
  documented laws (\<open>pte_crate\<close>, \<open>virt_crate\<close>), and concrete instances satisfy these laws.  Log output is left out except where it is the subject.

  \<^bold>\<open>Physical memory.\<close>
  \<^item> \<open>Page_Values\<close>: the page-aligned sizes, offsets and addresses of \<open>memory/paging/api.rs\<close>.  One locale states the contract of the trait
    \<open>PageAlignedValue\<close>; the lemmas show which values each constructor makes or refuses, and the bounds of rounding.
  \<^item> \<open>Buddy_Allocator\<close>: \<open>BuddyAllocator\<close> is the record \<open>buddy\<close>, \<open>palloc\<close> and \<open>pmem_drop\<close> are \<open>palloc\<close> and the drop of a
    \<open>PhysicalMemoryAllocation\<close>.  Blocks are compared by the number of blocks that contain a byte, so an operation neither loses nor
    duplicates memory.  \<open>pmem_reach\<close> has every sequence of handing over ranges, requests and drops.
  \<^item> \<open>Multiboot\<close>: the scan over the tags and their contents, reading the bytes of memory, shown to invert the layout of the Multiboot2 specification.
  \<^item> \<open>Physical_Init\<close>: \<open>init_pmem\<close>, which composes the two.

  \<^bold>\<open>Page tables.\<close>
  \<^item> \<open>Page_Tables\<close>: page flags and \<open>X64PageTable\<close> of \<open>memory/paging/arch/x86_64.rs\<close>, with the contract \<open>page_table\<close>.
  \<^item> \<open>Page_Allocations\<close>: \<open>PartialPageAllocation\<close> and the bytes it stands for (\<open>memory/paging/sealed.rs\<close>).
  \<^item> \<open>First_Fit\<close>: \<open>MLFFAllocator\<close> (\<open>memory/paging/allocators/firstfit.rs\<close>), the strategies and the allocator without sub-tables.
    The dictionary of one level is built from the dictionary of the level below, as the generic types are.
  \<^item> \<open>First_Fit_Correct\<close>: the contract \<open>page_frame_allocator\<close>, and \<open>first_fit\<close>, which carries it from a level to the one above.
  \<^item> \<open>Page_Levels\<close>: the four levels of x86-64, and the refinement of an address space given as a list of disjoint ranges.
  \<^item> \<open>Page_Api\<close>: \<open>LockedPageAllocator\<close>, \<open>PageAllocation\<close>, the TLB flush and \<open>PagingContext\<close> of \<open>memory/paging/api.rs\<close>.
  \<^item> \<open>Page_Mapping\<close>, \<open>Page_Absent\<close>, \<open>Page_Split\<close>, \<open>Page_Unmap\<close>: the effect of \<open>set_base_addr\<close>, \<open>set_absent\<close>, \<open>split_allocation\<close>
    and of freeing an allocation on the translation of addresses.  Each extends the contract of the previous one by a law and proves it by the same
    induction over the levels.

  \<^bold>\<open>Uses of page tables.\<close>
  \<^item> \<open>Unified_Memory\<close>, \<open>Unified_Correct\<close>: the operations of \<open>memory/unified.rs\<close> with the code's panics, and what mapping a virtual
    allocation onto backing memory does.
  \<^item> \<open>Offset_Mapped\<close>: \<open>OffsetMappedAllocation\<close> keeps the invariant \<open>world_ok\<close>: the physical allocator and the kernel table are
    sound, and all physical memory lies where the kernel table can show it at the fixed distance.
  \<^item> \<open>Kernel_Heap\<close>: \<open>KernelHeap\<close> with its rescue memory; the heap of the crate is a parameter.
  \<^item> \<open>User_Context\<close>: \<open>memory/alloc_util.rs\<close>, \<open>memory/stack.rs\<close>, and the activity counter of page tables as a step relation of CPUs
    and writers.
  \<^item> \<open>Kernel_Image\<close>: the lazily made tables of \<open>memory/paging/global_pages.rs\<close>; \<open>kernel_image\<close> has the symbols of the linker script.
  \<^item> \<open>Boot\<close>: the memory set-up of \<open>_kstart\<close> (\<open>lib.rs\<close>).  The theorem at the end of this theory combines everything above: the
    set-up returns and establishes \<open>world_ok\<close>, on which the offset-mapped allocations and the heap rely.

  \<^bold>\<open>Tasks and synchronisation.\<close>
  \<^item> \<open>Base_Locks\<close>: the mutex and the readers-writer lock of \<open>sync/baselocks.rs\<close>.  The locale \<open>rw_word\<close> gives mutual exclusion for any
    layout of the lock word.
  \<^item> \<open>Interruptions\<close>, \<open>Guarded_Locks\<close>: \<open>multitasking/interruptions.rs\<close> and the locks that hold an interruption guard
    (\<open>sync/nointerruptionslocks.rs\<close>, \<open>sync/hspin.rs\<close>).
  \<^item> \<open>Descriptors\<close>, \<open>Descriptor_Table\<close>: the reference counts of one descriptor under interleaving, and the tree of tables.
  \<^item> \<open>Scheduler\<close>: tasks, run queues, sleepers and waiting lists; tasks are conserved and queues are fair.
  \<^item> \<open>Promises\<close>, \<open>Work_Queue\<close>: \<open>sync/promise.rs\<close> and \<open>sync/queue.rs\<close> deliver each value and lose no wake-up.
  \<^item> \<open>Wait_Locks\<close>: the sleeping locks of \<open>rust_old\<close>; the readers-writer lock refines the word of \<open>Base_Locks\<close>.
  \<^item> \<open>Cpu_Local\<close>: the vector of values for each CPU number (\<open>multitasking/cpulocal.rs\<close>).

  \<^bold>\<open>Processors and devices.\<close>
  \<^item> \<open>Cpu_Features\<close>: the feature checks of \<open>cpu/arch/x86_64/featureflags.rs\<close>.
  \<^item> \<open>Kernel_Log\<close>: \<open>logging.rs\<close>, \<open>multitasking/econtext.rs\<close> and the panic handler.
  \<^item> \<open>Local_Apic\<close>, \<open>Processor_Start\<close>: memory-mapped registers, the interrupt controllers, the interrupt handlers and the start of other
    processors (\<open>rust_old\<close>).
  \<^item> \<open>Vga_Console\<close>, \<open>Keyboard\<close>: the text console, which refines an endless roll of text, and the PS/2 keyboard (\<open>rust_old\<close>).

  \<^bold>\<open>Bounds and fuel.\<close>
  \<^item> The readers-writer lock counts its holders in one word, so mutual exclusion holds up to 255 threads: one more writer attempt could
    overflow the word.
  \<^item> Memory lies below 512 GiB, one order above the largest blocks that the buddy allocator has a list for;
    merging two of these panics.
  \<^item> The descriptor table creates tables while it descends; fuel greater than the size of the tree is enough, and this is proved.  Ids are
    64 bits wide and are not reused, so creation is specified while one is left.
  \<^item> The Multiboot scan is a partial function, and is shown to return on every well-formed block.  The panic handler has fuel for entering
    itself; two entries are always enough, whatever the fuel beyond that.
  \<^item> Loops that poll a device are given the values they read.  All other loops terminate by measure or by structure.

  \<^bold>\<open>Not modelled.\<close>
  \<^item> Assembly, and what only it can reach: context switches, the CPU locals behind the GS segment (\<open>fixedcpulocal.rs\<close>), the segment
    tables (\<open>gdt.rs\<close>) and the loading of control registers.  The number of the CPU is an argument where it matters.
  \<^item> Pure port input and output (\<open>uart_x86_64.rs\<close>), and the callbacks of the ACPI crate (\<open>acpi_tables.rs\<close>).
  \<^item> Parts of \<open>rust_old\<close> that call interfaces which are no longer in the tree; their successors are modelled.
  \<^item> Formatting, type aliases and guard types that only forward, the macro \<open>def_task_fn\<close>, and \<open>DynOffsetMappedStack\<close>, which nothing calls.
  \<^item> Weak memory: atomic accesses are sequentially consistent steps.  Locks are assumed around the sequential operations that the code
    performs under a write guard.
\<close>

section \<open>Memory after the boot\<close>

text \<open>C1: Given an image linked as the linker script says and a memory map whose general-use regions above the image do not
  overlap, the memory set-up of the boot returns.  The physical allocator then hands out exactly the whole blocks of those regions,
  none of which touches the image, the kernel's data and code are mapped where they are linked at and nowhere else, the kernel table
  and the physical allocator satisfy the invariant that the kernel heap and the offset-mapped allocations rely on, and in the
  first paging context exactly the first MiB and the slots of the global tables are in use, and every address of the first MiB is unmapped
  and carries the id of the null-guard entry, so an access through a null pointer faults.\<close>

theorem boot_establishes_memory:
  assumes "machine_ok mc" and "places_ok pl" and "image_ok img" and "kernel_phys_start img + image_size img \<le> 0x80000000"
    and "map_ok mmap" and "\<And>x. range_count (offers (kernel_phys_end img) mmap) x \<le> 1" and "total_use mmap < usize_limit" and "0 < i" and "i < 2 ^ 63"
  shows "\<exists>ph g ctx. boot_memory mc img pl i (Some mmap) empty_buddy = Inr (ph, g, ctx)
    \<and> (\<forall>w. phys w = ph \<longrightarrow> kernel_table w = kernel_pt g \<longrightarrow> world_ok mc {#} w)
    \<and> (\<forall>x. cover (free_mset ph) x = usable_count (offers (kernel_phys_end img) mmap) x) \<and> (\<forall>x. cover (free_mset ph) x \<noteq> 0 \<longrightarrow> kernel_phys_end img \<le> x)
    \<and> (\<forall>v. table_translate mc (kernel_pt g) v = (if v \<in> (+) KERNEL_PTABLE_VADDR ` kept_bytes img True then Some (v - KERNEL_PTABLE_VADDR) else None))
    \<and> (\<forall>v. table_translate mc (static_pt g) v = (if v \<in> (+) higher_half_offset ` kept_bytes img False then Some (v - higher_half_offset) else None))
    \<and> top_ok (mc_api mc) (mc_features mc) (lpa_alloc ctx) \<and> top_occ (mc_api mc) (mc_features mc) (lpa_alloc ctx) = {0..<0x100000} \<union> {2 ^ 47..<2 ^ 47 + 2 ^ 40} \<union> {2 ^ 48 - 2 ^ 39..<2 ^ 48}
    \<and> (\<forall>x. x < 0x100000 \<longrightarrow> top_leaf (mc_api mc) (mc_features mc) (lpa_alloc ctx) x = None \<and> snd (top_view (mc_api mc) (mc_features mc) (lpa_alloc ctx) x) = Some i)"
  by (rule boot_memory_ok[OF assms])

theorem boot_establishes_memory_witness:
  "\<exists>ph g ctx. boot_memory demo_machine demo_image \<lparr>kernel_place = KERNEL_PTABLE_VADDR, mmio_place = KERNEL_PTABLE_VADDR, static_place = KERNEL_PTABLE_VADDR,
       context_place = KERNEL_PTABLE_VADDR\<rparr> 1 (Some demo_mmap) empty_buddy = Inr (ph, g, ctx)
    \<and> world_ok demo_machine {#} ((demo_world ph ())\<lparr>kernel_table := kernel_pt g\<rparr>) \<and> cover (free_mset ph) 0xA00000 = 1 \<and> cover (free_mset ph) 0x900000 = 0"
proof -
  let ?pl = "\<lparr>kernel_place = KERNEL_PTABLE_VADDR, mmio_place = KERNEL_PTABLE_VADDR, static_place = KERNEL_PTABLE_VADDR, context_place = KERNEL_PTABLE_VADDR\<rparr>"
  have pl: "places_ok ?pl" using demo_box(1) by (simp add: places_ok_def)
  have kend: "kernel_phys_end demo_image = 0x900123" "kernel_phys_start demo_image + image_size demo_image \<le> 0x80000000"
    by (simp_all add: demo_image_ok(2)) (simp_all add: demo_image_def)
  have facts: "map_ok demo_mmap" "offers 0x900123 demo_mmap = [(0x900123, 68157440)]" "total_use demo_mmap < usize_limit"
    by (simp_all add: demo_mmap_def bsz_MAX_ORDER offer_def is_for_general_use_def usize_limit_def)
  have "range_count (offers (kernel_phys_end demo_image) demo_mmap) x \<le> 1" for x unfolding kend(1) facts(2) by simp
  from boot_establishes_memory[OF demo_machine_ok pl demo_image_ok(1) kend(2) facts(1) this facts(3), of 1] obtain ph g ctx where
    b: "boot_memory demo_machine demo_image ?pl 1 (Some demo_mmap) empty_buddy = Inr (ph, g, ctx)"
    "\<forall>w :: unit world. phys w = ph \<longrightarrow> kernel_table w = kernel_pt g \<longrightarrow> world_ok demo_machine {#} w"
    "\<forall>x. cover (free_mset ph) x = usable_count (offers 0x900123 demo_mmap) x" unfolding kend(1) by auto
  have "cover (free_mset ph) 0xA00000 = 1" "cover (free_mset ph) 0x900000 = 0" using b(3) unfolding facts(2) by (simp_all add: usable_def bsz_def PAGE_ALIGN_def)
  then show ?thesis using b(1,2) by (intro exI[of _ ph] exI[of _ g] exI[of _ ctx]) (simp add: demo_world_def)
qed

end
